(* ===== verification/Prelude.thy ===== *)
theory Prelude
  imports Main "HOL-Library.Word"
begin

text \<open>
  Shared vocabulary of the development.

  \<^item> The C integer types of \<^verbatim>\<open>sys/include/types.h\<close> as words of their width.
  \<^item> Failures as values: \<open>Assert_Failed\<close> is a call of the \<open>assert\<close> macro of
    \<^verbatim>\<open>sys/include/lib/assert.h\<close> with a false condition (the kernel prints a message and halts
    every core for ever, so the operation never returns), \<open>Out_Of_Bounds\<close> is an access of a C
    array outside its bounds, \<open>Null_Deref\<close> an access through a null pointer, \<open>Div_By_Zero\<close> a division
    by zero. \<open>bindE\<close> sequences operations that may fail.
  \<^item> Generic lemmas on naturals, lists and words that the components share, most of them
    collected in \<open>word_nat\<close>, \<open>bit_facts\<close> and \<open>res_simps\<close>.
\<close>

unbundle bit_operations_syntax

named_theorems word_nat \<open>reading word operations as operations on naturals\<close>
named_theorems bit_facts \<open>single bits of machine words\<close>
named_theorems res_simps \<open>results and their sequencing\<close>

subsection \<open>Machine types\<close>

type_synonym uint8_t = "8 word"
type_synonym uint16_t = "16 word"
type_synonym uint32_t = "32 word"
type_synonym uint64_t = "64 word"
type_synonym size_t = "64 word"
type_synonym addr = "64 word"

subsection \<open>Failures as values\<close>

datatype fault = Assert_Failed | Out_Of_Bounds | Null_Deref | Div_By_Zero

type_synonym 'a res = "fault + 'a"

definition bindE :: "'a res \<Rightarrow> ('a \<Rightarrow> 'b res) \<Rightarrow> 'b res" where
  "bindE r f = (case r of Inl e \<Rightarrow> Inl e | Inr x \<Rightarrow> f x)"

definition assertE :: "bool \<Rightarrow> unit res" where
  "assertE c = (if c then Inr () else Inl Assert_Failed)"

definition array_get :: "'a list \<Rightarrow> int \<Rightarrow> 'a res" where
  "array_get xs i = (if 0 \<le> i \<and> i < int (length xs) then Inr (xs ! nat i) else Inl Out_Of_Bounds)"

definition array_set :: "'a list \<Rightarrow> int \<Rightarrow> 'a \<Rightarrow> 'a list res" where
  "array_set xs i v =
     (if 0 \<le> i \<and> i < int (length xs) then Inr (xs[nat i := v]) else Inl Out_Of_Bounds)"

lemma bindE_Inr [simp, res_simps]: "bindE (Inr x) f = f x"
  by (simp add: bindE_def)

lemma bindE_Inl [simp, res_simps]: "bindE (Inl e) f = Inl e"
  by (simp add: bindE_def)

lemma bindE_eq_Inr: "bindE r f = Inr y \<longleftrightarrow> (\<exists>x. r = Inr x \<and> f x = Inr y)"
  by (cases r) auto

lemma assertE_True [simp, res_simps]: "c \<Longrightarrow> assertE c = Inr ()"
  by (simp add: assertE_def)

lemma assertE_False [res_simps]: "\<not> c \<Longrightarrow> assertE c = Inl Assert_Failed"
  by (simp add: assertE_def)

lemma array_get_nat [simp, res_simps]: "i < length xs \<Longrightarrow> array_get xs (int i) = Inr (xs ! i)"
  by (simp add: array_get_def)

lemma array_set_nat [simp, res_simps]:
  "i < length xs \<Longrightarrow> array_set xs (int i) v = Inr (xs[i := v])"
  by (simp add: array_set_def)

subsection \<open>Counting loops\<close>

text \<open>The counter of a loop that runs while it is below a bound does not wrap.\<close>

lemma unat_Suc_less [word_nat]:
  fixes i n :: "'a::len word"
  assumes "i < n"
  shows "unat (i + 1) = Suc (unat i)"
proof -
  have "unat i < unat n" using assms by (simp add: word_less_nat_alt)
  moreover have "unat n < 2 ^ LENGTH('a)" by (rule unsigned_less)
  ultimately have "Suc (unat i) < 2 ^ LENGTH('a)" by linarith
  then show ?thesis by (simp add: unat_word_ariths)
qed

lemma count_up_less [termination_simp]:
  fixes i n :: "'a::len word"
  assumes "i < n"
  shows "unat n - unat (i + 1) < unat n - unat i"
proof -
  have "unat i < unat n" using assms by (simp add: word_less_nat_alt)
  with unat_Suc_less [OF assms] show ?thesis by simp
qed

end
