(* ===== verification/Memory.thy ===== *)
theory Memory
  imports Prelude
begin

text \<open>
  The kernel's byte-addressed memory and little-endian accesses of 2, 4 and 8 bytes.

  All kernel objects that are reached through raw pointers (heap blocks, page tables, strings)
  live in one \<open>memory\<close>, a function from 64-bit addresses to bytes; address arithmetic wraps as
  \<open>uintptr_t\<close> arithmetic does. The lemmas say what a load returns after a store: the stored
  value at the same address (\<open>load_store_same\<close>), the old value at a disjoint range
  (\<open>load_store_other\<close>).
\<close>

type_synonym memory = "addr \<Rightarrow> uint8_t"

subsection \<open>Little-endian loads and stores\<close>

primrec load_le :: "nat \<Rightarrow> memory \<Rightarrow> addr \<Rightarrow> 'a::len word" where
  "load_le 0 m a = 0"
| "load_le (Suc n) m a = ucast (m a) OR push_bit 8 (load_le n m (a + 1))"

primrec store_le :: "nat \<Rightarrow> memory \<Rightarrow> addr \<Rightarrow> 'a::len word \<Rightarrow> memory" where
  "store_le 0 m a v = m"
| "store_le (Suc n) m a v = (store_le n m (a + 1) (drop_bit 8 v))(a := ucast v)"

definition load16 :: "memory \<Rightarrow> addr \<Rightarrow> uint16_t" where
  "load16 m a = load_le 2 m a"

definition load32 :: "memory \<Rightarrow> addr \<Rightarrow> uint32_t" where
  "load32 m a = load_le 4 m a"

definition load64 :: "memory \<Rightarrow> addr \<Rightarrow> uint64_t" where
  "load64 m a = load_le 8 m a"

definition store32 :: "memory \<Rightarrow> addr \<Rightarrow> uint32_t \<Rightarrow> memory" where
  "store32 m a v = store_le 4 m a v"

definition store64 :: "memory \<Rightarrow> addr \<Rightarrow> uint64_t \<Rightarrow> memory" where
  "store64 m a v = store_le 8 m a v"

text \<open>The bytes \<open>a, a + 1, \<dots>\<close> of a range, modulo the size of the address space.\<close>

definition span :: "addr \<Rightarrow> nat \<Rightarrow> addr set" where
  "span a n = {a + of_nat i |i. i < n}"

subsection \<open>Ranges\<close>

lemma span_0 [simp]: "span a 0 = {}"
  by (simp add: span_def)

lemma span_Suc: "span a (Suc n) = insert a (span (a + 1) n)"
proof (intro set_eqI iffI)
  fix x
  assume "x \<in> span a (Suc n)"
  then obtain i where i: "i < Suc n" and x: "x = a + of_nat i"
    by (auto simp: span_def)
  show "x \<in> insert a (span (a + 1) n)"
  proof (cases i)
    case 0
    with x show ?thesis by simp
  next
    case (Suc j)
    with i x have "j < n" and "x = a + 1 + of_nat j" by simp_all
    then show ?thesis by (auto simp: span_def)
  qed
next
  fix x
  assume "x \<in> insert a (span (a + 1) n)"
  then consider "x = a" | j where "j < n" "x = a + 1 + of_nat j"
    by (auto simp: span_def)
  then show "x \<in> span a (Suc n)"
  proof cases
    case 1
    then have "x = a + of_nat 0" by simp
    then show ?thesis unfolding span_def by blast
  next
    case (2 j)
    then have "Suc j < Suc n" and "x = a + of_nat (Suc j)" by (simp_all add: algebra_simps)
    then show ?thesis unfolding span_def by blast
  qed
qed

lemma of_nat_addr_eq_iff:
  "x < 2 ^ 64 \<Longrightarrow> y < 2 ^ 64 \<Longrightarrow> (of_nat x :: addr) = of_nat y \<longleftrightarrow> x = y"
  by (simp add: word_of_nat_eq_iff take_bit_nat_eq_self)

text \<open>A range that does not wrap is the image of an interval of naturals.\<close>

lemma span_of_nat: "span (of_nat a) n = of_nat ` {a..<a + n}"
proof -
  have "span (of_nat a) n = (\<lambda>i. of_nat (a + i)) ` {0..<n}"
    by (auto simp: span_def)
  also have "\<dots> = of_nat ` ((+) a ` {0..<n})"
    by (simp only: image_image)
  finally show ?thesis by (simp add: add.commute)
qed

lemma of_nat_notin_span:
  assumes "x < a \<or> a + n \<le> x" and "x < 2 ^ 64" and "a + n \<le> 2 ^ 64"
  shows "(of_nat x :: addr) \<notin> span (of_nat a) n"
proof
  assume "(of_nat x :: addr) \<in> span (of_nat a) n"
  then obtain y where y: "a \<le> y" "y < a + n" and eq: "(of_nat x :: addr) = of_nat y"
    by (auto simp: span_of_nat)
  from y assms(3) have "y < 2 ^ 64" by linarith
  with eq assms(2) have "x = y" by (simp add: of_nat_addr_eq_iff)
  with y assms(1) show False by auto
qed

lemma span_disjoint_nat:
  assumes "a + n \<le> b \<or> b + k \<le> a" and "a + n \<le> 2 ^ 64" and "b + k \<le> 2 ^ 64"
  shows "span (of_nat a) n \<inter> span (of_nat b) k = {}"
proof -
  have "(of_nat x :: addr) \<notin> span (of_nat b) k" if "a \<le> x" "x < a + n" for x
    by (rule of_nat_notin_span) (use assms that in auto)
  then show ?thesis by (auto simp: span_of_nat [of a])
qed

subsection \<open>What a load returns after a store\<close>

lemma store_le_notin: "x \<notin> span a n \<Longrightarrow> store_le n m a v x = m x"
  by (induction n arbitrary: a v) (auto simp: span_Suc)

lemma load_le_cong: "(\<And>x. x \<in> span a n \<Longrightarrow> m x = m' x) \<Longrightarrow> load_le n m a = load_le n m' a"
  by (induction n arbitrary: a) (auto simp: span_Suc)

lemma notin_span_next: "n < 2 ^ 64 \<Longrightarrow> a \<notin> span (a + 1) n"
proof
  assume n: "n < 2 ^ 64" and "a \<in> span (a + 1) n"
  then obtain i where i: "i < n" and "a = a + 1 + of_nat i" by (auto simp: span_def)
  then have "(of_nat (Suc i) :: addr) = of_nat 0" by (simp add: algebra_simps)
  moreover have "Suc i < 2 ^ 64" using i n by linarith
  ultimately show False using of_nat_addr_eq_iff [of "Suc i" 0] by simp
qed

lemma load_store_same: "n < 2 ^ 64 \<Longrightarrow> load_le n (store_le n m a v) a = take_bit (8 * n) v"
proof (induction n arbitrary: a v)
  case 0
  then show ?case by simp
next
  case (Suc n)
  let ?m = "store_le n m (a + 1) (drop_bit 8 v)"
  have "load_le n (?m(a := ucast v)) (a + 1) = (load_le n ?m (a + 1) :: 'a word)"
    by (rule load_le_cong) (use notin_span_next [of n a] Suc.prems in auto)
  also have "\<dots> = take_bit (8 * n) (drop_bit 8 v)"
    by (rule Suc.IH) (use Suc.prems in simp)
  finally have tail: "load_le n (?m(a := ucast v)) (a + 1) = take_bit (8 * n) (drop_bit 8 v)" .
  have "load_le (Suc n) (store_le (Suc n) m a v) a =
      (ucast (ucast v :: uint8_t) OR push_bit 8 (take_bit (8 * n) (drop_bit 8 v)))"
    using tail by simp
  also have "\<dots> = take_bit (8 * Suc n) v"
    by (rule bit_word_eqI) (auto simp: bit_simps)
  finally show ?case .
qed

lemma load_store_other: "span a n \<inter> span b k = {} \<Longrightarrow> load_le n (store_le k m b v) a = load_le n m a"
  by (rule load_le_cong) (simp add: disjoint_iff store_le_notin)

lemma load64_store64_same [simp]: "load64 (store64 m a v) a = v"
  by (simp add: load64_def store64_def load_store_same take_bit_word_eq_self)

lemma load32_store32_same [simp]: "load32 (store32 m a v) a = v"
  by (simp add: load32_def store32_def load_store_same take_bit_word_eq_self)

lemma load64_store64_other: "span a 8 \<inter> span b 8 = {} \<Longrightarrow> load64 (store64 m b v) a = load64 m a"
  by (simp add: load64_def store64_def load_store_other)

lemma load64_cong: "(\<And>x. x \<in> span a 8 \<Longrightarrow> m x = m' x) \<Longrightarrow> load64 m a = load64 m' a"
  unfolding load64_def by (rule load_le_cong)

lemma load16_cong: "(\<And>x. x \<in> span a 2 \<Longrightarrow> m' x = m x) \<Longrightarrow> load16 m' a = load16 m a"
  unfolding load16_def by (rule load_le_cong)

lemma store64_notin: "x \<notin> span a 8 \<Longrightarrow> store64 m a v x = m x"
  by (simp add: store64_def store_le_notin)

text \<open>The same facts on addresses that are naturals below \<open>2 ^ 64\<close>.\<close>

lemma load64_store64_nat:
  assumes "x + 8 \<le> y \<or> y + 8 \<le> x" and "x + 8 \<le> 2 ^ 64" and "y + 8 \<le> 2 ^ 64"
  shows "load64 (store64 m (of_nat y) v) (of_nat x) = load64 m (of_nat x)"
  by (rule load64_store64_other, rule span_disjoint_nat) (use assms in auto)

lemma store64_nat_notin:
  assumes "x < y \<or> y + 8 \<le> x" and "x < 2 ^ 64" and "y + 8 \<le> 2 ^ 64"
  shows "store64 m (of_nat y) v (of_nat x) = m (of_nat x)"
  by (rule store64_notin, rule of_nat_notin_span) (use assms in auto)

text \<open>Small loads byte by byte.\<close>

lemma load64_two:
  assumes "m (a + 2) = 0" and "m (a + 3) = 0" and "m (a + 4) = 0" and "m (a + 5) = 0" and "m (a + 6) = 0" and "m (a + 7) = 0"
  shows "load64 m a = ucast (m a) OR push_bit 8 (ucast (m (a + 1)))"
proof -
  have "load_le 8 m a = (load_le (Suc (Suc (Suc (Suc (Suc (Suc (Suc (Suc 0)))))))) m a :: uint64_t)" by (simp add: numeral_eq_Suc)
  then show ?thesis using assms unfolding load64_def load_le.simps by (simp add: add.assoc)
qed

lemma load_small:
  "load32 m a = ucast (m a) OR push_bit 8 (ucast (m (a + 1)) OR push_bit 8 (ucast (m (a + 2)) OR push_bit 8 (ucast (m (a + 3)))))"
  "load16 m a = ucast (m a) OR push_bit 8 (ucast (m (a + 1)))"
proof -
  have "load_le 4 m a = (load_le (Suc (Suc (Suc (Suc 0)))) m a :: uint32_t)" "load_le 2 m a = (load_le (Suc (Suc 0)) m a :: uint16_t)"
    by (simp_all add: numeral_eq_Suc)
  then show "load32 m a = ucast (m a) OR push_bit 8 (ucast (m (a + 1)) OR push_bit 8 (ucast (m (a + 2)) OR push_bit 8 (ucast (m (a + 3)))))"
    "load16 m a = ucast (m a) OR push_bit 8 (ucast (m (a + 1)))"
    unfolding load32_def load16_def load_le.simps by (simp_all add: add.assoc)
qed

end
