(* ===== verification/Libkern.thy ===== *)
theory Libkern
  imports Memory
begin

text \<open>
  The memory and string routines of \<^verbatim>\<open>sys/libkern/string.c\<close> on byte memory: \<open>memzero\<close>,
  \<open>memset\<close>, \<open>memcpy\<close>, \<open>memcmp\<close>, \<open>strlen\<close>, \<open>strcmp\<close>. A counting loop is a fold or a
  recursion over its index; \<open>strlen\<close>, which runs until it meets a zero byte, is a partial
  function whose result is \<open>None\<close> where it would never stop.
\<close>

subsection \<open>Block operations on memory\<close>

definition memset :: "memory \<Rightarrow> addr \<Rightarrow> uint8_t \<Rightarrow> size_t \<Rightarrow> memory" where
  "memset m ptr byte n = fold (\<lambda>i m. m(ptr + of_nat i := byte)) [0..<unat n] m"

definition memzero :: "memory \<Rightarrow> addr \<Rightarrow> size_t \<Rightarrow> memory" where
  "memzero m ptr n = fold (\<lambda>i m. m(ptr + of_nat i := 0)) [0..<unat n] m"

definition memcpy :: "memory \<Rightarrow> addr \<Rightarrow> addr \<Rightarrow> size_t \<Rightarrow> memory" where
  "memcpy m dst src n = fold (\<lambda>i m. m(dst + of_nat i := m (src + of_nat i))) [0..<unat n] m"

function memcmp_from :: "memory \<Rightarrow> addr \<Rightarrow> addr \<Rightarrow> nat \<Rightarrow> nat \<Rightarrow> uint8_t" where
  "memcmp_from m str1 str2 i n =
     (if i < n
      then if m (str1 + of_nat i) \<noteq> m (str2 + of_nat i) then 1
           else memcmp_from m str1 str2 (Suc i) n
      else 0)"
  by pat_completeness auto
termination
  by (relation "measure (\<lambda>(m, str1, str2, i, n). n - i)") auto

declare memcmp_from.simps [simp del]

definition memcmp :: "memory \<Rightarrow> addr \<Rightarrow> addr \<Rightarrow> size_t \<Rightarrow> uint8_t" where
  "memcmp m str1 str2 n = memcmp_from m str1 str2 0 (unat n)"

subsection \<open>Strings\<close>

partial_function (option) strlen_from :: "memory \<Rightarrow> addr \<Rightarrow> size_t \<Rightarrow> size_t option" where
  "strlen_from m str slen =
     (if m (str + slen) \<noteq> 0 then strlen_from m str (slen + 1) else Some (slen + 1))"

definition strlen :: "memory \<Rightarrow> addr \<Rightarrow> size_t option" where
  "strlen m str = map_option (\<lambda>slen. slen - 1) (strlen_from m str 0)"

definition strcmp :: "memory \<Rightarrow> addr \<Rightarrow> addr \<Rightarrow> uint8_t option" where
  "strcmp m str1 str2 =
     (case strlen m str1 of None \<Rightarrow> None | Some n1 \<Rightarrow>
      case strlen m str2 of None \<Rightarrow> None | Some n2 \<Rightarrow>
        (let str1_len = (ucast n1 :: uint32_t);
             str2_len = (ucast n2 :: uint32_t)
         in if str1_len \<noteq> str2_len then Some 1
            else Some (memcmp_from m str1 str2 0 (unat str1_len))))"

text \<open>The bytes of a range, and the C string stored at an address.\<close>

definition bytes_at :: "memory \<Rightarrow> addr \<Rightarrow> nat \<Rightarrow> uint8_t list" where
  "bytes_at m a n = map (\<lambda>i. m (a + of_nat i)) [0..<n]"

definition cstring_at :: "memory \<Rightarrow> addr \<Rightarrow> uint8_t list \<Rightarrow> bool" where
  "cstring_at m a xs \<longleftrightarrow>
     bytes_at m a (length xs) = xs \<and> 0 \<notin> set xs \<and> m (a + of_nat (length xs)) = 0 \<and> length xs < 2 ^ 64"

subsection \<open>Correctness\<close>

lemma fold_store_outside:
  "(\<And>i. i < n \<Longrightarrow> x \<noteq> dst + of_nat i) \<Longrightarrow>
   fold (\<lambda>i m. m(dst + of_nat i := f i m)) [0..<n] m x = m x"
  by (induction n) auto

lemma inj_offset: "i < 2 ^ 64 \<Longrightarrow> j < 2 ^ 64 \<Longrightarrow> (a :: addr) + of_nat i = a + of_nat j \<longleftrightarrow> i = j"
  by (simp add: of_nat_addr_eq_iff)

lemma fold_store_inside:
  fixes dst :: addr
  assumes "i < n" and "n \<le> 2 ^ 64"
  shows "fold (\<lambda>i m. m(dst + of_nat i := v i)) [0..<n] m (dst + of_nat i) = v i"
  using assms
proof (induction n)
  case (Suc n)
  show ?case
  proof (cases "i = n")
    case False
    with Suc.prems have lt: "i < n" by simp
    have "dst + of_nat i \<noteq> dst + of_nat n" using lt Suc.prems inj_offset [of i n dst] by simp
    with lt Suc show ?thesis by simp
  qed simp
qed simp

lemma unat_less_64: "unat (n :: size_t) < 2 ^ 64"
  using unsigned_less [of n, where ?'a = nat] by simp

lemma memset_inside: "i < unat n \<Longrightarrow> memset m ptr byte n (ptr + of_nat i) = byte"
  unfolding memset_def by (rule fold_store_inside) (use unat_less_64 [of n] in auto)

lemma memset_outside: "x \<notin> span ptr (unat n) \<Longrightarrow> memset m ptr byte n x = m x"
  unfolding memset_def by (rule fold_store_outside) (auto simp: span_def)

lemma memzero_memset: "memzero m ptr n = memset m ptr 0 n"
  by (simp add: memzero_def memset_def)

lemma memcpy_outside: "x \<notin> span dst (unat n) \<Longrightarrow> memcpy m dst src n x = m x"
  unfolding memcpy_def by (rule fold_store_outside) (auto simp: span_def)

text \<open>A copy between ranges that do not overlap.\<close>

lemma memcpy_inside:
  assumes "span dst (unat n) \<inter> span src (unat n) = {}" and "i < unat n"
  shows "memcpy m dst src n (dst + of_nat i) = m (src + of_nat i)"
proof -
  have "fold (\<lambda>i m. m(dst + of_nat i := m (src + of_nat i))) [0..<k] m =
      fold (\<lambda>i m'. m'(dst + of_nat i := m (src + of_nat i))) [0..<k] m" if "k \<le> unat n" for k
    using that
  proof (induction k)
    case (Suc k)
    have "fold (\<lambda>i m'. m'(dst + of_nat i := m (src + of_nat i))) [0..<k] m (src + of_nat k) = m (src + of_nat k)"
    proof (rule fold_store_outside)
      fix j assume "j < k"
      with Suc.prems have "dst + of_nat j \<in> span dst (unat n)" and "src + of_nat k \<in> span src (unat n)"
        by (auto simp: span_def)
      with assms(1) show "src + of_nat k \<noteq> dst + of_nat j" by auto
    qed
    with Suc show ?case
      by (simp only: upt_Suc zero_le if_True fold_append fold_simps comp_apply Suc_leD)
  qed simp
  then show ?thesis
    unfolding memcpy_def using fold_store_inside [OF assms(2), of dst "\<lambda>i. m (src + of_nat i)"] unat_less_64 [of n]
    by simp
qed

lemma memcmp_from_eq:
  "memcmp_from m a b i n = (if \<forall>j. i \<le> j \<and> j < n \<longrightarrow> m (a + of_nat j) = m (b + of_nat j) then 0 else 1)"
proof (induction m a b i n rule: memcmp_from.induct)
  case (1 m a b i n)
  have split: "(\<forall>j. i \<le> j \<and> j < n \<longrightarrow> P j) \<longleftrightarrow> P i \<and> (\<forall>j. Suc i \<le> j \<and> j < n \<longrightarrow> P j)" if "i < n" for P
    using that by (metis Suc_leD Suc_leI le_eq_less_or_eq)
  show ?case
  proof (cases "i < n \<and> m (a + of_nat i) = m (b + of_nat i)")
    case True
    with "1.IH" show ?thesis
      by (subst memcmp_from.simps) (simp add: split)
  next
    case False
    then show ?thesis by (subst memcmp_from.simps) auto
  qed
qed

lemma memcmp_eq_0: "memcmp m a b n = 0 \<longleftrightarrow> bytes_at m a (unat n) = bytes_at m b (unat n)"
  by (auto simp: memcmp_def memcmp_from_eq bytes_at_def)

text \<open>\<open>strlen\<close> returns the length of the string stored at its argument.\<close>

lemma strlen_from_step:
  assumes "\<And>j. i \<le> j \<Longrightarrow> j < k \<Longrightarrow> m (a + of_nat j) \<noteq> 0" and "m (a + of_nat k) = 0" and "i \<le> k"
  shows "strlen_from m a (of_nat i) = Some (of_nat k + 1)"
  using assms
proof (induction "k - i" arbitrary: i)
  case 0
  then show ?case by (simp add: strlen_from.simps)
next
  case (Suc d)
  then have "m (a + of_nat i) \<noteq> 0" by simp
  moreover have "strlen_from m a (of_nat (Suc i)) = Some (of_nat k + 1)"
    using Suc by (intro Suc.hyps) auto
  ultimately show ?case by (subst strlen_from.simps) (simp add: add.commute)
qed

lemma cstring_at_nth: "cstring_at m a xs \<Longrightarrow> i < length xs \<Longrightarrow> m (a + of_nat i) = xs ! i"
proof -
  assume "cstring_at m a xs" and "i < length xs"
  then have "bytes_at m a (length xs) ! i = xs ! i" by (simp add: cstring_at_def)
  with \<open>i < length xs\<close> show ?thesis by (simp add: bytes_at_def)
qed

lemma strlen_eq: "cstring_at m a xs \<Longrightarrow> strlen m a = Some (of_nat (length xs))"
proof -
  assume c: "cstring_at m a xs"
  have "m (a + of_nat j) \<noteq> 0" if "j < length xs" for j
    using that c by (metis cstring_at_def cstring_at_nth nth_mem)
  then have "strlen_from m a (of_nat 0) = Some (of_nat (length xs) + 1)"
    using c by (intro strlen_from_step) (auto simp: cstring_at_def)
  then show ?thesis by (simp add: strlen_def)
qed

lemma bytes_at_cong: "(\<And>x. x \<in> span a n \<Longrightarrow> m' x = m x) \<Longrightarrow> bytes_at m' a n = bytes_at m a n"
  unfolding bytes_at_def span_def by (rule map_cong) auto

lemma bytes_at_memcpy:
  "span dst (unat n) \<inter> span src (unat n) = {} \<Longrightarrow> bytes_at (memcpy m dst src n) dst (unat n) = bytes_at m src (unat n)"
  by (simp add: bytes_at_def memcpy_inside)

subsection \<open>Properties\<close>

text \<open>\<open>strcmp\<close> of two terminated strings shorter than 4 GiB returns, and returns 0 exactly when the
  strings are equal. (The lengths are compared as 32-bit numbers.)\<close>

lemma strcmp_correct:
  assumes "cstring_at m a xs" and "cstring_at m b ys" and "length xs < 2 ^ 32" and "length ys < 2 ^ 32"
  shows "strcmp m a b = Some (if xs = ys then 0 else 1)"
proof -
  let ?n = "\<lambda>zs. ucast (of_nat (length zs) :: size_t) :: uint32_t"
  have u: "unat (?n zs) = length zs" if "length zs < 2 ^ 32" for zs :: "uint8_t list"
    using that by (simp add: unsigned_ucast_eq unsigned_of_nat take_bit_nat_eq_self)
  have eq: "?n xs = ?n ys \<longleftrightarrow> length xs = length ys"
    using u [OF assms(3)] u [OF assms(4)] by metis
  have "(\<forall>j. 0 \<le> j \<and> j < length xs \<longrightarrow> m (a + of_nat j) = m (b + of_nat j)) \<longleftrightarrow> xs = ys" if "length xs = length ys"
    using cstring_at_nth [OF assms(1)] cstring_at_nth [OF assms(2)] that by (auto simp: list_eq_iff_nth_eq)
  then show ?thesis
    using strlen_eq [OF assms(1)] strlen_eq [OF assms(2)] eq u [OF assms(3)]
    by (auto simp: strcmp_def memcmp_from_eq Let_def)
qed

text \<open>\<open>memcpy\<close> between ranges that do not overlap copies exactly the bytes of the source, \<open>memset\<close>
  fills exactly its range, and \<open>memcmp\<close> returns 0 exactly for equal contents; nothing else changes.\<close>

lemma mem_routines_correct:
  assumes "span dst (unat n) \<inter> span src (unat n) = {}"
  shows "bytes_at (memcpy m dst src n) dst (unat n) = bytes_at m src (unat n) \<and>
    bytes_at (memset m dst v n) dst (unat n) = replicate (unat n) v \<and>
    (x \<notin> span dst (unat n) \<longrightarrow> memcpy m dst src n x = m x \<and> memset m dst v n x = m x) \<and>
    memcmp (memcpy m dst src n) dst src n = 0"
proof -
  have c: "bytes_at (memcpy m dst src n) dst (unat n) = bytes_at m src (unat n)"
    using memcpy_inside [OF assms] by (simp add: bytes_at_def)
  have "memcpy m dst src n (src + of_nat i) = m (src + of_nat i)" if "i < unat n" for i
    by (rule memcpy_outside) (use assms that in \<open>auto simp: span_def\<close>)
  then have "bytes_at (memcpy m dst src n) src (unat n) = bytes_at m src (unat n)" by (simp add: bytes_at_def)
  moreover have "bytes_at (memset m dst v n) dst (unat n) = replicate (unat n) v"
    by (rule nth_equalityI) (simp_all add: bytes_at_def memset_inside)
  ultimately show ?thesis using c memcpy_outside [of x dst n m src] memset_outside [of x dst n m v] by (simp add: memcmp_eq_0)
qed

end
