(* ===== verification/Tlsf_Bits.thy ===== *)
theory Tlsf_Bits
  imports Prelude
begin

text \<open>
  The arithmetic core of the TLSF allocator, \<^verbatim>\<open>sys/mm/tlsf.c\<close> lines 46 to 540: bit searches,
  the configuration constants, alignment, request rounding and the two-level size mapping.

  C \<open>int\<close> values that stay small (bit indices, list indices) are \<open>int\<close>; sizes and addresses are
  64-bit words. The compiler builtins \<open>__builtin_clz\<close> and \<open>__builtin_ffs\<close> are modelled by their
  documented results. \<open>ilog2\<close> is the reference definition of the highest set bit, \<open>map_ins\<close>
  the one of the size mapping on naturals; the lemmas relate the C routines to them.
\<close>

subsection \<open>Compiler builtins\<close>

fun ilog2 :: "nat \<Rightarrow> nat" where
  "ilog2 n = (if n < 2 then 0 else Suc (ilog2 (n div 2)))"

fun lowbit :: "nat \<Rightarrow> nat" where
  "lowbit n = (if n = 0 \<or> odd n then 0 else Suc (lowbit (n div 2)))"

declare ilog2.simps [simp del] lowbit.simps [simp del]

definition builtin_clz :: "uint32_t \<Rightarrow> int" where
  \<comment> \<open>number of leading zero bits; the builtin is undefined at 0\<close>
  "builtin_clz w = 31 - int (ilog2 (unat w))"

definition builtin_ffs :: "uint32_t \<Rightarrow> int" where
  \<comment> \<open>one plus the index of the lowest set bit, 0 for 0\<close>
  "builtin_ffs w = (if w = 0 then 0 else int (lowbit (unat w)) + 1)"

subsection \<open>Bit searches\<close>

definition tlsf_ffs_snc :: "uint32_t \<Rightarrow> int" where
  "tlsf_ffs_snc word =
     (let reverse = word AND (NOT word + 1);
          bit = 32 - builtin_clz reverse
      in bit - 1)"

definition tlsf_ffs :: "uint32_t \<Rightarrow> int" where
  "tlsf_ffs word = builtin_ffs word - 1"

definition tlsf_fls :: "uint32_t \<Rightarrow> int" where
  "tlsf_fls word = (let bit = (if word \<noteq> 0 then 32 - builtin_clz word else 0) in bit - 1)"

definition tlsf_fls_generic :: "uint32_t \<Rightarrow> int" where
  "tlsf_fls_generic word =
     (let bit = 32;
          bit = (if word = 0 then bit - 1 else bit);
          (word, bit) = (if word AND 0xffff0000 = 0 then (push_bit 16 word, bit - 16) else (word, bit));
          (word, bit) = (if word AND 0xff000000 = 0 then (push_bit 8 word, bit - 8) else (word, bit));
          (word, bit) = (if word AND 0xf0000000 = 0 then (push_bit 4 word, bit - 4) else (word, bit));
          (word, bit) = (if word AND 0xc0000000 = 0 then (push_bit 2 word, bit - 2) else (word, bit));
          (word, bit) = (if word AND 0x80000000 = 0 then (push_bit 1 word, bit - 1) else (word, bit))
      in bit)"

definition tlsf_ffs_generic :: "uint32_t \<Rightarrow> int" where
  "tlsf_ffs_generic word = tlsf_fls_generic (word AND (NOT word + 1)) - 1"

definition tlsf_fls_fallback :: "uint32_t \<Rightarrow> int" where
  "tlsf_fls_fallback word = tlsf_fls_generic word - 1"

definition tlsf_fls_sizet :: "size_t \<Rightarrow> int" where
  "tlsf_fls_sizet sz =
     (let high = (ucast (drop_bit 32 sz) :: uint32_t)
      in if high \<noteq> 0 then 32 + tlsf_fls high
         else tlsf_fls (ucast sz AND 0xffffffff))"

definition test_ffs_fls :: int where
  "test_ffs_fls =
     (let rv = 0;
          rv = rv + (if tlsf_ffs 0 = - 1 then 0 else 1);
          rv = rv + (if tlsf_fls 0 = - 1 then 0 else 2);
          rv = rv + (if tlsf_ffs 1 = 0 then 0 else 4);
          rv = rv + (if tlsf_fls 1 = 0 then 0 else 8);
          rv = rv + (if tlsf_ffs 0x80000000 = 31 then 0 else 0x10);
          rv = rv + (if tlsf_ffs 0x80008000 = 15 then 0 else 0x20);
          rv = rv + (if tlsf_fls 0x80000008 = 31 then 0 else 0x40);
          rv = rv + (if tlsf_fls 0x7FFFFFFF = 30 then 0 else 0x80);
          rv = rv + (if tlsf_fls_sizet 0x80000000 = 31 then 0 else 0x100);
          rv = rv + (if tlsf_fls_sizet 0x100000000 = 32 then 0 else 0x200);
          rv = rv + (if tlsf_fls_sizet 0xffffffffffffffff = 63 then 0 else 0x400)
      in rv)"

subsection \<open>Constants\<close>

definition SL_INDEX_COUNT_LOG2 :: int where "SL_INDEX_COUNT_LOG2 = 5"
definition ALIGN_SIZE_LOG2 :: int where "ALIGN_SIZE_LOG2 = 3"
definition ALIGN_SIZE :: int where "ALIGN_SIZE = push_bit (nat ALIGN_SIZE_LOG2) 1"
definition FL_INDEX_MAX :: int where "FL_INDEX_MAX = 32"
definition SL_INDEX_COUNT :: int where "SL_INDEX_COUNT = push_bit (nat SL_INDEX_COUNT_LOG2) 1"
definition FL_INDEX_SHIFT :: int where "FL_INDEX_SHIFT = SL_INDEX_COUNT_LOG2 + ALIGN_SIZE_LOG2"
definition FL_INDEX_COUNT :: int where "FL_INDEX_COUNT = FL_INDEX_MAX - FL_INDEX_SHIFT + 1"
definition SMALL_BLOCK_SIZE :: int where "SMALL_BLOCK_SIZE = push_bit (nat FL_INDEX_SHIFT) 1"

definition block_size_min :: size_t where
  \<comment> \<open>\<open>sizeof(block_header_t) - sizeof(block_header_t*)\<close>\<close>
  "block_size_min = 32 - 8"

definition block_size_max :: size_t where
  "block_size_max = push_bit (nat FL_INDEX_MAX) 1"

subsection \<open>Alignment and request sizes\<close>

definition align_up :: "size_t \<Rightarrow> size_t \<Rightarrow> size_t res" where
  "align_up x align =
     bindE (assertE (0 = align AND (align - 1))) (\<lambda>_.
     Inr ((x + (align - 1)) AND NOT (align - 1)))"

definition align_down :: "size_t \<Rightarrow> size_t \<Rightarrow> size_t res" where
  "align_down x align =
     bindE (assertE (0 = align AND (align - 1))) (\<lambda>_.
     Inr (x - (x AND (align - 1))))"

definition align_ptr :: "addr \<Rightarrow> size_t \<Rightarrow> addr res" where
  "align_ptr ptr align =
     (let aligned = (ptr + (align - 1)) AND NOT (align - 1)
      in bindE (assertE (0 = align AND (align - 1))) (\<lambda>_. Inr aligned))"

definition adjust_request_size :: "size_t \<Rightarrow> size_t \<Rightarrow> size_t res" where
  "adjust_request_size sz align =
     (if sz \<noteq> 0
      then bindE (align_up sz align) (\<lambda>aligned.
           if aligned < block_size_max
           then Inr (if aligned > block_size_min then aligned else block_size_min)
           else Inr 0)
      else Inr 0)"

subsection \<open>The two-level mapping of sizes\<close>

definition cast_int :: "size_t \<Rightarrow> int" where
  \<comment> \<open>the cast \<open>(int) x\<close> of a \<open>size_t\<close>\<close>
  "cast_int x = sint (ucast x :: uint32_t)"

definition mapping_insert :: "size_t \<Rightarrow> int \<times> int" where
  "mapping_insert sz =
     (if sz < of_int SMALL_BLOCK_SIZE
      then (0, cast_int sz div (SMALL_BLOCK_SIZE div SL_INDEX_COUNT))
      else (let fl = tlsf_fls_sizet sz;
                sl = cast_int (drop_bit (nat (fl - SL_INDEX_COUNT_LOG2)) sz)
                     XOR push_bit (nat SL_INDEX_COUNT_LOG2) 1
            in (fl - (FL_INDEX_SHIFT - 1), sl)))"

definition mapping_search :: "size_t \<Rightarrow> int \<times> int" where
  "mapping_search sz =
     (if sz \<ge> of_int SMALL_BLOCK_SIZE
      then (let round = scast (push_bit (nat (tlsf_fls_sizet sz - SL_INDEX_COUNT_LOG2)) 1 - 1 :: uint32_t)
            in mapping_insert (sz + round))
      else mapping_insert sz)"

text \<open>The reference mapping on naturals.\<close>

definition map_ins :: "nat \<Rightarrow> nat \<times> nat" where
  "map_ins n =
     (if n < 256 then (0, n div 8)
      else (ilog2 n - 7, n div 2 ^ (ilog2 n - 5) - 32))"

subsection \<open>Facts on the reference definitions\<close>

lemma ilog2_bounds: "0 < n \<Longrightarrow> 2 ^ ilog2 n \<le> n \<and> n < 2 ^ Suc (ilog2 n)"
proof (induction n rule: ilog2.induct)
  case (1 n)
  show ?case
  proof (cases "n < 2")
    case True
    with "1.prems" have "n = 1" by simp
    then show ?thesis by (simp add: ilog2.simps)
  next
    case False
    then have "2 ^ ilog2 (n div 2) \<le> n div 2 \<and> n div 2 < 2 ^ Suc (ilog2 (n div 2))"
      using "1.IH" by simp
    moreover have "ilog2 n = Suc (ilog2 (n div 2))"
      using False by (simp add: ilog2.simps [of n])
    ultimately show ?thesis by auto
  qed
qed

lemma ilog2_eqI: "2 ^ k \<le> n \<Longrightarrow> n < 2 ^ Suc k \<Longrightarrow> ilog2 n = k"
proof -
  assume lo: "2 ^ k \<le> n" and hi: "n < 2 ^ Suc k"
  from lo have pos: "0 < n" by (metis gr0I leD zero_less_numeral zero_less_power)
  from ilog2_bounds [OF pos] have b: "2 ^ ilog2 n \<le> n" "n < 2 ^ Suc (ilog2 n)" by auto
  from lo b(2) have "(2::nat) ^ k < 2 ^ Suc (ilog2 n)" by linarith
  moreover from b(1) hi have "(2::nat) ^ ilog2 n < 2 ^ Suc k" by linarith
  ultimately have "k < Suc (ilog2 n)" and "ilog2 n < Suc k"
    by (metis one_less_numeral_iff power_less_imp_less_exp semiring_norm(76))+
  then show ?thesis by simp
qed

lemma ilog2_mult_power: "0 < n \<Longrightarrow> ilog2 (2 ^ k * n) = k + ilog2 n"
  by (rule ilog2_eqI) (use ilog2_bounds [of n] in \<open>auto simp: power_add\<close>)

lemma ilog2_less: "0 < n \<Longrightarrow> n < 2 ^ k \<Longrightarrow> ilog2 n < k"
proof -
  assume "0 < n" and "n < 2 ^ k"
  then have "(2::nat) ^ ilog2 n < 2 ^ k" using ilog2_bounds [of n] by linarith
  then show ?thesis by simp
qed

lemma ilog2_ge: "2 ^ k \<le> n \<Longrightarrow> k \<le> ilog2 n"
proof -
  assume le: "2 ^ k \<le> n"
  then have "0 < n" by (metis gr0I leD zero_less_numeral zero_less_power)
  with le have "(2::nat) ^ k < 2 ^ Suc (ilog2 n)" using ilog2_bounds [of n] by linarith
  then have "k < Suc (ilog2 n)"
    by (metis one_less_numeral_iff power_less_imp_less_exp semiring_norm(76))
  then show ?thesis by simp
qed

lemma ilog2_div_power: "2 ^ k \<le> n \<Longrightarrow> ilog2 n = k + ilog2 (n div 2 ^ k)"
proof -
  assume le: "2 ^ k \<le> n"
  then have pos: "0 < n div 2 ^ k" by (simp add: div_greater_zero_iff)
  note b = ilog2_bounds [OF pos]
  show ?thesis
  proof (rule ilog2_eqI)
    have "2 ^ ilog2 (n div 2 ^ k) * 2 ^ k \<le> n div 2 ^ k * 2 ^ k" using b by simp
    also have "\<dots> \<le> n" by simp
    finally show "2 ^ (k + ilog2 (n div 2 ^ k)) \<le> n" by (simp add: power_add mult.commute)
    have "n < Suc (n div 2 ^ k) * 2 ^ k"
      by (metis dividend_less_div_times mult_Suc add.commute zero_less_numeral zero_less_power)
    also have "\<dots> \<le> 2 ^ Suc (ilog2 (n div 2 ^ k)) * 2 ^ k"
      by (rule mult_le_mono1) (use b in simp)
    finally show "n < 2 ^ Suc (k + ilog2 (n div 2 ^ k))" by (simp add: power_add mult.commute mult.left_commute)
  qed
qed

lemma lowbit_spec: "0 < n \<Longrightarrow> bit n (lowbit n) \<and> (\<forall>i < lowbit n. \<not> bit n i)"
proof (induction n rule: lowbit.induct)
  case (1 n)
  show ?case
  proof (cases "odd n")
    case True
    then show ?thesis by (simp add: lowbit.simps [of n] bit_0)
  next
    case False
    with "1.prems" have IH: "bit (n div 2) (lowbit (n div 2)) \<and> (\<forall>i < lowbit (n div 2). \<not> bit (n div 2) i)"
      by (intro "1.IH") (auto elim: evenE)
    have eq: "lowbit n = Suc (lowbit (n div 2))"
      using False "1.prems" by (simp add: lowbit.simps [of n])
    have "\<not> bit n i" if "i < lowbit n" for i
      using that IH False eq by (cases i) (auto simp: bit_0 bit_Suc)
    with IH eq show ?thesis by (auto simp: bit_Suc)
  qed
qed

subsection \<open>The bit searches meet their reference definitions\<close>

lemma tlsf_fls_eq: "w \<noteq> 0 \<Longrightarrow> tlsf_fls w = int (ilog2 (unat w))"
  by (simp add: tlsf_fls_def builtin_clz_def)

lemma tlsf_ffs_eq: "w \<noteq> 0 \<Longrightarrow> tlsf_ffs w = int (lowbit (unat w))"
  by (simp add: tlsf_ffs_def builtin_ffs_def)

lemma lowbit_word:
  fixes w :: uint32_t
  assumes "w \<noteq> 0"
  shows "bit w (lowbit (unat w))" and "i < lowbit (unat w) \<Longrightarrow> \<not> bit w i" and "lowbit (unat w) < 32"
proof -
  from assms have "0 < unat w" by (simp add: unat_gt_0)
  from lowbit_spec [OF this] show *: "bit w (lowbit (unat w))" and "i < lowbit (unat w) \<Longrightarrow> \<not> bit w i"
    by (auto simp: bit_unsigned_iff)
  from * show "lowbit (unat w) < 32" using bit_imp_le_length by fastforce
qed

lemma tlsf_fls_sizet_eq: "sz \<noteq> 0 \<Longrightarrow> tlsf_fls_sizet sz = int (ilog2 (unat sz))"
proof -
  assume nz: "sz \<noteq> 0"
  let ?high = "ucast (drop_bit 32 sz) :: uint32_t"
  have high: "unat ?high = unat sz div 2 ^ 32"
  proof -
    have "unat sz div 2 ^ 32 < 2 ^ 32"
      using unsigned_less [of sz, where ?'a = nat] by (simp add: less_mult_imp_div_less)
    then show ?thesis
      by (simp add: take_bit_nat_eq_self unat_drop_bit_eq drop_bit_eq_div unsigned_ucast_eq unat_div_distrib)
  qed
  show ?thesis
  proof (cases "?high = 0")
    case True
    with high have "unat sz div 2 ^ 32 = 0" by simp
    then have lt: "unat sz < 2 ^ 32" by (simp add: div_eq_0_iff)
    have "(0xffffffff :: uint32_t) = - 1" by simp
    then have "ucast sz AND (0xffffffff :: uint32_t) = ucast sz" by (metis and.right_neutral)
    moreover have u: "unat (ucast sz :: uint32_t) = unat sz"
      using lt by (simp add: unsigned_ucast_eq take_bit_nat_eq_self unsigned_take_bit_eq)
    moreover have "(ucast sz :: uint32_t) \<noteq> 0"
      using u nz by (metis unsigned_0 unsigned_eq_0_iff)
    ultimately show ?thesis using True by (simp add: tlsf_fls_sizet_def tlsf_fls_eq)
  next
    case False
    with high have "unat sz div 2 ^ 32 \<noteq> 0" by (metis unsigned_eq_0_iff)
    then have "2 ^ 32 \<le> unat sz" by (metis div_less not_less)
    then show ?thesis
      using False high ilog2_div_power [of 32 "unat sz"] by (simp add: tlsf_fls_sizet_def tlsf_fls_eq)
  qed
qed

subsection \<open>The size mapping on naturals\<close>

lemmas tlsf_consts = SL_INDEX_COUNT_LOG2_def ALIGN_SIZE_LOG2_def ALIGN_SIZE_def FL_INDEX_MAX_def
  SL_INDEX_COUNT_def FL_INDEX_SHIFT_def FL_INDEX_COUNT_def SMALL_BLOCK_SIZE_def
  block_size_min_def block_size_max_def

lemma unat_of_nat_64: "n < 2 ^ 64 \<Longrightarrow> unat (of_nat n :: size_t) = n"
  by (simp add: unsigned_of_nat take_bit_nat_eq_self)

lemma drop_bit_of_nat_64:
  assumes "n < 2 ^ 64"
  shows "drop_bit k (of_nat n :: size_t) = of_nat (n div 2 ^ k)"
proof -
  have "n div 2 ^ k < 2 ^ 64" using assms by (rule le_less_trans [OF div_le_dividend])
  then have "unat (drop_bit k (of_nat n :: size_t)) = unat (of_nat (n div 2 ^ k) :: size_t)"
    using assms by (simp only: unat_drop_bit_eq unat_of_nat_64 drop_bit_eq_div [where ?'a = nat])
  then show ?thesis by (simp only: word_unat_eq_iff)
qed

lemma cast_int_of_nat: "n < 2 ^ 31 \<Longrightarrow> cast_int (of_nat n) = int n"
  by (simp add: cast_int_def unsigned_of_nat signed_of_nat signed_take_bit_int_eq_self
      take_bit_nat_eq_self)

lemma xor_32: "32 \<le> (v::int) \<Longrightarrow> v < 64 \<Longrightarrow> v XOR 32 = v - 32"
proof -
  assume "32 \<le> v" and "v < 64"
  then have "v \<in> set [32..63]" by (simp only: set_upto) simp
  then show ?thesis by (auto simp: upto.simps)
qed

text \<open>A size of at least 256 lies in the upper half of its power of two, 32 slots wide.\<close>

lemma class_quotient:
  assumes "256 \<le> n"
  shows "32 \<le> n div 2 ^ (ilog2 n - 5)" and "n div 2 ^ (ilog2 n - 5) < 64" and "8 \<le> ilog2 n"
proof -
  from assms show le: "8 \<le> ilog2 n" by (intro ilog2_ge) simp
  from assms ilog2_bounds [of n] have b: "2 ^ ilog2 n \<le> n" "n < 2 ^ Suc (ilog2 n)" by auto
  have e: "(2::nat) ^ ilog2 n = 32 * 2 ^ (ilog2 n - 5)"
  proof -
    have "ilog2 n = 5 + (ilog2 n - 5)" using le by simp
    then have "(2::nat) ^ ilog2 n = 2 ^ 5 * 2 ^ (ilog2 n - 5)" by (metis power_add)
    then show ?thesis by simp
  qed
  show "32 \<le> n div 2 ^ (ilog2 n - 5)"
    using b(1) e by (simp add: less_eq_div_iff_mult_less_eq)
  show "n div 2 ^ (ilog2 n - 5) < 64"
    using b(2) e by (simp add: div_less_iff_less_mult)
qed

lemma mapping_insert_of_nat:
  assumes "n < 2 ^ 64"
  shows "mapping_insert (of_nat n) = (int (fst (map_ins n)), int (snd (map_ins n)))"
proof (cases "n < 256")
  case True
  then have "(of_nat n :: size_t) < 256"
    by (simp add: word_less_nat_alt unat_of_nat_64)
  then show ?thesis
    using True by (simp add: mapping_insert_def map_ins_def tlsf_consts cast_int_of_nat zdiv_int)
next
  case False
  have u: "unat (of_nat n :: size_t) = n" using assms by (rule unat_of_nat_64)
  have nz: "(of_nat n :: size_t) \<noteq> 0" using False u by (metis not_less0 unsigned_0 zero_less_numeral)
  have big: "\<not> (of_nat n :: size_t) < 256" using False u by (simp add: word_less_nat_alt)
  note q = class_quotient [of n]
  have d: "drop_bit k (of_nat n :: size_t) = of_nat (n div 2 ^ k)" for k
    using assms by (rule drop_bit_of_nat_64)
  have "nat (int (ilog2 n) - 5) = ilog2 n - 5" by simp
  moreover have "cast_int (of_nat (n div 2 ^ (ilog2 n - 5))) XOR 32 = int (n div 2 ^ (ilog2 n - 5)) - 32"
    using q False by (subst cast_int_of_nat) (auto intro: xor_32)
  ultimately show ?thesis
    using False big u nz q by (simp add: mapping_insert_def map_ins_def tlsf_consts tlsf_fls_sizet_eq d of_nat_diff)
qed

lemma map_ins_bounds: "n < 2 ^ 32 \<Longrightarrow> fst (map_ins n) < 25 \<and> snd (map_ins n) < 32"
proof (cases "n < 256")
  case True
  then show ?thesis by (simp add: map_ins_def)
next
  case False
  assume n: "n < 2 ^ 32"
  with False have "ilog2 n < 32" by (intro ilog2_less) auto
  with False class_quotient [of n] show ?thesis by (auto simp: map_ins_def)
qed

text \<open>The size that a search rounds a request up to, and the slot the search starts from.\<close>

definition search_size :: "nat \<Rightarrow> nat" where
  "search_size n = (if n < 256 then n else n + 2 ^ (ilog2 n - 5) - 1)"

lemma search_size_less: "n < 2 ^ 32 \<Longrightarrow> search_size n < 2 ^ 33"
proof (cases "n < 256")
  case False
  assume n: "n < 2 ^ 32"
  with False have "ilog2 n - 5 \<le> 31" using ilog2_less [of n 32] by simp
  then have "(2::nat) ^ (ilog2 n - 5) \<le> 2 ^ 31" by (rule power_increasing) simp
  with n False show ?thesis by (simp add: search_size_def)
qed (simp add: search_size_def)

lemma round_of_nat: "j < 31 \<Longrightarrow> (scast (push_bit j 1 - 1 :: uint32_t) :: size_t) = of_nat (2 ^ j - 1)"
proof -
  assume j: "j < 31"
  have m: "push_bit j 1 - 1 = (mask j :: uint32_t)" by (simp add: mask_eq_exp_minus_1)
  have "(scast (mask j :: uint32_t) :: size_t) = mask j"
    by (rule bit_word_eqI) (use j in \<open>auto simp: bit_simps\<close>)
  also have "\<dots> = of_nat (2 ^ j - 1)"
    by (simp add: mask_eq_exp_minus_1 of_nat_diff)
  finally show ?thesis using m by simp
qed

lemma mapping_search_of_nat:
  assumes "n < 2 ^ 32"
  shows "mapping_search (of_nat n) =
    (int (fst (map_ins (search_size n))), int (snd (map_ins (search_size n))))"
proof (cases "n < 256")
  case True
  then have "\<not> (of_nat n :: size_t) \<ge> 256" by (simp add: word_le_nat_alt unat_of_nat_64)
  then show ?thesis
    using True assms by (simp add: mapping_search_def search_size_def tlsf_consts mapping_insert_of_nat)
next
  case False
  have u: "unat (of_nat n :: size_t) = n" using assms by (intro unat_of_nat_64) simp
  have nz: "(of_nat n :: size_t) \<noteq> 0" using False u by (metis not_less0 unsigned_0 zero_less_numeral)
  have big: "(of_nat n :: size_t) \<ge> 256" using False u by (simp add: word_le_nat_alt)
  have lt: "ilog2 n - 5 < 31" using ilog2_less [of n 32] False assms by simp
  have "(of_nat n :: size_t) + of_nat (2 ^ (ilog2 n - 5) - 1) = of_nat (search_size n)"
    using False by (simp only: search_size_def if_False flip: of_nat_add) simp
  moreover have "search_size n < 2 ^ 64" using search_size_less [OF assms] by simp
  ultimately show ?thesis
    using big u nz round_of_nat [OF lt]
    by (simp add: mapping_search_def tlsf_consts tlsf_fls_sizet_eq mapping_insert_of_nat nat_diff_distrib' del: of_nat_diff)
qed

text \<open>Slots are ordered lexicographically; a bigger size never maps to an earlier slot.\<close>

definition slot_less :: "nat \<times> nat \<Rightarrow> nat \<times> nat \<Rightarrow> bool" where
  "slot_less x y \<longleftrightarrow> fst x < fst y \<or> fst x = fst y \<and> snd x < snd y"

lemma ilog2_mono: "m \<le> n \<Longrightarrow> ilog2 m \<le> ilog2 n"
proof (cases "m = 0")
  case True
  then show ?thesis by (simp add: ilog2.simps)
next
  case False
  assume "m \<le> n"
  with False ilog2_bounds [of m] show ?thesis by (intro ilog2_ge) simp
qed

lemma slot_less_search:
  assumes "k < n" and "n mod 8 = 0"
  shows "slot_less (map_ins k) (map_ins (search_size n))"
proof (cases "n < 256")
  case True
  from assms obtain q where "n = 8 * q" by (auto simp: mod_eq_0_iff_dvd)
  with assms have "k div 8 < n div 8" by (simp add: div_less_iff_less_mult)
  then show ?thesis using True assms by (simp add: slot_less_def map_ins_def search_size_def)
next
  case False
  let ?f = "ilog2 n" and ?r = "search_size n"
  have r: "?r = n + 2 ^ (?f - 5) - 1" using False by (simp add: search_size_def)
  have "0 < (2::nat) ^ (?f - 5)" by simp
  then have rn: "n \<le> ?r" unfolding r by linarith
  have f8: "8 \<le> ?f" using class_quotient [of n] False by simp
  have "?f \<le> ilog2 ?r" using rn by (rule ilog2_mono)
  have kf: "ilog2 k \<le> ?f" using assms by (intro ilog2_mono) simp
  show ?thesis
  proof (cases "k < 256")
    case True
    then show ?thesis
      using False rn f8 \<open>?f \<le> ilog2 ?r\<close> by (simp add: slot_less_def map_ins_def)
  next
    case k: False
    then have k8: "8 \<le> ilog2 k" using class_quotient [of k] by simp
    show ?thesis
    proof (cases "ilog2 k < ilog2 ?r")
      case True
      then show ?thesis using k k8 False rn by (auto simp: slot_less_def map_ins_def)
    next
      case eq: False
      with kf \<open>?f \<le> ilog2 ?r\<close> have e: "ilog2 k = ?f" "ilog2 ?r = ?f" by simp_all
      have "k + 2 ^ (?f - 5) \<le> ?r" unfolding r using assms by simp
      then have "(k + 2 ^ (?f - 5)) div 2 ^ (?f - 5) \<le> ?r div 2 ^ (?f - 5)" by (rule div_le_mono)
      then have "k div 2 ^ (?f - 5) < ?r div 2 ^ (?f - 5)" by (simp add: div_add_self2)
      moreover have "32 \<le> k div 2 ^ (?f - 5)" using class_quotient [of k] k e by simp
      ultimately show ?thesis using k False rn e by (auto simp: slot_less_def map_ins_def)
    qed
  qed
qed

subsection \<open>Alignment and request sizes on naturals\<close>

lemma unat_and_not_mask: "unat (x AND NOT (mask k) :: 'a::len word) = 2 ^ k * (unat x div 2 ^ k)"
proof -
  have "unat (x AND NOT (mask k)) = push_bit k (drop_bit k (unat x))"
    by (rule bit_eqI) (auto simp: bit_simps dest: bit_imp_le_length)
  then show ?thesis by (simp add: push_bit_eq_mult drop_bit_eq_div [where ?'a = nat] mult.commute)
qed

lemma not_7: "NOT 7 = NOT (mask 3 :: size_t)"
  by (simp add: mask_eq_exp_minus_1)

definition adj_size :: "nat \<Rightarrow> nat" where
  \<comment> \<open>a request rounded up to a multiple of 8, at least 24, and 0 where it cannot be served\<close>
  "adj_size n =
     (if n = 0 then 0
      else let a = 8 * (((n + 7) mod 2 ^ 64) div 8) in if a < 2 ^ 32 then max a 24 else 0)"

lemma align_up_8: "align_up x 8 = Inr (of_nat (8 * (((unat x + 7) mod 2 ^ 64) div 8)))"
proof -
  have "(x + 7) AND NOT 7 = of_nat (unat ((x + 7) AND NOT 7))" by simp
  then have "(x + 7) AND NOT 7 = of_nat (8 * (unat (x + 7) div 8))"
    by (simp only: not_7 unat_and_not_mask) simp
  then show ?thesis by (simp add: align_up_def unat_word_ariths)
qed

lemma adjust_request_size_eq: "adjust_request_size x 8 = Inr (of_nat (adj_size (unat x)))"
proof (cases "x = 0")
  case True
  then show ?thesis by (simp add: adjust_request_size_def adj_size_def)
next
  case False
  define a where "a = 8 * (((unat x + 7) mod 2 ^ 64) div 8)"
  have "a \<le> (unat x + 7) mod 2 ^ 64" by (simp add: a_def)
  also have "\<dots> < 2 ^ 64" by simp
  finally have a64: "unat (of_nat a :: size_t) = a" by (rule unat_of_nat_64)
  have nz: "unat x \<noteq> 0" using False by (simp add: unat_eq_zero)
  have "align_up x 8 = Inr (of_nat a)" by (simp only: align_up_8 a_def)
  then have "adjust_request_size x 8 = Inr (if a < 2 ^ 32 then of_nat (max a 24) else 0)"
    using False a64 by (simp add: adjust_request_size_def tlsf_consts word_less_nat_alt max_def)
  also have "(if a < 2 ^ 32 then of_nat (max a 24) else 0) = (of_nat (adj_size (unat x)) :: size_t)"
    using nz by (simp only: adj_size_def Let_def a_def if_False) simp
  finally show ?thesis .
qed

lemma adj_size_range: "adj_size n < 2 ^ 32" "adj_size n mod 8 = 0" "adj_size n = 0 \<or> 24 \<le> adj_size n"
  by (auto simp: adj_size_def Let_def max_def)

lemma adj_size_fits: "n + 7 < 2 ^ 64 \<Longrightarrow> adj_size n \<noteq> 0 \<Longrightarrow> n \<le> adj_size n"
  by (auto simp: adj_size_def Let_def split: if_splits)

subsection \<open>The generic bit search agrees with the builtin one\<close>

lemma and_not_mask_eq_0: "(w :: uint32_t) AND NOT (mask k) = 0 \<longleftrightarrow> unat w < 2 ^ k"
proof -
  have "w AND NOT (mask k) = 0 \<longleftrightarrow> unat (w AND NOT (mask k)) = 0" by (simp add: unat_eq_zero)
  also have "\<dots> \<longleftrightarrow> unat w < 2 ^ k" by (simp add: unat_and_not_mask div_eq_0_iff)
  finally show ?thesis .
qed

lemma high_tests:
  fixes w :: uint32_t
  shows "w AND 0xffff0000 = 0 \<longleftrightarrow> unat w < 2 ^ 16" and "w AND 0xff000000 = 0 \<longleftrightarrow> unat w < 2 ^ 24"
    and "w AND 0xf0000000 = 0 \<longleftrightarrow> unat w < 2 ^ 28" and "w AND 0xc0000000 = 0 \<longleftrightarrow> unat w < 2 ^ 30"
    and "w AND 0x80000000 = 0 \<longleftrightarrow> unat w < 2 ^ 31"
proof -
  have "0xffff0000 = NOT (mask 16 :: uint32_t)" and "0xff000000 = NOT (mask 24 :: uint32_t)"
    and "0xf0000000 = NOT (mask 28 :: uint32_t)" and "0xc0000000 = NOT (mask 30 :: uint32_t)"
    and "0x80000000 = NOT (mask 31 :: uint32_t)"
    by (simp_all add: mask_eq_exp_minus_1)
  then show "w AND 0xffff0000 = 0 \<longleftrightarrow> unat w < 2 ^ 16" and "w AND 0xff000000 = 0 \<longleftrightarrow> unat w < 2 ^ 24"
    and "w AND 0xf0000000 = 0 \<longleftrightarrow> unat w < 2 ^ 28" and "w AND 0xc0000000 = 0 \<longleftrightarrow> unat w < 2 ^ 30"
    and "w AND 0x80000000 = 0 \<longleftrightarrow> unat w < 2 ^ 31"
    by (simp_all only: and_not_mask_eq_0)
qed

text \<open>
  One step of the search with shift \<open>k\<close>: afterwards one of the top \<open>k\<close> bits is set, and the sum of
  the counter and the index of the highest set bit is unchanged.
\<close>

lemma fls_step:
  fixes w :: uint32_t
  assumes lo: "2 ^ l \<le> unat w" and l: "l + k = h" and h: "h + k = 32" and c: "c = int k"
    and step: "(if unat w < 2 ^ h then (push_bit k w, b - c) else (w, b)) = (w', b')"
  shows "2 ^ h \<le> unat w' \<and> b' + int (ilog2 (unat w')) = b + int (ilog2 (unat w))"
proof (cases "unat w < 2 ^ h")
  case True
  then have "unat w * 2 ^ k < 2 ^ h * 2 ^ k" by simp
  also have "(2::nat) ^ h * 2 ^ k = 2 ^ 32" using h by (simp flip: power_add)
  finally have "unat (push_bit k w) = 2 ^ k * unat w"
    by (simp add: unsigned_push_bit_eq push_bit_eq_mult [where ?'a = nat] take_bit_nat_eq_self mult.commute)
  moreover have "(2::nat) ^ h = 2 ^ l * 2 ^ k" using l by (simp flip: power_add)
  moreover have "0 < unat w" using lo by (metis gr0I leD zero_less_numeral zero_less_power)
  ultimately show ?thesis using True step lo c by (auto simp: ilog2_mult_power)
next
  case False
  then show ?thesis using step by simp
qed

lemma tlsf_fls_generic_eq: "tlsf_fls_generic w = tlsf_fls w + 1"
proof (cases "w = 0")
  case True
  then show ?thesis by (simp add: tlsf_fls_generic_def tlsf_fls_def)
next
  case False
  obtain w1 b1 where s1:
    "(if unat w < 2 ^ 16 then (push_bit 16 w, 32 - 16) else (w, 32)) = (w1, b1 :: int)"
    by (rule prod.exhaust)
  obtain w2 b2 where s2:
    "(if unat w1 < 2 ^ 24 then (push_bit 8 w1, b1 - 8) else (w1, b1)) = (w2, b2 :: int)"
    by (rule prod.exhaust)
  obtain w3 b3 where s3:
    "(if unat w2 < 2 ^ 28 then (push_bit 4 w2, b2 - 4) else (w2, b2)) = (w3, b3 :: int)"
    by (rule prod.exhaust)
  obtain w4 b4 where s4:
    "(if unat w3 < 2 ^ 30 then (push_bit 2 w3, b3 - 2) else (w3, b3)) = (w4, b4 :: int)"
    by (rule prod.exhaust)
  obtain w5 b5 where s5:
    "(if unat w4 < 2 ^ 31 then (push_bit 1 w4, b4 - 1) else (w4, b4)) = (w5, b5 :: int)"
    by (rule prod.exhaust)
  have "0 < unat w" using False by (simp add: unat_gt_0)
  then have i0: "2 ^ 0 \<le> unat w" by simp
  have i1: "2 ^ 16 \<le> unat w1" "b1 + int (ilog2 (unat w1)) = 32 + int (ilog2 (unat w))"
    using fls_step [OF i0 _ _ _ s1] by simp_all
  have i2: "2 ^ 24 \<le> unat w2" "b2 + int (ilog2 (unat w2)) = 32 + int (ilog2 (unat w))"
    using fls_step [OF i1(1) _ _ _ s2] i1(2) by simp_all
  have i3: "2 ^ 28 \<le> unat w3" "b3 + int (ilog2 (unat w3)) = 32 + int (ilog2 (unat w))"
    using fls_step [OF i2(1) _ _ _ s3] i2(2) by simp_all
  have i4: "2 ^ 30 \<le> unat w4" "b4 + int (ilog2 (unat w4)) = 32 + int (ilog2 (unat w))"
    using fls_step [OF i3(1) _ _ _ s4] i3(2) by simp_all
  have i5: "2 ^ 31 \<le> unat w5" "b5 + int (ilog2 (unat w5)) = 32 + int (ilog2 (unat w))"
    using fls_step [OF i4(1) _ _ _ s5] i4(2) by simp_all
  have "ilog2 (unat w5) = 31"
    using i5(1) unsigned_less [of w5, where ?'a = nat] by (intro ilog2_eqI) simp_all
  with i5(2) have b5: "b5 = 1 + int (ilog2 (unat w))" by simp
  have "tlsf_fls_generic w = b5"
    by (simp only: tlsf_fls_generic_def Let_def high_tests if_not_P [OF False] s1 s2 s3 s4 s5 prod.case)
  with b5 show ?thesis using False by (simp add: tlsf_fls_eq)
qed

subsection \<open>Isolating the lowest bit\<close>

lemma odd_isolate:
  fixes u :: "'a::len word"
  assumes "odd u"
  shows "u AND - u = 1"
proof -
  have "- u = NOT u + 1" by (rule minus_eq_not_plus_1)
  also have "\<dots> = NOT u OR 1" using assms by (simp only: or_one_eq even_not_iff of_bool_eq simp_thms)
  finally have "u AND - u = u AND (NOT u OR 1)" by (simp only:)
  also have "\<dots> = u AND 1" by (simp only: bit.conj_disj_distrib bit.conj_cancel_right or.left_neutral)
  also have "\<dots> = 1" using assms by (simp only: and_one_eq odd_iff_mod_2_eq_one)
  finally show ?thesis .
qed

lemma isolate_lowbit:
  fixes w :: uint32_t
  assumes "w \<noteq> 0"
  shows "w AND (NOT w + 1) = push_bit (lowbit (unat w)) 1"
proof -
  let ?l = "lowbit (unat w)"
  define u where "u = drop_bit ?l w"
  note lw = lowbit_word [OF assms]
  have w: "w = push_bit ?l u"
  proof (rule bit_word_eqI)
    fix n assume "n < LENGTH(32)"
    show "bit w n = bit (push_bit ?l u) n"
      using lw(2) [of n] \<open>n < _\<close> by (cases "?l \<le> n") (auto simp: u_def bit_simps)
  qed
  have "odd u" using lw(1) by (simp add: u_def bit_simps flip: bit_0)
  have "NOT w + 1 = - w" by (simp add: minus_eq_not_plus_1)
  also have "- w = push_bit ?l (- u)" by (subst w) (simp add: push_bit_eq_mult)
  finally have "w AND (NOT w + 1) = push_bit ?l u AND push_bit ?l (- u)" using w by metis
  also have "\<dots> = push_bit ?l (u AND - u)" by (simp add: push_bit_and)
  finally show ?thesis using odd_isolate [OF \<open>odd u\<close>] by simp
qed

lemma tlsf_fls_power: "l < 32 \<Longrightarrow> tlsf_fls (push_bit l 1) = int l"
proof -
  assume l: "l < 32"
  have "unat (push_bit l 1 :: uint32_t) = 2 ^ l"
  proof -
    have "(2::nat) ^ l < 2 ^ 32" using l by (rule power_strict_increasing) simp
    then show ?thesis
      using l by (simp only: unsigned_push_bit_eq unsigned_1 push_bit_eq_mult [where ?'a = nat] mult_1) (simp add: take_bit_nat_eq_self)
  qed
  moreover have "ilog2 (2 ^ l) = l" by (rule ilog2_eqI) simp_all
  moreover have "push_bit l 1 \<noteq> (0 :: uint32_t)" using l by simp
  ultimately show ?thesis by (subst tlsf_fls_eq) simp_all
qed

text \<open>The self-test of the debug build passes.\<close>

lemma test_ffs_fls_passes: "test_ffs_fls = 0"
  by (simp add: test_ffs_fls_def tlsf_ffs_def tlsf_fls_def tlsf_fls_sizet_def builtin_ffs_def builtin_clz_def
      lowbit.simps ilog2.simps)

text \<open>C13: the portable bit searches that the file provides for other compilers compute the same
  results as the ones this build uses, on every word including 0.\<close>

theorem bit_searches_agree:
  "tlsf_ffs_generic w = tlsf_ffs w \<and> tlsf_fls_fallback w = tlsf_fls w \<and> (w \<noteq> 0 \<longrightarrow> tlsf_ffs_snc w = tlsf_ffs w)"
proof (cases "w = 0")
  case True
  then show ?thesis
    by (simp add: tlsf_ffs_generic_def tlsf_fls_fallback_def tlsf_fls_generic_eq tlsf_fls_def tlsf_ffs_def builtin_ffs_def)
next
  case False
  note i = isolate_lowbit [OF False] and l = lowbit_word(3) [OF False]
  have nz: "push_bit (lowbit (unat w)) 1 \<noteq> (0 :: uint32_t)" using l by simp
  have f: "tlsf_fls (push_bit (lowbit (unat w)) 1) = int (lowbit (unat w))" by (rule tlsf_fls_power [OF l])
  then have "32 - builtin_clz (push_bit (lowbit (unat w)) 1) - 1 = int (lowbit (unat w))"
    using nz by (simp only: tlsf_fls_def Let_def if_True simp_thms)
  then show ?thesis
    using f False unfolding tlsf_ffs_generic_def tlsf_fls_fallback_def tlsf_fls_generic_eq tlsf_ffs_snc_def Let_def i
    by (simp add: tlsf_ffs_eq)
qed

theorem bit_searches_agree_witness:
  "tlsf_ffs_generic 12 = tlsf_ffs 12 \<and> tlsf_fls_fallback 12 = tlsf_fls 12 \<and> tlsf_ffs_snc 12 = tlsf_ffs 12"
  using bit_searches_agree [of 12] by simp



end
