(* ===== verification/Tlsf.thy ===== *)
theory Tlsf
  imports Libkern Tlsf_Bits
begin

text \<open>
  The TLSF allocator, \<^verbatim>\<open>sys/mm/tlsf.c\<close> lines 291 to 1263: block headers, free lists, splitting
  and merging of blocks, pools and the allocation interface.

  Block headers live in byte memory at their C offsets (\<open>prev_phys_block\<close> 0, \<open>size\<close> 8,
  \<open>next_free\<close> 16, \<open>prev_free\<close> 24), so that a header really overlaps the payload of its
  neighbours: \<open>prev_phys_block\<close> is the last word of the previous block. Of the control structure,
  \<open>block_null\<close> lives in memory at the address \<open>control\<close>, because free-list code writes it
  through pointers; the bitmaps and the table of list heads, reached only through
  \<open>control->...\<close>, are fields of the record. An assertion that fails is \<open>Inl Assert_Failed\<close>,
  an index outside a table \<open>Inl Out_Of_Bounds\<close>. A null pointer is the address 0. Messages printed
  by the code are not modelled.
\<close>

subsection \<open>Block headers\<close>

definition prev_phys_block :: "memory \<Rightarrow> addr \<Rightarrow> addr" where
  "prev_phys_block m block = load64 m block"

definition hdr_size :: "memory \<Rightarrow> addr \<Rightarrow> size_t" where
  "hdr_size m block = load64 m (block + 8)"

definition next_free :: "memory \<Rightarrow> addr \<Rightarrow> addr" where
  "next_free m block = load64 m (block + 16)"

definition prev_free :: "memory \<Rightarrow> addr \<Rightarrow> addr" where
  "prev_free m block = load64 m (block + 24)"

definition set_prev_phys_block :: "memory \<Rightarrow> addr \<Rightarrow> addr \<Rightarrow> memory" where
  "set_prev_phys_block m block p = store64 m block p"

definition set_hdr_size :: "memory \<Rightarrow> addr \<Rightarrow> size_t \<Rightarrow> memory" where
  "set_hdr_size m block v = store64 m (block + 8) v"

definition set_next_free :: "memory \<Rightarrow> addr \<Rightarrow> addr \<Rightarrow> memory" where
  "set_next_free m block p = store64 m (block + 16) p"

definition set_prev_free :: "memory \<Rightarrow> addr \<Rightarrow> addr \<Rightarrow> memory" where
  "set_prev_free m block p = store64 m (block + 24) p"

definition sizeof_block_header :: size_t where "sizeof_block_header = 32"
definition block_header_free_bit :: size_t where "block_header_free_bit = push_bit 0 1"
definition block_header_prev_free_bit :: size_t where "block_header_prev_free_bit = push_bit 1 1"
definition block_header_overhead :: size_t where "block_header_overhead = 8"
definition block_start_offset :: size_t where "block_start_offset = 8 + 8"

subsection \<open>The control structure\<close>

record tlsf =
  mem :: memory
  control :: addr
  fl_bitmap :: uint32_t
  sl_bitmap :: "uint32_t list"
  blocks :: "addr list list"

subsection \<open>Block operations\<close>

definition block_size :: "memory \<Rightarrow> addr \<Rightarrow> size_t" where
  "block_size m block =
     hdr_size m block AND NOT (block_header_free_bit OR block_header_prev_free_bit)"

definition block_set_size :: "memory \<Rightarrow> addr \<Rightarrow> size_t \<Rightarrow> memory" where
  "block_set_size m block sz =
     (let oldsize = hdr_size m block
      in set_hdr_size m block
           (sz OR (oldsize AND (block_header_free_bit OR block_header_prev_free_bit))))"

definition block_is_last :: "memory \<Rightarrow> addr \<Rightarrow> bool" where
  "block_is_last m block \<longleftrightarrow> block_size m block = 0"

definition block_is_free :: "memory \<Rightarrow> addr \<Rightarrow> bool" where
  "block_is_free m block \<longleftrightarrow> cast_int (hdr_size m block AND block_header_free_bit) \<noteq> 0"

definition block_set_free :: "memory \<Rightarrow> addr \<Rightarrow> memory" where
  "block_set_free m block = set_hdr_size m block (hdr_size m block OR block_header_free_bit)"

definition block_set_used :: "memory \<Rightarrow> addr \<Rightarrow> memory" where
  "block_set_used m block = set_hdr_size m block (hdr_size m block AND NOT block_header_free_bit)"

definition block_is_prev_free :: "memory \<Rightarrow> addr \<Rightarrow> bool" where
  "block_is_prev_free m block \<longleftrightarrow> cast_int (hdr_size m block AND block_header_prev_free_bit) \<noteq> 0"

definition block_set_prev_free :: "memory \<Rightarrow> addr \<Rightarrow> memory" where
  "block_set_prev_free m block =
     set_hdr_size m block (hdr_size m block OR block_header_prev_free_bit)"

definition block_set_prev_used :: "memory \<Rightarrow> addr \<Rightarrow> memory" where
  "block_set_prev_used m block =
     set_hdr_size m block (hdr_size m block AND NOT block_header_prev_free_bit)"

definition block_from_ptr :: "addr \<Rightarrow> addr" where
  "block_from_ptr ptr = ptr - block_start_offset"

definition block_to_ptr :: "addr \<Rightarrow> addr" where
  "block_to_ptr block = block + block_start_offset"

definition offset_to_block :: "addr \<Rightarrow> size_t \<Rightarrow> addr" where
  "offset_to_block ptr sz = ptr + sz"

definition block_prev :: "memory \<Rightarrow> addr \<Rightarrow> addr res" where
  "block_prev m block =
     bindE (assertE (block_is_prev_free m block)) (\<lambda>_. Inr (prev_phys_block m block))"

definition block_next :: "memory \<Rightarrow> addr \<Rightarrow> addr res" where
  "block_next m block =
     (let nxt = offset_to_block (block_to_ptr block) (block_size m block - block_header_overhead)
      in bindE (assertE (\<not> block_is_last m block)) (\<lambda>_. Inr nxt))"

definition block_link_next :: "memory \<Rightarrow> addr \<Rightarrow> (addr \<times> memory) res" where
  "block_link_next m block =
     bindE (block_next m block) (\<lambda>nxt.
     Inr (nxt, set_prev_phys_block m nxt block))"

definition block_mark_as_free :: "memory \<Rightarrow> addr \<Rightarrow> memory res" where
  "block_mark_as_free m block =
     bindE (block_link_next m block) (\<lambda>(nxt, m).
     let m = block_set_prev_free m nxt
     in Inr (block_set_free m block))"

definition block_mark_as_used :: "memory \<Rightarrow> addr \<Rightarrow> memory res" where
  "block_mark_as_used m block =
     bindE (block_next m block) (\<lambda>nxt.
     let m = block_set_prev_used m nxt
     in Inr (block_set_used m block))"

subsection \<open>Free lists\<close>

definition get_block :: "tlsf \<Rightarrow> int \<Rightarrow> int \<Rightarrow> addr res" where
  "get_block s fl sl = bindE (array_get (blocks s) fl) (\<lambda>row. array_get row sl)"

definition set_block :: "tlsf \<Rightarrow> int \<Rightarrow> int \<Rightarrow> addr \<Rightarrow> tlsf res" where
  "set_block s fl sl b =
     bindE (array_get (blocks s) fl) (\<lambda>row.
     bindE (array_set row sl b) (\<lambda>row.
     bindE (array_set (blocks s) fl row) (\<lambda>bs.
     Inr (s\<lparr>blocks := bs\<rparr>))))"

text \<open>The C function returns the block and updates the indices it was given.\<close>

definition search_suitable_block :: "tlsf \<Rightarrow> int \<Rightarrow> int \<Rightarrow> (addr \<times> int \<times> int) res" where
  "search_suitable_block s fl sl =
     bindE (array_get (sl_bitmap s) fl) (\<lambda>sl_bits.
     let sl_map = sl_bits AND push_bit (nat sl) (NOT 0)
     in if sl_map = 0
        then let fl_map = fl_bitmap s AND push_bit (nat (fl + 1)) (NOT 0)
             in if fl_map = 0 then Inr (0, fl, sl)
                else let fl = tlsf_ffs fl_map
                     in bindE (array_get (sl_bitmap s) fl) (\<lambda>sl_map.
                        bindE (assertE (sl_map \<noteq> 0)) (\<lambda>_.
                        let sl = tlsf_ffs sl_map
                        in bindE (get_block s fl sl) (\<lambda>b. Inr (b, fl, sl))))
        else let sl = tlsf_ffs sl_map
             in bindE (get_block s fl sl) (\<lambda>b. Inr (b, fl, sl)))"

definition remove_free_block :: "tlsf \<Rightarrow> addr \<Rightarrow> int \<Rightarrow> int \<Rightarrow> tlsf res" where
  "remove_free_block s block fl sl =
     (let prev = prev_free (mem s) block;
          nxt = next_free (mem s) block
      in bindE (assertE (prev \<noteq> 0)) (\<lambda>_.
         bindE (assertE (nxt \<noteq> 0)) (\<lambda>_.
         let m = set_prev_free (mem s) nxt prev;
             m = set_next_free m prev nxt;
             s = s\<lparr>mem := m\<rparr>
         in bindE (get_block s fl sl) (\<lambda>head.
            if head = block
            then bindE (set_block s fl sl nxt) (\<lambda>s.
                 if nxt = control s
                 then bindE (array_get (sl_bitmap s) fl) (\<lambda>bits.
                      let bits = bits AND NOT (push_bit (nat sl) 1)
                      in bindE (array_set (sl_bitmap s) fl bits) (\<lambda>sl_bits.
                         let s = s\<lparr>sl_bitmap := sl_bits\<rparr>
                         in if bits = 0
                            then Inr (s\<lparr>fl_bitmap := fl_bitmap s AND NOT (push_bit (nat fl) 1)\<rparr>)
                            else Inr s))
                 else Inr s)
            else Inr s))))"

definition insert_free_block :: "tlsf \<Rightarrow> addr \<Rightarrow> int \<Rightarrow> int \<Rightarrow> tlsf res" where
  "insert_free_block s block fl sl =
     bindE (get_block s fl sl) (\<lambda>current.
     bindE (assertE (current \<noteq> 0)) (\<lambda>_.
     bindE (assertE (block \<noteq> 0)) (\<lambda>_.
     let m = set_next_free (mem s) block current;
         m = set_prev_free m block (control s);
         m = set_prev_free m current block
     in bindE (align_ptr (block_to_ptr block) (of_int ALIGN_SIZE)) (\<lambda>aligned.
        bindE (assertE (block_to_ptr block = aligned)) (\<lambda>_.
        bindE (set_block (s\<lparr>mem := m\<rparr>) fl sl block) (\<lambda>s.
        let s = s\<lparr>fl_bitmap := fl_bitmap s OR push_bit (nat fl) 1\<rparr>
        in bindE (array_get (sl_bitmap s) fl) (\<lambda>bits.
           bindE (array_set (sl_bitmap s) fl (bits OR push_bit (nat sl) 1)) (\<lambda>sl_bits.
           Inr (s\<lparr>sl_bitmap := sl_bits\<rparr>)))))))))"

definition block_remove :: "tlsf \<Rightarrow> addr \<Rightarrow> tlsf res" where
  "block_remove s block =
     (let (fl, sl) = mapping_insert (block_size (mem s) block)
      in remove_free_block s block fl sl)"

definition block_insert :: "tlsf \<Rightarrow> addr \<Rightarrow> tlsf res" where
  "block_insert s block =
     (let (fl, sl) = mapping_insert (block_size (mem s) block)
      in insert_free_block s block fl sl)"

subsection \<open>Splitting and merging\<close>

definition block_can_split :: "memory \<Rightarrow> addr \<Rightarrow> size_t \<Rightarrow> bool" where
  "block_can_split m block sz \<longleftrightarrow> block_size m block \<ge> sizeof_block_header + sz"

definition block_split :: "memory \<Rightarrow> addr \<Rightarrow> size_t \<Rightarrow> (addr \<times> memory) res" where
  "block_split m block sz =
     (let remaining = offset_to_block (block_to_ptr block) (sz - block_header_overhead);
          remain_size = block_size m block - (sz + block_header_overhead)
      in bindE (align_ptr (block_to_ptr remaining) (of_int ALIGN_SIZE)) (\<lambda>aligned.
         bindE (assertE (block_to_ptr remaining = aligned)) (\<lambda>_.
         bindE (assertE (block_size m block = remain_size + sz + block_header_overhead)) (\<lambda>_.
         let m = block_set_size m remaining remain_size
         in bindE (assertE (block_size m remaining \<ge> block_size_min)) (\<lambda>_.
            let m = block_set_size m block sz
            in bindE (block_mark_as_free m remaining) (\<lambda>m.
               Inr (remaining, m)))))))"

definition block_absorb :: "memory \<Rightarrow> addr \<Rightarrow> addr \<Rightarrow> (addr \<times> memory) res" where
  "block_absorb m prev block =
     bindE (assertE (\<not> block_is_last m prev)) (\<lambda>_.
     let m = set_hdr_size m prev (hdr_size m prev + (block_size m block + block_header_overhead))
     in bindE (block_link_next m prev) (\<lambda>(_, m).
        Inr (prev, m)))"

definition block_merge_prev :: "tlsf \<Rightarrow> addr \<Rightarrow> (addr \<times> tlsf) res" where
  "block_merge_prev s block =
     (if block_is_prev_free (mem s) block
      then bindE (block_prev (mem s) block) (\<lambda>prev.
           bindE (assertE (prev \<noteq> 0)) (\<lambda>_.
           bindE (assertE (block_is_free (mem s) prev)) (\<lambda>_.
           bindE (block_remove s prev) (\<lambda>s.
           bindE (block_absorb (mem s) prev block) (\<lambda>(block, m).
           Inr (block, s\<lparr>mem := m\<rparr>))))))
      else Inr (block, s))"

definition block_merge_next :: "tlsf \<Rightarrow> addr \<Rightarrow> (addr \<times> tlsf) res" where
  "block_merge_next s block =
     bindE (block_next (mem s) block) (\<lambda>nxt.
     bindE (assertE (nxt \<noteq> 0)) (\<lambda>_.
     if block_is_free (mem s) nxt
     then bindE (assertE (\<not> block_is_last (mem s) block)) (\<lambda>_.
          bindE (block_remove s nxt) (\<lambda>s.
          bindE (block_absorb (mem s) block nxt) (\<lambda>(block, m).
          Inr (block, s\<lparr>mem := m\<rparr>))))
     else Inr (block, s)))"

definition block_trim_free :: "tlsf \<Rightarrow> addr \<Rightarrow> size_t \<Rightarrow> tlsf res" where
  "block_trim_free s block sz =
     bindE (assertE (block_is_free (mem s) block)) (\<lambda>_.
     if block_can_split (mem s) block sz
     then bindE (block_split (mem s) block sz) (\<lambda>(remaining_block, m).
          bindE (block_link_next m block) (\<lambda>(_, m).
          let m = block_set_prev_free m remaining_block
          in block_insert (s\<lparr>mem := m\<rparr>) remaining_block))
     else Inr s)"

definition block_trim_used :: "tlsf \<Rightarrow> addr \<Rightarrow> size_t \<Rightarrow> tlsf res" where
  "block_trim_used s block sz =
     bindE (assertE (\<not> block_is_free (mem s) block)) (\<lambda>_.
     if block_can_split (mem s) block sz
     then bindE (block_split (mem s) block sz) (\<lambda>(remaining_block, m).
          let m = block_set_prev_used m remaining_block
          in bindE (block_merge_next (s\<lparr>mem := m\<rparr>) remaining_block) (\<lambda>(remaining_block, s).
             block_insert s remaining_block))
     else Inr s)"

definition block_trim_free_leading :: "tlsf \<Rightarrow> addr \<Rightarrow> size_t \<Rightarrow> (addr \<times> tlsf) res" where
  "block_trim_free_leading s block sz =
     (if block_can_split (mem s) block sz
      then bindE (block_split (mem s) block (sz - block_header_overhead)) (\<lambda>(remaining_block, m).
           let m = block_set_prev_free m remaining_block
           in bindE (block_link_next m block) (\<lambda>(_, m).
              bindE (block_insert (s\<lparr>mem := m\<rparr>) block) (\<lambda>s.
              Inr (remaining_block, s))))
      else Inr (block, s))"

definition block_locate_free :: "tlsf \<Rightarrow> size_t \<Rightarrow> (addr \<times> tlsf) res" where
  "block_locate_free s sz =
     bindE (if sz \<noteq> 0
            then (let (fl, sl) = mapping_search sz
                  in if fl < FL_INDEX_COUNT then search_suitable_block s fl sl
                     else Inr (0, fl, sl))
            else Inr (0, 0, 0)) (\<lambda>(block, fl, sl).
     if block \<noteq> 0
     then bindE (assertE (block_size (mem s) block \<ge> sz)) (\<lambda>_.
          bindE (remove_free_block s block fl sl) (\<lambda>s.
          Inr (block, s)))
     else Inr (block, s))"

definition block_prepare_used :: "tlsf \<Rightarrow> addr \<Rightarrow> size_t \<Rightarrow> (addr \<times> tlsf) res" where
  "block_prepare_used s block sz =
     (if block \<noteq> 0
      then bindE (assertE (sz \<noteq> 0)) (\<lambda>_.
           bindE (block_trim_free s block sz) (\<lambda>s.
           bindE (block_mark_as_used (mem s) block) (\<lambda>m.
           Inr (block_to_ptr block, s\<lparr>mem := m\<rparr>))))
      else Inr (0, s))"

subsection \<open>Construction and pools\<close>

definition tlsf_size :: size_t where
  \<comment> \<open>\<open>sizeof(control_t)\<close>: the null block, 26 bitmap words and 25 times 32 list heads\<close>
  "tlsf_size = 32 + 4 + 25 * 4 + 25 * 32 * 8"

definition tlsf_align_size :: size_t where "tlsf_align_size = of_int ALIGN_SIZE"
definition tlsf_block_size_min :: size_t where "tlsf_block_size_min = block_size_min"
definition tlsf_block_size_max :: size_t where "tlsf_block_size_max = block_size_max"
definition tlsf_pool_overhead :: size_t where "tlsf_pool_overhead = 2 * block_header_overhead"
definition tlsf_alloc_overhead :: size_t where "tlsf_alloc_overhead = block_header_overhead"

definition control_construct :: "memory \<Rightarrow> addr \<Rightarrow> tlsf" where
  "control_construct m ctl =
     (let m = set_next_free m ctl ctl;
          m = set_prev_free m ctl ctl
      in \<lparr>mem = m, control = ctl, fl_bitmap = 0,
          sl_bitmap = replicate (nat FL_INDEX_COUNT) 0,
          blocks = replicate (nat FL_INDEX_COUNT) (replicate (nat SL_INDEX_COUNT) ctl)\<rparr>)"

definition tlsf_add_pool :: "tlsf \<Rightarrow> addr \<Rightarrow> size_t \<Rightarrow> (addr \<times> tlsf) res" where
  "tlsf_add_pool s p bytes =
     (let pool_overhead = tlsf_pool_overhead
      in bindE (align_down (bytes - pool_overhead) (of_int ALIGN_SIZE)) (\<lambda>pool_bytes.
         if p mod of_int ALIGN_SIZE \<noteq> 0 then Inr (0, s)
         else if pool_bytes < block_size_min \<or> pool_bytes > block_size_max then Inr (0, s)
         else let block = offset_to_block p (- block_header_overhead);
                  m = block_set_size (mem s) block pool_bytes;
                  m = block_set_free m block;
                  m = block_set_prev_used m block
              in bindE (block_insert (s\<lparr>mem := m\<rparr>) block) (\<lambda>s.
                 bindE (block_link_next (mem s) block) (\<lambda>(nxt, m).
                 let m = block_set_size m nxt 0;
                     m = block_set_used m nxt;
                     m = block_set_prev_free m nxt
                 in Inr (p, s\<lparr>mem := m\<rparr>)))))"

definition tlsf_remove_pool :: "tlsf \<Rightarrow> addr \<Rightarrow> tlsf res" where
  "tlsf_remove_pool s pool =
     (let block = offset_to_block pool (- block_header_overhead)
      in bindE (assertE (block_is_free (mem s) block)) (\<lambda>_.
         bindE (block_next (mem s) block) (\<lambda>nxt.
         bindE (assertE (\<not> block_is_free (mem s) nxt)) (\<lambda>_.
         bindE (assertE (block_size (mem s) nxt = 0)) (\<lambda>_.
         let (fl, sl) = mapping_insert (block_size (mem s) block)
         in remove_free_block s block fl sl)))))"

text \<open>
  \<open>tlsf_create\<close> returns the null pointer (here \<open>None\<close>) for memory that is not aligned.
\<close>

definition tlsf_create :: "memory \<Rightarrow> addr \<Rightarrow> tlsf option" where
  "tlsf_create m p = (if p mod of_int ALIGN_SIZE \<noteq> 0 then None else Some (control_construct m p))"

definition tlsf_create_with_pool :: "memory \<Rightarrow> addr \<Rightarrow> size_t \<Rightarrow> tlsf option res" where
  "tlsf_create_with_pool m p bytes =
     (case tlsf_create m p of
        None \<Rightarrow> Inr None
      | Some s \<Rightarrow>
          bindE (tlsf_add_pool s (p + tlsf_size) (bytes - tlsf_size)) (\<lambda>(_, s). Inr (Some s)))"

definition tlsf_get_pool :: "addr \<Rightarrow> addr" where
  "tlsf_get_pool ctl = ctl + tlsf_size"

definition tlsf_block_size :: "memory \<Rightarrow> addr \<Rightarrow> size_t" where
  "tlsf_block_size m ptr = (if ptr \<noteq> 0 then block_size m (block_from_ptr ptr) else 0)"

subsection \<open>The allocation interface\<close>

definition tlsf_malloc :: "tlsf \<Rightarrow> size_t \<Rightarrow> (addr \<times> tlsf) res" where
  "tlsf_malloc s sz =
     bindE (adjust_request_size sz (of_int ALIGN_SIZE)) (\<lambda>adjust.
     bindE (block_locate_free s adjust) (\<lambda>(block, s).
     block_prepare_used s block adjust))"

definition tlsf_free :: "tlsf \<Rightarrow> addr \<Rightarrow> tlsf res" where
  "tlsf_free s ptr =
     (if ptr \<noteq> 0
      then let block = block_from_ptr ptr
           in bindE (assertE (\<not> block_is_free (mem s) block)) (\<lambda>_.
              bindE (block_mark_as_free (mem s) block) (\<lambda>m.
              bindE (block_merge_prev (s\<lparr>mem := m\<rparr>) block) (\<lambda>(block, s).
              bindE (block_merge_next s block) (\<lambda>(block, s).
              block_insert s block))))
      else Inr s)"

definition tlsf_memalign :: "tlsf \<Rightarrow> size_t \<Rightarrow> size_t \<Rightarrow> (addr \<times> tlsf) res" where
  "tlsf_memalign s align sz =
     bindE (adjust_request_size sz (of_int ALIGN_SIZE)) (\<lambda>adjust.
     let gap_minimum = sizeof_block_header
     in bindE (adjust_request_size (adjust + align + gap_minimum) align) (\<lambda>size_with_gap.
        let aligned_size = (if adjust \<noteq> 0 \<and> align > of_int ALIGN_SIZE then size_with_gap else adjust)
        in bindE (block_locate_free s aligned_size) (\<lambda>(block, s).
           bindE (assertE (sizeof_block_header = block_size_min + block_header_overhead)) (\<lambda>_.
           bindE (if block \<noteq> 0
                  then let ptr = block_to_ptr block
                       in bindE (align_ptr ptr align) (\<lambda>aligned.
                          let gap = aligned - ptr
                          in bindE (if gap \<noteq> 0 \<and> gap < gap_minimum
                                    then let gap_remain = gap_minimum - gap;
                                             offset = (if gap_remain > align then gap_remain else align);
                                             next_aligned = aligned + offset
                                         in bindE (align_ptr next_aligned align) (\<lambda>aligned.
                                            Inr (aligned - ptr))
                                    else Inr gap) (\<lambda>gap.
                             if gap \<noteq> 0
                             then bindE (assertE (gap \<ge> gap_minimum)) (\<lambda>_.
                                  block_trim_free_leading s block gap)
                             else Inr (block, s)))
                  else Inr (block, s)) (\<lambda>(block, s).
           block_prepare_used s block adjust)))))"

definition tlsf_realloc :: "tlsf \<Rightarrow> addr \<Rightarrow> size_t \<Rightarrow> (addr \<times> tlsf) res" where
  "tlsf_realloc s ptr sz =
     (if ptr \<noteq> 0 \<and> sz = 0 then bindE (tlsf_free s ptr) (\<lambda>s. Inr (0, s))
      else if ptr = 0 then tlsf_malloc s sz
      else
        let block = block_from_ptr ptr
        in bindE (block_next (mem s) block) (\<lambda>nxt.
           let cursize = block_size (mem s) block;
               combined = cursize + block_size (mem s) nxt + block_header_overhead
           in bindE (adjust_request_size sz (of_int ALIGN_SIZE)) (\<lambda>adjust.
              bindE (assertE (\<not> block_is_free (mem s) block)) (\<lambda>_.
              if adjust > cursize \<and> (\<not> block_is_free (mem s) nxt \<or> adjust > combined)
              then bindE (tlsf_malloc s sz) (\<lambda>(p, s).
                   if p \<noteq> 0
                   then let minsize = (if cursize < sz then cursize else sz);
                            m = memcpy (mem s) p ptr minsize
                        in bindE (tlsf_free (s\<lparr>mem := m\<rparr>) ptr) (\<lambda>s. Inr (p, s))
                   else Inr (p, s))
              else bindE (if adjust > cursize
                          then bindE (block_merge_next s block) (\<lambda>(_, s).
                               bindE (block_mark_as_used (mem s) block) (\<lambda>m.
                               Inr (s\<lparr>mem := m\<rparr>)))
                          else Inr s) (\<lambda>s.
                   bindE (block_trim_used s block adjust) (\<lambda>s. Inr (ptr, s)))))))"

end
