(* ===== verification/Tlsf_Cells.thy ===== *)
theory Tlsf_Cells
  imports Tlsf
begin

text \<open>
  Reading block headers as naturals. Every header field is an 8-byte cell at an address that is a
  multiple of 8, so two cells are equal or disjoint. \<open>W\<close> turns a natural into an address,
  \<open>rd\<close> reads the cell at a natural address, and \<open>hv\<close> is the size word of a block with its two
  flag bits. The lemmas say what each header routine of \<^verbatim>\<open>sys/mm/tlsf.c\<close> reads or writes in
  these terms.
\<close>

named_theorems tlsf_hdr \<open>header routines in terms of cells\<close>

definition W :: "nat \<Rightarrow> addr" where
  "W n = of_nat n"

definition rd :: "memory \<Rightarrow> nat \<Rightarrow> addr" where
  "rd m y = load64 m (W y)"

definition wr :: "memory \<Rightarrow> nat \<Rightarrow> addr \<Rightarrow> memory" where
  "wr m y v = store64 m (W y) v"

definition hv :: "nat \<Rightarrow> bool \<Rightarrow> bool \<Rightarrow> addr" where
  "hv n f p = W (n + of_bool f + 2 * of_bool p)"

definition cell :: "nat \<Rightarrow> bool" where
  "cell y \<longleftrightarrow> y mod 8 = 0 \<and> y < 2 ^ 64"

subsection \<open>Addresses\<close>

lemma W_0 [simp]: "W 0 = 0"
  by (simp add: W_def)

lemma W_numeral: "numeral k = W (numeral k)"
  by (simp add: W_def)

lemma W_add: "W x + W y = W (x + y)"
  by (simp add: W_def)

lemma W_add_numeral [simp]: "W x + numeral k = W (x + numeral k)"
  by (simp add: W_def)

lemma W_diff: "y \<le> x \<Longrightarrow> W x - W y = W (x - y)"
  by (simp add: W_def of_nat_diff)

lemma W_diff_numeral: "numeral k \<le> x \<Longrightarrow> W x - numeral k = W (x - numeral k)"
  by (simp add: W_def of_nat_diff)

lemma unat_W: "x < 2 ^ 64 \<Longrightarrow> unat (W x) = x"
  by (simp add: W_def unat_of_nat_64)

lemma W_eq_iff: "x < 2 ^ 64 \<Longrightarrow> y < 2 ^ 64 \<Longrightarrow> W x = W y \<longleftrightarrow> x = y"
  by (simp add: W_def of_nat_addr_eq_iff)

lemma W_eq_0_iff: "x < 2 ^ 64 \<Longrightarrow> W x = 0 \<longleftrightarrow> x = 0"
  using W_eq_iff [of x 0] by simp

lemma W_le_iff: "x < 2 ^ 64 \<Longrightarrow> y < 2 ^ 64 \<Longrightarrow> W x \<le> W y \<longleftrightarrow> x \<le> y"
  by (simp add: word_le_nat_alt unat_W)

lemma W_less_iff: "x < 2 ^ 64 \<Longrightarrow> y < 2 ^ 64 \<Longrightarrow> W x < W y \<longleftrightarrow> x < y"
  by (simp add: word_less_nat_alt unat_W)

subsection \<open>Cells\<close>

lemma cell_apart:
  assumes "cell x" and "cell y" and "x \<noteq> y"
  shows "x + 8 \<le> y \<or> y + 8 \<le> x"
proof -
  from assms(1,2) have "8 dvd x" and "8 dvd y" by (simp_all add: cell_def dvd_eq_mod_eq_0)
  then obtain p q where "x = 8 * p" and "y = 8 * q" by (auto elim!: dvdE)
  with assms(3) show ?thesis by auto
qed

lemma cell_end: "cell x \<Longrightarrow> x + 8 \<le> 2 ^ 64"
proof -
  assume "cell x"
  then have "8 dvd x" and "x < 8 * 2 ^ 61" by (simp_all add: cell_def dvd_eq_mod_eq_0)
  then obtain p where "x = 8 * p" and "x < 8 * 2 ^ 61" by (auto elim!: dvdE)
  then show ?thesis by simp
qed

lemma rd_wr: "cell x \<Longrightarrow> cell y \<Longrightarrow> rd (wr m x v) y = (if y = x then v else rd m y)"
proof (cases "y = x")
  case True
  then show ?thesis by (simp add: rd_def wr_def)
next
  case False
  assume "cell x" and "cell y"
  with False show ?thesis
    unfolding rd_def wr_def W_def by (simp only: if_False) (intro load64_store64_nat cell_end cell_apart)
qed

lemma wr_byte:
  assumes "cell x" and "i < x \<or> x + 8 \<le> i" and "i < 2 ^ 64"
  shows "wr m x v (W i) = m (W i)"
  unfolding wr_def W_def by (rule store64_nat_notin) (use assms cell_end in auto)

lemma cell_W8: "unat (W x) = x \<Longrightarrow> x + 8 < 2 ^ 64 \<Longrightarrow> W x + 8 = W (x + 8)"
  by simp

subsection \<open>The size word\<close>

lemma bit_hv:
  assumes "n mod 4 = 0"
  shows "bit (hv n f p) i \<longleftrightarrow> i < 64 \<and> (if i = 0 then f else if i = 1 then p else bit n i)"
proof -
  from assms obtain q where n: "n = 4 * q" by auto
  have b0: "bit (n + of_bool f + 2 * of_bool p) 0 = f" by (simp add: n bit_0)
  have "(n + of_bool f + 2 * of_bool p) div 2 = 2 * q + of_bool p" by (cases f) (simp_all add: n)
  then have b1: "bit (n + of_bool f + 2 * of_bool p) (Suc 0) = p" by (simp add: bit_Suc bit_0)
  have "(n + of_bool f + 2 * of_bool p) div 2 div 2 = q" by (cases f; cases p) (simp_all add: n)
  moreover have "n div 2 div 2 = q" by (simp add: n)
  ultimately have b2: "bit (n + of_bool f + 2 * of_bool p) (Suc (Suc j)) = bit n (Suc (Suc j))" for j
    by (simp add: bit_Suc)
  have nat: "bit (n + of_bool f + 2 * of_bool p) i = (if i = 0 then f else if i = 1 then p else bit n i)"
  proof (cases i)
    case 0
    then show ?thesis using b0 by simp
  next
    case (Suc k)
    then show ?thesis using b1 b2 by (cases k) simp_all
  qed
  show ?thesis unfolding hv_def W_def by (simp only: bit_of_nat_iff nat) simp
qed

lemma hv_size: "n mod 8 = 0 \<Longrightarrow> n mod 4 = (0::nat)"
  by presburger

lemma bit_W: "bit (W n) i \<longleftrightarrow> i < 64 \<and> bit n i"
  by (simp add: W_def bit_of_nat_iff)

lemma bit_1_64: "bit (1 :: addr) i \<longleftrightarrow> i = 0" and bit_2_64: "bit (2 :: addr) i \<longleftrightarrow> i = 1"
  and bit_3_64: "bit (3 :: addr) i \<longleftrightarrow> i = 0 \<or> i = 1"
proof -
  have "(2 :: addr) = push_bit 1 1" and "(3 :: addr) = mask 2" by (simp_all add: mask_eq_exp_minus_1)
  then show "bit (1 :: addr) i \<longleftrightarrow> i = 0" and "bit (2 :: addr) i \<longleftrightarrow> i = 1"
    and "bit (3 :: addr) i \<longleftrightarrow> i = 0 \<or> i = 1"
    by (simp_all only: bit_push_bit_iff bit_mask_iff bit_1_iff) (auto simp: less_Suc_eq numeral_2_eq_2)
qed

lemma bit_mult4: "n mod 4 = 0 \<Longrightarrow> bit (n::nat) 0 = False \<and> bit n (Suc 0) = False"
proof -
  assume "n mod 4 = 0"
  then obtain q where n: "n = 4 * q" by auto
  have "n div 2 = 2 * q" by (simp add: n)
  then show ?thesis by (simp add: n bit_0 bit_Suc)
qed

lemma hv_bits [tlsf_hdr]:
  assumes "n mod 8 = 0"
  shows "hv n f p AND NOT 3 = W n"
    and "hv n f p OR 1 = hv n True p" and "hv n f p AND NOT 1 = hv n False p"
    and "hv n f p OR 2 = hv n f True" and "hv n f p AND NOT 2 = hv n f False"
    and "W n OR (g AND 3) = hv n (bit g 0) (bit g 1)"
proof -
  from assms have n4: "n mod 4 = 0" by (rule hv_size)
  note facts = bit_hv [OF n4] bit_W bit_mult4 [OF n4] bit_1_64 bit_2_64 bit_3_64
  show "hv n f p AND NOT 3 = W n"
    by (rule bit_word_eqI) (simp only: bit_and_iff bit_not_iff facts, auto simp: facts)
  show "hv n f p OR 1 = hv n True p" and "hv n f p OR 2 = hv n f True"
    by (rule bit_word_eqI; simp only: bit_or_iff facts; auto simp: facts)+
  show "hv n f p AND NOT 1 = hv n False p" and "hv n f p AND NOT 2 = hv n f False"
    by (rule bit_word_eqI; simp only: bit_and_iff bit_not_iff facts; auto simp: facts)+
  show "W n OR (g AND 3) = hv n (bit g 0) (bit g 1)"
    by (rule bit_word_eqI) (simp only: bit_and_iff bit_or_iff facts, auto simp: facts)
qed

lemma hv_and_1: "n mod 8 = 0 \<Longrightarrow> hv n f p AND 1 = of_bool f"
proof (rule bit_word_eqI)
  fix i
  assume "n mod 8 = 0"
  then have "n mod 4 = 0" by (rule hv_size)
  then show "bit (hv n f p AND 1) i = bit (of_bool f :: addr) i"
    by (simp only: bit_and_iff bit_hv bit_1_64) (cases f; auto simp: bit_1_64)
qed

lemma hv_and_2: "n mod 8 = 0 \<Longrightarrow> hv n f p AND 2 = 2 * of_bool p"
proof (rule bit_word_eqI)
  fix i
  assume "n mod 8 = 0"
  then have "n mod 4 = 0" by (rule hv_size)
  then show "bit (hv n f p AND 2) i = bit (2 * of_bool p :: addr) i"
    by (cases p) (simp_all only: bit_and_iff bit_hv bit_2_64 of_bool_eq mult_1_right mult_zero_right, auto)
qed

subsection \<open>Header routines\<close>

lemma hdr_consts: "block_header_free_bit = 1" "block_header_prev_free_bit = 2"
  "block_header_overhead = 8"
  "block_start_offset = 16" "sizeof_block_header = 32" "block_size_min = 24"
  by (simp_all add: block_header_free_bit_def block_header_prev_free_bit_def
      block_header_overhead_def block_start_offset_def sizeof_block_header_def block_size_min_def)

lemma or_flag_bits: "(1 :: addr) OR 2 = 3"
  by simp

lemma fields_cell [tlsf_hdr]:
  "prev_phys_block m (W a) = rd m a" "hdr_size m (W a) = rd m (a + 8)"
  "next_free m (W a) = rd m (a + 16)" "prev_free m (W a) = rd m (a + 24)"
  "set_prev_phys_block m (W a) v = wr m a v" "set_hdr_size m (W a) v = wr m (a + 8) v"
  "set_next_free m (W a) v = wr m (a + 16) v" "set_prev_free m (W a) v = wr m (a + 24) v"
  by (simp_all add: prev_phys_block_def hdr_size_def next_free_def prev_free_def
      set_prev_phys_block_def set_hdr_size_def set_next_free_def set_prev_free_def rd_def wr_def)

lemma cast_int_of_bool: "cast_int (of_bool f) \<noteq> 0 \<longleftrightarrow> f" "cast_int (2 * of_bool f) \<noteq> 0 \<longleftrightarrow> f"
  by (cases f; simp add: cast_int_def)+

lemma flags_cell [tlsf_hdr]:
  assumes "rd m (a + 8) = hv n f p" and "n mod 8 = 0"
  shows "block_size m (W a) = W n"
    and "block_is_free m (W a) = f" and "block_is_prev_free m (W a) = p"
    and "block_set_free m (W a) = wr m (a + 8) (hv n True p)"
    and "block_set_used m (W a) = wr m (a + 8) (hv n False p)"
    and "block_set_prev_free m (W a) = wr m (a + 8) (hv n f True)"
    and "block_set_prev_used m (W a) = wr m (a + 8) (hv n f False)"
  using assms hv_bits [OF assms(2)]
  by (simp_all only: block_size_def block_is_free_def block_is_prev_free_def block_set_free_def
      block_set_used_def block_set_prev_free_def block_set_prev_used_def hdr_consts fields_cell
      hv_and_1 hv_and_2 cast_int_of_bool or_flag_bits)

lemma set_size_cell [tlsf_hdr]:
  assumes "n mod 8 = 0"
  shows "block_set_size m (W a) (W n) = wr m (a + 8) (hv n (bit (rd m (a + 8)) 0) (bit (rd m (a + 8)) 1))"
  by (simp only: block_set_size_def hdr_consts fields_cell Let_def or_flag_bits hv_bits [OF assms])

lemma bits_of_hv:
  assumes "n mod 8 = 0"
  shows "bit (hv n f p) 0 = f" and "bit (hv n f p) 1 = p"
  using bit_hv [OF hv_size [OF assms]] by simp_all

lemma ptr_cell [tlsf_hdr]:
  "block_to_ptr (W a) = W (a + 16)" "block_from_ptr (W (a + 16)) = W a" "offset_to_block (W x) (W y) = W (x + y)"
  by (simp_all add: block_to_ptr_def block_from_ptr_def offset_to_block_def hdr_consts W_add W_diff_numeral)

lemma next_cell [tlsf_hdr]:
  assumes "rd m (a + 8) = hv n f p" and "n mod 8 = 0" and "n \<noteq> 0" and "n < 2 ^ 64"
  shows "block_next m (W a) = Inr (W (a + 8 + n))" and "\<not> block_is_last m (W a)"
proof -
  from assms(2,3) have "8 \<le> n" by (metis mod_less not_le)
  show last: "\<not> block_is_last m (W a)"
    using assms flags_cell [OF assms(1,2)] by (simp add: block_is_last_def W_eq_0_iff)
  show "block_next m (W a) = Inr (W (a + 8 + n))"
    using last flags_cell [OF assms(1,2)] \<open>8 \<le> n\<close>
    by (simp add: block_next_def hdr_consts ptr_cell W_diff_numeral add.commute add.left_commute)
qed

lemma last_cell [tlsf_hdr]:
  assumes "rd m (a + 8) = hv 0 f p"
  shows "block_is_last m (W a)"
  using flags_cell [OF assms] by (simp add: block_is_last_def)

lemma align_ptr_cell [tlsf_hdr]:
  assumes "x mod 8 = 0" and "x + 8 \<le> 2 ^ 64"
  shows "align_ptr (W x) (of_int ALIGN_SIZE) = Inr (W x)"
proof -
  have u: "unat (W (x + 7)) = x + 7" using assms by (intro unat_W) simp
  have "(W x + 7) AND NOT 7 = W (x + 7) AND NOT (mask 3)" by (simp add: mask_eq_exp_minus_1)
  also have "\<dots> = of_nat (unat (W (x + 7) AND NOT (mask 3)))" by simp
  also have "\<dots> = of_nat (8 * ((x + 7) div 8))" by (simp only: unat_and_not_mask u) simp
  also have "8 * ((x + 7) div 8) = x" using assms(1) by auto
  finally show ?thesis by (simp add: align_ptr_def tlsf_consts W_def)
qed

end
