(* ===== verification/Tlsf_Inv.thy ===== *)
theory Tlsf_Inv
  imports Tlsf_Cells
begin

text \<open>
  The heap invariant of the TLSF allocator.

  A \<open>view\<close> is the abstract state of the heap: for the address of each block header its size, its
  two flags and the pool it lies in. \<open>view_ok\<close> says that the blocks of a view tile their pools;
  \<open>mem_ok\<close> that memory holds the headers of the view, \<open>lists_ok\<close> that the free lists and the two
  bitmaps index exactly the free blocks, apart from a set \<open>X\<close> of free blocks that an operation has
  taken off its list, \<open>ctl_ok\<close> that the control structure overlaps no block. \<open>heap_inv\<close> is what
  holds between the operations of the interface: nothing is off its list, and no two adjacent
  blocks are free (\<open>coalesced\<close>).
\<close>

subsection \<open>Views\<close>

record blk =
  bsz :: nat
  bfree :: bool
  bpf :: bool
  bpool :: "nat \<times> nat"

type_synonym view = "nat \<Rightarrow> blk option"

definition blk_ok :: "nat \<Rightarrow> blk \<Rightarrow> bool" where
  "blk_ok a b \<longleftrightarrow>
     a mod 8 = 0 \<and> 0 < a \<and> bsz b mod 8 = 0 \<and>
     fst (bpool b) \<le> a + 8 \<and> a + 16 + bsz b \<le> snd (bpool b) \<and>
     snd (bpool b) < 2 ^ 64 \<and> snd (bpool b) < fst (bpool b) + 16 + 2 ^ 32 \<and>
     (bsz b = 0 \<longrightarrow> \<not> bfree b) \<and> (bsz b \<noteq> 0 \<longrightarrow> 24 \<le> bsz b)"

definition apart :: "view \<Rightarrow> bool" where
  "apart B \<longleftrightarrow> (\<forall>a b a' b'. B a = Some b \<longrightarrow> B a' = Some b' \<longrightarrow> a < a' \<longrightarrow> a + 8 + bsz b \<le> a')"

definition linked :: "view \<Rightarrow> bool" where
  "linked B \<longleftrightarrow> (\<forall>a b. B a = Some b \<longrightarrow> bsz b \<noteq> 0 \<longrightarrow>
     (\<exists>b'. B (a + 8 + bsz b) = Some b' \<and> bpf b' = bfree b \<and> bpool b' = bpool b))"

definition flagged :: "view \<Rightarrow> bool" where
  "flagged B \<longleftrightarrow> (\<forall>a b. B a = Some b \<longrightarrow> bpf b \<longrightarrow>
     (\<exists>p q. B p = Some q \<and> bfree q \<and> p + 8 + bsz q = a))"

definition view_ok :: "view \<Rightarrow> bool" where
  "view_ok B \<longleftrightarrow> (\<forall>a b. B a = Some b \<longrightarrow> blk_ok a b) \<and> apart B \<and> linked B \<and> flagged B"

definition coalesced :: "view \<Rightarrow> bool" where
  "coalesced B \<longleftrightarrow> (\<forall>a b b'. B a = Some b \<longrightarrow> bfree b \<longrightarrow> B (a + 8 + bsz b) = Some b' \<longrightarrow> \<not> bfree b')"

subsection \<open>Memory\<close>

definition mem_ok :: "memory \<Rightarrow> view \<Rightarrow> bool" where
  "mem_ok m B \<longleftrightarrow> (\<forall>a b. B a = Some b \<longrightarrow>
     rd m (a + 8) = hv (bsz b) (bfree b) (bpf b) \<and> (bfree b \<longrightarrow> rd m (a + 8 + bsz b) = W a))"

definition ctl_ok :: "nat \<Rightarrow> tlsf \<Rightarrow> view \<Rightarrow> bool" where
  "ctl_ok c s B \<longleftrightarrow> control s = W c \<and> 0 < c \<and> c mod 8 = 0 \<and> c + 6536 < 2 ^ 64 \<and>
     (\<forall>a b. B a = Some b \<longrightarrow> c + 6536 \<le> a + 8 \<or> a + 16 + bsz b \<le> c)"

subsection \<open>Free lists\<close>

definition lhead :: "addr \<Rightarrow> nat list \<Rightarrow> addr" where
  "lhead q xs = (case xs of [] \<Rightarrow> q | x # _ \<Rightarrow> W x)"

definition ltail :: "addr \<Rightarrow> nat list \<Rightarrow> addr" where
  "ltail p xs = (if xs = [] then p else W (last xs))"

text \<open>
  \<open>dseg m p xs q\<close>: the blocks \<open>xs\<close> are doubly linked in memory, the first one back to \<open>p\<close>, the
  last one forward to \<open>q\<close>.
\<close>

primrec dseg :: "memory \<Rightarrow> addr \<Rightarrow> nat list \<Rightarrow> addr \<Rightarrow> bool" where
  "dseg m p [] q \<longleftrightarrow> True"
| "dseg m p (x # xs) q \<longleftrightarrow> rd m (x + 24) = p \<and> rd m (x + 16) = lhead q xs \<and> dseg m (W x) xs q"

type_synonym flists = "nat \<times> nat \<Rightarrow> nat list"

definition lists_ok :: "tlsf \<Rightarrow> view \<Rightarrow> flists \<Rightarrow> nat set \<Rightarrow> bool" where
  "lists_ok s B L X \<longleftrightarrow>
     length (sl_bitmap s) = 25 \<and> length (blocks s) = 25 \<and> (\<forall>i < 25. length (blocks s ! i) = 32) \<and>
     (\<forall>i. bit (fl_bitmap s) i \<longleftrightarrow> i < 25 \<and> sl_bitmap s ! i \<noteq> 0) \<and>
     (\<forall>i < 25. \<forall>j < 32.
        blocks s ! i ! j = lhead (control s) (L (i, j)) \<and>
        dseg (mem s) (control s) (L (i, j)) (control s) \<and>
        distinct (L (i, j)) \<and>
        (bit (sl_bitmap s ! i) j \<longleftrightarrow> L (i, j) \<noteq> []) \<and>
        (\<forall>a. a \<in> set (L (i, j)) \<longleftrightarrow>
           (\<exists>b. B a = Some b \<and> bfree b \<and> a \<notin> X \<and> map_ins (bsz b) = (i, j))))"

definition hinv :: "nat \<Rightarrow> tlsf \<Rightarrow> view \<Rightarrow> flists \<Rightarrow> nat set \<Rightarrow> bool" where
  "hinv c s B L X \<longleftrightarrow> view_ok B \<and> ctl_ok c s B \<and> mem_ok (mem s) B \<and> lists_ok s B L X"

definition heap_inv :: "nat \<Rightarrow> tlsf \<Rightarrow> view \<Rightarrow> flists \<Rightarrow> bool" where
  "heap_inv c s B L \<longleftrightarrow> hinv c s B L {} \<and> coalesced B"

subsection \<open>Facts on views\<close>

lemma view_blk: "view_ok B \<Longrightarrow> B a = Some b \<Longrightarrow> blk_ok a b"
  by (simp add: view_ok_def)

lemma view_apart: "view_ok B \<Longrightarrow> B a = Some b \<Longrightarrow> B a' = Some b' \<Longrightarrow> a < a' \<Longrightarrow> a + 8 + bsz b \<le> a'"
  unfolding view_ok_def apart_def by blast

lemma view_next:
  assumes "view_ok B" and "B a = Some b" and "bsz b \<noteq> 0"
  obtains b' where "B (a + 8 + bsz b) = Some b'" and "bpf b' = bfree b" and "bpool b' = bpool b"
  using assms unfolding view_ok_def linked_def by blast

lemma view_prev:
  assumes "view_ok B" and "B a = Some b" and "bpf b"
  obtains p q where "B p = Some q" and "bfree q" and "p + 8 + bsz q = a"
  using assms unfolding view_ok_def flagged_def by blast

lemma blk_free_size: "blk_ok a b \<Longrightarrow> bfree b \<Longrightarrow> 24 \<le> bsz b"
  by (auto simp: blk_ok_def)

text \<open>A block is smaller than its pool, hence small enough for the size mapping.\<close>

lemma view_size:
  assumes "view_ok B" and "B a = Some b"
  shows "bsz b < 2 ^ 32"
proof (cases "bsz b = 0")
  case False
  with assms obtain b' where b': "B (a + 8 + bsz b) = Some b'" "bpool b' = bpool b"
    by (metis view_next)
  from view_blk [OF assms(1) b'(1)] have "a + 8 + bsz b + 16 \<le> snd (bpool b)"
    using b'(2) by (simp add: blk_ok_def)
  moreover from view_blk [OF assms] have "fst (bpool b) \<le> a + 8" "snd (bpool b) < fst (bpool b) + 16 + 2 ^ 32"
    by (auto simp: blk_ok_def)
  ultimately show ?thesis by linarith
qed simp

lemma view_cells:
  assumes "view_ok B" and "B a = Some b"
  shows "cell (a + 8)" and "cell a" and "bfree b \<Longrightarrow> cell (a + 16)" and "bfree b \<Longrightarrow> cell (a + 24)"
    and "cell (a + 8 + bsz b)"
proof -
  from view_blk [OF assms] have ok: "blk_ok a b" .
  then have a8: "8 dvd a" and s8: "8 dvd bsz b" and e: "a + 16 + bsz b < 2 ^ 64"
    by (auto simp: blk_ok_def)
  have 8: "(8::nat) dvd 8" "(8::nat) dvd 16" "(8::nat) dvd 24" by simp_all
  show "cell (a + 8)" "cell a" "cell (a + 8 + bsz b)" "bfree b \<Longrightarrow> cell (a + 16)" "bfree b \<Longrightarrow> cell (a + 24)"
    unfolding cell_def using a8 s8 e 8 blk_free_size [OF ok]
    by (auto simp: dvd_add simp flip: dvd_eq_mod_eq_0)
qed

text \<open>Each cell belongs to one block.\<close>

definition owns :: "nat \<Rightarrow> blk \<Rightarrow> nat \<Rightarrow> bool" where
  "owns a b y \<longleftrightarrow> a + 8 \<le> y \<and> y < a + 16 + bsz b"

lemma owns_unique:
  assumes "view_ok B" and "B a = Some b" and "B a' = Some b'" and "owns a b y" and "owns a' b' y" 
    and "cell y"
  shows "a = a'"
proof (rule ccontr)
  have *: False if "x < x'" "B x = Some v" "B x' = Some v'" "owns x v y" "owns x' v' y" for x x' v v'
    using view_apart [OF assms(1) that(2,3,1)] that(4,5) by (auto simp: owns_def)
  assume "a \<noteq> a'"
  then consider "a < a'" | "a' < a" by linarith
  then show False using * assms by cases blast+
qed

lemma owns_own: "blk_ok a b \<Longrightarrow> owns a b (a + 8)" "blk_ok a b \<Longrightarrow> owns a b (a + 8 + bsz b)"
  "blk_ok a b \<Longrightarrow> bfree b \<Longrightarrow> owns a b (a + 16)" "blk_ok a b \<Longrightarrow> bfree b \<Longrightarrow> owns a b (a + 24)"
  by (auto simp: owns_def dest: blk_free_size)

end
