(* ===== verification/Tlsf_Lists.thy ===== *)
theory Tlsf_Lists
  imports Tlsf_Inv
begin

text \<open>
  The segregated free lists: what \<open>remove_free_block\<close> and \<open>insert_free_block\<close> do to the
  doubly linked lists, the table of heads and the two bitmaps, in terms of the invariant.
\<close>

subsection \<open>Doubly linked segments\<close>

definition lhn :: "nat \<Rightarrow> nat list \<Rightarrow> nat" where
  "lhn c xs = (case xs of [] \<Rightarrow> c | x # _ \<Rightarrow> x)"

definition ltn :: "nat \<Rightarrow> nat list \<Rightarrow> nat" where
  "ltn c xs = (if xs = [] then c else last xs)"

lemma lhead_W: "lhead (W c) xs = W (lhn c xs)"
  by (simp add: lhead_def lhn_def split: list.split)

lemma ltail_W: "ltail (W c) xs = W (ltn c xs)"
  by (simp add: ltail_def ltn_def)

lemma lhead_append: "lhead q (xs @ ys) = lhead (lhead q ys) xs"
  by (cases xs) (simp_all add: lhead_def)

lemma ltail_Cons: "ltail p (x # xs) = ltail (W x) xs"
  by (simp add: ltail_def)

lemma dseg_append: "dseg m p (xs @ ys) q \<longleftrightarrow> dseg m p xs (lhead q ys) \<and> dseg m (ltail p xs) ys q"
  by (induction xs arbitrary: p) (simp_all add: ltail_Cons lhead_append, simp add: ltail_def)

lemma dseg_cong:
  assumes "dseg m p xs q" and "\<And>x. x \<in> set xs \<Longrightarrow> rd m' (x + 16) = rd m (x + 16)"
    and "\<And>x. x \<in> set xs \<Longrightarrow> rd m' (x + 24) = rd m (x + 24)"
  shows "dseg m' p xs q"
  using assms by (induction xs arbitrary: p) auto

text \<open>Only the last element's forward link, or only the first element's backward link, changes.\<close>

lemma dseg_new_end:
  assumes "dseg m p xs q" and "distinct xs"
    and "\<And>x. x \<in> set xs \<Longrightarrow> rd m' (x + 24) = rd m (x + 24)"
    and "\<And>x. x \<in> set xs \<Longrightarrow> rd m' (x + 16) = (if x = last xs then q' else rd m (x + 16))"
  shows "dseg m' p xs q'"
  using assms
proof (induction xs arbitrary: p)
  case (Cons x xs)
  show ?case
  proof (cases xs)
    case Nil
    with Cons.prems show ?thesis by (simp add: lhead_def)
  next
    case (Cons y ys)
    with Cons.prems(2) have "x \<noteq> last xs" by auto
    moreover have "dseg m' (W x) xs q'"
      using Cons Cons.prems by (intro Cons.IH) auto
    ultimately show ?thesis using Cons Cons.prems by (auto simp: lhead_def)
  qed
qed simp

lemma dseg_new_start:
  assumes "dseg m p xs q" and "distinct xs"
    and "\<And>x. x \<in> set xs \<Longrightarrow> rd m' (x + 16) = rd m (x + 16)"
    and "\<And>x. x \<in> set xs \<Longrightarrow> rd m' (x + 24) = (if x = hd xs then p' else rd m (x + 24))"
  shows "dseg m' p' xs q"
proof (cases xs)
  case (Cons x ys)
  have "dseg m' (W x) ys q"
    by (rule dseg_cong [of m]) (use assms Cons in auto)
  with assms Cons show ?thesis by auto
qed simp

text \<open>
  Nodes are addresses a list can link to: the control structure and blocks whose link cells do
  not overlap. The links of different nodes are different cells.
\<close>

definition spaced :: "nat set \<Rightarrow> bool" where
  "spaced N \<longleftrightarrow> (\<forall>x \<in> N. cell (x + 16) \<and> cell (x + 24) \<and> (\<forall>y \<in> N. x \<noteq> y + 8))"

lemma spacedD: "spaced N \<Longrightarrow> x \<in> N \<Longrightarrow> y \<in> N \<Longrightarrow> x + 16 \<noteq> y + 24"
  "spaced N \<Longrightarrow> x \<in> N \<Longrightarrow> cell (x + 16)" "spaced N \<Longrightarrow> x \<in> N \<Longrightarrow> cell (x + 24)"
proof -
  assume sp: "spaced N" and x: "x \<in> N" and "y \<in> N"
  then have "x \<noteq> y + 8" unfolding spaced_def by blast
  then show "x + 16 \<noteq> y + 24" by simp
qed (auto simp: spaced_def)

lemma dseg_remove:
  assumes sp: "spaced N" and sub: "c \<in> N" "set (xs @ a # ys) \<subseteq> N" "c \<notin> set (xs @ a # ys)"
    and d: "distinct (xs @ a # ys)" "dseg m (W c) (xs @ a # ys) (W c)"
    and m': "m' = wr (wr m (lhn c ys + 24) (W (ltn c xs))) (ltn c xs + 16) (W (lhn c ys))"
  shows "dseg m' (W c) (xs @ ys) (W c)"
proof -
  let ?p = "ltn c xs" and ?n = "lhn c ys"
  have pn: "?p \<in> N" "?n \<in> N"
    using sub by (auto simp: ltn_def lhn_def split: list.split)
  note sp = spacedD [OF sp]
  have r: "rd m' y = (if y = ?p + 16 then W ?n else if y = ?n + 24 then W ?p else rd m y)" if "cell y" for y
    unfolding m' using that pn sp by (simp add: rd_wr)
  have r16: "rd m' (x + 16) = (if x = ?p then W ?n else rd m (x + 16))" if "x \<in> N" for x
    using r [of "x + 16"] sp that pn by auto
  have r24: "rd m' (x + 24) = (if x = ?n then W ?p else rd m (x + 24))" if "x \<in> N" for x
    using r [of "x + 24"] sp(1) [OF pn(1) that] sp(3) [OF that] by auto
  have seg: "dseg m (W c) xs (W a)" "dseg m (W a) ys (W c)"
    using d(2) by (simp_all add: dseg_append lhead_def)
  have x: "x \<noteq> ?n \<and> (x = ?p \<longleftrightarrow> x = last xs)" if "x \<in> set xs" for x
    using that sub d(1) by (auto simp: ltn_def lhn_def split: list.split)
  have y: "x \<noteq> ?p \<and> (x = ?n \<longleftrightarrow> x = hd ys)" if "x \<in> set ys" for x
    using that sub d(1) last_in_set [of xs] by (auto simp: disjoint_iff ltn_def lhn_def split: list.split)
  have "dseg m' (W c) xs (W ?n)"
    by (rule dseg_new_end [OF seg(1)]) (use d(1) sub r16 r24 x in \<open>auto\<close>)
  moreover have "dseg m' (W ?p) ys (W c)"
    by (rule dseg_new_start [OF seg(2)]) (use d(1) sub r16 r24 y in \<open>auto\<close>)
  ultimately show ?thesis by (simp add: dseg_append lhead_W ltail_W)
qed

lemma dseg_insert:
  assumes sp: "spaced N" and sub: "c \<in> N" "set (a # xs) \<subseteq> N" "c \<notin> set (a # xs)"
    and d: "distinct (a # xs)" "dseg m (W c) xs (W c)"
    and m': "m' = wr (wr (wr m (a + 16) (W (lhn c xs))) (a + 24) (W c)) (lhn c xs + 24) (W a)"
  shows "dseg m' (W c) (a # xs) (W c)"
proof -
  let ?n = "lhn c xs"
  have n: "?n \<in> N" "?n \<noteq> a" and a: "a \<in> N"
    using sub d by (auto simp: lhn_def split: list.split)
  note sp = spacedD [OF sp]
  have r: "rd m' y = (if y = ?n + 24 then W a else if y = a + 24 then W c else if y = a + 16 then W ?n else rd m y)"
    if "cell y" for y
    unfolding m' using that n a sp by (simp add: rd_wr)
  have r16: "rd m' (x + 16) = (if x = a then W ?n else rd m (x + 16))" if "x \<in> N" for x
    using r [of "x + 16"] sp that n a by auto
  have r24: "rd m' (x + 24) = (if x = ?n then W a else if x = a then W c else rd m (x + 24))" if "x \<in> N" for x
    using r [of "x + 24"] sp(1) [OF a that] sp(3) [OF that] n by auto
  have y: "x \<noteq> a \<and> (x = ?n \<longleftrightarrow> x = hd xs)" if "x \<in> set xs" for x
    using that sub d(1) by (auto simp: lhn_def split: list.split)
  have "dseg m' (W a) xs (W c)"
    by (rule dseg_new_start [OF d(2)]) (use d(1) sub r16 r24 y in \<open>auto\<close>)
  then show ?thesis using r16 [OF a] r24 [OF a] n by (simp add: lhead_W)
qed

subsection \<open>Nodes of a heap\<close>

definition nodes :: "nat \<Rightarrow> view \<Rightarrow> nat set" where
  "nodes c B = insert c {a. \<exists>b. B a = Some b \<and> bfree b}"

lemma ctl_cells: "ctl_ok c s B \<Longrightarrow> cell (c + 16)" "ctl_ok c s B \<Longrightarrow> cell (c + 24)"
  by (auto simp: ctl_ok_def cell_def)

lemma ctl_notin: "ctl_ok c s B \<Longrightarrow> B c = None"
proof (rule ccontr)
  assume k: "ctl_ok c s B" and "B c \<noteq> None"
  then obtain b where "B c = Some b" by blast
  with k have "c + 6536 \<le> c + 8 \<or> c + 16 + bsz b \<le> c" unfolding ctl_ok_def by blast
  then show False by simp
qed

lemma nodes_spaced:
  assumes v: "view_ok B" and k: "ctl_ok c s B"
  shows "spaced (nodes c B)"
proof -
  have free: "24 \<le> bsz b" if "B a = Some b" "bfree b" for a b
    using view_blk [OF v that(1)] that(2) by (rule blk_free_size)
  have ctl: "c + 6536 \<le> a + 8 \<or> a + 16 + bsz b \<le> c" if "B a = Some b" for a b
    using k that by (auto simp: ctl_ok_def)
  have "x \<noteq> y + 8" if "x \<in> nodes c B" "y \<in> nodes c B" for x y
  proof
    assume e: "x = y + 8"
    show False
    proof (cases "x = c \<or> y = c")
      case True
      with that e obtain z b where "B z = Some b" "bfree b" "c = z + 8 \<or> z = c + 8" by (auto simp: nodes_def)
      with ctl [of z b] free [of z b] show False by auto
    next
      case False
      with that obtain u w where "B y = Some u" "bfree u" "B x = Some w" by (auto simp: nodes_def)
      with view_apart [OF v, of y u x w] free [of y u] e show False by simp
    qed
  qed
  moreover have "cell (x + 16)" "cell (x + 24)" if "x \<in> nodes c B" for x
    using that ctl_cells [OF k] view_cells [OF v] by (auto simp: nodes_def)
  ultimately show ?thesis unfolding spaced_def by blast
qed

text \<open>Link cells of nodes hold neither size words nor back pointers.\<close>

lemma mem_ok_links:
  assumes v: "view_ok B" and k: "ctl_ok c s B" and mo: "mem_ok m B"
    and same: "\<And>y. cell y \<Longrightarrow> (\<And>x. x \<in> nodes c B \<Longrightarrow> y \<noteq> x + 16 \<and> y \<noteq> x + 24) \<Longrightarrow> rd m' y = rd m y"
  shows "mem_ok m' B"
proof -
  have ctl: "c + 6536 \<le> a + 8 \<or> a + 16 + bsz b \<le> c" if "B a = Some b" for a b
    using k that by (auto simp: ctl_ok_def)
  have eq: "rd m' y = rd m y" if "B a = Some b" "y = a + 8 \<or> y = a + 8 + bsz b \<and> bfree b" for a b y
  proof (rule same)
    show cy: "cell y" using that view_cells [OF v that(1)] by auto
    fix x assume x: "x \<in> nodes c B"
    show "y \<noteq> x + 16 \<and> y \<noteq> x + 24"
    proof (cases "x = c")
      case True
      with ctl [OF that(1)] that(2) show ?thesis by auto
    next
      case False
      with x obtain w where w: "B x = Some w" "bfree w" by (auto simp: nodes_def)
      have "24 \<le> bsz w" using view_blk [OF v w(1)] w(2) by (rule blk_free_size)
      moreover have "x = a" if "owns x w y"
        using owns_unique [OF v w(1) \<open>B a = Some b\<close> that _ cy]
          owns_own(1,2) [OF view_blk [OF v \<open>B a = Some b\<close>]] \<open>y = a + 8 \<or> _\<close> by auto
      ultimately show ?thesis
        using that w by (auto simp: owns_def)
    qed
  qed
  show ?thesis
    unfolding mem_ok_def
  proof (intro allI impI)
    fix a b assume B: "B a = Some b"
    show "rd m' (a + 8) = hv (bsz b) (bfree b) (bpf b) \<and> (bfree b \<longrightarrow> rd m' (a + 8 + bsz b) = W a)"
      using mo B eq [OF B] unfolding mem_ok_def by auto
  qed
qed

subsection \<open>What an operation must not touch\<close>

text \<open>
  \<open>region B\<close> is the memory of the blocks of a view, \<open>pay c B\<close> the bytes that belong to the allocator's
  clients or to the rest of the kernel: the payload of the used blocks, and everything outside
  the pools and the control structure.
\<close>

definition region :: "view \<Rightarrow> nat set" where
  "region B = {y. \<exists>a b. B a = Some b \<and> a + 8 \<le> y \<and> y < a + 16 + bsz b}"

definition pay :: "nat \<Rightarrow> view \<Rightarrow> nat set" where
  "pay c B = {y. \<exists>a b. B a = Some b \<and> \<not> bfree b \<and> a + 16 \<le> y \<and> y < a + 16 + bsz b} \<union>
     {y. y < 2 ^ 64 \<and> y \<notin> region B \<and> (y < c \<or> c + 6536 \<le> y)}"

definition same_pay :: "nat \<Rightarrow> view \<Rightarrow> memory \<Rightarrow> memory \<Rightarrow> bool" where
  "same_pay c B m m' \<longleftrightarrow> (\<forall>y \<in> pay c B. m' (W y) = m (W y))"

lemma payE:
  assumes "y \<in> pay c B"
  obtains (used) a b where "B a = Some b" and "\<not> bfree b" and "a + 16 \<le> y" and "y < a + 16 + bsz b"
    | (outside) "y < 2 ^ 64" and "y \<notin> region B" and "y < c \<or> c + 6536 \<le> y"
  using assms unfolding pay_def by blast

lemma same_pay_refl [simp]: "same_pay c B m m"
  by (simp add: same_pay_def)

lemma same_pay_trans: "same_pay c B m m' \<Longrightarrow> same_pay c B m' m'' \<Longrightarrow> same_pay c B m m''"
  by (simp add: same_pay_def)

lemma pay_bound: "view_ok B \<Longrightarrow> y \<in> pay c B \<Longrightarrow> y < 2 ^ 64"
proof (erule payE)
  fix a b assume "view_ok B" "B a = Some b" "y < a + 16 + bsz b"
  with view_blk [OF this(1,2)] show "y < 2 ^ 64" by (auto simp: blk_ok_def)
qed

lemma same_pay_wr:
  assumes v: "view_ok B" and x: "cell x" and out: "\<And>y. y \<in> pay c B \<Longrightarrow> y < x \<or> x + 8 \<le> y"
  shows "same_pay c B m (wr m x w)"
  unfolding same_pay_def by (intro ballI wr_byte x out pay_bound [OF v])

lemma same_pay_node:
  assumes v: "view_ok B" and k: "ctl_ok c s B" and x: "x \<in> nodes c B"
  shows "same_pay c B m (wr m (x + 16) w)" and "same_pay c B m (wr m (x + 24) w)"
proof -
  have "y < x + 16 \<or> x + 32 \<le> y" if "y \<in> pay c B" for y
    using that
  proof (cases rule: payE)
    case (used a b)
    show ?thesis
    proof (cases "x = c")
      case True
      from k used(1) have "c + 6536 \<le> a + 8 \<or> a + 16 + bsz b \<le> c" unfolding ctl_ok_def by blast
      with True used show ?thesis by auto
    next
      case False
      with x obtain u where u: "B x = Some u" "bfree u" by (auto simp: nodes_def)
      then have "24 \<le> bsz u" "x \<noteq> a" using view_blk [OF v u(1)] blk_free_size used by auto
      with view_apart [OF v u(1) used(1)] view_apart [OF v used(1) u(1)] used show ?thesis by linarith
    qed
  next
    case outside
    show ?thesis
    proof (cases "x = c")
      case False
      with x obtain u where u: "B x = Some u" "bfree u" by (auto simp: nodes_def)
      then have "24 \<le> bsz u" using view_blk [OF v u(1)] blk_free_size by auto
      moreover have "\<not> (x + 8 \<le> y \<and> y < x + 16 + bsz u)" using outside(2) u(1) unfolding region_def by blast
      ultimately show ?thesis by linarith
    qed (use outside in auto)
  qed
  then show "same_pay c B m (wr m (x + 16) w)" and "same_pay c B m (wr m (x + 24) w)"
    using spacedD(2,3) [OF nodes_spaced [OF v k] x] by (intro same_pay_wr [OF v]; fastforce)+
qed

subsection \<open>The tables\<close>

definition tab_ok :: "nat \<Rightarrow> tlsf \<Rightarrow> flists \<Rightarrow> bool" where
  "tab_ok c s L \<longleftrightarrow>
     length (sl_bitmap s) = 25 \<and> length (blocks s) = 25 \<and> (\<forall>i < 25. length (blocks s ! i) = 32) \<and>
     (\<forall>i. bit (fl_bitmap s) i \<longleftrightarrow> i < 25 \<and> sl_bitmap s ! i \<noteq> 0) \<and>
     (\<forall>i < 25. \<forall>j < 32. blocks s ! i ! j = W (lhn c (L (i, j))) \<and>
        (bit (sl_bitmap s ! i) j \<longleftrightarrow> L (i, j) \<noteq> []))"

definition segs_ok :: "nat \<Rightarrow> memory \<Rightarrow> view \<Rightarrow> flists \<Rightarrow> nat set \<Rightarrow> bool" where
  "segs_ok c m B L X \<longleftrightarrow>
     (\<forall>i < 25. \<forall>j < 32. dseg m (W c) (L (i, j)) (W c) \<and> distinct (L (i, j)) \<and>
        (\<forall>a. a \<in> set (L (i, j)) \<longleftrightarrow>
           (\<exists>b. B a = Some b \<and> bfree b \<and> a \<notin> X \<and> map_ins (bsz b) = (i, j))))"

lemma lists_ok_iff: "control s = W c \<Longrightarrow> lists_ok s B L X \<longleftrightarrow> tab_ok c s L \<and> segs_ok c (mem s) B L X"
  unfolding lists_ok_def tab_ok_def segs_ok_def by (auto simp: lhead_W)

lemma hinv_iff: "hinv c s B L X \<longleftrightarrow>
    view_ok B \<and> ctl_ok c s B \<and> mem_ok (mem s) B \<and> tab_ok c s L \<and> segs_ok c (mem s) B L X"
  unfolding hinv_def using lists_ok_iff by (auto simp: ctl_ok_def)

lemma tab_ok_update:
  assumes "tab_ok c s L" and "length (sl_bitmap s') = 25" and "length (blocks s') = 25"
    and "\<And>i. i < 25 \<Longrightarrow> length (blocks s' ! i) = 32"
    and "\<And>i. bit (fl_bitmap s') i \<longleftrightarrow> i < 25 \<and> sl_bitmap s' ! i \<noteq> 0"
    and "\<And>i j. i < 25 \<Longrightarrow> j < 32 \<Longrightarrow>
      blocks s' ! i ! j = (if (i, j) = k then W (lhn c xs) else blocks s ! i ! j)"
    and "\<And>i j. i < 25 \<Longrightarrow> j < 32 \<Longrightarrow>
      bit (sl_bitmap s' ! i) j = (if (i, j) = k then xs \<noteq> [] else bit (sl_bitmap s ! i) j)"
  shows "tab_ok c s' (L(k := xs))"
  using assms unfolding tab_ok_def by auto

lemma word_eq_0_bits: "(w :: uint32_t) = 0 \<longleftrightarrow> (\<forall>j < 32. \<not> bit w j)"
proof
  assume "\<forall>j < 32. \<not> bit w j"
  then show "w = 0" by (intro bit_word_eqI) auto
qed simp

lemma bit_set: "bit ((w :: uint32_t) OR push_bit i 1) j \<longleftrightarrow> bit w j \<or> i = j \<and> j < 32"
  and bit_clear: "bit ((w :: uint32_t) AND NOT (push_bit i 1)) j \<longleftrightarrow> bit w j \<and> i \<noteq> j"
  by (auto simp: bit_simps dest: bit_imp_le_length)

lemma bit_set_power [simp]: "bit ((w :: uint32_t) OR 2 ^ i) j \<longleftrightarrow> bit w j \<or> i = j \<and> j < 32"
  and bit_clear_power [simp]: "bit ((w :: uint32_t) AND NOT (2 ^ i)) j \<longleftrightarrow> bit w j \<and> i \<noteq> j"
  using bit_set [of w i j] bit_clear [of w i j] by simp_all

lemma or_nonzero: "i < 32 \<Longrightarrow> (w :: uint32_t) OR push_bit i 1 \<noteq> 0"
  unfolding word_eq_0_bits bit_set by blast

lemma get_set_block:
  assumes "tab_ok c s L" and "i < 25" and "j < 32"
  shows "get_block s (int i) (int j) = Inr (W (lhn c (L (i, j))))"
    and "set_block s (int i) (int j) v = Inr (s\<lparr>blocks := (blocks s)[i := (blocks s ! i)[j := v]]\<rparr>)"
    and "array_get (sl_bitmap s) (int i) = Inr (sl_bitmap s ! i)"
    and "array_set (sl_bitmap s) (int i) w = Inr ((sl_bitmap s)[i := w])"
  using assms by (simp_all add: tab_ok_def get_block_def set_block_def)

text \<open>The part of \<open>remove_free_block\<close> that updates the tables.\<close>

definition drop_head :: "tlsf \<Rightarrow> addr \<Rightarrow> addr \<Rightarrow> int \<Rightarrow> int \<Rightarrow> tlsf res" where
  "drop_head s block nxt fl sl = bindE (get_block s fl sl) (\<lambda>head.
     if head = block
     then bindE (set_block s fl sl nxt) (\<lambda>s.
          if nxt = control s
          then bindE (array_get (sl_bitmap s) fl) (\<lambda>bits.
               let bits = bits AND NOT (push_bit (nat sl) 1)
               in bindE (array_set (sl_bitmap s) fl bits) (\<lambda>sl_bits.
                  let s = s\<lparr>sl_bitmap := sl_bits\<rparr>
                  in if bits = 0
                     then Inr (s\<lparr>fl_bitmap := fl_bitmap s AND NOT (push_bit (nat fl) 1)\<rparr>)
                     else Inr s))
          else Inr s)
     else Inr s)"

lemma remove_free_block_alt:
  "remove_free_block s block fl sl =
     (let prev = prev_free (mem s) block;
          nxt = next_free (mem s) block
      in bindE (assertE (prev \<noteq> 0)) (\<lambda>_.
         bindE (assertE (nxt \<noteq> 0)) (\<lambda>_.
         drop_head (s\<lparr>mem := set_next_free (set_prev_free (mem s) nxt prev) prev nxt\<rparr>) block nxt fl sl)))"
  by (simp add: remove_free_block_def drop_head_def Let_def)

lemma drop_head_tables:
  assumes t: "tab_ok c s L" and i: "i < 25" "j < 32" and l: "L (i, j) = xs @ a # ys"
    and c: "c < 2 ^ 64" "c \<notin> set (xs @ a # ys)" and lt: "\<forall>x \<in> set (xs @ a # ys). x < 2 ^ 64"
    and d: "distinct (xs @ a # ys)" and n: "nxt = W (lhn c ys)" and cs: "control s = W c"
  shows "\<exists>s'. drop_head s (W a) nxt (int i) (int j) = Inr s' \<and> mem s' = mem s \<and> control s' = control s \<and>
       tab_ok c s' (L((i, j) := xs @ ys))"
proof -
  note g = get_set_block [OF t i]
  have head: "W (lhn c (L (i, j))) = W a \<longleftrightarrow> xs = []"
    using l lt d by (cases xs) (auto simp: lhn_def W_eq_iff)
  have nc: "nxt = W c \<longleftrightarrow> ys = []"
    using n c lt by (cases ys) (auto simp: lhn_def W_eq_iff)
  have len: "length (sl_bitmap s) = 25" "length (blocks s) = 25" "\<And>i. i < 25 \<Longrightarrow> length (blocks s ! i) = 32"
    and fl: "\<And>i. bit (fl_bitmap s) i \<longleftrightarrow> i < 25 \<and> sl_bitmap s ! i \<noteq> 0"
    and hd: "blocks s ! i ! j = W (lhn c (L (i, j)))" and sl: "bit (sl_bitmap s ! i) j"
    using t i l unfolding tab_ok_def by auto
  show ?thesis
  proof (cases "xs = []")
    case False
    then have "lhn c (xs @ ys) = lhn c (L (i, j))" using l by (cases xs) (auto simp: lhn_def)
    then have "tab_ok c s (L((i, j) := xs @ ys))"
      by (intro tab_ok_update [OF t]) (use len fl hd sl l False in auto)
    then show ?thesis using g head False by (simp add: drop_head_def)
  next
    case xs: True
    let ?s = "s\<lparr>blocks := (blocks s)[i := (blocks s ! i)[j := nxt]]\<rparr>"
    show ?thesis
    proof (cases "ys = []")
      case False
      have "tab_ok c ?s (L((i, j) := xs @ ys))"
        by (rule tab_ok_update [OF t]) (use len fl hd sl l False xs n i in \<open>auto simp: nth_list_update\<close>)
      then show ?thesis using g head xs nc False cs by (simp add: drop_head_def)
    next
      case ys: True
      let ?b = "sl_bitmap s ! i AND NOT (push_bit j 1)"
      let ?s1 = "?s\<lparr>sl_bitmap := (sl_bitmap s)[i := ?b]\<rparr>"
      define s' where
        "s' = (if ?b = 0 then ?s1\<lparr>fl_bitmap := fl_bitmap s AND NOT (push_bit i 1)\<rparr> else ?s1)"
      have f: "blocks s' = blocks ?s" "sl_bitmap s' = (sl_bitmap s)[i := ?b]" "mem s' = mem s"
          "control s' = control s" "fl_bitmap s' = (if ?b = 0 then fl_bitmap s AND NOT (push_bit i 1) else fl_bitmap s)"
        by (simp_all add: s'_def)
      have b: "bit (sl_bitmap s' ! i') j' = (if (i', j') = (i, j) then False else bit (sl_bitmap s ! i') j')"
        if "i' < 25" for i' j'
        unfolding f using that len i by (simp only: nth_list_update bit_clear) auto
      have nz: "sl_bitmap s ! i \<noteq> 0" using sl by auto
      have fb: "bit (fl_bitmap s') i' \<longleftrightarrow> i' < 25 \<and> sl_bitmap s' ! i' \<noteq> 0" for i'
        unfolding f using len i nz fl [of i'] by (cases "?b = 0"; cases "i' = i") (simp_all only: bit_clear nth_list_update_eq nth_list_update_neq if_True if_False, simp_all)
      have "tab_ok c s' (L((i, j) := xs @ ys))"
        by (rule tab_ok_update [OF t _ _ _ fb])
          (use len b f hd ys xs n i in \<open>simp_all add: nth_list_update\<close>)
      moreover have "drop_head s (W a) nxt (int i) (int j) = Inr s'"
        using g head xs nc ys cs len i
        by (simp add: drop_head_def Let_def array_get_nat array_set_nat s'_def)
      ultimately show ?thesis using f by blast
    qed
  qed
qed

subsection \<open>Removal from a free list\<close>

lemma segs_member: "segs_ok c m B L X \<Longrightarrow> i < 25 \<Longrightarrow> j < 32 \<Longrightarrow>
    a \<in> set (L (i, j)) \<longleftrightarrow> (\<exists>b. B a = Some b \<and> bfree b \<and> a \<notin> X \<and> map_ins (bsz b) = (i, j))"
  by (simp add: segs_ok_def)

lemma segs_dseg:
  assumes "segs_ok c m B L X" and "i < 25" and "j < 32"
  shows "dseg m (W c) (L (i, j)) (W c)" and "distinct (L (i, j))"
  using assms by (simp_all add: segs_ok_def)

lemma segs_nodes: "segs_ok c m B L X \<Longrightarrow> i < 25 \<Longrightarrow> j < 32 \<Longrightarrow> set (L (i, j)) \<subseteq> nodes c B"
  by (auto simp: segs_member nodes_def)

lemma ctl_bound: "ctl_ok c s B \<Longrightarrow> 0 < c \<and> c < 2 ^ 64"
  by (auto simp: ctl_ok_def)

lemma view_addr: "view_ok B \<Longrightarrow> B a = Some b \<Longrightarrow> 0 < a \<and> a < 2 ^ 64"
  using view_blk [of B a b] by (auto simp: blk_ok_def)

lemma node_addr: "view_ok B \<Longrightarrow> ctl_ok c s B \<Longrightarrow> x \<in> nodes c B \<Longrightarrow> 0 < x \<and> x < 2 ^ 64"
  using ctl_bound view_addr by (auto simp: nodes_def)

text \<open>Writing links of nodes that are in no other list keeps the other lists.\<close>

lemma segs_update:
  assumes sg: "segs_ok c m B L X" and i: "i < 25" "j < 32" and sp: "spaced (nodes c B)"
    and N: "N \<subseteq> nodes c B" "\<And>x k l. x \<in> N \<Longrightarrow> (k, l) \<noteq> (i, j) \<Longrightarrow> k < 25 \<Longrightarrow> l < 32 \<Longrightarrow> x \<notin> set (L (k, l))"
    and same: "\<And>y. cell y \<Longrightarrow> (\<And>x. x \<in> N \<Longrightarrow> y \<noteq> x + 16 \<and> y \<noteq> x + 24) \<Longrightarrow> rd m' y = rd m y"
    and new: "dseg m' (W c) xs (W c)" "distinct xs"
    and mem: "\<And>a. a \<in> set xs \<longleftrightarrow> (\<exists>b. B a = Some b \<and> bfree b \<and> a \<notin> X' \<and> map_ins (bsz b) = (i, j))"
    and X': "\<And>a b k. (a \<in> X') \<noteq> (a \<in> X) \<Longrightarrow> B a = Some b \<Longrightarrow> map_ins (bsz b) = (i, j)"
  shows "segs_ok c m' B (L((i, j) := xs)) X'"
  unfolding segs_ok_def
proof (intro allI impI)
  fix k l :: nat assume k: "k < 25" "l < 32"
  let ?L = "L((i, j) := xs)"
  show "dseg m' (W c) (?L (k, l)) (W c) \<and> distinct (?L (k, l)) \<and>
    (\<forall>a. a \<in> set (?L (k, l)) \<longleftrightarrow> (\<exists>b. B a = Some b \<and> bfree b \<and> a \<notin> X' \<and> map_ins (bsz b) = (k, l)))"
  proof (cases "(k, l) = (i, j)")
    case True
    with new mem show ?thesis by simp
  next
    case False
    have r: "rd m' (a + 16) = rd m (a + 16) \<and> rd m' (a + 24) = rd m (a + 24)" if a: "a \<in> set (L (k, l))" for a
    proof -
      have aN: "a \<in> nodes c B" using segs_nodes [OF sg k] a by blast
      have "a \<noteq> x \<and> a + 16 \<noteq> x + 24 \<and> x + 16 \<noteq> a + 24" if "x \<in> N" for x
        using N(2) [OF that False k] a spacedD(1) [OF sp] aN N(1) that by blast
      then show ?thesis
        using same [of "a + 16"] same [of "a + 24"] spacedD(2,3) [OF sp aN] by (metis add_right_cancel)
    qed
    have "dseg m' (W c) (L (k, l)) (W c)"
      by (rule dseg_cong [OF segs_dseg(1) [OF sg k]]) (use r in auto)
    moreover have "a \<in> set (L (k, l)) \<longleftrightarrow> (\<exists>b. B a = Some b \<and> bfree b \<and> a \<notin> X' \<and> map_ins (bsz b) = (k, l))" for a
      using segs_member [OF sg k] X' False by metis
    ultimately show ?thesis using False segs_dseg(2) [OF sg k] by (simp only: fun_upd_apply if_False) blast
  qed
qed

lemma remove_free_block_hinv:
  assumes h: "hinv c s B L X" and a: "B a = Some b" "bfree b" "a \<notin> X" and k: "map_ins (bsz b) = (i, j)"
  shows "\<exists>s'. remove_free_block s (W a) (int i) (int j) = Inr s' \<and>
    hinv c s' B (L((i, j) := remove1 a (L (i, j)))) (insert a X) \<and>
    same_pay c B (mem s) (mem s')"
proof -
  note v = h [unfolded hinv_iff, THEN conjunct1]
  have ct: "ctl_ok c s B" and mo: "mem_ok (mem s) B" and tb: "tab_ok c s L" and sg: "segs_ok c (mem s) B L X"
    using h by (simp_all add: hinv_iff)
  have ij: "i < 25" "j < 32" using map_ins_bounds [OF view_size [OF v a(1)]] k by simp_all
  have "a \<in> set (L (i, j))" using segs_member [OF sg ij] a k by blast
  then obtain xs ys where l: "L (i, j) = xs @ a # ys" and nin: "a \<notin> set xs"
    by (metis split_list_first)
  note dl = segs_dseg [OF sg ij, unfolded l]
  have sub: "set (xs @ a # ys) \<subseteq> nodes c B" using segs_nodes [OF sg ij] l by simp
  have cin: "c \<in> nodes c B" and cnin: "c \<notin> set (xs @ a # ys)"
    using segs_member [OF sg ij] ctl_notin [OF ct] l [symmetric] by (auto simp: nodes_def)
  let ?p = "ltn c xs" and ?n = "lhn c ys"
  have pn: "?p \<in> insert c (set (xs @ a # ys))" "?n \<in> insert c (set (xs @ a # ys))"
    by (auto simp: ltn_def lhn_def split: list.split)
  then have pnN: "?p \<in> nodes c B" "?n \<in> nodes c B" using sub cin by auto
  have nz: "W ?p \<noteq> 0" "W ?n \<noteq> 0" using node_addr [OF v ct] pnN by (simp_all add: W_eq_0_iff)
  have links: "rd (mem s) (a + 24) = W ?p" "rd (mem s) (a + 16) = W ?n"
    using dl(1) by (simp_all add: dseg_append ltail_W lhead_W)
  define m' where "m' = wr (wr (mem s) (?n + 24) (W ?p)) (?p + 16) (W ?n)"
  note sp = nodes_spaced [OF v ct]
  have same: "rd m' y = rd (mem s) y"
    if "cell y" "\<And>x. x \<in> insert c (set (xs @ a # ys)) \<Longrightarrow> y \<noteq> x + 16 \<and> y \<noteq> x + 24" for y
    unfolding m'_def using that pn spacedD(2,3) [OF sp] pnN by (simp only: rd_wr if_False)
  have t': "tab_ok c (s\<lparr>mem := m'\<rparr>) L" using tb by (simp add: tab_ok_def)
  have lt: "\<forall>x \<in> set (xs @ a # ys). x < 2 ^ 64" using node_addr [OF v ct] sub by blast
  obtain s' where s': "remove_free_block s (W a) (int i) (int j) = Inr s'"
      "mem s' = m'" "control s' = control s" "tab_ok c s' (L((i, j) := xs @ ys))"
    using drop_head_tables [OF t' ij l _ cnin lt dl(2) refl] ctl_bound [OF ct] ct nz
    by (auto simp: remove_free_block_alt fields_cell links m'_def ctl_ok_def Let_def)
  have "insert c (set (xs @ a # ys)) \<subseteq> nodes c B" using sub cin by simp
  then have "mem_ok m' B" by (intro mem_ok_links [OF v ct mo] same) blast+
  moreover have "segs_ok c m' B (L((i, j) := xs @ ys)) (insert a X)"
  proof (rule segs_update [OF sg ij sp])
    show "insert c (set (xs @ a # ys)) \<subseteq> nodes c B" using sub cin by simp
    show "dseg m' (W c) (xs @ ys) (W c)"
      by (rule dseg_remove [OF sp cin sub cnin dl(2,1) m'_def])
    show "distinct (xs @ ys)" using dl(2) by simp
    have "z \<in> set (xs @ ys) \<longleftrightarrow> z \<in> set (L (i, j)) \<and> z \<noteq> a" for z
      using dl(2) l by auto
    then show "z \<in> set (xs @ ys) \<longleftrightarrow>
        (\<exists>b. B z = Some b \<and> bfree b \<and> z \<notin> insert a X \<and> map_ins (bsz b) = (i, j))" for z
      using segs_member [OF sg ij] by auto
    show "x \<notin> set (L (p, q))" if "x \<in> insert c (set (xs @ a # ys))" "(p, q) \<noteq> (i, j)" "p < 25" "q < 32" for x p q
      using that segs_member [OF sg ij] segs_member [OF sg that(3,4)] l [symmetric] ctl_notin [OF ct] by auto
  qed (use same a k in auto)
  moreover have "ctl_ok c s' B" using ct s'(3) by (simp add: ctl_ok_def)
  moreover have "remove1 a (L (i, j)) = xs @ ys" using l nin by (simp add: remove1_append)
  moreover have "same_pay c B (mem s) m'"
    unfolding m'_def using same_pay_node [OF v ct] pnN by (blast intro: same_pay_trans)
  ultimately show ?thesis using v s' unfolding hinv_iff by auto
qed

subsection \<open>Insertion into a free list\<close>

definition push_head :: "tlsf \<Rightarrow> addr \<Rightarrow> int \<Rightarrow> int \<Rightarrow> tlsf res" where
  "push_head s block fl sl =
     bindE (set_block s fl sl block) (\<lambda>s.
     let s = s\<lparr>fl_bitmap := fl_bitmap s OR push_bit (nat fl) 1\<rparr>
     in bindE (array_get (sl_bitmap s) fl) (\<lambda>bits.
        bindE (array_set (sl_bitmap s) fl (bits OR push_bit (nat sl) 1)) (\<lambda>sl_bits.
        Inr (s\<lparr>sl_bitmap := sl_bits\<rparr>))))"

lemma insert_free_block_alt:
  "insert_free_block s block fl sl =
     bindE (get_block s fl sl) (\<lambda>current.
     bindE (assertE (current \<noteq> 0)) (\<lambda>_.
     bindE (assertE (block \<noteq> 0)) (\<lambda>_.
     let m = set_next_free (mem s) block current;
         m = set_prev_free m block (control s);
         m = set_prev_free m current block
     in bindE (align_ptr (block_to_ptr block) (of_int ALIGN_SIZE)) (\<lambda>aligned.
        bindE (assertE (block_to_ptr block = aligned)) (\<lambda>_.
        push_head (s\<lparr>mem := m\<rparr>) block fl sl)))))"
  by (simp add: insert_free_block_def push_head_def Let_def)

lemma push_head_tables:
  assumes t: "tab_ok c s L" and i: "i < 25" "j < 32" and cs: "control s = W c"
  shows "\<exists>s'. push_head s (W a) (int i) (int j) = Inr s' \<and> mem s' = mem s \<and> control s' = control s \<and>
       tab_ok c s' (L((i, j) := a # L (i, j)))"
proof -
  note g = get_set_block [OF t i]
  have len: "length (sl_bitmap s) = 25" "length (blocks s) = 25" "\<And>i. i < 25 \<Longrightarrow> length (blocks s ! i) = 32"
    and fl: "\<And>i. bit (fl_bitmap s) i \<longleftrightarrow> i < 25 \<and> sl_bitmap s ! i \<noteq> 0"
    using t unfolding tab_ok_def by auto
  define b where "b = sl_bitmap s ! i OR push_bit j 1"
  define s' where "s' = s\<lparr>blocks := (blocks s)[i := (blocks s ! i)[j := W a]],
      fl_bitmap := fl_bitmap s OR push_bit i 1, sl_bitmap := (sl_bitmap s)[i := b]\<rparr>"
  have "b \<noteq> 0" unfolding b_def using i(2) by (rule or_nonzero)
  then have fb: "bit (fl_bitmap s') i' \<longleftrightarrow> i' < 25 \<and> sl_bitmap s' ! i' \<noteq> 0" for i'
    using len i fl [of i'] by (cases "i' = i") (simp_all add: s'_def)
  have "tab_ok c s' (L((i, j) := a # L (i, j)))"
    by (rule tab_ok_update [OF t _ _ _ fb]) (use len i in \<open>auto simp: s'_def b_def nth_list_update lhn_def\<close>)
  moreover have "push_head s (W a) (int i) (int j) = Inr s'"
    using g len i by (simp add: push_head_def Let_def s'_def b_def)
  ultimately show ?thesis by (intro exI [of _ s']) (simp add: s'_def)
qed

lemma insert_free_block_hinv:
  assumes h: "hinv c s B L X" and a: "B a = Some b" "bfree b" "a \<in> X" and k: "map_ins (bsz b) = (i, j)"
  shows "\<exists>s'. insert_free_block s (W a) (int i) (int j) = Inr s' \<and>
    hinv c s' B (L((i, j) := a # L (i, j))) (X - {a}) \<and>
    same_pay c B (mem s) (mem s')"
proof -
  note v = h [unfolded hinv_iff, THEN conjunct1]
  have ct: "ctl_ok c s B" and mo: "mem_ok (mem s) B" and tb: "tab_ok c s L" and sg: "segs_ok c (mem s) B L X"
    using h by (simp_all add: hinv_iff)
  have ij: "i < 25" "j < 32" using map_ins_bounds [OF view_size [OF v a(1)]] k by simp_all
  let ?xs = "L (i, j)" and ?n = "lhn c (L (i, j))"
  have nin: "a \<notin> set ?xs" using segs_member [OF sg ij] a by blast
  have sub: "set (a # ?xs) \<subseteq> nodes c B" using segs_nodes [OF sg ij] a by (auto simp: nodes_def)
  have cin: "c \<in> nodes c B" and cnin: "c \<notin> set (a # ?xs)"
    using segs_member [OF sg ij] ctl_notin [OF ct] a by (auto simp: nodes_def)
  have dl: "distinct (a # ?xs)" "dseg (mem s) (W c) ?xs (W c)" using segs_dseg [OF sg ij] nin by simp_all
  have n: "?n \<in> insert c (set (a # ?xs))" by (auto simp: lhn_def split: list.split)
  then have aN: "a \<in> nodes c B" "?n \<in> nodes c B" using sub cin by auto
  have nz: "W a \<noteq> 0" "W ?n \<noteq> 0" using node_addr [OF v ct] aN by (simp_all add: W_eq_0_iff)
  define m' where "m' = wr (wr (wr (mem s) (a + 16) (W ?n)) (a + 24) (W c)) (?n + 24) (W a)"
  note sp = nodes_spaced [OF v ct]
  have same: "rd m' y = rd (mem s) y"
    if "cell y" "\<And>x. x \<in> insert c (set (a # ?xs)) \<Longrightarrow> y \<noteq> x + 16 \<and> y \<noteq> x + 24" for y
    unfolding m'_def using that(1) that(2) [OF n] that(2) [of a] spacedD(2,3) [OF sp] aN
    by (simp add: rd_wr)
  have al: "align_ptr (W (a + 16)) (of_int ALIGN_SIZE) = Inr (W (a + 16))"
    by (rule align_ptr_cell) (use spacedD(2) [OF sp aN(1)] cell_end [of "a + 16"] in \<open>auto simp: cell_def\<close>)
  have t': "tab_ok c (s\<lparr>mem := m'\<rparr>) L" using tb by (simp add: tab_ok_def)
  obtain s' where s': "insert_free_block s (W a) (int i) (int j) = Inr s'"
      "mem s' = m'" "control s' = control s" "tab_ok c s' (L((i, j) := a # ?xs))"
    using push_head_tables [OF t' ij, of a] ct nz get_set_block(1) [OF tb ij] al
    by (auto simp: insert_free_block_alt fields_cell ptr_cell m'_def ctl_ok_def Let_def)
  have "insert c (set (a # ?xs)) \<subseteq> nodes c B" using sub cin by simp
  then have "mem_ok m' B" by (intro mem_ok_links [OF v ct mo] same) blast+
  moreover have "segs_ok c m' B (L((i, j) := a # ?xs)) (X - {a})"
  proof (rule segs_update [OF sg ij sp])
    show "insert c (set (a # ?xs)) \<subseteq> nodes c B" by fact
    show "dseg m' (W c) (a # ?xs) (W c)"
      by (rule dseg_insert [OF sp cin sub cnin dl m'_def])
    show "distinct (a # ?xs)" by fact
    show "z \<in> set (a # ?xs) \<longleftrightarrow>
        (\<exists>b. B z = Some b \<and> bfree b \<and> z \<notin> X - {a} \<and> map_ins (bsz b) = (i, j))" for z
      using segs_member [OF sg ij] a k by auto
    show "x \<notin> set (L (p, q))" if "x \<in> insert c (set (a # ?xs))" "(p, q) \<noteq> (i, j)" "p < 25" "q < 32" for x p q
      using that segs_member [OF sg ij] segs_member [OF sg that(3,4)] ctl_notin [OF ct] a k by auto
  qed (use same a k in auto)
  moreover have "ctl_ok c s' B" using ct s'(3) by (simp add: ctl_ok_def)
  moreover have "same_pay c B (mem s) m'"
    unfolding m'_def using same_pay_node [OF v ct] aN by (blast intro: same_pay_trans)
  ultimately show ?thesis using v s' unfolding hinv_iff by auto
qed

end
