(* ===== verification/Tlsf_Steps.thy ===== *)
theory Tlsf_Steps
  imports Tlsf_Lists
begin

text \<open>
  Steps on blocks: marking a block used or free, splitting and absorbing. Each is first a change
  of the view that keeps \<open>view_ok\<close>, then a statement on the routine of \<^verbatim>\<open>sys/mm/tlsf.c\<close>.
\<close>

subsection \<open>Changes of a view\<close>

lemma next_inj:
  assumes "view_ok B" and "B x = Some u" and "B y = Some v" and "x + 8 + bsz u = y + 8 + bsz v"
  shows "x = y"
  using view_apart [OF assms(1-3)] view_apart [OF assms(1,3,2)] assms(4) by (cases x y rule: linorder_cases) auto

text \<open>A change of the free flag of a block and of the flag its successor keeps of it.\<close>

definition set_flag :: "view \<Rightarrow> nat \<Rightarrow> bool \<Rightarrow> view" where
  "set_flag B a f = (case B a of None \<Rightarrow> B | Some b \<Rightarrow>
     case B (a + 8 + bsz b) of None \<Rightarrow> B | Some v \<Rightarrow>
       B(a \<mapsto> b\<lparr>bfree := f\<rparr>, a + 8 + bsz b \<mapsto> v\<lparr>bpf := f\<rparr>))"

text \<open>A block cut in two at size \<open>sz\<close>; the rear part has the free flag \<open>g\<close>.\<close>

definition cut :: "view \<Rightarrow> nat \<Rightarrow> nat \<Rightarrow> bool \<Rightarrow> view" where
  "cut B a sz g = (case B a of None \<Rightarrow> B | Some b \<Rightarrow>
     case B (a + 8 + bsz b) of None \<Rightarrow> B | Some v \<Rightarrow>
       B(a \<mapsto> b\<lparr>bsz := sz\<rparr>,
         a + 8 + sz \<mapsto> \<lparr>bsz = bsz b - sz - 8, bfree = g, bpf = bfree b, bpool = bpool b\<rparr>,
         a + 8 + bsz b \<mapsto> v\<lparr>bpf := g\<rparr>))"

text \<open>A block and its successor joined to one block with the free flag \<open>f\<close>.\<close>

definition join :: "view \<Rightarrow> nat \<Rightarrow> bool \<Rightarrow> view" where
  "join B a f = (case B a of None \<Rightarrow> B | Some b \<Rightarrow>
     let x = a + 8 + bsz b in case B x of None \<Rightarrow> B | Some v \<Rightarrow>
     let y = x + 8 + bsz v in case B y of None \<Rightarrow> B | Some w \<Rightarrow>
       B(a \<mapsto> b\<lparr>bsz := bsz b + 8 + bsz v, bfree := f\<rparr>, x := None, y \<mapsto> w\<lparr>bpf := f\<rparr>))"

lemma view_okI:
  assumes "\<And>a b. B a = Some b \<Longrightarrow> blk_ok a b"
    and "\<And>a b a' b'. B a = Some b \<Longrightarrow> B a' = Some b' \<Longrightarrow> a < a' \<Longrightarrow> a + 8 + bsz b \<le> a'"
    and "\<And>a b. B a = Some b \<Longrightarrow> bsz b \<noteq> 0 \<Longrightarrow>
      \<exists>b'. B (a + 8 + bsz b) = Some b' \<and> bpf b' = bfree b \<and> bpool b' = bpool b"
    and "\<And>a b. B a = Some b \<Longrightarrow> bpf b \<Longrightarrow> \<exists>p q. B p = Some q \<and> bfree q \<and> p + 8 + bsz q = a"
  shows "view_ok B"
  using assms unfolding view_ok_def apart_def linked_def flagged_def by blast

lemma set_flag_ok:
  assumes v: "view_ok B" and a: "B a = Some b" "bsz b \<noteq> 0"
  shows "view_ok (set_flag B a f)"
proof -
  let ?n = "a + 8 + bsz b"
  obtain w where n: "B ?n = Some w" "bpf w = bfree b" "bpool w = bpool b" using view_next [OF v a] .
  let ?B = "B(a \<mapsto> b\<lparr>bfree := f\<rparr>, ?n \<mapsto> w\<lparr>bpf := f\<rparr>)"
  have old: "\<exists>u'. B x = Some u' \<and> bsz u' = bsz u \<and> bpool u' = bpool u" if "?B x = Some u" for x u
    using that a n by (auto split: if_splits)
  have "view_ok ?B"
  proof (rule view_okI)
    fix x u assume "?B x = Some u"
    then show "blk_ok x u"
      using a n view_blk [OF v] view_blk [OF v a(1)] view_blk [OF v n(1)] by (auto simp: blk_ok_def split: if_splits)
  next
    fix x u x' u' assume "?B x = Some u" "?B x' = Some u'" "x < x'"
    then show "x + 8 + bsz u \<le> x'" using old view_apart [OF v] by metis
  next
    fix x u assume u: "?B x = Some u" "bsz u \<noteq> 0"
    show "\<exists>b'. ?B (x + 8 + bsz u) = Some b' \<and> bpf b' = bfree u \<and> bpool b' = bpool u"
    proof (cases "x = a")
      case True
      with u n show ?thesis by auto
    next
      case False
      with u n obtain u0 where u0: "B x = Some u0" "bsz u0 = bsz u" "bfree u0 = bfree u" "bpool u0 = bpool u"
        by (auto split: if_splits)
      obtain z where z: "B (x + 8 + bsz u0) = Some z" "bpf z = bfree u0" "bpool z = bpool u0"
        using view_next [OF v u0(1)] u0(2) u(2) by metis
      have "x + 8 + bsz u \<noteq> ?n" using next_inj [OF v u0(1) a(1)] u0(2) False by auto
      with z u0 a show ?thesis by auto
    qed
  next
    fix x u assume u: "?B x = Some u" "bpf u"
    show "\<exists>p q. ?B p = Some q \<and> bfree q \<and> p + 8 + bsz q = x"
    proof (cases "x = ?n")
      case True
      with u have f by auto
      with True show ?thesis by (intro exI [of _ a] exI [of _ "b\<lparr>bfree := f\<rparr>"]) simp
    next
      case False
      with u obtain u0 where "B x = Some u0" "bpf u0" using a by (auto split: if_splits)
      then obtain p q where p: "B p = Some q" "bfree q" "p + 8 + bsz q = x" using view_prev [OF v] by metis
      with False a have "p \<noteq> a" by auto
      with p n have "\<exists>q'. ?B p = Some q' \<and> bfree q' \<and> p + 8 + bsz q' = x" by (cases "p = ?n") auto
      then show ?thesis by blast
    qed
  qed
  then show ?thesis using a n by (simp add: set_flag_def)
qed

lemma cut_eq:
  assumes "view_ok B" and "B a = Some b" and "bsz b \<noteq> 0"
  obtains w where "B (a + 8 + bsz b) = Some w" and "bpf w = bfree b" and "bpool w = bpool b"
    and "cut B a sz g = B(a \<mapsto> b\<lparr>bsz := sz\<rparr>,
         a + 8 + sz \<mapsto> \<lparr>bsz = bsz b - sz - 8, bfree = g, bpf = bfree b, bpool = bpool b\<rparr>,
         a + 8 + bsz b \<mapsto> w\<lparr>bpf := g\<rparr>)"
  using assms view_next [OF assms] by (metis (no_types, lifting) cut_def option.case(2))

lemma cut_Some:
  assumes v: "view_ok B" and a: "B a = Some b" and sz: "24 \<le> sz" "sz + 32 \<le> bsz b"
  shows "cut B a sz g z = Some q \<longleftrightarrow>
    (if z = a + 8 + bsz b then q = (the (B (a + 8 + bsz b)))\<lparr>bpf := g\<rparr>
     else if z = a + 8 + sz then q = \<lparr>bsz = bsz b - sz - 8, bfree = g, bpf = bfree b, bpool = bpool b\<rparr>
     else if z = a then q = b\<lparr>bsz := sz\<rparr> else B z = Some q)"
proof -
  have "bsz b \<noteq> 0" using sz by simp
  from cut_eq [OF v a this, of sz g] obtain w where "B (a + 8 + bsz b) = Some w"
    "cut B a sz g = B(a \<mapsto> b\<lparr>bsz := sz\<rparr>, a + 8 + sz \<mapsto> \<lparr>bsz = bsz b - sz - 8, bfree = g, bpf = bfree b, bpool = bpool b\<rparr>,
       a + 8 + bsz b \<mapsto> w\<lparr>bpf := g\<rparr>)" by metis
  then show ?thesis by auto
qed

lemma cut_next:
  assumes "view_ok B" and "B a = Some b" and "24 \<le> sz" "sz + 32 \<le> bsz b"
  obtains w where "B (a + 8 + bsz b) = Some w" "the (B (a + 8 + bsz b)) = w" "bpool w = bpool b"
  using view_next [OF assms(1,2)] assms(3,4) by force

lemma cut_blocks:
  assumes v: "view_ok B" and a: "B a = Some b" and sz: "24 \<le> sz" "sz mod 8 = 0" "sz + 32 \<le> bsz b" and x: "cut B a sz g x = Some u"
  shows "blk_ok x u"
proof -
  obtain w where n: "B (a + 8 + bsz b) = Some w" "the (B (a + 8 + bsz b)) = w" "bpool w = bpool b" using cut_next [OF v a sz(1,3)] .
  note B' = cut_Some [OF v a sz(1,3), of g, unfolded n(2)]
  have "(bsz b - sz - 8) mod 8 = 0" using view_blk [OF v a] sz by (simp add: blk_ok_def mod_eq_0_iff_dvd)
  then show ?thesis
    using x view_blk [OF v, of x u] view_blk [OF v a] view_blk [OF v n(1)] sz unfolding B'
    by (auto simp: blk_ok_def mod_eq_0_iff_dvd split: if_splits)
qed

lemma cut_apart:
  assumes v: "view_ok B" and a: "B a = Some b" and sz: "24 \<le> sz" "sz + 32 \<le> bsz b"
    and x: "cut B a sz g x = Some u" "cut B a sz g x' = Some u'" "x < x'"
  shows "x + 8 + bsz u \<le> x'"
proof -
  let ?r = "a + 8 + sz"
  obtain w where n: "B (a + 8 + bsz b) = Some w" "the (B (a + 8 + bsz b)) = w" "bpool w = bpool b" using cut_next [OF v a sz] .
  note B' = cut_Some [OF v a sz, of g, unfolded n(2)]
  have q: "x \<noteq> a \<Longrightarrow> x \<noteq> ?r \<Longrightarrow> \<exists>q. B x = Some q \<and> bsz q = bsz u" "x = a \<Longrightarrow> bsz u = sz"
    "x = ?r \<Longrightarrow> bsz u = bsz b - sz - 8" "x' \<noteq> ?r \<Longrightarrow> \<exists>q. B x' = Some q"
    using x(1,2) a n sz unfolding B' by (auto split: if_splits)
  show ?thesis
  proof (cases "x' = ?r")
    case True
    show ?thesis
    proof (cases "x = a")
      case False
      with True x(3) q(1) obtain q where q: "B x = Some q" "bsz q = bsz u" by auto
      from view_apart [OF v q(1) a] view_apart [OF v a q(1)] False True x(3) sz q(2) show ?thesis by linarith
    qed (use True q(2) in simp)
  next
    case False
    with q(4) obtain q' where q': "B x' = Some q'" by blast
    show ?thesis
    proof (cases "x = a \<or> x = ?r")
      case True
      then have "a < x'" using x(3) by auto
      from view_apart [OF v a q' this] True q(2,3) sz show ?thesis by auto
    next
      case False
      with q(1) view_apart [OF v _ q' x(3)] show ?thesis by auto
    qed
  qed
qed

lemma cut_linked:
  assumes v: "view_ok B" and a: "B a = Some b" and sz: "24 \<le> sz" "sz + 32 \<le> bsz b" and x: "cut B a sz g x = Some u" "bsz u \<noteq> 0"
  shows "\<exists>b'. cut B a sz g (x + 8 + bsz u) = Some b' \<and> bpf b' = bfree u \<and> bpool b' = bpool u"
proof -
  let ?n = "a + 8 + bsz b" and ?r = "a + 8 + sz"
  obtain w where n: "B ?n = Some w" "the (B ?n) = w" "bpool w = bpool b" using cut_next [OF v a sz] .
  note B' = cut_Some [OF v a sz, of g, unfolded n(2)]
  show ?thesis
  proof (cases "x = a \<or> x = ?r")
    case True
    then show ?thesis using x(1) n sz unfolding B' by auto
  next
    case False
    with x(1) n obtain u0 where u0: "B x = Some u0" "bsz u0 = bsz u" "bfree u0 = bfree u" "bpool u0 = bpool u"
      unfolding B' by (auto split: if_splits)
    obtain z where z: "B (x + 8 + bsz u0) = Some z" "bpf z = bfree u0" "bpool z = bpool u0"
      using view_next [OF v u0(1)] u0(2) x(2) by metis
    have "x + 8 + bsz u \<noteq> ?n" using next_inj [OF v u0(1) a] u0(2) False by auto
    moreover have "x + 8 + bsz u \<noteq> ?r"
      using view_apart [OF v u0(1) a] view_apart [OF v a u0(1)] u0(2) False sz by linarith
    ultimately show ?thesis using z u0 a unfolding B' by (cases "x + 8 + bsz u = a") auto
  qed
qed

lemma cut_flagged:
  assumes v: "view_ok B" and a: "B a = Some b" and sz: "24 \<le> sz" "sz + 32 \<le> bsz b" and x: "cut B a sz g x = Some u" "bpf u"
  shows "\<exists>p q. cut B a sz g p = Some q \<and> bfree q \<and> p + 8 + bsz q = x"
proof -
  let ?n = "a + 8 + bsz b" and ?r = "a + 8 + sz"
  obtain w where n: "B ?n = Some w" "the (B ?n) = w" "bpool w = bpool b" using cut_next [OF v a sz] .
  note B' = cut_Some [OF v a sz, of g, unfolded n(2)]
  consider (last) "x = ?n" | (rear) "x = ?r" | (other) "x \<noteq> ?n" "x \<noteq> ?r" by blast
  then show ?thesis
  proof cases
    case other
    with x obtain u0 where "B x = Some u0" "bpf u0" using a unfolding B' by (auto split: if_splits)
    then obtain p q where p: "B p = Some q" "bfree q" "p + 8 + bsz q = x" using view_prev [OF v] by metis
    with other a have "p \<noteq> a" by auto
    moreover have "p \<noteq> ?r" using p view_apart [OF v a p(1)] sz by auto
    ultimately have "\<exists>q'. cut B a sz g p = Some q' \<and> bfree q' \<and> p + 8 + bsz q' = x"
      unfolding B' using p n by (cases "p = ?n") auto
    then show ?thesis by blast
  next
    case last
    then have g using x unfolding B' by auto
    then show ?thesis using last sz unfolding B' by (intro exI [of _ ?r]) auto
  next
    case rear
    then have "bfree b" using x sz unfolding B' by auto
    then show ?thesis using rear sz unfolding B' by (intro exI [of _ a]) auto
  qed
qed

lemma cut_ok:
  assumes "view_ok B" and "B a = Some b" and "24 \<le> sz" "sz mod 8 = 0" "sz + 32 \<le> bsz b"
  shows "view_ok (cut B a sz g)"
  using cut_blocks [OF assms] cut_apart [OF assms(1-3,5)] cut_linked [OF assms(1-3,5)] cut_flagged [OF assms(1-3,5)]
  by (intro view_okI)

lemma join_eq:
  assumes "view_ok B" and "B a = Some b" and "bsz b \<noteq> 0" and "B (a + 8 + bsz b) = Some u" and "bsz u \<noteq> 0"
  obtains w where "B (a + 8 + bsz b + 8 + bsz u) = Some w" and "bpf w = bfree u" and "bpool w = bpool b" and "bpool u = bpool b"
    and "join B a f = B(a \<mapsto> b\<lparr>bsz := bsz b + 8 + bsz u, bfree := f\<rparr>, a + 8 + bsz b := None,
      a + 8 + bsz b + 8 + bsz u \<mapsto> w\<lparr>bpf := f\<rparr>)"
proof -
  obtain w where w: "B (a + 8 + bsz b + 8 + bsz u) = Some w" "bpf w = bfree u" "bpool w = bpool u"
    using view_next [OF assms(1,4,5)] .
  moreover have "bpool u = bpool b" using view_next [OF assms(1-3)] assms(4) by (metis option.inject)
  ultimately show ?thesis using assms that by (simp add: join_def Let_def)
qed

lemma join_Some:
  assumes "view_ok B" and "B a = Some b" "bsz b \<noteq> 0" and "B (a + 8 + bsz b) = Some u" "bsz u \<noteq> 0"
  shows "join B a f z = Some q \<longleftrightarrow>
    (if z = a then q = b\<lparr>bsz := bsz b + 8 + bsz u, bfree := f\<rparr>
     else if z = a + 8 + bsz b + 8 + bsz u then q = (the (B (a + 8 + bsz b + 8 + bsz u)))\<lparr>bpf := f\<rparr>
     else z \<noteq> a + 8 + bsz b \<and> B z = Some q)"
proof -
  obtain w where "B (a + 8 + bsz b + 8 + bsz u) = Some w" and "join B a f = B(a \<mapsto> b\<lparr>bsz := bsz b + 8 + bsz u, bfree := f\<rparr>,
      a + 8 + bsz b := None, a + 8 + bsz b + 8 + bsz u \<mapsto> w\<lparr>bpf := f\<rparr>)"
    using join_eq [OF assms] by metis
  then show ?thesis by auto
qed

lemma join_next:
  assumes "view_ok B" and "B a = Some b" "bsz b \<noteq> 0" and "B (a + 8 + bsz b) = Some u" "bsz u \<noteq> 0"
  obtains w where "B (a + 8 + bsz b + 8 + bsz u) = Some w" "the (B (a + 8 + bsz b + 8 + bsz u)) = w" "bpool w = bpool b" "bpool u = bpool b"
  using join_eq [OF assms] by (metis option.sel)

lemma join_linked:
  assumes v: "view_ok B" and a: "B a = Some b" "bsz b \<noteq> 0" and x: "B (a + 8 + bsz b) = Some u" "bsz u \<noteq> 0"
    and z: "join B a f z = Some q" "bsz q \<noteq> 0"
  shows "\<exists>b'. join B a f (z + 8 + bsz q) = Some b' \<and> bpf b' = bfree q \<and> bpool b' = bpool q"
proof -
  let ?x = "a + 8 + bsz b" let ?y = "?x + 8 + bsz u"
  obtain w where y: "B ?y = Some w" "the (B ?y) = w" "bpool w = bpool b" "bpool u = bpool b" using join_next [OF v a x] .
  note B' = join_Some [OF v a x, of f, unfolded y(2)]
  show ?thesis
  proof (cases "z = a")
    case True
    with z y a x show ?thesis unfolding B' by auto
  next
    case False
    with z y have "\<exists>q0. B z = Some q0 \<and> bsz q0 = bsz q \<and> bfree q0 = bfree q \<and> bpool q0 = bpool q"
      unfolding B' by (auto split: if_splits)
    then obtain q0 where q0: "B z = Some q0" "bsz q0 = bsz q" "bfree q0 = bfree q" "bpool q0 = bpool q" by blast
    obtain t where t: "B (z + 8 + bsz q0) = Some t" "bpf t = bfree q0" "bpool t = bpool q0"
      using view_next [OF v q0(1)] q0(2) z(2) by metis
    have "z \<noteq> ?x" using z(1) False x unfolding B' by (auto split: if_splits)
    then have "z + 8 + bsz q \<noteq> ?y" "z + 8 + bsz q \<noteq> ?x"
      using next_inj [OF v q0(1) x(1)] next_inj [OF v q0(1) a(1)] q0(2) False by auto
    with t q0 a show ?thesis unfolding B' by (cases "z + 8 + bsz q = a") auto
  qed
qed

lemma join_ok:
  assumes v: "view_ok B" and a: "B a = Some b" "bsz b \<noteq> 0" and x: "B (a + 8 + bsz b) = Some u" "bsz u \<noteq> 0"
  shows "view_ok (join B a f)"
proof -
  let ?x = "a + 8 + bsz b" let ?y = "?x + 8 + bsz u" let ?b = "b\<lparr>bsz := bsz b + 8 + bsz u, bfree := f\<rparr>"
  obtain w where y: "B ?y = Some w" "the (B ?y) = w" "bpool w = bpool b" "bpool u = bpool b" using join_next [OF v a x] .
  note B' = join_Some [OF v a x, of f, unfolded y(2)]
  show ?thesis
  proof (rule view_okI, goal_cases)
    case (1 z q)
    then show ?case
      using view_blk [OF v, of z q] view_blk [OF v a(1)] view_blk [OF v x(1)] view_blk [OF v y(1)] a x y unfolding B'
      by (auto simp: blk_ok_def mod_eq_0_iff_dvd split: if_splits)
  next
    case (2 z q z' q')
    have "\<exists>q0. B z = Some q0 \<and> (z \<noteq> a \<longrightarrow> bsz q0 = bsz q)" "\<exists>q0. B z' = Some q0"
      using 2 a y unfolding B' by (auto split: if_splits)
    then obtain q0 q1 where q: "B z = Some q0" "z \<noteq> a \<longrightarrow> bsz q0 = bsz q" "B z' = Some q1" by blast
    show ?case
    proof (cases "z = a")
      case True
      have "?x \<le> z'" "z' \<noteq> ?x" using view_apart [OF v a(1) q(3)] 2(2,3) True unfolding B' by (auto split: if_splits)
      then have "?y \<le> z'" using view_apart [OF v x(1) q(3)] by simp
      then show ?thesis using 2(1) True unfolding B' by simp
    qed (use view_apart [OF v q(1,3) 2(3)] q(2) in simp)
  next
    case (3 z q)
    then show ?case by (rule join_linked [OF v a x])
  next
    case (4 z q)
    show ?case
    proof (cases "z = ?y")
      case True
      with 4 have f using x unfolding B' by (auto split: if_splits)
      with True show ?thesis unfolding B' by (intro exI [of _ a] exI [of _ ?b]) simp
    next
      case False
      with 4 a obtain q0 where "B z = Some q0" "bpf q0" "z \<noteq> ?x" unfolding B' by (auto split: if_splits)
      then obtain p t where p: "B p = Some t" "bfree t" "p + 8 + bsz t = z" using view_prev [OF v] by metis
      with False \<open>z \<noteq> ?x\<close> a x have "p \<noteq> a" "p \<noteq> ?x" by auto
      with p y have "\<exists>q'. join B a f p = Some q' \<and> bfree q' \<and> p + 8 + bsz q' = z" unfolding B' by (cases "p = ?y") auto
      then show ?thesis by blast
    qed
  qed
qed

subsection \<open>Memory that changes in a few cells\<close>

definition agree :: "nat set \<Rightarrow> memory \<Rightarrow> memory \<Rightarrow> bool" where
  "agree T m m' \<longleftrightarrow> (\<forall>y. cell y \<longrightarrow> y \<notin> T \<longrightarrow> (\<forall>i < 8. m' (W (y + i)) = m (W (y + i))))"

lemma agree_rd: "agree T m m' \<Longrightarrow> cell y \<Longrightarrow> y \<notin> T \<Longrightarrow> rd m' y = rd m y"
  unfolding rd_def agree_def by (rule load64_cong) (auto simp: span_def W_def)

lemma agree_wr: "cell x \<Longrightarrow> agree {x} m (wr m x v)"
  unfolding agree_def
proof (intro allI impI)
  fix y i :: nat assume "cell x" "cell y" "y \<notin> {x}" "i < 8"
  then show "wr m x v (W (y + i)) = m (W (y + i))"
    using cell_apart [of x y] cell_end [of y] by (intro wr_byte) auto
qed

lemma agree_trans: "agree T m m' \<Longrightarrow> agree U m' m'' \<Longrightarrow> agree (T \<union> U) m m''"
  by (simp add: agree_def)

lemma agree_wr2: "cell x \<Longrightarrow> agree T m m' \<Longrightarrow> agree (insert x T) m (wr m' x v)"
  using agree_trans [OF _ agree_wr] by fastforce

lemma agree_refl [simp]: "agree T m m"
  by (simp add: agree_def)

lemma agree_mono: "agree T m m' \<Longrightarrow> T \<subseteq> U \<Longrightarrow> agree U m m'"
  by (auto simp: agree_def)

lemma same_pay_agree:
  assumes v: "view_ok B" and ct: "ctl_ok c s B" and g: "agree T m m'" and out: "\<And>y. y \<in> T \<Longrightarrow> y \<notin> pay c B"
  shows "same_pay c B m m'"
  unfolding same_pay_def
proof
  fix y assume y: "y \<in> pay c B"
  let ?z = "8 * (y div 8)"
  have down: "8 * p \<le> ?z \<longleftrightarrow> 8 * p \<le> y" "?z < 8 * p \<longleftrightarrow> y < 8 * p" for p by auto
  have "?z \<in> pay c B"
    using y
  proof (cases rule: payE)
    case (used a b)
    then obtain p where "a = 8 * p" using view_blk [OF v used(1)] by (auto simp: blk_ok_def mod_eq_0_iff_dvd)
    then have "a + 16 \<le> ?z" "?z < a + 16 + bsz b" using used down(1) [of "p + 2"] by auto
    then show ?thesis unfolding pay_def using used by blast
  next
    case outside
    obtain q where q: "c = 8 * q" using ct by (auto simp: ctl_ok_def)
    have "?z < c \<or> c + 6536 \<le> ?z"
      using outside(3) down(2) [of q] down(1) [of "q + 817"] unfolding q by auto
    moreover have "?z \<notin> region B"
    proof
      assume "?z \<in> region B"
      then obtain a b where a: "B a = Some b" "a + 8 \<le> ?z" "?z < a + 16 + bsz b" unfolding region_def by blast
      obtain p k where "a = 8 * p" "bsz b = 8 * k" using view_blk [OF v a(1)] by (auto simp: blk_ok_def mod_eq_0_iff_dvd elim!: dvdE)
      then have "a + 8 \<le> y" "y < a + 16 + bsz b" using a(2,3) down(2) [of "p + 2 + k"] by auto
      with a(1) outside(2) show False unfolding region_def by blast
    qed
    ultimately show ?thesis using outside(1) by (auto simp: pay_def)
  qed
  moreover have "cell ?z" using pay_bound [OF v calculation] by (simp add: cell_def)
  ultimately show "m' (W y) = m (W y)"
    using g out [of ?z] mod_less_divisor [of 8 y] unfolding agree_def
    by (metis mult_div_mod_eq zero_less_numeral)
qed

lemma mem_ok_change:
  assumes v: "view_ok B" and mo: "mem_ok m B" and g: "agree T m m'"
    and T: "\<And>y. y \<in> T \<Longrightarrow> \<exists>x\<in>C. \<exists>u. B x = Some u \<and> owns x u y"
    and same: "\<And>a. a \<notin> C \<Longrightarrow> B' a = B a"
    and new: "\<And>a b. a \<in> C \<Longrightarrow> B' a = Some b \<Longrightarrow>
      rd m' (a + 8) = hv (bsz b) (bfree b) (bpf b) \<and> (bfree b \<longrightarrow> rd m' (a + 8 + bsz b) = W a)"
  shows "mem_ok m' B'"
  unfolding mem_ok_def
proof (intro allI impI)
  fix a b assume B': "B' a = Some b"
  show "rd m' (a + 8) = hv (bsz b) (bfree b) (bpf b) \<and> (bfree b \<longrightarrow> rd m' (a + 8 + bsz b) = W a)"
  proof (cases "a \<in> C")
    case False
    then have B: "B a = Some b" using same B' by simp
    have "y \<notin> T" if "owns a b y" "cell y" for y
      using T [of y] owns_unique [OF v B] that False by metis
    then show ?thesis
      using mo B agree_rd [OF g] owns_own(1,2) [OF view_blk [OF v B]] view_cells [OF v B]
      unfolding mem_ok_def by metis
  qed (use new B' in blast)
qed

lemma hinv_change:
  assumes h: "hinv c s B L X" and v': "view_ok B'" and g: "agree T (mem s) m'"
    and T: "\<And>y. y \<in> T \<Longrightarrow> \<exists>x\<in>C. \<exists>u. B x = Some u \<and> owns x u y \<and> (y = x + 8 \<or> \<not> bfree u \<or> x \<in> X)"
    and same: "\<And>a. a \<notin> C \<Longrightarrow> B' a = B a"
    and new: "\<And>a b. a \<in> C \<Longrightarrow> B' a = Some b \<Longrightarrow>
      rd m' (a + 8) = hv (bsz b) (bfree b) (bpf b) \<and> (bfree b \<longrightarrow> rd m' (a + 8 + bsz b) = W a)"
    and ctl: "ctl_ok c s B'"
    and listed: "\<And>a k. (\<exists>b. B' a = Some b \<and> bfree b \<and> a \<notin> X' \<and> map_ins (bsz b) = k) \<longleftrightarrow>
      (\<exists>b. B a = Some b \<and> bfree b \<and> a \<notin> X \<and> map_ins (bsz b) = k)"
  shows "hinv c (s\<lparr>mem := m'\<rparr>) B' L X'"
proof -
  have v: "view_ok B" and mo: "mem_ok (mem s) B" and tb: "tab_ok c s L" and sg: "segs_ok c (mem s) B L X"
    using h by (simp_all add: hinv_iff)
  have T1: "\<exists>x\<in>C. \<exists>u. B x = Some u \<and> owns x u y" if "y \<in> T" for y using T [OF that] by blast
  have "mem_ok m' B'" by (rule mem_ok_change [OF v mo g T1 same new])
  moreover have "segs_ok c m' B' L X'"
    unfolding segs_ok_def
  proof (intro allI impI conjI)
    fix i j :: nat assume ij: "i < 25" "j < 32"
    show "dseg m' (W c) (L (i, j)) (W c)"
    proof (rule dseg_cong [OF segs_dseg(1) [OF sg ij]])
      fix x assume "x \<in> set (L (i, j))"
      then obtain b where b: "B x = Some b" "bfree b" "x \<notin> X" using segs_member [OF sg ij] by blast
      have "y \<notin> T" if y: "owns x b y" "cell y" "y \<noteq> x + 8" for y
      proof
        assume "y \<in> T"
        then obtain z u where z: "B z = Some u" "owns z u y" "y = z + 8 \<or> \<not> bfree u \<or> z \<in> X" using T by blast
        have "z = x" by (rule owns_unique [OF v z(1) b(1) z(2) y(1,2)])
        with z b y show False by simp
      qed
      then show "rd m' (x + 16) = rd (mem s) (x + 16)" "rd m' (x + 24) = rd (mem s) (x + 24)"
        using agree_rd [OF g] owns_own(3,4) [OF view_blk [OF v b(1)] b(2)] view_cells [OF v b(1)] b(2) by simp_all
    qed
    show "distinct (L (i, j))" by (rule segs_dseg(2) [OF sg ij])
    show "a \<in> set (L (i, j)) \<longleftrightarrow> (\<exists>b. B' a = Some b \<and> bfree b \<and> a \<notin> X' \<and> map_ins (bsz b) = (i, j))" for a
      unfolding listed by (rule segs_member [OF sg ij])
  qed
  ultimately show ?thesis using v' tb ctl by (simp add: hinv_iff tab_ok_def ctl_ok_def)
qed

subsection \<open>Marking blocks\<close>

lemma ctl_block: "ctl_ok c s B \<Longrightarrow> B a = Some b \<Longrightarrow> c + 6536 \<le> a + 8 \<or> a + 16 + bsz b \<le> c"
  unfolding ctl_ok_def by blast

lemma ctl_change:
  "ctl_ok c s B \<Longrightarrow> (\<And>a b. B' a = Some b \<Longrightarrow> c + 6536 \<le> a + 8 \<or> a + 16 + bsz b \<le> c) \<Longrightarrow> ctl_ok c s B'"
  unfolding ctl_ok_def by blast

lemma ctl_flag: "ctl_ok c s B \<Longrightarrow> ctl_ok c s (set_flag B a f)"
proof -
  assume ok: "ctl_ok c s B"
  show ?thesis
  proof (rule ctl_change [OF ok])
  fix x u assume "set_flag B a f x = Some u"
  then have "\<exists>u'. B x = Some u' \<and> bsz u' = bsz u" by (auto simp: set_flag_def split: option.splits if_splits)
  with ctl_block [OF ok] show "c + 6536 \<le> x + 8 \<or> x + 16 + bsz u \<le> c" by metis
  qed
qed

lemma set_flag_eq:
  assumes "view_ok B" and "B a = Some b" and "bsz b \<noteq> 0"
  obtains w where "B (a + 8 + bsz b) = Some w" and "bpf w = bfree b" and "bpool w = bpool b"
    and "set_flag B a f = B(a \<mapsto> b\<lparr>bfree := f\<rparr>, a + 8 + bsz b \<mapsto> w\<lparr>bpf := f\<rparr>)"
  using assms view_next [OF assms] by (metis (no_types, lifting) set_flag_def option.case(2))

lemma blk_size: "blk_ok a b \<Longrightarrow> bsz b mod 8 = 0 \<and> bsz b < 2 ^ 64"
  by (auto simp: blk_ok_def)

lemma mem_ok_hdr: "mem_ok m B \<Longrightarrow> B a = Some b \<Longrightarrow> rd m (a + 8) = hv (bsz b) (bfree b) (bpf b)"
  by (simp add: mem_ok_def)

lemma mem_ok_foot: "mem_ok m B \<Longrightarrow> B a = Some b \<Longrightarrow> bfree b \<Longrightarrow> rd m (a + 8 + bsz b) = W a"
  by (simp add: mem_ok_def)

lemma hdr_notin_pay: "view_ok B \<Longrightarrow> B a = Some b \<Longrightarrow> a + 8 \<notin> pay c B"
proof
  assume v: "view_ok B" and a: "B a = Some b" and "a + 8 \<in> pay c B"
  from this(3) show False
  proof (cases rule: payE)
    case (used x u)
    with view_apart [OF v used(1) a] show False by auto
  qed (use a in \<open>auto simp: region_def\<close>)
qed

lemma free_notin_pay:
  assumes v: "view_ok B" and a: "B a = Some b" "bfree b" and y: "owns a b y" "cell y"
  shows "y \<notin> pay c B"
proof
  assume "y \<in> pay c B"
  then show False
  proof (cases rule: payE)
    case (used x u)
    then have "owns x u y" by (simp add: owns_def)
    with owns_unique [OF v used(1) a(1) _ y] used a show False by auto
  next
    case outside
    with a y show False unfolding region_def owns_def by blast
  qed
qed

lemma mark_used_eq:
  assumes "rd m (a + 8) = hv n f p" "n mod 8 = 0" "n \<noteq> 0" "n < 2 ^ 64"
    and "rd m (a + 8 + n + 8) = hv k g q" "k mod 8 = 0" and "cell (a + 8)" "cell (a + 8 + n + 8)"
  shows "block_mark_as_used m (W a) = Inr (wr (wr m (a + 8 + n + 8) (hv k g False)) (a + 8) (hv n False p))"
proof -
  let ?m = "wr m (a + 8 + n + 8) (hv k g False)"
  have "rd ?m (a + 8) = hv n f p" using assms by (simp add: rd_wr)
  from flags_cell(5) [OF this assms(2)] show ?thesis
    using next_cell(1) [OF assms(1-4)] flags_cell(7) [OF assms(5,6)]
    by (simp add: block_mark_as_used_def Let_def)
qed

lemma mark_free_eq:
  assumes "rd m (a + 8) = hv n f p" "n mod 8 = 0" "n \<noteq> 0" "n < 2 ^ 64"
    and "rd m (a + 8 + n + 8) = hv k g q" "k mod 8 = 0" and "cell (a + 8)" "cell (a + 8 + n + 8)" "cell (a + 8 + n)"
  shows "block_mark_as_free m (W a) =
    Inr (wr (wr (wr m (a + 8 + n) (W a)) (a + 8 + n + 8) (hv k g True)) (a + 8) (hv n True p))"
proof -
  let ?m1 = "wr m (a + 8 + n) (W a)" let ?m = "wr ?m1 (a + 8 + n + 8) (hv k g True)"
  have "rd ?m (a + 8) = hv n f p" "rd ?m1 (a + 8 + n + 8) = hv k g q" using assms by (simp_all add: rd_wr)
  from flags_cell(4) [OF this(1) assms(2)] flags_cell(6) [OF this(2) assms(6)] show ?thesis
    using next_cell(1) [OF assms(1-4)]
    by (simp add: block_mark_as_free_def block_link_next_def fields_cell Let_def)
qed

lemma mark_used_step:
  assumes h: "hinv c s B L X" and a: "B a = Some b" "bfree b" "a \<in> X"
  shows "\<exists>m'. block_mark_as_used (mem s) (W a) = Inr m' \<and>
    hinv c (s\<lparr>mem := m'\<rparr>) (set_flag B a False) L (X - {a}) \<and> same_pay c B (mem s) m'"
proof -
  have v: "view_ok B" and ct: "ctl_ok c s B" and mo: "mem_ok (mem s) B" using h by (simp_all add: hinv_iff)
  have nz: "bsz b \<noteq> 0" using blk_free_size [OF view_blk [OF v a(1)] a(2)] by simp
  let ?n = "a + 8 + bsz b"
  obtain w where w: "B ?n = Some w" and f: "set_flag B a False = B(a \<mapsto> b\<lparr>bfree := False\<rparr>, ?n \<mapsto> w\<lparr>bpf := False\<rparr>)"
    using set_flag_eq [OF v a(1) nz] by metis
  define m' where "m' = wr (wr (mem s) (?n + 8) (hv (bsz w) (bfree w) False)) (a + 8) (hv (bsz b) False (bpf b))"
  note sz = blk_size [OF view_blk [OF v a(1)]] blk_size [OF view_blk [OF v w]]
  note cells = view_cells(1,5) [OF v a(1)] view_cells(1) [OF v w] view_cells(5) [OF v w]
  have eq: "block_mark_as_used (mem s) (W a) = Inr m'"
    unfolding m'_def using mark_used_eq [OF mem_ok_hdr [OF mo a(1)] _ nz _ mem_ok_hdr [OF mo w]] sz cells by simp
  have g: "agree {a + 8, ?n + 8} (mem s) m'"
    unfolding m'_def by (intro agree_wr2 agree_wr cells)
  have "hinv c (s\<lparr>mem := m'\<rparr>) (set_flag B a False) L (X - {a})"
  proof (rule hinv_change [OF h set_flag_ok [OF v a(1) nz] g, where C = "{a, ?n}"])
    fix y assume "y \<in> {a + 8, ?n + 8}"
    then show "\<exists>x\<in>{a, ?n}. \<exists>u. B x = Some u \<and> owns x u y \<and> (y = x + 8 \<or> \<not> bfree u \<or> x \<in> X)"
      using a w owns_own(1) [OF view_blk [OF v a(1)]] owns_own(1) [OF view_blk [OF v w]] by auto
  next
    fix x u assume x: "x \<in> {a, ?n}" "set_flag B a False x = Some u"
    have "rd m' (?n + 8) = hv (bsz w) (bfree w) False" "rd m' (a + 8) = hv (bsz b) False (bpf b)"
        "rd m' (?n + 8 + bsz w) = rd (mem s) (?n + 8 + bsz w)" if "bsz w \<noteq> 0"
      unfolding m'_def using that cells by (simp_all add: rd_wr)
    moreover have "rd m' (?n + 8) = hv (bsz w) (bfree w) False" "rd m' (a + 8) = hv (bsz b) False (bpf b)"
      unfolding m'_def using cells by (simp_all add: rd_wr)
    moreover have "bfree w \<Longrightarrow> bsz w \<noteq> 0" using blk_free_size [OF view_blk [OF v w]] by auto
    ultimately show "rd m' (x + 8) = hv (bsz u) (bfree u) (bpf u) \<and> (bfree u \<longrightarrow> rd m' (x + 8 + bsz u) = W x)"
      using x mem_ok_foot [OF mo w] unfolding f by (auto split: if_splits)
  next
    fix x k
    show "(\<exists>u. set_flag B a False x = Some u \<and> bfree u \<and> x \<notin> X - {a} \<and> map_ins (bsz u) = k) \<longleftrightarrow>
      (\<exists>u. B x = Some u \<and> bfree u \<and> x \<notin> X \<and> map_ins (bsz u) = k)"
      using a w unfolding f by auto
    show "ctl_ok c s (set_flag B a False)" by (rule ctl_flag [OF ct])
  qed (simp add: f)
  moreover have "same_pay c B (mem s) m'"
    by (rule same_pay_agree [OF v ct g]) (use hdr_notin_pay [OF v a(1)] hdr_notin_pay [OF v w] in blast)
  ultimately show ?thesis using eq by blast
qed

lemma mark_free_step:
  assumes h: "hinv c s B L X" and a: "B a = Some b" "\<not> bfree b" "bsz b \<noteq> 0"
  shows "\<exists>m'. block_mark_as_free (mem s) (W a) = Inr m' \<and>
    hinv c (s\<lparr>mem := m'\<rparr>) (set_flag B a True) L (insert a X) \<and> same_pay c (set_flag B a True) (mem s) m'"
proof -
  have v: "view_ok B" and ct: "ctl_ok c s B" and mo: "mem_ok (mem s) B" using h by (simp_all add: hinv_iff)
  let ?n = "a + 8 + bsz b" and ?B = "set_flag B a True"
  obtain w where w: "B ?n = Some w" and f: "?B = B(a \<mapsto> b\<lparr>bfree := True\<rparr>, ?n \<mapsto> w\<lparr>bpf := True\<rparr>)"
    using set_flag_eq [OF v a(1,3)] by metis
  define m' where "m' = wr (wr (wr (mem s) ?n (W a)) (?n + 8) (hv (bsz w) (bfree w) True)) (a + 8) (hv (bsz b) True (bpf b))"
  note sz = blk_size [OF view_blk [OF v a(1)]] blk_size [OF view_blk [OF v w]]
  note cells = view_cells(1,5) [OF v a(1)] view_cells(1) [OF v w] view_cells(5) [OF v w]
  have eq: "block_mark_as_free (mem s) (W a) = Inr m'"
    unfolding m'_def using mark_free_eq [OF mem_ok_hdr [OF mo a(1)] _ a(3) _ mem_ok_hdr [OF mo w]] sz cells by simp
  have g: "agree {a + 8, ?n + 8, ?n} (mem s) m'"
    unfolding m'_def by (intro agree_wr2 agree_wr cells)
  have v': "view_ok ?B" by (rule set_flag_ok [OF v a(1,3)])
  have "hinv c (s\<lparr>mem := m'\<rparr>) ?B L (insert a X)"
  proof (rule hinv_change [OF h v' g, where C = "{a, ?n}"])
    fix y assume "y \<in> {a + 8, ?n + 8, ?n}"
    then show "\<exists>x\<in>{a, ?n}. \<exists>u. B x = Some u \<and> owns x u y \<and> (y = x + 8 \<or> \<not> bfree u \<or> x \<in> X)"
      using a w owns_own(1,2) [OF view_blk [OF v a(1)]] owns_own(1) [OF view_blk [OF v w]] by auto
  next
    fix x u assume x: "x \<in> {a, ?n}" "?B x = Some u"
    have "rd m' (?n + 8 + bsz w) = rd (mem s) (?n + 8 + bsz w)" if "bsz w \<noteq> 0"
      unfolding m'_def using that cells by (simp add: rd_wr)
    moreover have "rd m' (?n + 8) = hv (bsz w) (bfree w) True" "rd m' (a + 8) = hv (bsz b) True (bpf b)" "rd m' ?n = W a"
      unfolding m'_def using cells a(3) by (simp_all add: rd_wr)
    moreover have "bfree w \<Longrightarrow> bsz w \<noteq> 0" using blk_free_size [OF view_blk [OF v w]] by auto
    ultimately show "rd m' (x + 8) = hv (bsz u) (bfree u) (bpf u) \<and> (bfree u \<longrightarrow> rd m' (x + 8 + bsz u) = W x)"
      using x mem_ok_foot [OF mo w] unfolding f by (auto split: if_splits)
  next
    fix x k
    show "(\<exists>u. ?B x = Some u \<and> bfree u \<and> x \<notin> insert a X \<and> map_ins (bsz u) = k) \<longleftrightarrow>
      (\<exists>u. B x = Some u \<and> bfree u \<and> x \<notin> X \<and> map_ins (bsz u) = k)"
      using a w unfolding f by auto
    show "ctl_ok c s (set_flag B a True)" by (rule ctl_flag [OF ct])
  qed (simp add: f)
  moreover have "same_pay c ?B (mem s) m'"
  proof (rule same_pay_agree [OF v' ctl_flag [OF ct] g])
    have fa: "?B a = Some (b\<lparr>bfree := True\<rparr>)" "?B ?n = Some (w\<lparr>bpf := True\<rparr>)" using f by auto
    fix y assume "y \<in> {a + 8, ?n + 8, ?n}"
    then consider "y = a + 8" | "y = ?n + 8" | "y = ?n" by auto
    then show "y \<notin> pay c ?B"
    proof cases
      case 3
      have "owns a (b\<lparr>bfree := True\<rparr>) ?n" by (simp add: owns_def)
      then show ?thesis
        using 3 free_notin_pay [OF v' fa(1)] cells by simp
    qed (use hdr_notin_pay [OF v' fa(1)] hdr_notin_pay [OF v' fa(2)] in blast)+
  qed
  ultimately show ?thesis using eq by blast
qed

subsection \<open>Splitting\<close>

lemma split_eq:
  assumes n: "rd m (a + 8) = hv n f p" "n mod 8 = 0" "n < 2 ^ 32" and sz: "24 \<le> sz" "sz mod 8 = 0" "sz + 32 \<le> n"
    and w: "rd m (a + 8 + n + 8) = hv k g q" "k mod 8 = 0"
    and cells: "cell (a + 8)" "cell (a + 8 + n)" "cell (a + 8 + n + 8)"
    and r: "r = a + 8 + sz" "rs = n - sz - 8" and p0: "p0 = bit (rd m (r + 8)) 1"
  shows "block_split m (W a) (W sz) = Inr (W r,
    wr (wr (wr (wr (wr m (r + 8) (hv rs (bit (rd m (r + 8)) 0) p0)) (a + 8) (hv sz f p)) (a + 8 + n) (W r))
      (a + 8 + n + 8) (hv k g True)) (r + 8) (hv rs True p0))"
proof -
  have rs8: "rs mod 8 = 0" and rs: "24 \<le> rs" "rs < 2 ^ 64" "rs \<noteq> 0" and e: "r + 8 + rs = a + 8 + n"
    using n sz r by (auto simp: mod_eq_0_iff_dvd)
  have rc: "cell (r + 8)" "(r + 16) mod 8 = 0" "r + 16 + 8 \<le> 2 ^ 64"
    using cells sz r e by (auto simp: cell_def mod_eq_0_iff_dvd)
  let ?m1 = "wr m (r + 8) (hv rs (bit (rd m (r + 8)) 0) p0)" let ?m2 = "wr ?m1 (a + 8) (hv sz f p)"
  have rem: "offset_to_block (W (a + 16)) (W sz - 8) = W r"
    using sz r by (simp add: W_diff_numeral ptr_cell ac_simps)
  have rsz: "W n - (W sz + 8) = W rs" using sz r by (simp add: W_diff)
  have r1: "rd ?m1 (r + 8) = hv rs (bit (rd m (r + 8)) 0) p0" "rd ?m1 (a + 8) = hv n f p"
    using rc cells n sz r by (simp_all add: rd_wr)
  have r2: "rd ?m2 (r + 8) = hv rs (bit (rd m (r + 8)) 0) p0" "rd ?m2 (r + 8 + rs + 8) = hv k g q"
    unfolding e using rc cells w sz r r1 by (simp_all add: rd_wr)
  have m2: "block_set_size ?m1 (W a) (W sz) = ?m2" using set_size_cell [OF sz(2)] r1(2) bits_of_hv [OF n(2)] by simp
  have free: "block_mark_as_free ?m2 (W r) =
      Inr (wr (wr (wr ?m2 (r + 8 + rs) (W r)) (r + 8 + rs + 8) (hv k g True)) (r + 8) (hv rs True p0))"
    by (rule mark_free_eq [OF r2(1) rs8 rs(3,2) r2(2) w(2)]) (simp_all only: rc e cells)
  have sum: "(W n = W rs + W sz + 8) = True" and min: "(24 \<le> W rs) = True"
    using rs n sz r e by (simp_all add: W_add W_numeral W_le_iff)
  show ?thesis
    by (simp only: block_split_def Let_def hdr_consts rem flags_cell(1) [OF n(1,2)] rsz ptr_cell align_ptr_cell [OF rc(2,3)]
        bindE_Inr sum min assertE_True set_size_cell [OF rs8] p0 [symmetric] flags_cell(1) [OF r1(1) rs8] m2 free e)
qed

lemma ctl_cut:
  assumes v: "view_ok B" and a: "B a = Some b" and sz: "sz + 32 \<le> bsz b" and ct: "ctl_ok c s B"
  shows "ctl_ok c s (cut B a sz g)"
proof (rule ctl_change [OF ct])
  fix x u assume x: "cut B a sz g x = Some u"
  obtain w where w: "B (a + 8 + bsz b) = Some w" and c: "cut B a sz g = B(a \<mapsto> b\<lparr>bsz := sz\<rparr>,
         a + 8 + sz \<mapsto> \<lparr>bsz = bsz b - sz - 8, bfree = g, bpf = bfree b, bpool = bpool b\<rparr>,
         a + 8 + bsz b \<mapsto> w\<lparr>bpf := g\<rparr>)"
    using cut_eq [OF v a] sz by (metis add_is_0 le_zero_eq zero_neq_numeral)
  show "c + 6536 \<le> x + 8 \<or> x + 16 + bsz u \<le> c"
    using x ctl_block [OF ct a] ctl_block [OF ct w] ctl_block [OF ct, of x u] sz
    unfolding c by (auto split: if_splits)
qed

lemma cut_new: "view_ok B \<Longrightarrow> B a = Some b \<Longrightarrow> sz + 32 \<le> bsz b \<Longrightarrow> B (a + 8 + sz) = None"
  using view_apart [of B a b "a + 8 + sz"] by (cases "B (a + 8 + sz)") auto

lemma cut_step:
  assumes h: "hinv c s B L X" and a: "B a = Some b" "bfree b \<Longrightarrow> a \<in> X"
    and sz: "24 \<le> sz" "sz mod 8 = 0" "sz + 32 \<le> bsz b" and w: "B (a + 8 + bsz b) = Some w"
    and r: "r = a + 8 + sz" "rs = bsz b - sz - 8"
    and g: "agree ({a + 8, r + 8, a + 8 + bsz b, a + 8 + bsz b + 8} \<union> (if bfree b then {r} else {})) (mem s) m'"
    and rd: "rd m' (a + 8) = hv sz (bfree b) (bpf b)" "rd m' (r + 8) = hv rs True (bfree b)"
      "rd m' (a + 8 + bsz b) = W r" "rd m' (a + 8 + bsz b + 8) = hv (bsz w) (bfree w) True"
      "bfree b \<Longrightarrow> rd m' r = W a"
  shows "hinv c (s\<lparr>mem := m'\<rparr>) (cut B a sz True) L (insert r X)"
    and "same_pay c (cut B a sz True) (mem s) m'"
proof -
  have v: "view_ok B" and ct: "ctl_ok c s B" and mo: "mem_ok (mem s) B" using h by (simp_all add: hinv_iff)
  have nz: "bsz b \<noteq> 0" using sz by simp
  let ?n = "a + 8 + bsz b" and ?B = "cut B a sz True" and ?rb = "\<lparr>bsz = rs, bfree = True, bpf = bfree b, bpool = bpool b\<rparr>"
  let ?T = "{a + 8, r + 8, ?n, ?n + 8} \<union> (if bfree b then {r} else {})"
  have f: "?B = B(a \<mapsto> b\<lparr>bsz := sz\<rparr>, r \<mapsto> ?rb, ?n \<mapsto> w\<lparr>bpf := True\<rparr>)"
    using cut_eq [OF v a(1) nz, of sz True] w r by (metis option.inject)
  have Br: "B r = None" unfolding r by (rule cut_new [OF v a(1) sz(3)])
  have v': "view_ok ?B" by (rule cut_ok [OF v a(1) sz])
  have ne: "a \<noteq> r" "r \<noteq> ?n" "a \<noteq> ?n" and e: "r + 8 + rs = ?n" using sz r by auto
  have fa: "?B a = Some (b\<lparr>bsz := sz\<rparr>)" "?B r = Some ?rb" "?B ?n = Some (w\<lparr>bpf := True\<rparr>)" using f ne by auto
  note cells = view_cells(1,5) [OF v a(1)] view_cells(1) [OF v w] view_cells(5) [OF v w]
    view_cells(1,2) [OF v' fa(2)]
  show "hinv c (s\<lparr>mem := m'\<rparr>) ?B L (insert r X)"
  proof (rule hinv_change [OF h v' g, where C = "{a, r, ?n}"])
    fix y assume y: "y \<in> ?T"
    have "owns a b (a + 8)" "owns a b (r + 8)" "owns a b ?n" "owns a b r" "owns ?n w (?n + 8)"
      using sz r by (auto simp: owns_def)
    then show "\<exists>x\<in>{a, r, ?n}. \<exists>u. B x = Some u \<and> owns x u y \<and> (y = x + 8 \<or> \<not> bfree u \<or> x \<in> X)"
      using y a w by (auto split: if_splits)
  next
    fix x u assume x: "x \<in> {a, r, ?n}" "?B x = Some u"
    then consider "x = a" "u = b\<lparr>bsz := sz\<rparr>" | "x = r" "u = ?rb" | "x = ?n" "u = w\<lparr>bpf := True\<rparr>" using fa by auto
    then show "rd m' (x + 8) = hv (bsz u) (bfree u) (bpf u) \<and> (bfree u \<longrightarrow> rd m' (x + 8 + bsz u) = W x)"
    proof cases
      case 2
      show ?thesis by (simp only: 2 rd e blk.select_convs simp_thms)
    next
      case 3
      have "24 \<le> bsz w \<and> rd m' (?n + 8 + bsz w) = rd (mem s) (?n + 8 + bsz w)" if "bfree w"
        using blk_free_size [OF view_blk [OF v w] that] agree_rd [OF g cells(4)] sz r by auto
      with 3 rd(4) mem_ok_foot [OF mo w] show ?thesis by auto
    qed (use rd e r in auto)
  next
    fix x k
    show "(\<exists>u. ?B x = Some u \<and> bfree u \<and> x \<notin> insert r X \<and> map_ins (bsz u) = k) \<longleftrightarrow>
      (\<exists>u. B x = Some u \<and> bfree u \<and> x \<notin> X \<and> map_ins (bsz u) = k)"
      using a w Br unfolding f by auto
    show "ctl_ok c s ?B" by (rule ctl_cut [OF v a(1) sz(3) ct])
  qed (simp add: f)
  show "same_pay c ?B (mem s) m'"
  proof (rule same_pay_agree [OF v' ctl_cut [OF v a(1) sz(3) ct] g])
    fix y assume "y \<in> ?T"
    then consider "y = a + 8" | "y = r + 8" | "y = ?n" | "y = ?n + 8" | "y = r" "bfree b" by (auto split: if_splits)
    then show "y \<notin> pay c ?B"
    proof cases
      case 3
      have "owns r ?rb ?n" using e by (simp add: owns_def)
      with 3 free_notin_pay [OF v' fa(2)] cells show ?thesis by simp
    next
      case 5
      have "owns a (b\<lparr>bsz := sz\<rparr>) r" using r by (simp add: owns_def)
      with 5 free_notin_pay [OF v' fa(1)] cells show ?thesis by simp
    qed (use hdr_notin_pay [OF v' fa(1)] hdr_notin_pay [OF v' fa(2)] hdr_notin_pay [OF v' fa(3)] in blast)+
  qed
qed

end
