(* ===== verification/Tlsf_Ops.thy ===== *)
theory Tlsf_Ops
  imports Tlsf_Steps
begin

text \<open>
  The composed routines on blocks: removal and insertion by size, absorbing, trimming. Each lemma
  says that the routine does not fail on a heap that satisfies the invariant, which view the heap
  has afterwards, which blocks are off their list, and that no byte of a used block changes.
\<close>

definition hok :: "nat \<Rightarrow> tlsf \<Rightarrow> view \<Rightarrow> nat set \<Rightarrow> bool" where
  "hok c s B X \<longleftrightarrow> (\<exists>L. hinv c s B L X)"

text \<open>The allocated blocks of a view: payload address and size.\<close>

definition allocs :: "view \<Rightarrow> nat \<Rightarrow> nat option" where
  "allocs B p = (if p < 16 then None else
     case B (p - 16) of None \<Rightarrow> None
     | Some b \<Rightarrow> if bfree b \<or> bsz b = 0 then None else Some (bsz b))"

lemma allocs_Some: "allocs B p = Some n \<longleftrightarrow> (\<exists>a b. p = a + 16 \<and> B a = Some b \<and> \<not> bfree b \<and> bsz b = n \<and> n \<noteq> 0)"
proof
  assume "allocs B p = Some n"
  then have "p = (p - 16) + 16 \<and> (\<exists>b. B (p - 16) = Some b \<and> \<not> bfree b \<and> bsz b = n \<and> n \<noteq> 0)"
    by (auto simp: allocs_def split: if_splits option.splits)
  then show "\<exists>a b. p = a + 16 \<and> B a = Some b \<and> \<not> bfree b \<and> bsz b = n \<and> n \<noteq> 0" by blast
qed (auto simp: allocs_def)

lemma pay_allocs:
  "pay c B = {y. \<exists>p n. allocs B p = Some n \<and> p \<le> y \<and> y < p + n} \<union>
     {y. y < 2 ^ 64 \<and> y \<notin> region B \<and> (y < c \<or> c + 6536 \<le> y)}"
proof -
  have "(\<exists>a b. B a = Some b \<and> \<not> bfree b \<and> a + 16 \<le> y \<and> y < a + 16 + bsz b) \<longleftrightarrow>
      (\<exists>p n. allocs B p = Some n \<and> p \<le> y \<and> y < p + n)" for y
  proof (intro iffI; elim exE conjE)
    fix a b assume "B a = Some b" "\<not> bfree b" "a + 16 \<le> y" "y < a + 16 + bsz b"
    moreover from this have "allocs B (a + 16) = Some (bsz b)" unfolding allocs_Some by auto
    ultimately show "\<exists>p n. allocs B p = Some n \<and> p \<le> y \<and> y < p + n" by blast
  next
    fix p n assume "allocs B p = Some n" and y: "p \<le> y" "y < p + n"
    then obtain a b where "p = a + 16" "B a = Some b" "\<not> bfree b" "bsz b = n" unfolding allocs_Some by blast
    with y show "\<exists>a b. B a = Some b \<and> \<not> bfree b \<and> a + 16 \<le> y \<and> y < a + 16 + bsz b" by blast
  qed
  then show ?thesis unfolding pay_def by simp
qed

lemma allocs_at: "allocs B (a + 16) = (case B a of None \<Rightarrow> None
     | Some b \<Rightarrow> if bfree b \<or> bsz b = 0 then None else Some (bsz b))"
  by (simp add: allocs_def)

lemma allocs_eqI: "(\<And>a. allocs B (a + 16) = f (a + 16)) \<Longrightarrow> (\<And>p. p < 16 \<Longrightarrow> f p = None) \<Longrightarrow> allocs B = f"
proof
  fix p assume a: "\<And>a. allocs B (a + 16) = f (a + 16)" "\<And>p. p < 16 \<Longrightarrow> f p = None"
  show "allocs B p = f p"
  proof (cases "p < 16")
    case True
    then show ?thesis using a(2) by (simp add: allocs_def)
  next
    case False
    then show ?thesis using a(1) [of "p - 16"] by simp
  qed
qed

lemma allocs_small: "p < 16 \<Longrightarrow> allocs B p = None"
  by (simp add: allocs_def)

lemma allocs_set_flag:
  assumes "view_ok B" and "B a = Some b" and "bsz b \<noteq> 0"
  shows "allocs (set_flag B a f) = (allocs B)(a + 16 := if f then None else Some (bsz b))"
proof -
  obtain w where w: "B (a + 8 + bsz b) = Some w"
    and f: "set_flag B a f = B(a \<mapsto> b\<lparr>bfree := f\<rparr>, a + 8 + bsz b \<mapsto> w\<lparr>bpf := f\<rparr>)"
    using set_flag_eq [OF assms] by metis
  show ?thesis
    by (rule allocs_eqI) (use assms w in \<open>auto simp: allocs_at f allocs_small\<close>)
qed

lemma allocs_cut:
  assumes v: "view_ok B" and a: "B a = Some b" and sz: "24 \<le> sz" "sz + 32 \<le> bsz b"
  shows "allocs (cut B a sz True) = (allocs B)(a + 16 := if bfree b then None else Some sz)"
proof -
  have nz: "bsz b \<noteq> 0" using sz by simp
  obtain w where w: "B (a + 8 + bsz b) = Some w" and f: "cut B a sz True = B(a \<mapsto> b\<lparr>bsz := sz\<rparr>,
         a + 8 + sz \<mapsto> \<lparr>bsz = bsz b - sz - 8, bfree = True, bpf = bfree b, bpool = bpool b\<rparr>,
         a + 8 + bsz b \<mapsto> w\<lparr>bpf := True\<rparr>)"
    using cut_eq [OF v a nz] by metis
  show ?thesis
    by (rule allocs_eqI) (use a w sz cut_new [OF v a sz(2)] in \<open>auto simp: allocs_at f allocs_small\<close>)
qed

lemma allocs_join:
  assumes v: "view_ok B" and a: "B a = Some b" "bsz b \<noteq> 0" and x: "B (a + 8 + bsz b) = Some u" "bsz u \<noteq> 0" "bfree u"
  shows "allocs (join B a f) = (allocs B)(a + 16 := if f then None else Some (bsz b + 8 + bsz u))"
proof -
  obtain w where w: "B (a + 8 + bsz b + 8 + bsz u) = Some w"
    and f: "join B a f = B(a \<mapsto> b\<lparr>bsz := bsz b + 8 + bsz u, bfree := f\<rparr>, a + 8 + bsz b := None,
      a + 8 + bsz b + 8 + bsz u \<mapsto> w\<lparr>bpf := f\<rparr>)"
    using join_eq [OF v a x(1,2)] by metis
  show ?thesis
    by (rule allocs_eqI) (use a w x in \<open>auto simp: allocs_at f allocs_small\<close>)
qed

text \<open>The steps on views keep the memory of the pools.\<close>

lemma region_set_flag:
  assumes "view_ok B" and "B a = Some b" and "bsz b \<noteq> 0"
  shows "region (set_flag B a f) = region B"
proof -
  let ?n = "a + 8 + bsz b"
  obtain w where w: "B ?n = Some w"
    and f: "set_flag B a f = B(a \<mapsto> b\<lparr>bfree := f\<rparr>, ?n \<mapsto> w\<lparr>bpf := f\<rparr>)"
    using set_flag_eq [OF assms] by metis
  have "\<exists>u'. B x = Some u' \<and> bsz u' = bsz u" if "set_flag B a f x = Some u" for x u
    using that assms w unfolding f by (auto split: if_splits)
  moreover have "\<exists>u'. set_flag B a f x = Some u' \<and> bsz u' = bsz u" if "B x = Some u" for x u
    using that assms w unfolding f by auto
  ultimately show ?thesis unfolding region_def by (intro Collect_cong) metis
qed

text \<open>It is enough that one block is tiled by the blocks that replace it.\<close>

lemma region_tile:
  assumes "\<And>x u. B' x = Some u \<Longrightarrow> \<exists>x0 u0. B x0 = Some u0 \<and> bsz u \<le> bsz u0 \<and> x0 \<le> x \<and> x + bsz u \<le> x0 + bsz u0"
    and "\<And>x u y. B x = Some u \<Longrightarrow> x + 8 \<le> y \<Longrightarrow> y < x + 16 + bsz u \<Longrightarrow>
      \<exists>x' u'. B' x' = Some u' \<and> x' + 8 \<le> y \<and> y < x' + 16 + bsz u'"
  shows "region B' = region B"
proof (intro set_eqI iffI)
  fix y assume "y \<in> region B'"
  then obtain x u where x: "B' x = Some u" "x + 8 \<le> y" "y < x + 16 + bsz u" unfolding region_def by blast
  from assms(1) [OF x(1)] obtain x0 u0 where "B x0 = Some u0" "x0 \<le> x" "x + bsz u \<le> x0 + bsz u0" by blast
  moreover from this x have "x0 + 8 \<le> y" "y < x0 + 16 + bsz u0" by linarith+
  ultimately show "y \<in> region B" unfolding region_def by blast
qed (use assms(2) in \<open>unfold region_def, blast\<close>)

lemma region_cut:
  assumes v: "view_ok B" and a: "B a = Some b" and sz: "24 \<le> sz" "sz + 32 \<le> bsz b"
  shows "region (cut B a sz g) = region B"
proof -
  have nz: "bsz b \<noteq> 0" using sz by simp
  let ?r = "a + 8 + sz" and ?n = "a + 8 + bsz b" and ?rb = "\<lparr>bsz = bsz b - sz - 8, bfree = g, bpf = bfree b, bpool = bpool b\<rparr>"
  obtain w where w: "B ?n = Some w" and f: "cut B a sz g = B(a \<mapsto> b\<lparr>bsz := sz\<rparr>, ?r \<mapsto> ?rb, ?n \<mapsto> w\<lparr>bpf := g\<rparr>)"
    using cut_eq [OF v a nz] by metis
  have fa: "cut B a sz g a = Some (b\<lparr>bsz := sz\<rparr>)" "cut B a sz g ?r = Some ?rb" "cut B a sz g ?n = Some (w\<lparr>bpf := g\<rparr>)"
    unfolding f using sz by auto
  show ?thesis
  proof (rule region_tile)
    fix x u assume "cut B a sz g x = Some u"
    then consider "x = a" "bsz u = sz" | "x = ?r" "bsz u = bsz b - sz - 8" | "x = ?n" "bsz u = bsz w" | "B x = Some u"
      unfolding f by (auto split: if_splits)
    then show "\<exists>x0 u0. B x0 = Some u0 \<and> bsz u \<le> bsz u0 \<and> x0 \<le> x \<and> x + bsz u \<le> x0 + bsz u0"
    proof cases
      case 1
      with a sz show ?thesis by (intro exI [of _ a] exI [of _ b]) simp
    next
      case 2
      with a sz show ?thesis by (intro exI [of _ a] exI [of _ b]) simp
    next
      case 3
      with w show ?thesis by (intro exI [of _ ?n] exI [of _ w]) simp
    qed blast
  next
    fix x u y assume x: "B x = Some u" "x + 8 \<le> y" "y < x + 16 + bsz u"
    show "\<exists>x' u'. cut B a sz g x' = Some u' \<and> x' + 8 \<le> y \<and> y < x' + 16 + bsz u'"
    proof (cases "x = a")
      case True
      then have u: "u = b" using x a by simp
      show ?thesis
      proof (cases "y < a + 16 + sz")
        case True
        with fa(1) x \<open>x = a\<close> show ?thesis by (intro exI [of _ a] exI [of _ "b\<lparr>bsz := sz\<rparr>"]) simp
      next
        case False
        with fa(2) x \<open>x = a\<close> u sz show ?thesis by (intro exI [of _ ?r] exI [of _ ?rb]) simp
      qed
    next
      case False
      have "x \<noteq> ?r" using cut_new [OF v a sz(2)] x(1) by auto
      with False x(1) w have "\<exists>u'. cut B a sz g x = Some u' \<and> bsz u' = bsz u"
        by (cases "x = ?n") (use fa(3) in \<open>auto simp: f\<close>)
      with x(2,3) show ?thesis by metis
    qed
  qed
qed

lemma region_join:
  assumes v: "view_ok B" and a: "B a = Some b" "bsz b \<noteq> 0" and x: "B (a + 8 + bsz b) = Some u" "bsz u \<noteq> 0"
  shows "region (join B a f) = region B"
proof -
  let ?x = "a + 8 + bsz b" let ?y = "?x + 8 + bsz u" let ?b = "b\<lparr>bsz := bsz b + 8 + bsz u, bfree := f\<rparr>"
  obtain w where w: "B ?y = Some w" and f: "join B a f = B(a \<mapsto> ?b, ?x := None, ?y \<mapsto> w\<lparr>bpf := f\<rparr>)"
    using join_eq [OF v a x] by metis
  have fa: "join B a f a = Some ?b" "join B a f ?y = Some (w\<lparr>bpf := f\<rparr>)" unfolding f using x by auto
  have "region B = region (join B a f)"
  proof (rule region_tile)
    fix z q assume q: "B z = Some q"
    consider "z = a" | "z = ?x" | "z = ?y" | "z \<noteq> a" "z \<noteq> ?x" "z \<noteq> ?y" by blast
    then show "\<exists>x0 u0. join B a f x0 = Some u0 \<and> bsz q \<le> bsz u0 \<and> x0 \<le> z \<and> z + bsz q \<le> x0 + bsz u0"
    proof cases
      case 1
      with q a(1) have "q = b" by simp
      with 1 fa(1) show ?thesis by (intro exI [of _ a] exI [of _ ?b]) simp
    next
      case 2
      with q x(1) have "q = u" by simp
      with 2 fa(1) show ?thesis by (intro exI [of _ a] exI [of _ ?b]) simp
    next
      case 3
      with q w have "q = w" by simp
      with 3 fa(2) show ?thesis by (intro exI [of _ ?y] exI [of _ "w\<lparr>bpf := f\<rparr>"]) simp
    next
      case 4
      then show ?thesis using q by (intro exI [of _ z] exI [of _ q]) (simp add: f)
    qed
  next
    fix z q y assume z: "join B a f z = Some q" "z + 8 \<le> y" "y < z + 16 + bsz q"
    have "B z = Some q" if "z \<noteq> a" "z \<noteq> ?y"
      using z(1) that by (cases "z = ?x") (simp_all add: f)
    then consider "z = a" | "z = ?y" | "B z = Some q" by blast
    then show "\<exists>x' u'. B x' = Some u' \<and> x' + 8 \<le> y \<and> y < x' + 16 + bsz u'"
    proof cases
      case 1
      then have q: "q = ?b" using fa(1) z(1) by simp
      show ?thesis
      proof (cases "y < a + 16 + bsz b")
        case True
        with a z 1 show ?thesis by blast
      next
        case False
        with x z 1 q show ?thesis by (intro exI [of _ ?x] exI [of _ u]) simp
      qed
    next
      case 2
      then have "q = w\<lparr>bpf := f\<rparr>" using fa(2) z(1) by simp
      with 2 w z show ?thesis by (intro exI [of _ ?y] exI [of _ w]) simp
    qed (use z in blast)
  qed
  then show ?thesis by simp
qed

subsection \<open>Free lists by size\<close>

lemma hinvD:
  assumes "hinv c s B L X"
  shows "view_ok B" and "ctl_ok c s B" and "mem_ok (mem s) B"
  using assms by (simp_all add: hinv_iff)

lemma block_size_hinv:
  assumes "hinv c s B L X" and "B a = Some b"
  shows "block_size (mem s) (W a) = W (bsz b)" and "block_is_free (mem s) (W a) = bfree b"
    and "block_is_prev_free (mem s) (W a) = bpf b"
  using flags_cell(1-3) [OF mem_ok_hdr [OF hinvD(3) [OF assms(1)] assms(2)]]
    blk_size [OF view_blk [OF hinvD(1) [OF assms(1)] assms(2)]] by simp_all

lemma mapping_insert_W:
  assumes "hinv c s B L X" and "B a = Some b"
  shows "mapping_insert (W (bsz b)) = (int (fst (map_ins (bsz b))), int (snd (map_ins (bsz b))))"
  using mapping_insert_of_nat [of "bsz b"] blk_size [OF view_blk [OF hinvD(1) [OF assms(1)] assms(2)]]
  by (simp add: W_def)

lemma block_remove_step:
  assumes "hok c s B X" and "B a = Some b" "bfree b" "a \<notin> X"
  shows "\<exists>s'. block_remove s (W a) = Inr s' \<and> hok c s' B (insert a X) \<and> same_pay c B (mem s) (mem s')"
proof -
  obtain L where h: "hinv c s B L X" using assms(1) by (auto simp: hok_def)
  obtain i j where ij: "map_ins (bsz b) = (i, j)" by force
  from remove_free_block_hinv [OF h assms(2-4) ij] show ?thesis
    using ij mapping_insert_W [OF h assms(2)] block_size_hinv [OF h assms(2)]
    by (auto simp: block_remove_def hok_def)
qed

lemma block_insert_step:
  assumes "hok c s B X" and "B a = Some b" "bfree b" "a \<in> X"
  shows "\<exists>s'. block_insert s (W a) = Inr s' \<and> hok c s' B (X - {a}) \<and> same_pay c B (mem s) (mem s')"
proof -
  obtain L where h: "hinv c s B L X" using assms(1) by (auto simp: hok_def)
  obtain i j where ij: "map_ins (bsz b) = (i, j)" by force
  from insert_free_block_hinv [OF h assms(2-4) ij] show ?thesis
    using ij mapping_insert_W [OF h assms(2)] block_size_hinv [OF h assms(2)]
    by (auto simp: block_insert_def hok_def)
qed

subsection \<open>Absorbing\<close>

lemma absorb_eq:
  assumes n: "rd m (a + 8) = hv n f p" "n mod 8 = 0" "n \<noteq> 0" and k: "block_size m (W x) = W k" "k mod 8 = 0"
    and lt: "n + 8 + k < 2 ^ 64" and cells: "cell (a + 8)"
  shows "block_absorb m (W a) (W x) =
    Inr (W a, wr (wr m (a + 8) (hv (n + 8 + k) f p)) (a + 8 + (n + 8 + k)) (W a))"
proof -
  let ?m = "wr m (a + 8) (hv (n + 8 + k) f p)"
  have "hv n f p + (W k + 8) = hv (n + 8 + k) f p"
    by (simp add: hv_def W_add ac_simps)
  moreover have "rd ?m (a + 8) = hv (n + 8 + k) f p" using cells by (simp add: rd_wr)
  moreover have "(n + 8 + k) mod 8 = 0" using n k by (simp add: mod_eq_0_iff_dvd)
  moreover have "\<not> block_is_last m (W a)" using next_cell(2) [OF n] lt by simp
  ultimately show ?thesis
    using next_cell(1) [of ?m a "n + 8 + k" f p] lt n(1) k(1)
    by (simp add: block_absorb_def fields_cell hdr_consts block_link_next_def)
qed

lemma ctl_join:
  assumes v: "view_ok B" and a: "B a = Some b" "bsz b \<noteq> 0" and x: "B (a + 8 + bsz b) = Some u" "bsz u \<noteq> 0"
    and ct: "ctl_ok c s B"
  shows "ctl_ok c s (join B a f)"
proof (rule ctl_change [OF ct])
  fix z q assume z: "join B a f z = Some q"
  obtain w where w: "B (a + 8 + bsz b + 8 + bsz u) = Some w"
    and f: "join B a f = B(a \<mapsto> b\<lparr>bsz := bsz b + 8 + bsz u, bfree := f\<rparr>, a + 8 + bsz b := None,
      a + 8 + bsz b + 8 + bsz u \<mapsto> w\<lparr>bpf := f\<rparr>)"
    using join_eq [OF v a x] by metis
  show "c + 6536 \<le> z + 8 \<or> z + 16 + bsz q \<le> c"
    using z ctl_block [OF ct a(1)] ctl_block [OF ct x(1)] ctl_block [OF ct w] ctl_block [OF ct, of z q]
    unfolding f by (auto split: if_splits)
qed

lemma join_step:
  assumes h: "hinv c s B L X" and a: "B a = Some b" "bsz b \<noteq> 0" "bfree b = f" "f \<Longrightarrow> a \<in> X"
    and x: "x = a + 8 + bsz b" "B x = Some u" "bfree u" "x \<in> X"
    and y: "y = x + 8 + bsz u" "B y = Some w"
    and g: "agree {a + 8, y, y + 8} (mem s) m'"
    and rd: "rd m' (a + 8) = hv (bsz b + 8 + bsz u) f (bpf b)" "rd m' (y + 8) = hv (bsz w) (bfree w) f"
      "f \<Longrightarrow> rd m' y = W a"
  shows "hinv c (s\<lparr>mem := m'\<rparr>) (join B a f) L (X - {x})" and "same_pay c B (mem s) m'"
proof -
  note v = hinvD(1) [OF h] and ct = hinvD(2) [OF h] and mo = hinvD(3) [OF h]
  have u: "24 \<le> bsz u" "bsz u \<noteq> 0" using blk_free_size [OF view_blk [OF v x(2)] x(3)] by simp_all
  let ?b = "b\<lparr>bsz := bsz b + 8 + bsz u, bfree := f\<rparr>" and ?B = "join B a f"
  have f: "?B = B(a \<mapsto> ?b, x := None, y \<mapsto> w\<lparr>bpf := f\<rparr>)"
    using join_eq [OF v a(1,2), of u f] x y u by (metis option.inject)
  have v': "view_ok ?B" by (rule join_ok [OF v a(1,2)]) (use x u in auto)
  have ne: "a \<noteq> x" "x \<noteq> y" "a \<noteq> y" and e: "a + 8 + (bsz b + 8 + bsz u) = y" using x y by auto
  note cells = view_cells(1,5) [OF v a(1)] view_cells(1,5) [OF v x(2)] view_cells(1,5) [OF v y(2)]
  have own: "owns a b (a + 8)" "owns x u y" "owns y w (y + 8)" using y by (auto simp: owns_def)
  show "hinv c (s\<lparr>mem := m'\<rparr>) ?B L (X - {x})"
  proof (rule hinv_change [OF h v' g, where C = "{a, x, y}"])
    fix z assume "z \<in> {a + 8, y, y + 8}"
    then show "\<exists>t\<in>{a, x, y}. \<exists>q. B t = Some q \<and> owns t q z \<and> (z = t + 8 \<or> \<not> bfree q \<or> t \<in> X)"
      using own a x y by auto
  next
    fix z q assume z: "z \<in> {a, x, y}" "?B z = Some q"
    then consider "z = a" "q = ?b" | "z = y" "q = w\<lparr>bpf := f\<rparr>" using f ne by (auto split: if_splits)
    then show "rd m' (z + 8) = hv (bsz q) (bfree q) (bpf q) \<and> (bfree q \<longrightarrow> rd m' (z + 8 + bsz q) = W z)"
    proof cases
      case 1
      then show ?thesis using rd(1,3) e by (simp del: add.assoc)
    next
      case 2
      have "24 \<le> bsz w \<and> rd m' (y + 8 + bsz w) = rd (mem s) (y + 8 + bsz w)" if "bfree w"
        using blk_free_size [OF view_blk [OF v y(2)] that] agree_rd [OF g cells(6)] x y by auto
      with 2 rd(2) mem_ok_foot [OF mo y(2)] show ?thesis by auto
    qed
  next
    fix z k
    show "(\<exists>q. ?B z = Some q \<and> bfree q \<and> z \<notin> X - {x} \<and> map_ins (bsz q) = k) \<longleftrightarrow>
      (\<exists>q. B z = Some q \<and> bfree q \<and> z \<notin> X \<and> map_ins (bsz q) = k)"
      using a x y ne unfolding f by auto
    show "ctl_ok c s ?B" by (rule ctl_join [OF v a(1,2) _ _ ct]) (use x u in auto)
  qed (simp add: f)
  show "same_pay c B (mem s) m'"
  proof (rule same_pay_agree [OF v ct g])
    fix z assume "z \<in> {a + 8, y, y + 8}"
    then show "z \<notin> pay c B"
      using hdr_notin_pay [OF v a(1)] hdr_notin_pay [OF v y(2)] free_notin_pay [OF v x(2,3) own(2)] view_cells(2) [OF v y(2)]
      by blast
  qed
qed

text \<open>Two adjacent free blocks become one.\<close>

lemma absorb_step:
  assumes "hok c s B X" and a: "B a = Some b" "bfree b" "a \<in> X"
    and x: "x = a + 8 + bsz b" "B x = Some u" "bfree u" "x \<in> X"
  shows "\<exists>m'. block_absorb (mem s) (W a) (W x) = Inr (W a, m') \<and>
    hok c (s\<lparr>mem := m'\<rparr>) (join B a True) (X - {x}) \<and> same_pay c B (mem s) m'"
proof -
  obtain L where h: "hinv c s B L X" using assms(1) by (auto simp: hok_def)
  note v = hinvD(1) [OF h] and mo = hinvD(3) [OF h]
  have nz: "bsz b \<noteq> 0" "bsz u \<noteq> 0"
    using blk_free_size [OF view_blk [OF v a(1)] a(2)] blk_free_size [OF view_blk [OF v x(2)] x(3)] by simp_all
  let ?y = "x + 8 + bsz u"
  obtain w where w: "B ?y = Some w" "bpf w = bfree u" using view_next [OF v x(2) nz(2)] .
  note cells = view_cells(1,5) [OF v a(1)] view_cells(1,5) [OF v x(2)] view_cells(1) [OF v w(1)]
  have e: "a + 8 + (bsz b + 8 + bsz u) = ?y" using x by simp
  define m' where "m' = wr (wr (mem s) (a + 8) (hv (bsz b + 8 + bsz u) True (bpf b))) ?y (W a)"
  have lt: "bsz b + 8 + bsz u < 2 ^ 64" using view_blk [OF v x(2)] x by (auto simp: blk_ok_def)
  have eq: "block_absorb (mem s) (W a) (W x) = Inr (W a, m')"
    using absorb_eq [OF mem_ok_hdr [OF mo a(1)] _ nz(1) block_size_hinv(1) [OF h x(2)] _ lt cells(1)]
      blk_size [OF view_blk [OF v a(1)]] blk_size [OF view_blk [OF v x(2)]] a(2)
    by (simp only: m'_def e)
  have g: "agree {a + 8, ?y, ?y + 8} (mem s) m'"
    by (rule agree_mono [of "{?y, a + 8}"]) (unfold m'_def, intro agree_wr2 agree_wr cells, auto)
  have rd: "rd m' (a + 8) = hv (bsz b + 8 + bsz u) True (bpf b)" "rd m' ?y = W a"
      "rd m' (?y + 8) = hv (bsz w) (bfree w) True"
    unfolding m'_def using cells mem_ok_hdr [OF mo w(1)] w(2) x nz by (simp_all add: rd_wr)
  note j = join_step [OF h a(1) nz(1) _ _ x refl w(1) g, of True]
  show ?thesis using eq j rd a unfolding hok_def by blast
qed

subsection \<open>Trimming a free block\<close>

lemma can_split_iff:
  assumes "hinv c s B L X" and "B a = Some b" and "sz < 2 ^ 32"
  shows "block_can_split (mem s) (W a) (W sz) \<longleftrightarrow> sz + 32 \<le> bsz b"
proof -
  have "bsz b < 2 ^ 64" using view_size [OF hinvD(1) [OF assms(1)] assms(2)] by simp
  then show ?thesis
    using assms(3) by (simp add: block_can_split_def block_size_hinv(1) [OF assms(1,2)] hdr_consts W_numeral W_add W_le_iff add.commute)
qed

lemma pay_eqI: "allocs B = allocs B' \<Longrightarrow> region B = region B' \<Longrightarrow> pay c B = pay c B'"
  by (simp add: pay_allocs)

lemma allocs_free: "B a = Some b \<Longrightarrow> bfree b \<Longrightarrow> allocs B (a + 16) = None"
  by (simp add: allocs_at)

lemma allocs_cut_free:
  assumes "view_ok B" and "B a = Some b" "bfree b" and "24 \<le> sz" "sz + 32 \<le> bsz b"
  shows "allocs (cut B a sz True) = allocs B"
  using allocs_cut [OF assms(1,2,4,5)] assms(3) allocs_free [of B a b] assms(2) by (simp add: fun_upd_idem)

text \<open>The memory after \<open>block_split\<close>, with the flags of the new block.\<close>

lemma split_step:
  assumes h: "hinv c s B L X" and a: "B a = Some b" "bfree b \<Longrightarrow> a \<in> X"
    and sz: "24 \<le> sz" "sz mod 8 = 0" "sz + 32 \<le> bsz b" and r: "r = a + 8 + sz"
  obtains m p0 where "block_split (mem s) (W a) (W sz) = Inr (W r, m)"
    and "rd m (r + 8) = hv (bsz b - sz - 8) True p0" and "rd m (a + 8) = hv sz (bfree b) (bpf b)"
    and "\<And>m'. agree (insert (r + 8) (if bfree b then {r} else {})) m m' \<Longrightarrow> rd m' (r + 8) = hv (bsz b - sz - 8) True (bfree b) \<Longrightarrow>
      (bfree b \<Longrightarrow> rd m' r = W a) \<Longrightarrow>
      hinv c (s\<lparr>mem := m'\<rparr>) (cut B a sz True) L (insert r X) \<and> same_pay c (cut B a sz True) (mem s) m'"
proof -
  note v = hinvD(1) [OF h] and mo = hinvD(3) [OF h]
  have nz: "bsz b \<noteq> 0" using sz by simp
  let ?n = "a + 8 + bsz b" and ?rs = "bsz b - sz - 8"
  obtain w where w: "B ?n = Some w" using view_next [OF v a(1) nz] .
  note cells = view_cells(1,5) [OF v a(1)] view_cells(1) [OF v w]
  let ?p = "bit (rd (mem s) (r + 8)) 1"
  define m where "m = wr (wr (wr (wr (wr (mem s) (r + 8) (hv ?rs (bit (rd (mem s) (r + 8)) 0) ?p)) (a + 8) (hv sz (bfree b) (bpf b))) ?n (W r))
      (?n + 8) (hv (bsz w) (bfree w) True)) (r + 8) (hv ?rs True ?p)"
  have eq: "block_split (mem s) (W a) (W sz) = Inr (W r, m)"
    unfolding m_def
    by (rule split_eq [OF mem_ok_hdr [OF mo a(1)] _ view_size [OF v a(1)] sz mem_ok_hdr [OF mo w] _ cells r refl refl])
      (use blk_size [OF view_blk [OF v a(1)]] blk_size [OF view_blk [OF v w]] in simp_all)
  have rc: "cell r" "cell (r + 8)"
    using cells sz r by (auto simp: cell_def mod_eq_0_iff_dvd dvd_add_left_iff)
  have g: "agree {r + 8, ?n + 8, ?n, a + 8} (mem s) m"
    unfolding m_def
    by (rule agree_mono [of "{r + 8, ?n + 8, ?n, a + 8, r + 8}"]) (intro agree_wr2 agree_wr cells rc, auto)
  have rd: "rd m (r + 8) = hv ?rs True ?p" "rd m (a + 8) = hv sz (bfree b) (bpf b)" "rd m ?n = W r"
      "rd m (?n + 8) = hv (bsz w) (bfree w) True"
    unfolding m_def using cells rc r sz by (simp_all add: rd_wr)
  show thesis
  proof (rule that [OF eq rd(1,2)], intro conjI)
    fix m' assume m': "agree (insert (r + 8) (if bfree b then {r} else {})) m m'" "rd m' (r + 8) = hv ?rs True (bfree b)"
      "bfree b \<Longrightarrow> rd m' r = W a"
    have "agree ({r + 8, ?n + 8, ?n, a + 8} \<union> insert (r + 8) (if bfree b then {r} else {})) (mem s) m'"
      by (rule agree_trans [OF g m'(1)])
    then have g': "agree ({a + 8, r + 8, ?n, ?n + 8} \<union> (if bfree b then {r} else {})) (mem s) m'"
      by (rule agree_mono) auto
    have "y \<notin> insert (r + 8) (if bfree b then {r} else {})" if "y \<in> {a + 8, ?n, ?n + 8}" for y
      using that r sz by (auto split: if_splits)
    then have "rd m' (a + 8) = hv sz (bfree b) (bpf b)" "rd m' ?n = W r" "rd m' (?n + 8) = hv (bsz w) (bfree w) True"
      using agree_rd [OF m'(1)] cells rd by (metis insertI1 insertI2)+
    note c = cut_step [OF h a sz w r refl g' this(1) m'(2) this(2,3) m'(3)]
    show "hinv c (s\<lparr>mem := m'\<rparr>) (cut B a sz True) L (insert r X)"
      and "same_pay c (cut B a sz True) (mem s) m'" using c by simp_all
  qed
qed

lemma cut_rear:
  assumes v: "view_ok B" and a: "B a = Some b" and sz: "24 \<le> sz" "sz + 32 \<le> bsz b"
  shows "cut B a sz g (a + 8 + sz) = Some \<lparr>bsz = bsz b - sz - 8, bfree = g, bpf = bfree b, bpool = bpool b\<rparr>"
proof -
  have "bsz b \<noteq> 0" using sz by simp
  from cut_eq [OF v a this] obtain w where "cut B a sz g = B(a \<mapsto> b\<lparr>bsz := sz\<rparr>,
         a + 8 + sz \<mapsto> \<lparr>bsz = bsz b - sz - 8, bfree = g, bpf = bfree b, bpool = bpool b\<rparr>,
         a + 8 + bsz b \<mapsto> w\<lparr>bpf := g\<rparr>)" by metis
  then show ?thesis using sz by simp
qed

lemma cut_front:
  assumes v: "view_ok B" and a: "B a = Some b" and sz: "24 \<le> sz" "sz + 32 \<le> bsz b"
  shows "cut B a sz g a = Some (b\<lparr>bsz := sz\<rparr>)"
proof -
  have "bsz b \<noteq> 0" using sz by simp
  from cut_eq [OF v a this] obtain w where "cut B a sz g = B(a \<mapsto> b\<lparr>bsz := sz\<rparr>,
         a + 8 + sz \<mapsto> \<lparr>bsz = bsz b - sz - 8, bfree = g, bpf = bfree b, bpool = bpool b\<rparr>,
         a + 8 + bsz b \<mapsto> w\<lparr>bpf := g\<rparr>)" by metis
  then show ?thesis using sz by simp
qed

lemma trim_free_step:
  assumes "hok c s B {a}" and a: "B a = Some b" "bfree b"
    and sz: "24 \<le> sz" "sz mod 8 = 0" "sz < 2 ^ 32"
  shows "\<exists>s'. block_trim_free s (W a) (W sz) = Inr s' \<and>
    hok c s' (if sz + 32 \<le> bsz b then cut B a sz True else B) {a} \<and> same_pay c B (mem s) (mem s')"
proof -
  obtain L where h: "hinv c s B L {a}" using assms(1) by (auto simp: hok_def)
  note v = hinvD(1) [OF h]
  have free: "block_is_free (mem s) (W a)" using block_size_hinv(2) [OF h a(1)] a(2) by simp
  show ?thesis
  proof (cases "sz + 32 \<le> bsz b")
    case False
    then show ?thesis
      using assms(1) free can_split_iff [OF h a(1) sz(3)] by (simp add: block_trim_free_def)
  next
    case True
    let ?r = "a + 8 + sz" and ?B = "cut B a sz True"
    from split_step [OF h a(1) _ sz(1,2) True refl] obtain m p0 where
      m: "block_split (mem s) (W a) (W sz) = Inr (W ?r, m)"
      "rd m (?r + 8) = hv (bsz b - sz - 8) True p0" "rd m (a + 8) = hv sz (bfree b) (bpf b)"
      and fin: "\<And>m'. agree (insert (?r + 8) (if bfree b then {?r} else {})) m m' \<Longrightarrow> rd m' (?r + 8) = hv (bsz b - sz - 8) True (bfree b) \<Longrightarrow>
        (bfree b \<Longrightarrow> rd m' ?r = W a) \<Longrightarrow> hinv c (s\<lparr>mem := m'\<rparr>) ?B L (insert ?r {a}) \<and> same_pay c ?B (mem s) m'"
      by auto
    have v': "view_ok ?B" by (rule cut_ok [OF v a(1) sz(1,2) True])
    have Br: "?B ?r = Some \<lparr>bsz = bsz b - sz - 8, bfree = True, bpf = True, bpool = bpool b\<rparr>"
      using cut_rear [OF v a(1) sz(1) True] a(2) by simp
    note rc = view_cells(1,2) [OF v' Br]
    have rs: "(bsz b - sz - 8) mod 8 = 0" using view_blk [OF v' Br] by (simp add: blk_ok_def)
    let ?m1 = "wr m ?r (W a)" let ?m2 = "wr ?m1 (?r + 8) (hv (bsz b - sz - 8) True True)"
    have ln: "block_link_next m (W a) = Inr (W ?r, ?m1)"
      using next_cell(1) [OF m(3) sz(2)] sz by (simp add: block_link_next_def fields_cell)
    have "rd ?m1 (?r + 8) = hv (bsz b - sz - 8) True p0" using rc m(2) by (simp add: rd_wr)
    from flags_cell(6) [OF this rs] have sp: "block_set_prev_free ?m1 (W ?r) = ?m2" .
    have "agree {?r + 8, ?r} m ?m2" by (intro agree_wr2 agree_wr rc)
    then have f: "hinv c (s\<lparr>mem := ?m2\<rparr>) ?B L (insert ?r {a})" "same_pay c ?B (mem s) ?m2"
      using fin [of ?m2] a(2) rc by (simp_all add: rd_wr)
    then have "hok c (s\<lparr>mem := ?m2\<rparr>) ?B (insert ?r {a})" by (auto simp: hok_def)
    from block_insert_step [OF this Br] obtain s' where
      s': "block_insert (s\<lparr>mem := ?m2\<rparr>) (W ?r) = Inr s'" "hok c s' ?B (insert ?r {a} - {?r})" "same_pay c ?B ?m2 (mem s')"
      by auto
    have "insert ?r {a} - {?r} = {a}" by auto
    moreover have "pay c ?B = pay c B"
      by (rule pay_eqI [OF allocs_cut_free [OF v a sz(1) True] region_cut [OF v a(1) sz(1) True]])
    ultimately have "hok c s' ?B {a}" "same_pay c B (mem s) (mem s')"
      using s'(2,3) f(2) by (auto simp: same_pay_def)
    moreover have "block_trim_free s (W a) (W sz) = Inr s'"
      using free can_split_iff [OF h a(1) sz(3)] True m(1) ln sp s'(1) by (simp add: block_trim_free_def)
    ultimately show ?thesis using True by simp
  qed
qed

subsection \<open>The search for a suitable block\<close>

lemma bit_from: "bit ((w :: uint32_t) AND push_bit j (NOT 0)) k \<longleftrightarrow> bit w k \<and> j \<le> k"
  by (auto simp: bit_simps dest: bit_imp_le_length)

lemma ffs_from:
  fixes w :: uint32_t
  assumes "w AND push_bit j (NOT 0) \<noteq> 0"
  obtains k where "tlsf_ffs (w AND push_bit j (NOT 0)) = int k" and "j \<le> k" and "k < 32" and "bit w k"
    and "\<And>l. j \<le> l \<Longrightarrow> l < k \<Longrightarrow> \<not> bit w l"
  using that tlsf_ffs_eq [OF assms] lowbit_word [OF assms] unfolding bit_from by blast

text \<open>
  The search returns the first non-empty list at or after the slot it is given, in the order of
  slots, and the null pointer where there is none.
\<close>

lemma search_found:
  assumes t: "tab_ok c s L" and ij: "i < 25" "j < 32"
  shows "(\<exists>k l. search_suitable_block s (int i) (int j) = Inr (W (lhn c (L (k, l))), int k, int l) \<and>
       k < 25 \<and> l < 32 \<and> L (k, l) \<noteq> [] \<and> \<not> slot_less (k, l) (i, j) \<and>
       (\<forall>k' l'. k' < 25 \<longrightarrow> l' < 32 \<longrightarrow> L (k', l') \<noteq> [] \<longrightarrow> \<not> slot_less (k', l') (i, j) \<longrightarrow> \<not> slot_less (k', l') (k, l))) \<or>
     (search_suitable_block s (int i) (int j) = Inr (0, int i, int j) \<and>
       (\<forall>k l. k < 25 \<longrightarrow> l < 32 \<longrightarrow> L (k, l) \<noteq> [] \<longrightarrow> slot_less (k, l) (i, j)))"
proof -
  have fl: "\<And>k. bit (fl_bitmap s) k \<longleftrightarrow> k < 25 \<and> sl_bitmap s ! k \<noteq> 0"
    and sl: "\<And>k l. k < 25 \<Longrightarrow> l < 32 \<Longrightarrow> bit (sl_bitmap s ! k) l \<longleftrightarrow> L (k, l) \<noteq> []"
    and len: "length (sl_bitmap s) = 25"
    using t by (auto simp: tab_ok_def)
  note g = get_set_block [OF t]
  let ?sm = "sl_bitmap s ! i AND push_bit j (NOT 0)" and ?fm = "fl_bitmap s AND push_bit (Suc i) (NOT 0)"
  have nat: "nat (int j) = j" "nat (int i + 1) = Suc i" by auto
  show ?thesis
  proof (cases "?sm = 0")
    case False
    then obtain l where l: "tlsf_ffs ?sm = int l" "j \<le> l" "l < 32" "bit (sl_bitmap s ! i) l"
        "\<And>l'. j \<le> l' \<Longrightarrow> l' < l \<Longrightarrow> \<not> bit (sl_bitmap s ! i) l'" by (rule ffs_from) blast
    have "search_suitable_block s (int i) (int j) = Inr (W (lhn c (L (i, l))), int i, int l)"
      using False l(1) len ij g(1) [OF ij(1) l(3)] unfolding search_suitable_block_def nat Let_def by simp
    then show ?thesis
      using l sl ij by (intro disjI1 exI [of _ i] exI [of _ l]) (auto simp: slot_less_def)
  next
    case s0: True
    then have no_i: "\<not> bit (sl_bitmap s ! i) l" if "j \<le> l" for l
      using bit_from [of "sl_bitmap s ! i" j l] that by (metis bit_0_eq bot_apply bot_bool_def)
    show ?thesis
    proof (cases "?fm = 0")
      case True
      then have no: "\<not> bit (fl_bitmap s) k" if "i < k" for k
        using bit_from [of "fl_bitmap s" "Suc i" k] that by (metis Suc_leI bit_0_eq bot_apply bot_bool_def)
      have "L (k, l) = []" if "k < 25" "l < 32" "\<not> slot_less (k, l) (i, j)" for k l
        using that no [of k] no_i [of l] sl [of k l] fl [of k]
        by (cases "k = i") (auto simp: slot_less_def)
      then show ?thesis
        using s0 True len ij unfolding search_suitable_block_def nat Let_def by auto
    next
      case False
      then obtain k where k: "tlsf_ffs ?fm = int k" "Suc i \<le> k" "bit (fl_bitmap s) k"
          "\<And>k'. Suc i \<le> k' \<Longrightarrow> k' < k \<Longrightarrow> \<not> bit (fl_bitmap s) k'" by (rule ffs_from) blast
      have k25: "k < 25" "sl_bitmap s ! k \<noteq> 0" using fl k(3) by auto
      obtain l where l: "tlsf_ffs (sl_bitmap s ! k) = int l" "l < 32" "bit (sl_bitmap s ! k) l"
          "\<And>l'. l' < l \<Longrightarrow> \<not> bit (sl_bitmap s ! k) l'"
        by (rule that [OF tlsf_ffs_eq [OF k25(2)]]) (use lowbit_word [OF k25(2)] in auto)
      have eq: "search_suitable_block s (int i) (int j) = Inr (W (lhn c (L (k, l))), int k, int l)"
        using s0 False k(1) l(1) len ij k25 g(1) [OF k25(1) l(2)] unfolding search_suitable_block_def nat Let_def by simp
      have "\<not> slot_less (k', l') (k, l)" if "k' < 25" "l' < 32" "L (k', l') \<noteq> []" "\<not> slot_less (k', l') (i, j)" for k' l'
      proof -
        have b1: "bit (sl_bitmap s ! k') l'" using sl that by simp
        then have "sl_bitmap s ! k' \<noteq> 0" by auto
        with b1 have b: "bit (sl_bitmap s ! k') l'" "bit (fl_bitmap s) k'" using fl that by auto
        then have "k' \<noteq> i" using no_i that by (auto simp: slot_less_def)
        then have "i < k'" using that(4) by (auto simp: slot_less_def)
        then have "k \<le> k'" using k(4) [of k'] b(2) by (metis Suc_leI not_le)
        moreover have "l \<le> l'" if "k' = k" using l(4) [of l'] b(1) that by (metis not_le)
        ultimately show ?thesis by (auto simp: slot_less_def)
      qed
      moreover have "L (k, l) \<noteq> []" using sl [OF k25(1) l(2)] l(3) by simp
      moreover have "\<not> slot_less (k, l) (i, j)" using k(2) by (simp add: slot_less_def)
      ultimately show ?thesis using eq k25(1) l(2) by blast
    qed
  qed
qed

lemma map_ins_snd: "snd (map_ins n) < 32"
  using class_quotient [of n] by (auto simp: map_ins_def)

lemma block_locate_free_step:
  assumes "hok c s B {}" and n: "24 \<le> n" "n mod 8 = 0" "n < 2 ^ 32"
  shows "(\<exists>a b s'. block_locate_free s (W n) = Inr (W a, s') \<and> B a = Some b \<and> bfree b \<and> n \<le> bsz b \<and>
      hok c s' B {a} \<and> same_pay c B (mem s) (mem s')) \<or>
    (block_locate_free s (W n) = Inr (0, s) \<and>
      (\<forall>a b. B a = Some b \<longrightarrow> bfree b \<longrightarrow> slot_less (map_ins (bsz b)) (map_ins (search_size n))))"
proof -
  obtain L where h: "hinv c s B L {}" using assms(1) by (auto simp: hok_def)
  note v = hinvD(1) [OF h]
  have tb: "tab_ok c s L" and sg: "segs_ok c (mem s) B L {}" using h by (simp_all add: hinv_iff)
  obtain i j where ij: "map_ins (search_size n) = (i, j)" by force
  have j: "j < 32" using map_ins_snd [of "search_size n"] ij by simp
  have ms: "mapping_search (W n) = (int i, int j)" using mapping_search_of_nat [OF n(3)] ij by (simp add: W_def)
  have nz: "W n \<noteq> 0" using n by (simp add: W_eq_0_iff)
  show ?thesis
  proof (cases "i < 25")
    case False
    have "slot_less (map_ins (bsz b)) (i, j)" if "B a = Some b" for a b
      using map_ins_bounds [OF view_size [OF v that]] False by (simp add: slot_less_def)
    then show ?thesis
      using False nz ij by (simp add: block_locate_free_def ms tlsf_consts)
  next
    case i: True
    consider (found) k l where "search_suitable_block s (int i) (int j) = Inr (W (lhn c (L (k, l))), int k, int l)"
        "k < 25" "l < 32" "L (k, l) \<noteq> []" "\<not> slot_less (k, l) (i, j)"
      | (none) "search_suitable_block s (int i) (int j) = Inr (0, int i, int j)"
        "\<And>k l. k < 25 \<Longrightarrow> l < 32 \<Longrightarrow> L (k, l) \<noteq> [] \<Longrightarrow> slot_less (k, l) (i, j)"
      using search_found [OF tb i j] by blast
    then show ?thesis
    proof cases
      case none
      have "slot_less (map_ins (bsz b)) (i, j)" if "B a = Some b" "bfree b" for a b
      proof -
        obtain k l where kl: "map_ins (bsz b) = (k, l)" by force
        then have "k < 25" "l < 32" using map_ins_bounds [OF view_size [OF v that(1)]] by simp_all
        moreover have "a \<in> set (L (k, l))" using segs_member [OF sg calculation] that kl by blast
        ultimately show ?thesis using none(2) kl by fastforce
      qed
      then show ?thesis
        using none(1) nz i ij by (simp add: block_locate_free_def ms tlsf_consts)
    next
      case (found k l)
      obtain a xs where a: "L (k, l) = a # xs" using found(4) by (cases "L (k, l)") auto
      then have "a \<in> set (L (k, l))" by simp
      then obtain b where b: "B a = Some b" "bfree b" "map_ins (bsz b) = (k, l)"
        using segs_member [OF sg found(2,3)] by blast
      have le: "n \<le> bsz b" using slot_less_search [OF _ n(2), of "bsz b"] b(3) found(5) ij by (metis not_le)
      obtain s' where s': "remove_free_block s (W a) (int k) (int l) = Inr s'" "hok c s' B {a}" "same_pay c B (mem s) (mem s')"
        using remove_free_block_hinv [OF h b(1,2) _ b(3)] by (auto simp: hok_def)
      have "W a \<noteq> 0" using view_addr [OF v b(1)] by (simp add: W_eq_0_iff)
      moreover have "W n \<le> W (bsz b)" using le view_size [OF v b(1)] by (simp add: W_le_iff)
      ultimately have "block_locate_free s (W n) = Inr (W a, s')"
        using found(1) a nz i s'(1) block_size_hinv(1) [OF h b(1)]
        by (simp add: block_locate_free_def ms tlsf_consts lhn_def)
      then show ?thesis using b le s' by blast
    qed
  qed
qed

end
