(* ===== verification/Tlsf_Alloc.thy ===== *)
theory Tlsf_Alloc
  imports Tlsf_Ops
begin

text \<open>
  The allocation interface \<open>tlsf_malloc\<close> and \<open>tlsf_free\<close> against an abstract heap: the map \<open>A\<close>
  from the addresses of the allocated blocks to their sizes. \<open>heap_ok c s A R\<close> says that the control
  structure at \<open>c\<close> and memory satisfy the invariant and that \<open>A\<close> is what is allocated.
\<close>

definition heap_ok :: "nat \<Rightarrow> tlsf \<Rightarrow> (nat \<Rightarrow> nat option) \<Rightarrow> nat set \<Rightarrow> bool" where
  "heap_ok c s A R \<longleftrightarrow> (\<exists>B. hok c s B {} \<and> coalesced B \<and> A = allocs B \<and> R = region B)"

lemma hok_hinv: "hok c s B X \<Longrightarrow> (\<And>L. hinv c s B L X \<Longrightarrow> P) \<Longrightarrow> P"
  by (auto simp: hok_def)

lemma hok_view: "hok c s B X \<Longrightarrow> view_ok B"
  by (auto simp: hok_def hinv_iff)

lemma coalescedD: "coalesced B \<Longrightarrow> B a = Some b \<Longrightarrow> bfree b \<Longrightarrow> B (a + 8 + bsz b) = Some b' \<Longrightarrow> \<not> bfree b'"
  unfolding coalesced_def by blast

lemma coalescedI:
  "(\<And>a b b'. B a = Some b \<Longrightarrow> bfree b \<Longrightarrow> B (a + 8 + bsz b) = Some b' \<Longrightarrow> bfree b' \<Longrightarrow> False) \<Longrightarrow> coalesced B"
  unfolding coalesced_def by blast

subsection \<open>Preparing a block for use\<close>

lemma coalesced_used:
  assumes v: "view_ok B" and co: "coalesced B" and a: "B a = Some b" "bsz b \<noteq> 0"
  shows "coalesced (set_flag B a False)"
proof -
  obtain w where w: "B (a + 8 + bsz b) = Some w"
    and f: "set_flag B a False = B(a \<mapsto> b\<lparr>bfree := False\<rparr>, a + 8 + bsz b \<mapsto> w\<lparr>bpf := False\<rparr>)"
    using set_flag_eq [OF v a] by metis
  have old: "\<exists>u'. B x = Some u' \<and> bfree u' \<and> bsz u' = bsz u" if "set_flag B a False x = Some u" "bfree u" for x u
    using that w unfolding f by (auto split: if_splits)
  show ?thesis
    by (rule coalescedI) (metis old co coalescedD)
qed

lemma coalesced_take:
  assumes v: "view_ok B" and co: "coalesced B" and a: "B a = Some b" "bfree b" and sz: "24 \<le> sz" "sz mod 8 = 0" "sz + 32 \<le> bsz b"
  shows "coalesced (set_flag (cut B a sz True) a False)"
proof -
  let ?r = "a + 8 + sz" and ?n = "a + 8 + bsz b" and ?B = "cut B a sz True"
  let ?rb = "\<lparr>bsz = bsz b - sz - 8, bfree = True, bpf = bfree b, bpool = bpool b\<rparr>"
  have nz: "bsz b \<noteq> 0" using sz by simp
  obtain w where w: "B ?n = Some w" and c: "?B = B(a \<mapsto> b\<lparr>bsz := sz\<rparr>, ?r \<mapsto> ?rb, ?n \<mapsto> w\<lparr>bpf := True\<rparr>)"
    using cut_eq [OF v a(1) nz] by metis
  have Ba: "?B a = Some (b\<lparr>bsz := sz\<rparr>)" "?B ?r = Some ?rb" unfolding c using sz by auto
  have v': "view_ok ?B" by (rule cut_ok [OF v a(1) sz])
  have f: "set_flag ?B a False = ?B(a \<mapsto> b\<lparr>bsz := sz, bfree := False\<rparr>, ?r \<mapsto> ?rb\<lparr>bpf := False\<rparr>)"
    using Ba by (simp add: set_flag_def)
  have wn: "\<not> bfree w" using coalescedD [OF co a] w by blast
  have old: "x = ?r \<and> bsz u = bsz b - sz - 8 \<or> (\<exists>u'. B x = Some u' \<and> bfree u' \<and> bsz u' = bsz u \<and> x \<noteq> a \<and> x \<noteq> ?n)"
    if "set_flag ?B a False x = Some u" "bfree u" for x u
    using that w wn unfolding f unfolding c by (auto split: if_splits)
  show ?thesis
  proof (rule coalescedI)
    fix x u u' assume x: "set_flag ?B a False x = Some u" "bfree u"
      and y: "set_flag ?B a False (x + 8 + bsz u) = Some u'" "bfree u'"
    from old [OF x] show False
    proof
      assume "x = ?r \<and> bsz u = bsz b - sz - 8"
      then have "x + 8 + bsz u = ?n" using sz by auto
      with old [OF y] sz show False by auto
    next
      assume "\<exists>u'. B x = Some u' \<and> bfree u' \<and> bsz u' = bsz u \<and> x \<noteq> a \<and> x \<noteq> ?n"
      then obtain q where q: "B x = Some q" "bfree q" "bsz q = bsz u" "x \<noteq> a" by blast
      have "x + 8 + bsz u \<noteq> ?r"
        using view_apart [OF v q(1) a(1)] view_apart [OF v a(1) q(1)] q(3,4) sz by linarith
      with old [OF y] coalescedD [OF co q(1,2)] q(3) show False by auto
    qed
  qed
qed

lemma block_prepare_used_step:
  assumes "hok c s B {a}" and co: "coalesced B" and a: "B a = Some b" "bfree b" "n \<le> bsz b"
    and n: "24 \<le> n" "n mod 8 = 0" "n < 2 ^ 32"
  shows "\<exists>s' k. block_prepare_used s (W a) (W n) = Inr (W (a + 16), s') \<and> n \<le> k \<and> k < n + 32 \<and>
    k = (if n + 32 \<le> bsz b then n else bsz b) \<and> heap_ok c s' ((allocs B)(a + 16 \<mapsto> k)) (region B) \<and> same_pay c B (mem s) (mem s')"
proof -
  note v = hok_view [OF assms(1)]
  let ?B = "if n + 32 \<le> bsz b then cut B a n True else B"
  obtain s1 where s1: "block_trim_free s (W a) (W n) = Inr s1" "hok c s1 ?B {a}" "same_pay c B (mem s) (mem s1)"
    using trim_free_step [OF assms(1) a(1,2) n] by blast
  define b' where "b' = (if n + 32 \<le> bsz b then b\<lparr>bsz := n\<rparr> else b)"
  have b': "?B a = Some b'" "bfree b'" "n \<le> bsz b'" "bsz b' < n + 32" "bsz b' \<noteq> 0"
      "bsz b' = (if n + 32 \<le> bsz b then n else bsz b)"
    using a n cut_front [OF v a(1) n(1)] by (simp_all add: b'_def)
  have al: "allocs ?B = allocs B" using allocs_cut_free [OF v a(1,2) n(1)] by simp
  obtain L where "hinv c s1 ?B L {a}" using s1(2) by (rule hok_hinv)
  from mark_used_step [OF this b'(1,2)] obtain m' where m': "block_mark_as_used (mem s1) (W a) = Inr m'"
      "hinv c (s1\<lparr>mem := m'\<rparr>) (set_flag ?B a False) L ({a} - {a})" "same_pay c ?B (mem s1) m'" by auto
  have "coalesced (set_flag ?B a False)"
    using coalesced_take [OF v co a(1,2) n(1,2)] coalesced_used [OF v co a(1)] a(3) n(1) by simp
  moreover have "allocs (set_flag ?B a False) = (allocs B)(a + 16 \<mapsto> bsz b')"
    using allocs_set_flag [OF hok_view [OF s1(2)] b'(1,5)] al by simp
  moreover have reg: "region ?B = region B" using region_cut [OF v a(1) n(1)] by simp
  ultimately have "heap_ok c (s1\<lparr>mem := m'\<rparr>) ((allocs B)(a + 16 \<mapsto> bsz b')) (region B)"
    unfolding heap_ok_def hok_def using m'(2) region_set_flag [OF hok_view [OF s1(2)] b'(1,5)] by (metis Diff_cancel)
  moreover have "same_pay c B (mem s) m'"
    using s1(3) m'(3) pay_eqI [OF al reg] by (simp add: same_pay_def)
  moreover have "block_prepare_used s (W a) (W n) = Inr (W (a + 16), s1\<lparr>mem := m'\<rparr>)"
    using view_addr [OF v a(1)] s1(1) m'(1) n by (simp add: block_prepare_used_def W_eq_0_iff ptr_cell)
  ultimately show ?thesis using b' by (intro exI [of _ "s1\<lparr>mem := m'\<rparr>"] exI [of _ "bsz b'"]) simp
qed

subsection \<open>Allocation\<close>

lemma tlsf_malloc_step:
  assumes "hok c s B {}" and co: "coalesced B" and n: "n = adj_size (unat sz)"
  shows "(\<exists>a b s' k. tlsf_malloc s sz = Inr (W (a + 16), s') \<and> B a = Some b \<and> bfree b \<and> 24 \<le> n \<and> n \<le> k \<and> k < n + 32 \<and>
      k = (if n + 32 \<le> bsz b then n else bsz b) \<and> heap_ok c s' ((allocs B)(a + 16 \<mapsto> k)) (region B) \<and> same_pay c B (mem s) (mem s')) \<or>
    (tlsf_malloc s sz = Inr (0, s) \<and>
      (n = 0 \<or> (\<forall>a b. B a = Some b \<longrightarrow> bfree b \<longrightarrow> slot_less (map_ins (bsz b)) (map_ins (search_size n)))))"
proof -
  note r = adj_size_range [of "unat sz", folded n]
  have adj: "adjust_request_size sz (of_int ALIGN_SIZE) = Inr (W n)"
    by (simp add: tlsf_consts adjust_request_size_eq W_def n)
  show ?thesis
  proof (cases "n = 0")
    case True
    then show ?thesis
      using adj by (simp add: tlsf_malloc_def block_locate_free_def block_prepare_used_def)
  next
    case False
    with r have n24: "24 \<le> n" by simp
    consider (found) a b s' where "block_locate_free s (W n) = Inr (W a, s')" "B a = Some b" "bfree b" "n \<le> bsz b"
        "hok c s' B {a}" "same_pay c B (mem s) (mem s')"
      | (none) "block_locate_free s (W n) = Inr (0, s)"
        "\<forall>a b. B a = Some b \<longrightarrow> bfree b \<longrightarrow> slot_less (map_ins (bsz b)) (map_ins (search_size n))"
      using block_locate_free_step [OF assms(1) n24 r(2,1)] by blast
    then show ?thesis
    proof cases
      case none
      then show ?thesis using adj by (simp add: tlsf_malloc_def block_prepare_used_def)
    next
      case (found a b s1)
      from block_prepare_used_step [OF found(5) co found(2-4) n24 r(2,1)] obtain s' k where
        s': "block_prepare_used s1 (W a) (W n) = Inr (W (a + 16), s')" "n \<le> k" "k < n + 32"
          "k = (if n + 32 \<le> bsz b then n else bsz b)" "heap_ok c s' ((allocs B)(a + 16 \<mapsto> k)) (region B)" "same_pay c B (mem s1) (mem s')" by blast
      have "tlsf_malloc s sz = Inr (W (a + 16), s')" using adj found(1) s'(1) by (simp add: tlsf_malloc_def)
      moreover have "same_pay c B (mem s) (mem s')" using found(6) s'(6) by (rule same_pay_trans)
      ultimately show ?thesis using found(2,3) n24 s' by blast
    qed
  qed
qed

subsection \<open>Release\<close>

text \<open>Adjacent free blocks, which exist only while a block is being released.\<close>

definition adj :: "view \<Rightarrow> nat \<Rightarrow> nat \<Rightarrow> bool" where
  "adj B x y \<longleftrightarrow> (\<exists>u u'. B x = Some u \<and> bfree u \<and> B y = Some u' \<and> bfree u' \<and> y = x + 8 + bsz u)"

lemma coalesced_adj: "coalesced B \<longleftrightarrow> (\<forall>x y. \<not> adj B x y)"
  unfolding coalesced_def adj_def by blast

lemma adj_set_flag:
  assumes "view_ok B" "B a = Some b" "bsz b \<noteq> 0" and "adj (set_flag B a True) x y"
  shows "adj B x y \<or> x = a \<or> y = a"
proof -
  obtain w where w: "B (a + 8 + bsz b) = Some w"
    and f: "set_flag B a True = B(a \<mapsto> b\<lparr>bfree := True\<rparr>, a + 8 + bsz b \<mapsto> w\<lparr>bpf := True\<rparr>)"
    using set_flag_eq [OF assms(1-3)] by metis
  have old: "\<exists>u'. B z = Some u' \<and> bfree u' \<and> bsz u' = bsz u" if "set_flag B a True z = Some u" "bfree u" "z \<noteq> a" for z u
    using that w unfolding f by (auto split: if_splits)
  obtain u u' where u: "set_flag B a True x = Some u" "bfree u" "set_flag B a True y = Some u'" "bfree u'" "y = x + 8 + bsz u"
    using assms(4) unfolding adj_def by blast
  show ?thesis
  proof (rule ccontr)
    assume n: "\<not> ?thesis"
    with old [OF u(1,2)] old [OF u(3,4)] u(5) show False unfolding adj_def by metis
  qed
qed

lemma adj_join:
  assumes v: "view_ok B" and a: "B a = Some b" "bfree b" and z: "z = a + 8 + bsz b" "B z = Some u" "bfree u"
    and j: "adj (join B a True) x y"
  shows "x = a \<and> adj B z y \<or> x \<noteq> a \<and> adj B x y \<and> y \<noteq> z \<and> x \<noteq> z"
proof -
  have nz: "bsz b \<noteq> 0" "bsz u \<noteq> 0"
    using blk_free_size [OF view_blk [OF v a(1)] a(2)] blk_free_size [OF view_blk [OF v z(2)] z(3)] by simp_all
  let ?y = "z + 8 + bsz u"
  obtain w where w: "B ?y = Some w" and f: "join B a True = B(a \<mapsto> b\<lparr>bsz := bsz b + 8 + bsz u, bfree := True\<rparr>, z := None, ?y \<mapsto> w\<lparr>bpf := True\<rparr>)"
    using join_eq [OF v a(1) nz(1), of u True] z nz by metis
  have old: "\<exists>q'. B t = Some q' \<and> bfree q' \<and> t \<noteq> z \<and> (t \<noteq> a \<longrightarrow> bsz q' = bsz q) \<and> (t = a \<longrightarrow> bsz q = bsz b + 8 + bsz u)"
    if "join B a True t = Some q" "bfree q" for t q
    using that w a z nz unfolding f by (auto split: if_splits)
  obtain q q' where q: "join B a True x = Some q" "bfree q" "join B a True y = Some q'" "bfree q'" "y = x + 8 + bsz q"
    using j unfolding adj_def by blast
  show ?thesis
  proof (cases "x = a")
    case True
    then have "y = ?y" using old [OF q(1,2)] q(5) z(1) by auto
    then show ?thesis using True z(2,3) old [OF q(3,4)] unfolding adj_def by blast
  next
    case False
    then show ?thesis using old [OF q(1,2)] old [OF q(3,4)] q(5) unfolding adj_def by metis
  qed
qed

lemma join_free:
  assumes v: "view_ok B" and a: "B a = Some b" "bfree b" and z: "B (a + 8 + bsz b) = Some u" "bfree u"
  shows "\<exists>b'. join B a True a = Some b' \<and> bfree b'" and "allocs (join B a True) = allocs B"
    and "region (join B a True) = region B"
proof -
  have nz: "bsz b \<noteq> 0" "bsz u \<noteq> 0"
    using blk_free_size [OF view_blk [OF v a(1)] a(2)] blk_free_size [OF view_blk [OF v z(1)] z(2)] by simp_all
  show "region (join B a True) = region B" by (rule region_join [OF v a(1) nz(1) z(1) nz(2)])
  show "allocs (join B a True) = allocs B"
    using allocs_join [OF v a(1) nz(1) z(1) nz(2) z(2), of True] allocs_free [of B a b] a by (simp add: fun_upd_idem)
  obtain w where "join B a True = B(a \<mapsto> b\<lparr>bsz := bsz b + 8 + bsz u, bfree := True\<rparr>, a + 8 + bsz b := None,
      a + 8 + bsz b + 8 + bsz u \<mapsto> w\<lparr>bpf := True\<rparr>)"
    using join_eq [OF v a(1) nz(1) z(1) nz(2)] by metis
  then show "\<exists>b'. join B a True a = Some b' \<and> bfree b'" by simp
qed

lemma block_merge_prev_step:
  assumes ok: "hok c s B {a}" and a: "B a = Some b" "bfree b" and ad: "\<And>x y. adj B x y \<Longrightarrow> x = a \<or> y = a"
  shows "\<exists>s' B' z b'. block_merge_prev s (W a) = Inr (W z, s') \<and> hok c s' B' {z} \<and> B' z = Some b' \<and> bfree b' \<and>
    (\<forall>x y. adj B' x y \<longrightarrow> x = z) \<and> allocs B' = allocs B \<and> same_pay c B (mem s) (mem s') \<and> region B' = region B"
proof -
  obtain L where h: "hinv c s B L {a}" using ok by (rule hok_hinv)
  note v = hinvD(1) [OF h] and mo = hinvD(3) [OF h]
  show ?thesis
  proof (cases "bpf b")
    case False
    have "x = a" if "adj B x y" for x y
    proof (rule ccontr)
      assume "x \<noteq> a"
      with ad [OF that] that obtain u where u: "B x = Some u" "bfree u" "a = x + 8 + bsz u" by (auto simp: adj_def)
      have "bsz u \<noteq> 0" using blk_free_size [OF view_blk [OF v u(1)] u(2)] by simp
      with view_next [OF v u(1)] u a(1) False show False by (metis option.inject)
    qed
    moreover have "block_merge_prev s (W a) = Inr (W a, s)"
      using False block_size_hinv(3) [OF h a(1)] by (simp add: block_merge_prev_def)
    ultimately show ?thesis using ok a by (intro exI [of _ s] exI [of _ B] exI [of _ a] exI [of _ b]) auto
  next
    case True
    then obtain p q where p: "B p = Some q" "bfree q" "p + 8 + bsz q = a" using view_prev [OF v a(1)] by metis
    have ne: "p \<noteq> a" using p(3) by auto
    have pp: "prev_phys_block (mem s) (W a) = W p" using mem_ok_foot [OF mo p(1,2)] p(3) by (simp add: fields_cell)
    obtain s1 where s1: "block_remove s (W p) = Inr s1" "hok c s1 B {p, a}" "same_pay c B (mem s) (mem s1)"
      using block_remove_step [OF ok p(1,2)] ne by auto
    obtain m' where m': "block_absorb (mem s1) (W p) (W a) = Inr (W p, m')"
        "hok c (s1\<lparr>mem := m'\<rparr>) (join B p True) ({p, a} - {a})" "same_pay c B (mem s1) m'"
      using absorb_step [OF s1(2) p(1,2) _ p(3) [symmetric] a] by auto
    have "x = p" if "adj (join B p True) x y" for x y
    proof (rule ccontr)
      assume "x \<noteq> p"
      with adj_join [OF v p(1,2) p(3) [symmetric] a that] ad [of x y] show False by auto
    qed
    moreover have "block_merge_prev s (W a) = Inr (W p, s1\<lparr>mem := m'\<rparr>)"
      using True block_size_hinv(3) [OF h a(1)] pp view_addr [OF v p(1)] block_size_hinv(2) [OF h p(1)] p(2) s1(1) m'(1)
      by (simp add: block_merge_prev_def block_prev_def W_eq_0_iff)
    moreover have "{p, a} - {a} = {p}" using ne by auto
    moreover have "same_pay c B (mem s) m'" using s1(3) m'(3) by (rule same_pay_trans)
    moreover note join_free [OF v p(1,2), unfolded p(3), OF a]
    ultimately show ?thesis using m'(2)
      by (intro exI [of _ "s1\<lparr>mem := m'\<rparr>"] exI [of _ "join B p True"] exI [of _ p]) auto
  qed
qed

lemma block_merge_next_step:
  assumes ok: "hok c s B {a}" and a: "B a = Some b" "bfree b" and ad: "\<And>x y. adj B x y \<Longrightarrow> x = a"
  shows "\<exists>s' B' b'. block_merge_next s (W a) = Inr (W a, s') \<and> hok c s' B' {a} \<and> B' a = Some b' \<and> bfree b' \<and>
    coalesced B' \<and> allocs B' = allocs B \<and> same_pay c B (mem s) (mem s') \<and> region B' = region B"
proof -
  obtain L where h: "hinv c s B L {a}" using ok by (rule hok_hinv)
  note v = hinvD(1) [OF h] and mo = hinvD(3) [OF h]
  have nz: "bsz b \<noteq> 0" using blk_free_size [OF view_blk [OF v a(1)] a(2)] by simp
  let ?n = "a + 8 + bsz b"
  obtain w where w: "B ?n = Some w" using view_next [OF v a(1) nz] .
  have nx: "block_next (mem s) (W a) = Inr (W ?n)" "\<not> block_is_last (mem s) (W a)"
    using next_cell [OF mem_ok_hdr [OF mo a(1)] _ nz] blk_size [OF view_blk [OF v a(1)]] by simp_all
  have n0: "W ?n \<noteq> 0" using view_addr [OF v w] by (simp add: W_eq_0_iff)
  show ?thesis
  proof (cases "bfree w")
    case False
    have "coalesced B" unfolding coalesced_adj
    proof (intro allI notI)
      fix x y assume "adj B x y"
      with ad [OF this] a w False show False by (auto simp: adj_def)
    qed
    moreover have "block_merge_next s (W a) = Inr (W a, s)"
      using False nx n0 block_size_hinv(2) [OF h w] by (simp add: block_merge_next_def)
    ultimately show ?thesis using ok a by (intro exI [of _ s] exI [of _ B] exI [of _ b]) auto
  next
    case True
    have ne: "?n \<noteq> a" by simp
    obtain s1 where s1: "block_remove s (W ?n) = Inr s1" "hok c s1 B {?n, a}" "same_pay c B (mem s) (mem s1)"
      using block_remove_step [OF ok w True] ne by auto
    obtain m' where m': "block_absorb (mem s1) (W a) (W ?n) = Inr (W a, m')"
        "hok c (s1\<lparr>mem := m'\<rparr>) (join B a True) ({?n, a} - {?n})" "same_pay c B (mem s1) m'"
      using absorb_step [OF s1(2) a _ refl w True] by auto
    have "coalesced (join B a True)" unfolding coalesced_adj
    proof (intro allI notI)
      fix x y assume "adj (join B a True) x y"
      from adj_join [OF v a refl w True this] ad [of x y] ad [of ?n y] ne show False by blast
    qed
    moreover have "block_merge_next s (W a) = Inr (W a, s1\<lparr>mem := m'\<rparr>)"
      using True nx n0 block_size_hinv(2) [OF h w] s1(1) m'(1) by (simp add: block_merge_next_def)
    moreover have "{?n, a} - {?n} = {a}" by auto
    moreover have "same_pay c B (mem s) m'" using s1(3) m'(3) by (rule same_pay_trans)
    moreover note join_free [OF v a w True]
    ultimately show ?thesis using m'(2)
      by (intro exI [of _ "s1\<lparr>mem := m'\<rparr>"] exI [of _ "join B a True"]) auto
  qed
qed

lemma tlsf_free_step:
  assumes ok: "hok c s B {}" and co: "coalesced B" and a: "B a = Some b" "\<not> bfree b" "bsz b \<noteq> 0"
  shows "\<exists>s'. tlsf_free s (W (a + 16)) = Inr s' \<and> heap_ok c s' ((allocs B)(a + 16 := None)) (region B) \<and>
    same_pay c (set_flag B a True) (mem s) (mem s')"
proof -
  obtain L where h: "hinv c s B L {}" using ok by (rule hok_hinv)
  note v = hinvD(1) [OF h]
  let ?B = "set_flag B a True"
  obtain m1 where m1: "block_mark_as_free (mem s) (W a) = Inr m1" "hinv c (s\<lparr>mem := m1\<rparr>) ?B L {a}" "same_pay c ?B (mem s) m1"
    using mark_free_step [OF h a] by auto
  have v1: "view_ok ?B" by (rule set_flag_ok [OF v a(1,3)])
  obtain w where "?B = B(a \<mapsto> b\<lparr>bfree := True\<rparr>, a + 8 + bsz b \<mapsto> w\<lparr>bpf := True\<rparr>)"
    using set_flag_eq [OF v a(1,3)] by metis
  then have Ba: "?B a = Some (b\<lparr>bfree := True\<rparr>)" and fr: "bfree (b\<lparr>bfree := True\<rparr>)" by simp_all
  have ok1: "hok c (s\<lparr>mem := m1\<rparr>) ?B {a}" using m1(2) by (auto simp: hok_def)
  have ad: "x = a \<or> y = a" if "adj ?B x y" for x y
    using adj_set_flag [OF v a(1,3) that] co unfolding coalesced_adj by blast
  obtain s2 B2 z b2 where s2: "block_merge_prev (s\<lparr>mem := m1\<rparr>) (W a) = Inr (W z, s2)" "hok c s2 B2 {z}"
      "B2 z = Some b2" "bfree b2" "\<And>x y. adj B2 x y \<Longrightarrow> x = z" "allocs B2 = allocs ?B" "same_pay c ?B (mem (s\<lparr>mem := m1\<rparr>)) (mem s2)" "region B2 = region ?B"
    using block_merge_prev_step [OF ok1 Ba fr ad] by blast
  obtain s3 B3 b3 where s3: "block_merge_next s2 (W z) = Inr (W z, s3)" "hok c s3 B3 {z}"
      "B3 z = Some b3" "bfree b3" "coalesced B3" "allocs B3 = allocs B2" "same_pay c B2 (mem s2) (mem s3)" "region B3 = region B2"
    using block_merge_next_step [OF s2(2-4)] s2(5) by blast
  obtain s4 where s4: "block_insert s3 (W z) = Inr s4" "hok c s4 B3 ({z} - {z})" "same_pay c B3 (mem s3) (mem s4)"
    using block_insert_step [OF s3(2-4)] by auto
  have al: "allocs B3 = (allocs B)(a + 16 := None)"
    using s3(6) s2(6) allocs_set_flag [OF v a(1,3), of True] by simp
  have "same_pay c ?B (mem s) (mem s4)"
    using m1(3) s2(7) s3(7) s4(3) pay_eqI [OF s2(6,8)] pay_eqI [OF s3(6,8)] by (simp add: same_pay_def)
  moreover have "heap_ok c s4 ((allocs B)(a + 16 := None)) (region B)"
    unfolding heap_ok_def using s4(2) s3(5,8) s2(8) al region_set_flag [OF v a(1,3)] by auto
  moreover have "tlsf_free s (W (a + 16)) = Inr s4"
    using view_blk [OF v a(1)] block_size_hinv(2) [OF h a(1)] a(2) m1(1) s2(1) s3(1) s4(1)
    by (simp add: tlsf_free_def ptr_cell W_eq_0_iff blk_ok_def)
  ultimately show ?thesis by blast
qed

subsection \<open>Facts on abstract heaps\<close>

definition kept :: "nat \<Rightarrow> (nat \<Rightarrow> nat option) \<Rightarrow> nat set \<Rightarrow> memory \<Rightarrow> memory \<Rightarrow> bool" where
  \<comment> \<open>every byte of every allocated block, and every byte outside the allocator's memory, is unchanged\<close>
  "kept c A R m m' \<longleftrightarrow> (\<forall>p n i. A p = Some n \<longrightarrow> i < n \<longrightarrow> m' (W (p + i)) = m (W (p + i))) \<and>
     (\<forall>y. y < 2 ^ 64 \<longrightarrow> y \<notin> R \<longrightarrow> (y < c \<or> c + 6536 \<le> y) \<longrightarrow> m' (W y) = m (W y))"

lemma kept_refl [simp]: "kept c A R m m"
  by (simp add: kept_def)

lemma kept_trans: "kept c A R m m' \<Longrightarrow> kept c A R m' m'' \<Longrightarrow> kept c A R m m''"
  unfolding kept_def by metis

lemma kept_mono: "kept c A R m m' \<Longrightarrow> A' \<subseteq>\<^sub>m A \<Longrightarrow> kept c A' R m m'"
  unfolding kept_def map_le_def dom_def by (metis (mono_tags, lifting) mem_Collect_eq option.distinct(1))

lemma kept_same_pay: "same_pay c B m m' \<Longrightarrow> kept c (allocs B) (region B) m m'"
  unfolding kept_def
proof (intro conjI allI impI)
  fix p n i assume s: "same_pay c B m m'" and p: "allocs B p = Some n" "i < n"
  have "p \<le> p + i" "p + i < p + n" using p(2) by simp_all
  with p(1) have "p + i \<in> pay c B" unfolding pay_allocs by blast
  with s show "m' (W (p + i)) = m (W (p + i))" by (simp add: same_pay_def)
next
  fix y assume s: "same_pay c B m m'" and "y < 2 ^ 64" "y \<notin> region B" "y < c \<or> c + 6536 \<le> y"
  then have "y \<in> pay c B" by (simp add: pay_def)
  with s show "m' (W y) = m (W y)" by (simp add: same_pay_def)
qed

lemma heap_okE:
  assumes "heap_ok c s A R"
  obtains B where "hok c s B {}" and "coalesced B" and "A = allocs B" and "view_ok B" and "ctl_ok c s B" and "R = region B"
  using assms unfolding heap_ok_def hok_def hinv_iff by blast

lemma heap_block:
  assumes "heap_ok c s A R" and "A p = Some n"
  shows "p mod 8 = 0" and "16 < p" and "24 \<le> n" and "p + n < 2 ^ 64" and "n < 2 ^ 32"
    and "c + 6536 \<le> p - 8 \<or> p + n \<le> c"
proof -
  obtain B where B: "A = allocs B" "view_ok B" "ctl_ok c s B" using assms(1) by (rule heap_okE)
  obtain a b where a: "p = a + 16" "B a = Some b" "bsz b = n" "n \<noteq> 0"
    using assms(2) unfolding B(1) allocs_Some by blast
  note ok = view_blk [OF B(2) a(2)]
  show "p mod 8 = 0" "16 < p" "24 \<le> n" "p + n < 2 ^ 64" using ok a by (auto simp: blk_ok_def mod_eq_0_iff_dvd)
  show "n < 2 ^ 32" using view_size [OF B(2) a(2)] a by simp
  show "c + 6536 \<le> p - 8 \<or> p + n \<le> c" using ctl_block [OF B(3) a(2)] a by auto
qed

lemma heap_disjoint:
  assumes "heap_ok c s A R" and "A p = Some n" and "A q = Some k" and "p < q"
  shows "p + n + 8 \<le> q"
proof -
  obtain B where B: "A = allocs B" "view_ok B" using assms(1) by (rule heap_okE)
  obtain a b where a: "p = a + 16" "B a = Some b" "bsz b = n"
    using assms(2) unfolding B(1) allocs_Some by blast
  obtain a' b' where a': "q = a' + 16" "B a' = Some b'"
    using assms(3) unfolding B(1) allocs_Some by blast
  show ?thesis using view_apart [OF B(2) a(2) a'(2)] a a' assms(4) by simp
qed

subsection \<open>The interface on abstract heaps\<close>

lemma malloc_spec:
  assumes "heap_ok c s A R"
  shows "(\<exists>q n s'. tlsf_malloc s sz = Inr (W q, s') \<and> A q = None \<and> heap_ok c s' (A(q \<mapsto> n)) R \<and>
      adj_size (unat sz) \<le> n \<and> n < adj_size (unat sz) + 32 \<and> adj_size (unat sz) \<noteq> 0 \<and> kept c A R (mem s) (mem s')) \<or>
    tlsf_malloc s sz = Inr (0, s)"
proof -
  obtain B where B: "hok c s B {}" "coalesced B" "A = allocs B" "R = region B" using assms by (rule heap_okE)
  from tlsf_malloc_step [OF B(1,2) refl, of sz] show ?thesis
  proof (elim disjE exE conjE)
    fix a b s' k
    assume "tlsf_malloc s sz = Inr (W (a + 16), s')" "B a = Some b" "bfree b" "24 \<le> adj_size (unat sz)"
      "adj_size (unat sz) \<le> k" "k < adj_size (unat sz) + 32" "heap_ok c s' ((allocs B)(a + 16 \<mapsto> k)) (region B)"
      "same_pay c B (mem s) (mem s')"
    moreover from this have "A (a + 16) = None" using B(3) by (simp add: allocs_free)
    ultimately show ?thesis using B(3,4) by (intro disjI1 exI [of _ "a + 16"] exI [of _ k] exI [of _ s']) (auto simp: kept_same_pay)
  qed simp_all
qed

lemma free_spec:
  assumes "heap_ok c s A R" and "A p = Some n"
  shows "\<exists>s'. tlsf_free s (W p) = Inr s' \<and> heap_ok c s' (A(p := None)) R \<and> kept c (A(p := None)) R (mem s) (mem s')"
proof -
  obtain B where B: "hok c s B {}" "coalesced B" "A = allocs B" "view_ok B" "R = region B" using assms(1) by (rule heap_okE)
  obtain a b where a: "p = a + 16" "B a = Some b" "\<not> bfree b" "bsz b \<noteq> 0"
    using assms(2) unfolding B(3) allocs_Some by blast
  from tlsf_free_step [OF B(1,2) a(2-4)] show ?thesis
    using a(1) B(3,5) allocs_set_flag [OF B(4) a(2,4), of True] region_set_flag [OF B(4) a(2,4), of True]
    by (auto dest!: kept_same_pay)
qed

lemma write_spec:
  assumes "heap_ok c s A R" and "A p = Some n" and "i < n"
  shows "heap_ok c (s\<lparr>mem := (mem s)(W (p + i) := v)\<rparr>) A R"
proof -
  obtain B where B: "hok c s B {}" "coalesced B" "A = allocs B" "view_ok B" "ctl_ok c s B" "R = region B" using assms(1) by (rule heap_okE)
  obtain a b where a: "p = a + 16" "B a = Some b" "\<not> bfree b" "bsz b = n"
    using assms(2) unfolding B(3) allocs_Some by blast
  obtain L where h: "hinv c s B L {}" using B(1) by (rule hok_hinv)
  let ?m = "(mem s)(W (p + i) := v)" and ?z = "8 * ((p + i) div 8)"
  have p8: "p mod 8 = 0" and lt: "p + n < 2 ^ 64" using heap_block [OF assms(1,2)] by simp_all
  then obtain k where k: "p = 8 * k" by auto
  have z: "p \<le> ?z" "?z \<le> p + i" unfolding k by simp_all
  have g: "agree {?z} (mem s) ?m"
    unfolding agree_def
  proof (intro allI impI)
    fix y j :: nat assume y: "cell y" "y \<notin> {?z}" "j < 8"
    then have "y + j < 2 ^ 64" using cell_end [of y] by simp
    moreover have "y + j \<noteq> p + i"
    proof
      assume "y + j = p + i"
      then have "8 * ((y + j) div 8) = ?z" by simp
      moreover obtain t where "y = 8 * t" using y(1) by (auto simp: cell_def mod_eq_0_iff_dvd)
      ultimately show False using y by simp
    qed
    ultimately have "W (y + j) \<noteq> W (p + i)" using lt assms(3) by (simp add: W_eq_iff)
    then show "?m (W (y + j)) = mem s (W (y + j))" by simp
  qed
  have "hinv c (s\<lparr>mem := ?m\<rparr>) B L {}"
  proof (rule hinv_change [OF h B(4) g, where C = "{a}"])
    show "\<exists>x\<in>{a}. \<exists>u. B x = Some u \<and> owns x u y \<and> (y = x + 8 \<or> \<not> bfree u \<or> x \<in> {})" if "y \<in> {?z}" for y
      using that a z assms(3) by (auto simp: owns_def)
    show "rd ?m (x + 8) = hv (bsz u) (bfree u) (bpf u) \<and> (bfree u \<longrightarrow> rd ?m (x + 8 + bsz u) = W x)"
      if "x \<in> {a}" "B x = Some u" for x u
      using that a z(1) mem_ok_hdr [OF hinvD(3) [OF h] a(2)] agree_rd [OF g view_cells(1) [OF B(4) a(2)]] by auto
  qed (use B in auto)
  then show ?thesis using B(2,3,6) by (auto simp: heap_ok_def hok_def)
qed

end
