(* ===== verification/Tlsf_Pool.thy ===== *)
theory Tlsf_Pool
  imports Tlsf_Alloc
begin

text \<open>
  Construction of a heap and addition of pools: \<open>tlsf_create\<close> gives an empty heap,
  \<open>tlsf_add_pool\<close> adds a pool as one free block followed by an empty sentinel block.
\<close>

subsection \<open>Order of writes\<close>

lemma store_le_in: "z \<in> span a n \<Longrightarrow> store_le n m a v z = store_le n m' a v z"
  by (induction n arbitrary: a v) (auto simp: span_Suc)

lemma cell_span:
  assumes "cell x" and "cell y" and "x \<noteq> y"
  shows "span (W x) 8 \<inter> span (W y) 8 = {}"
  unfolding W_def by (intro span_disjoint_nat cell_apart cell_end assms)

lemma wr_commute:
  assumes "cell x" and "cell y" and "x \<noteq> y"
  shows "wr (wr m x u) y v = wr (wr m y v) x u"
proof
  fix z
  have d: "z \<notin> span (W x) 8 \<or> z \<notin> span (W y) 8" using cell_span [OF assms] by blast
  show "wr (wr m x u) y v z = wr (wr m y v) x u z"
    using d store_le_in [of z "W x" 8] store_le_in [of z "W y" 8]
    unfolding wr_def store64_def by (metis store_le_notin)
qed

lemma wr_wr: "wr (wr m x u) x v = wr m x v"
proof
  fix z show "wr (wr m x u) x v z = wr m x v z"
    unfolding wr_def store64_def by (cases "z \<in> span (W x) 8") (metis store_le_in, simp add: store_le_notin)
qed

subsection \<open>Insertion as a function of memory\<close>

lemma insert_free_block_any:
  assumes t: "tab_ok c s L" and cs: "control s = W c" and ij: "i < 25" "j < 32"
    and a: "a \<noteq> 0" "a mod 8 = 0" "a + 24 \<le> 2 ^ 64" and n: "W (lhn c (L (i, j))) \<noteq> 0"
  shows "\<exists>t. \<forall>m. insert_free_block (s\<lparr>mem := m\<rparr>) (W a) (int i) (int j) =
    Inr (t\<lparr>mem := wr (wr (wr m (a + 16) (W (lhn c (L (i, j))))) (a + 24) (W c)) (lhn c (L (i, j)) + 24) (W a)\<rparr>)"
proof -
  let ?n = "lhn c (L (i, j))"
  let ?t = "s\<lparr>blocks := (blocks s)[i := (blocks s ! i)[j := W a]],
      fl_bitmap := fl_bitmap s OR push_bit i 1, sl_bitmap := (sl_bitmap s)[i := sl_bitmap s ! i OR push_bit j 1]\<rparr>"
  have t': "tab_ok c (s\<lparr>mem := m\<rparr>) L" for m using t by (simp add: tab_ok_def)
  have al: "align_ptr (W (a + 16)) (of_int ALIGN_SIZE) = Inr (W (a + 16))"
    by (rule align_ptr_cell) (use a in \<open>auto simp: mod_eq_0_iff_dvd\<close>)
  have "push_head (s\<lparr>mem := m\<rparr>) (W a) (int i) (int j) = Inr (?t\<lparr>mem := m\<rparr>)" for m
    using get_set_block [OF t' ij] t ij by (simp add: push_head_def Let_def tab_ok_def)
  moreover have "W a \<noteq> 0" using a by (simp add: W_eq_0_iff)
  ultimately show ?thesis
    using get_set_block(1) [OF t' ij] al n cs
    by (intro exI [of _ ?t]) (simp add: insert_free_block_alt fields_cell ptr_cell Let_def)
qed

subsection \<open>A new pool\<close>

definition add_view :: "view \<Rightarrow> nat \<Rightarrow> nat \<Rightarrow> view" where
  "add_view B a k = B(a \<mapsto> \<lparr>bsz = k, bfree = True, bpf = False, bpool = (a + 8, a + 24 + k)\<rparr>,
     a + 8 + k \<mapsto> \<lparr>bsz = 0, bfree = False, bpf = True, bpool = (a + 8, a + 24 + k)\<rparr>)"

definition pool_fits :: "view \<Rightarrow> nat \<Rightarrow> nat \<Rightarrow> bool" where
  "pool_fits B a k \<longleftrightarrow> 0 < a \<and> a mod 8 = 0 \<and> k mod 8 = 0 \<and> 24 \<le> k \<and> k < 2 ^ 32 \<and> a + 24 + k < 2 ^ 64 \<and>
     {a + 8..<a + 24 + k} \<inter> region B = {}"

lemma pool_apart:
  assumes f: "pool_fits B a k" and x: "B x = Some u"
  shows "x + 16 + bsz u \<le> a + 8 \<or> a + 24 + k \<le> x + 8"
proof (rule ccontr)
  assume n: "\<not> ?thesis"
  let ?y = "max (x + 8) (a + 8)"
  have "x + 8 \<le> ?y" "?y < x + 16 + bsz u" using n by auto
  with x have "?y \<in> region B" unfolding region_def by blast
  moreover have "?y \<in> {a + 8..<a + 24 + k}" using n by auto
  ultimately show False using f unfolding pool_fits_def by blast
qed

lemma add_view_ok:
  assumes v: "view_ok B" and f: "pool_fits B a k"
  shows "view_ok (add_view B a k)"
proof -
  let ?n = "a + 8 + k" let ?p = "(a + 8, a + 24 + k)"
  let ?ab = "\<lparr>bsz = k, bfree = True, bpf = False, bpool = ?p\<rparr>" and ?nb = "\<lparr>bsz = 0, bfree = False, bpf = True, bpool = ?p\<rparr>"
  have k: "24 \<le> k" "k mod 8 = 0" "a mod 8 = 0" "0 < a" "a + 24 + k < 2 ^ 64" "k < 2 ^ 32" using f by (auto simp: pool_fits_def)
  have Ba: "add_view B a k a = Some ?ab" "add_view B a k ?n = Some ?nb" using k by (auto simp: add_view_def)
  have old: "add_view B a k x = B x" if "x \<noteq> a" "x \<noteq> ?n" for x using that by (simp add: add_view_def)
  have new: "x \<noteq> a" "x \<noteq> ?n" if "B x = Some u" for x u using pool_apart [OF f that] by auto
  have c: "x = a \<and> u = ?ab \<or> x = ?n \<and> u = ?nb \<or> B x = Some u" if "add_view B a k x = Some u" for x u
    using that Ba old by (metis option.inject)
  show ?thesis
  proof (rule view_okI)
    fix x u assume "add_view B a k x = Some u"
    from c [OF this] show "blk_ok x u"
      using k view_blk [OF v, of x u] by (auto simp: blk_ok_def mod_eq_0_iff_dvd)
  next
    fix x u x' u' assume x: "add_view B a k x = Some u" "add_view B a k x' = Some u'" "x < x'"
    show "x + 8 + bsz u \<le> x'"
      using c [OF x(1)] c [OF x(2)] x(3) k view_apart [OF v, of x u x' u'] pool_apart [OF f, of x u] pool_apart [OF f, of x' u']
      by auto
  next
    fix x u assume x: "add_view B a k x = Some u" "bsz u \<noteq> 0"
    from c [OF x(1)] show "\<exists>b'. add_view B a k (x + 8 + bsz u) = Some b' \<and> bpf b' = bfree u \<and> bpool b' = bpool u"
    proof (elim disjE conjE)
      assume "B x = Some u"
      then obtain b' where "B (x + 8 + bsz u) = Some b'" "bpf b' = bfree u" "bpool b' = bpool u" using view_next [OF v _ x(2)] by metis
      then show ?thesis using old new by metis
    qed (use Ba x in auto)
  next
    fix x u assume x: "add_view B a k x = Some u" "bpf u"
    from c [OF x(1)] show "\<exists>p q. add_view B a k p = Some q \<and> bfree q \<and> p + 8 + bsz q = x"
    proof (elim disjE conjE)
      assume "B x = Some u"
      then obtain p q where "B p = Some q" "bfree q" "p + 8 + bsz q = x" using view_prev [OF v _ x(2)] by metis
      then show ?thesis using old new by metis
    next
      assume "x = ?n"
      with Ba(1) show ?thesis by (intro exI [of _ a] exI [of _ ?ab]) simp
    qed (use x in auto)
  qed
qed

lemma add_view_region: "pool_fits B a k \<Longrightarrow> region (add_view B a k) = region B \<union> {a + 8..<a + 24 + k}"
proof (intro set_eqI iffI)
  fix y assume f: "pool_fits B a k" and "y \<in> region (add_view B a k)"
  then obtain x u where x: "add_view B a k x = Some u" "x + 8 \<le> y" "y < x + 16 + bsz u" unfolding region_def by blast
  have "B x = Some u \<or> y \<in> {a + 8..<a + 24 + k}"
    using x by (auto simp: add_view_def split: if_splits)
  with x(2,3) show "y \<in> region B \<union> {a + 8..<a + 24 + k}" unfolding region_def by blast
next
  let ?n = "a + 8 + k" let ?p = "(a + 8, a + 24 + k)"
  fix y assume f: "pool_fits B a k" and y: "y \<in> region B \<union> {a + 8..<a + 24 + k}"
  have k: "24 \<le> k" using f by (auto simp: pool_fits_def)
  have Ba: "add_view B a k a = Some \<lparr>bsz = k, bfree = True, bpf = False, bpool = ?p\<rparr>"
    "add_view B a k ?n = Some \<lparr>bsz = 0, bfree = False, bpf = True, bpool = ?p\<rparr>" using k by (auto simp: add_view_def)
  show "y \<in> region (add_view B a k)"
  proof (cases "y \<in> {a + 8..<a + 24 + k}")
    case True
    show ?thesis
    proof (cases "y < ?n + 8")
      case True
      with \<open>y \<in> {_..<_}\<close> show ?thesis unfolding region_def
        by (intro CollectI exI [of _ a] exI [of _ "\<lparr>bsz = k, bfree = True, bpf = False, bpool = ?p\<rparr>"]) (simp add: Ba)
    next
      case False
      with \<open>y \<in> {_..<_}\<close> show ?thesis unfolding region_def
        by (intro CollectI exI [of _ ?n] exI [of _ "\<lparr>bsz = 0, bfree = False, bpf = True, bpool = ?p\<rparr>"]) (simp add: Ba)
    qed
  next
    case False
    with y obtain x u where x: "B x = Some u" "x + 8 \<le> y" "y < x + 16 + bsz u" unfolding region_def by blast
    with pool_apart [OF f x(1)] have "add_view B a k x = Some u" by (auto simp: add_view_def)
    with x show ?thesis unfolding region_def by blast
  qed
qed

lemma add_view_allocs:
  assumes f: "pool_fits B a k"
  shows "allocs (add_view B a k) = allocs B"
proof (rule allocs_eqI)
  fix x
  have "B y = None" if "y = a \<or> y = a + 8 + k" for y
    using pool_apart [OF f, of y] that by (cases "B y") fastforce+
  then have "B a = None" "B (a + 8 + k) = None" by blast+
  then show "allocs (add_view B a k) (x + 16) = allocs B (x + 16)" by (auto simp: allocs_at add_view_def)
qed (simp add: allocs_small)

lemma add_view_coalesced:
  assumes v: "view_ok B" and f: "pool_fits B a k" and co: "coalesced B"
  shows "coalesced (add_view B a k)"
proof (rule coalescedI)
  have k: "24 \<le> k" using f by (auto simp: pool_fits_def)
  fix x u u' assume x: "add_view B a k x = Some u" "bfree u" and y: "add_view B a k (x + 8 + bsz u) = Some u'" "bfree u'"
  show False
  proof (cases "x = a")
    case True
    then show False using x y k by (auto simp: add_view_def split: if_splits)
  next
    case False
    then have Bx: "B x = Some u" using x by (auto simp: add_view_def split: if_splits)
    then have "bsz u \<noteq> 0" using blk_free_size [OF view_blk [OF v]] x(2) by fastforce
    from view_next [OF v Bx this] obtain b' where b': "B (x + 8 + bsz u) = Some b'" by blast
    with pool_apart [OF f b'] have "add_view B a k (x + 8 + bsz u) = Some b'" by (auto simp: add_view_def)
    with y coalescedD [OF co Bx x(2) b'] show False by simp
  qed
qed

lemma hinv_add:
  assumes h: "hinv c s B L {}" and f: "pool_fits B a k" and ct: "c + 6536 \<le> a + 8 \<or> a + 24 + k \<le> c"
    and m': "m' = wr (wr (wr (mem s) (a + 8) (hv k True False)) (a + 8 + k) (W a)) (a + 8 + k + 8) (hv 0 False True)"
  shows "hinv c (s\<lparr>mem := m'\<rparr>) (add_view B a k) L {a}"
proof -
  note v = hinvD(1) [OF h] and mo = hinvD(3) [OF h]
  have tb: "tab_ok c s L" and sg: "segs_ok c (mem s) B L {}" and ck: "ctl_ok c s B" using h by (simp_all add: hinv_iff)
  let ?n = "a + 8 + k" let ?B = "add_view B a k" let ?T = "{?n + 8, ?n, a + 8}"
  have k: "24 \<le> k" "a + 24 + k < 2 ^ 64" using f by (auto simp: pool_fits_def)
  have cells: "cell (a + 8)" "cell ?n" "cell (?n + 8)" using f by (auto simp: pool_fits_def cell_def mod_eq_0_iff_dvd)
  have g: "agree ?T (mem s) m'" unfolding m' by (intro agree_wr2 agree_wr cells)
  have out: "y \<notin> ?T" if "B x = Some u" "owns x u y" for x u y
    using pool_apart [OF f that(1)] that(2) by (auto simp: owns_def)
  have same: "rd m' y = rd (mem s) y" if "B x = Some u" "owns x u y" "cell y" for x u y
    using agree_rd [OF g that(3) out [OF that(1,2)]] .
  have new: "x \<noteq> a" "x \<noteq> ?n" if "B x = Some u" for x u using pool_apart [OF f that] by auto
  have "mem_ok m' ?B"
    unfolding mem_ok_def
  proof (intro allI impI)
    fix x u assume x: "?B x = Some u"
    show "rd m' (x + 8) = hv (bsz u) (bfree u) (bpf u) \<and> (bfree u \<longrightarrow> rd m' (x + 8 + bsz u) = W x)"
    proof (cases "B x = Some u")
      case True
      then show ?thesis
        using mo same [OF True] owns_own(1,2) [OF view_blk [OF v True]] view_cells(1,5) [OF v True] unfolding mem_ok_def by simp
    next
      case False
      with x have "x = a \<or> x = ?n" by (auto simp: add_view_def split: if_splits)
      moreover have "rd m' (a + 8) = hv k True False" "rd m' ?n = W a" "rd m' (?n + 8) = hv 0 False True"
        unfolding m' using cells k by (simp_all add: rd_wr)
      ultimately show ?thesis using x k by (auto simp: add_view_def)
    qed
  qed
  moreover have "segs_ok c m' ?B L {a}"
    unfolding segs_ok_def
  proof (intro allI impI conjI)
    fix i j :: nat assume ij: "i < 25" "j < 32"
    show "dseg m' (W c) (L (i, j)) (W c)"
    proof (rule dseg_cong [OF segs_dseg(1) [OF sg ij]])
      fix x assume "x \<in> set (L (i, j))"
      then obtain b where b: "B x = Some b" "bfree b" using segs_member [OF sg ij] by blast
      then show "rd m' (x + 16) = rd (mem s) (x + 16)" "rd m' (x + 24) = rd (mem s) (x + 24)"
        using same [OF b(1)] owns_own(3,4) [OF view_blk [OF v b(1)] b(2)] view_cells(3,4) [OF v b(1)] by simp_all
    qed
    show "distinct (L (i, j))" by (rule segs_dseg(2) [OF sg ij])
    show "x \<in> set (L (i, j)) \<longleftrightarrow> (\<exists>b. ?B x = Some b \<and> bfree b \<and> x \<notin> {a} \<and> map_ins (bsz b) = (i, j))" for x
      using segs_member [OF sg ij, of x] new [of x] by (auto simp: add_view_def)
  qed
  moreover have "ctl_ok c s ?B"
    by (rule ctl_change [OF ck]) (use ct ctl_block [OF ck] in \<open>auto simp: add_view_def split: if_splits\<close>)
  ultimately show ?thesis using add_view_ok [OF v f] tb by (simp add: hinv_iff tab_ok_def ctl_ok_def)
qed

subsection \<open>Adding a pool\<close>

definition pool_size :: "nat \<Rightarrow> nat" where
  \<comment> \<open>the size of the first block of a pool of \<open>n\<close> bytes\<close>
  "pool_size n = 8 * ((n - 16) div 8)"

lemma align_down_8:
  assumes "16 \<le> n" and "n < 2 ^ 64"
  shows "align_down (W n - 16) 8 = Inr (W (pool_size n))"
proof -
  let ?x = "n - 16"
  have x: "unat (W ?x) = ?x" using assms by (intro unat_W) simp
  have "W ?x AND 7 = take_bit 3 (W ?x)" by (simp add: take_bit_eq_mask mask_eq_exp_minus_1)
  also have "\<dots> = W (?x mod 8)" by (rule word_unat_eq_iff [THEN iffD2]) (simp only: unsigned_take_bit_eq x, simp add: take_bit_eq_mod unat_W)
  finally have "W ?x - (W ?x AND 7) = W (?x - ?x mod 8)" by (simp add: W_diff)
  moreover have "?x - ?x mod 8 = 8 * (?x div 8)" by (simp add: minus_mod_eq_mult_div)
  moreover have "W n - 16 = W ?x" using assms by (simp add: W_diff_numeral)
  ultimately show ?thesis by (simp add: align_down_def pool_size_def)
qed

text \<open>The headers that \<open>tlsf_add_pool\<close> writes, whatever flag bits memory held before.\<close>

lemma new_header:
  assumes k: "k mod 8 = 0" and cell: "cell (a + 8)"
  shows "block_set_prev_used (block_set_free (block_set_size m (W a) (W k)) (W a)) (W a) = wr m (a + 8) (hv k True False)"
    and "block_set_prev_free (block_set_used (block_set_size m (W a) (W k)) (W a)) (W a) = wr m (a + 8) (hv k False True)"
proof -
  let ?g = "bit (rd m (a + 8)) 0" and ?q = "bit (rd m (a + 8)) 1"
  have r: "rd (wr m (a + 8) v) (a + 8) = v" for v using cell by (simp add: rd_wr)
  have s1: "block_set_size m (W a) (W k) = wr m (a + 8) (hv k ?g ?q)" by (rule set_size_cell [OF k])
  have s2: "block_set_free (wr m (a + 8) (hv k ?g ?q)) (W a) = wr m (a + 8) (hv k True ?q)"
      "block_set_used (wr m (a + 8) (hv k ?g ?q)) (W a) = wr m (a + 8) (hv k False ?q)"
    using flags_cell(4,5) [OF r k] by (simp_all add: wr_wr)
  show "block_set_prev_used (block_set_free (block_set_size m (W a) (W k)) (W a)) (W a) = wr m (a + 8) (hv k True False)"
    and "block_set_prev_free (block_set_used (block_set_size m (W a) (W k)) (W a)) (W a) = wr m (a + 8) (hv k False True)"
    unfolding s1 s2 using flags_cell(6,7) [OF r k] by (simp_all add: wr_wr)
qed

lemma W_mod_8: "y < 2 ^ 64 \<Longrightarrow> W y mod 8 = 0 \<longleftrightarrow> y mod 8 = 0"
  by (subst word_unat_eq_iff, subst unat_mod_distrib) (simp add: unat_W)

text \<open>The head of a free list is outside the new pool.\<close>

lemma pool_head:
  assumes h: "hinv c s B L {}" and f: "pool_fits B a k" and ct: "c + 6536 \<le> a + 8 \<or> a + 24 + k \<le> c" and ij: "i < 25" "j < 32"
  defines "p \<equiv> lhn c (L (i, j))"
  shows "W p \<noteq> 0" "cell (p + 24)" "p + 24 \<noteq> a + 8 + k" "p + 24 \<noteq> a + 8 + k + 8" "p + 24 \<noteq> a + 8"
proof -
  note v = hinvD(1) [OF h] and ck = hinvD(2) [OF h]
  have sg: "segs_ok c (mem s) B L {}" using h by (simp add: hinv_iff)
  have hN: "p \<in> nodes c B" unfolding p_def using segs_nodes [OF sg ij] by (auto simp: lhn_def nodes_def split: list.split)
  show "W p \<noteq> 0" using node_addr [OF v ck hN] by (simp add: W_eq_0_iff)
  show "cell (p + 24)" using spacedD(3) [OF nodes_spaced [OF v ck] hN] .
  have "p + 32 \<le> a + 8 \<or> a + 24 + k \<le> p + 24"
  proof (cases "p = c")
    case False
    then obtain u where u: "B p = Some u" "bfree u" using hN by (auto simp: nodes_def)
    have "24 \<le> bsz u" using blk_free_size [OF view_blk [OF v u(1)] u(2)] .
    with pool_apart [OF f u(1)] show ?thesis by linarith
  qed (use ct in auto)
  moreover have "24 \<le> k" using f by (simp add: pool_fits_def)
  ultimately show "p + 24 \<noteq> a + 8 + k" "p + 24 \<noteq> a + 8 + k + 8" "p + 24 \<noteq> a + 8" by linarith+
qed

text \<open>The headers of the new block and of the sentinel behind it are no payload.\<close>

lemma pool_same_pay:
  assumes v: "view_ok (add_view B a k)" and ct: "ctl_ok c s (add_view B a k)" and k: "24 \<le> k"
    and cells: "cell (a + 8)" "cell (a + 8 + k)" "cell (a + 8 + k + 8)"
  shows "same_pay c (add_view B a k) m (wr (wr (wr m (a + 8) x) (a + 8 + k) y) (a + 8 + k + 8) z)"
proof (rule same_pay_agree [OF v ct])
  let ?n = "a + 8 + k" let ?B = "add_view B a k"
  show "agree {?n + 8, ?n, a + 8} m (wr (wr (wr m (a + 8) x) ?n y) (?n + 8) z)" by (intro agree_wr2 agree_wr cells)
  have Ba: "?B a = Some \<lparr>bsz = k, bfree = True, bpf = False, bpool = (a + 8, a + 24 + k)\<rparr>"
    "?B ?n = Some \<lparr>bsz = 0, bfree = False, bpf = True, bpool = (a + 8, a + 24 + k)\<rparr>" using k by (auto simp: add_view_def)
  have "owns a \<lparr>bsz = k, bfree = True, bpf = False, bpool = (a + 8, a + 24 + k)\<rparr> ?n" by (simp add: owns_def)
  then show "y \<notin> pay c ?B" if "y \<in> {?n + 8, ?n, a + 8}" for y
    using that hdr_notin_pay [OF v Ba(1)] hdr_notin_pay [OF v Ba(2)] free_notin_pay [OF v Ba(1) _ _ cells(2)] by auto
qed

lemma add_pool_step:
  assumes ok: "hok c s B {}" and n: "16 \<le> n" "n < 2 ^ 64" and f: "pool_fits B a (pool_size n)"
    and ct: "c + 6536 \<le> a + 8 \<or> a + 24 + pool_size n \<le> c"
  shows "\<exists>s'. tlsf_add_pool s (W (a + 8)) (W n) = Inr (W (a + 8), s') \<and> hok c s' (add_view B a (pool_size n)) {} \<and>
    same_pay c (add_view B a (pool_size n)) (mem s) (mem s')"
proof -
  define k where "k = pool_size n"
  note f = f [folded k_def] and ct = ct [folded k_def]
  obtain L where h: "hinv c s B L {}" using ok by (rule hok_hinv)
  note v = hinvD(1) [OF h] and ck = hinvD(2) [OF h]
  have tb: "tab_ok c s L" and cs: "control s = W c" using h by (simp_all add: hinv_iff ctl_ok_def)
  let ?n = "a + 8 + k" let ?B = "add_view B a k"
  have k: "24 \<le> k" "k mod 8 = 0" "a mod 8 = 0" "0 < a" "a + 24 + k < 2 ^ 64" "k < 2 ^ 32" using f by (auto simp: pool_fits_def)
  have cells: "cell (a + 8)" "cell (a + 16)" "cell (a + 24)" "cell ?n" "cell (?n + 8)"
    using k by (auto simp: cell_def mod_eq_0_iff_dvd)
  obtain i j where ij: "map_ins k = (i, j)" by force
  have ijb: "i < 25" "j < 32" using map_ins_bounds [OF k(6)] ij by simp_all
  let ?h = "lhn c (L (i, j))"
  note hd = pool_head [OF h f ct ijb]
  have a24: "a + 24 \<le> 2 ^ 64" "a \<noteq> 0" using k by simp_all
  obtain t where ins: "\<And>m. insert_free_block (s\<lparr>mem := m\<rparr>) (W a) (int i) (int j) =
      Inr (t\<lparr>mem := wr (wr (wr m (a + 16) (W ?h)) (a + 24) (W c)) (?h + 24) (W a)\<rparr>)"
    using insert_free_block_any [OF tb cs ijb a24(2) k(3) a24(1) hd(1)] by blast
  define m1 where "m1 = wr (mem s) (a + 8) (hv k True False)"
  define links where "links m = wr (wr (wr m (a + 16) (W ?h)) (a + 24) (W c)) (?h + 24) (W a)" for m
  define sent where "sent m = wr (wr m ?n (W a)) (?n + 8) (hv 0 False True)" for m
  have comm: "links (sent m) = sent (links m)" for m
    unfolding links_def sent_def using cells hd k by (simp add: wr_commute)
  have p8: "W (a + 8) mod 8 = 0" using k by (simp add: W_mod_8 mod_eq_0_iff_dvd)
  have blk: "offset_to_block (W (a + 8)) (- 8) = W a"
    by (simp add: offset_to_block_def W_def)
  have range: "\<not> W k < 24" "\<not> W k > 4294967296"
    using k by (simp_all add: W_numeral W_less_iff)
  have hdr: "block_set_prev_used (block_set_free (block_set_size (mem s) (W a) (W k)) (W a)) (W a) = m1"
    unfolding m1_def by (rule new_header(1) [OF k(2) cells(1)])
  have r1: "rd m1 (a + 8) = hv k True False" "rd (links m1) (a + 8) = hv k True False"
    unfolding links_def m1_def using cells hd by (simp_all add: rd_wr)
  have bi: "block_insert (s\<lparr>mem := m1\<rparr>) (W a) = Inr (t\<lparr>mem := links m1\<rparr>)"
    using flags_cell(1) [OF r1(1) k(2)] mapping_insert_of_nat [of k] k(6) ij ins [of m1]
    by (simp add: block_insert_def links_def W_def [of k])
  have ln: "block_link_next (links m1) (W a) = Inr (W ?n, wr (links m1) ?n (W a))"
    using next_cell(1) [OF r1(2) k(2)] k by (simp add: block_link_next_def fields_cell)
  have sn: "block_set_prev_free (block_set_used (block_set_size m (W ?n) 0) (W ?n)) (W ?n) = wr m (?n + 8) (hv 0 False True)" for m
    using new_header(2) [OF _ cells(5), of 0] by simp
  let ?s = "t\<lparr>mem := sent (links m1)\<rparr>"
  have "tlsf_add_pool s (W (a + 8)) (W n) = Inr (W (a + 8), ?s)"
    using align_down_8 [OF n] p8 range blk hdr bi ln sn
    by (simp add: tlsf_add_pool_def tlsf_consts hdr_consts tlsf_pool_overhead_def block_size_max_def Let_def k_def [symmetric] sent_def)
  moreover have h1: "hinv c (s\<lparr>mem := sent m1\<rparr>) ?B L {a}"
    by (rule hinv_add [OF h f ct]) (simp add: sent_def m1_def)
  have Ba: "?B a = Some \<lparr>bsz = k, bfree = True, bpf = False, bpool = (a + 8, a + 24 + k)\<rparr>"
    "?B ?n = Some \<lparr>bsz = 0, bfree = False, bpf = True, bpool = (a + 8, a + 24 + k)\<rparr>" using k by (auto simp: add_view_def)
  note hi = insert_free_block_hinv [OF h1 Ba(1) _ _ , of i j]
  have "insert_free_block (s\<lparr>mem := sent m1\<rparr>) (W a) (int i) (int j) = Inr ?s"
    using ins [of "sent m1"] comm [of m1] by (simp add: links_def)
  with hi ij have fin: "hok c ?s ?B {}" "same_pay c ?B (sent m1) (mem ?s)" by (auto simp: hok_def)
  have "same_pay c ?B (mem s) (sent m1)"
    unfolding sent_def m1_def using pool_same_pay [OF add_view_ok [OF v f] hinvD(2) [OF h1] k(1)] cells by blast
  with fin have "same_pay c ?B (mem s) (mem ?s)" by (blast intro: same_pay_trans)
  ultimately show ?thesis using fin(1) unfolding k_def by blast
qed

subsection \<open>Construction and pools on abstract heaps\<close>

lemma create_spec:
  assumes "0 < c" and "c mod 8 = 0" and "c + 6536 < 2 ^ 64"
  shows "\<exists>s. tlsf_create m (W c) = Some s \<and> heap_ok c s Map.empty {} \<and> kept c Map.empty {} m (mem s)"
proof -
  define s where "s = control_construct m (W c)"
  have cells: "cell (c + 16)" "cell (c + 24)" using assms by (auto simp: cell_def mod_eq_0_iff_dvd)
  have s: "mem s = wr (wr m (c + 16) (W c)) (c + 24) (W c)" "control s = W c" "fl_bitmap s = 0"
      "sl_bitmap s = replicate 25 0" "blocks s = replicate 25 (replicate 32 (W c))"
    by (simp_all add: s_def control_construct_def fields_cell tlsf_consts)
  have ct: "ctl_ok c s Map.empty" using assms s by (simp add: ctl_ok_def)
  have v: "view_ok Map.empty" by (simp add: view_ok_def apart_def linked_def flagged_def)
  have "tab_ok c s (\<lambda>_. [])" by (simp add: tab_ok_def s lhn_def)
  moreover have "segs_ok c (mem s) Map.empty (\<lambda>_. []) {}" by (simp add: segs_ok_def)
  ultimately have "hok c s Map.empty {}"
    unfolding hok_def hinv_iff using v ct by (intro exI [of _ "\<lambda>_. []"]) (simp add: mem_ok_def)
  moreover have "allocs Map.empty = Map.empty" by (rule ext) (simp add: allocs_def)
  moreover have "region Map.empty = {}" by (simp add: region_def)
  ultimately have "heap_ok c s Map.empty {}" unfolding heap_ok_def by (intro exI [of _ Map.empty]) (simp add: coalesced_def)
  moreover have "m' (W y) = m (W y)" if "m' = mem s" "y < 2 ^ 64" "y < c \<or> c + 6536 \<le> y" for m' y
    unfolding that(1) s using that(2,3) cells by (subst wr_byte, auto intro!: wr_byte)
  ultimately have ok: "heap_ok c s Map.empty {}" and k: "kept c Map.empty {} m (mem s)" by (auto simp: kept_def)
  have "W c mod 8 = 0" using assms by (simp add: W_mod_8)
  then have "tlsf_create m (W c) = Some s" by (simp add: tlsf_create_def tlsf_consts s_def)
  with ok k show ?thesis by blast
qed

lemma add_pool_spec:
  assumes ok: "heap_ok c s A R" and p: "8 < p" "p mod 8 = 0" and n: "16 \<le> n" "n < 2 ^ 64"
    and k: "k = pool_size n" "24 \<le> k" "k < 2 ^ 32" "p + 16 + k < 2 ^ 64"
    and free: "{p..<p + 16 + k} \<inter> R = {}" and ct: "c + 6536 \<le> p \<or> p + 16 + k \<le> c"
  shows "\<exists>s'. tlsf_add_pool s (W p) (W n) = Inr (W p, s') \<and> heap_ok c s' A (R \<union> {p..<p + 16 + k}) \<and>
    kept c A (R \<union> {p..<p + 16 + k}) (mem s) (mem s')"
proof -
  obtain B where B: "hok c s B {}" "coalesced B" "A = allocs B" "view_ok B" "R = region B" using ok by (rule heap_okE)
  obtain a where a: "p = a + 8" using p(1) by (metis add.commute le_add_diff_inverse less_imp_le)
  have e: "p + 16 + k = a + 24 + k" using a by simp
  have "k mod 8 = 0" using k(1) by (simp add: pool_size_def)
  moreover have "{a + 8..<a + 24 + k} \<inter> region B = {}" using free unfolding e B(5) unfolding a .
  ultimately have f: "pool_fits B a k"
    using p k unfolding pool_fits_def a by (simp add: mod_eq_0_iff_dvd)
  have ct': "c + 6536 \<le> a + 8 \<or> a + 24 + pool_size n \<le> c" using ct a unfolding k(1) by arith
  obtain s' where s': "tlsf_add_pool s (W p) (W n) = Inr (W p, s')" "hok c s' (add_view B a k) {}"
      "same_pay c (add_view B a k) (mem s) (mem s')"
    using add_pool_step [OF B(1) n f [unfolded k(1)] ct'] unfolding k(1) a by blast
  have r: "region (add_view B a k) = R \<union> {p..<p + 16 + k}"
    unfolding e using add_view_region [OF f] unfolding B(5) a .
  have "heap_ok c s' A (R \<union> {p..<p + 16 + k})"
    unfolding heap_ok_def
    using s'(2) add_view_coalesced [OF B(4) f B(2)] add_view_allocs [OF f] r B(3) by metis
  moreover have "kept c A (R \<union> {p..<p + 16 + k}) (mem s) (mem s')"
    using kept_same_pay [OF s'(3)] add_view_allocs [OF f] r B(3) by simp
  ultimately show ?thesis using s'(1) by blast
qed

end
