(* ===== verification/Tlsf_Realloc.thy ===== *)
theory Tlsf_Realloc
  imports Tlsf_Pool
begin

text \<open>
  \<open>tlsf_realloc\<close>: growing a block into its free successor, giving the unused rear part of a
  block back, and moving a block that cannot grow in place.
\<close>

subsection \<open>Giving back the rear part of a used block\<close>

lemma adj_cut_used:
  assumes v: "view_ok B" and co: "coalesced B" and a: "B a = Some b" "\<not> bfree b" and sz: "24 \<le> sz" "sz + 32 \<le> bsz b"
    and j: "adj (cut B a sz True) x y"
  shows "x = a + 8 + sz"
proof (rule ccontr)
  let ?r = "a + 8 + sz" and ?n = "a + 8 + bsz b"
  assume nx: "x \<noteq> ?r"
  have nz: "bsz b \<noteq> 0" using sz by simp
  obtain w where w: "B ?n = Some w" and c: "cut B a sz True = B(a \<mapsto> b\<lparr>bsz := sz\<rparr>,
      ?r \<mapsto> \<lparr>bsz = bsz b - sz - 8, bfree = True, bpf = bfree b, bpool = bpool b\<rparr>, ?n \<mapsto> w\<lparr>bpf := True\<rparr>)"
    using cut_eq [OF v a(1) nz] by metis
  have old: "\<exists>q'. B t = Some q' \<and> bfree q' \<and> bsz q' = bsz q \<and> t \<noteq> a" if "cut B a sz True t = Some q" "bfree q" "t \<noteq> ?r" for t q
    using that w a unfolding c by (auto split: if_splits)
  obtain q q' where q: "cut B a sz True x = Some q" "bfree q" "cut B a sz True y = Some q'" "bfree q'" "y = x + 8 + bsz q"
    using j unfolding adj_def by blast
  obtain q0 where q0: "B x = Some q0" "bfree q0" "bsz q0 = bsz q" "x \<noteq> a" using old [OF q(1,2) nx] by blast
  have "y \<noteq> ?r"
    using view_apart [OF v q0(1) a(1)] view_apart [OF v a(1) q0(1)] q0(3,4) q(5) sz by linarith
  from old [OF q(3,4) this] coalescedD [OF co q0(1,2)] q(5) q0(3) show False by auto
qed

lemma trim_used_step:
  assumes ok: "hok c s B {}" and co: "coalesced B" and a: "B a = Some b" "\<not> bfree b" "sz \<le> bsz b"
    and sz: "24 \<le> sz" "sz mod 8 = 0" "sz < 2 ^ 32"
  shows "\<exists>s' k. block_trim_used s (W a) (W sz) = Inr s' \<and> sz \<le> k \<and> k < sz + 32 \<and> k \<le> bsz b \<and>
    heap_ok c s' ((allocs B)(a + 16 \<mapsto> k)) (region B) \<and> kept c ((allocs B)(a + 16 \<mapsto> k)) (region B) (mem s) (mem s')"
proof -
  obtain L where h: "hinv c s B L {}" using ok by (rule hok_hinv)
  note v = hinvD(1) [OF h]
  have used: "\<not> block_is_free (mem s) (W a)" using block_size_hinv(2) [OF h a(1)] a(2) by simp
  have nz: "bsz b \<noteq> 0" using a sz by simp
  show ?thesis
  proof (cases "sz + 32 \<le> bsz b")
    case False
    have "allocs B (a + 16) = Some (bsz b)" using a nz by (simp add: allocs_at)
    then have e: "(allocs B)(a + 16 \<mapsto> bsz b) = allocs B" by (simp add: fun_upd_idem)
    have "heap_ok c s (allocs B) (region B)" using ok co unfolding heap_ok_def by blast
    then show ?thesis
      using used can_split_iff [OF h a(1) sz(3)] False a(3) e
      by (intro exI [of _ s] exI [of _ "bsz b"]) (simp add: block_trim_used_def)
  next
    case True
    let ?r = "a + 8 + sz" and ?B = "cut B a sz True" and ?rs = "bsz b - sz - 8"
    obtain m p0 where m: "block_split (mem s) (W a) (W sz) = Inr (W ?r, m)"
      "rd m (?r + 8) = hv ?rs True p0" "rd m (a + 8) = hv sz (bfree b) (bpf b)"
      and fin: "\<And>m'. agree (insert (?r + 8) (if bfree b then {?r} else {})) m m' \<Longrightarrow> rd m' (?r + 8) = hv ?rs True (bfree b) \<Longrightarrow>
        (bfree b \<Longrightarrow> rd m' ?r = W a) \<Longrightarrow> hinv c (s\<lparr>mem := m'\<rparr>) ?B L (insert ?r {}) \<and> same_pay c ?B (mem s) m'"
      using split_step [OF h a(1) _ sz(1,2) True refl] a(2) by auto
    have v': "view_ok ?B" by (rule cut_ok [OF v a(1) sz(1,2) True])
    have Br: "?B ?r = Some \<lparr>bsz = ?rs, bfree = True, bpf = bfree b, bpool = bpool b\<rparr>"
      by (rule cut_rear [OF v a(1) sz(1) True])
    note rc = view_cells(1) [OF v' Br]
    have rs: "?rs mod 8 = 0" using view_blk [OF v' Br] by (simp add: blk_ok_def)
    let ?m = "wr m (?r + 8) (hv ?rs True False)"
    have sp: "block_set_prev_used m (W ?r) = ?m" by (rule flags_cell(7) [OF m(2) rs])
    have f: "hinv c (s\<lparr>mem := ?m\<rparr>) ?B L {?r}" "same_pay c ?B (mem s) ?m"
      using fin [of ?m] agree_wr [OF rc] a(2) rc by (simp_all add: rd_wr)
    have ok1: "hok c (s\<lparr>mem := ?m\<rparr>) ?B {?r}" using f(1) by (auto simp: hok_def)
    have fr: "bfree \<lparr>bsz = ?rs, bfree = True, bpf = bfree b, bpool = bpool b\<rparr>" by simp
    obtain s2 B2 b2 where s2: "block_merge_next (s\<lparr>mem := ?m\<rparr>) (W ?r) = Inr (W ?r, s2)" "hok c s2 B2 {?r}"
        "B2 ?r = Some b2" "bfree b2" "coalesced B2" "allocs B2 = allocs ?B"
        "same_pay c ?B (mem (s\<lparr>mem := ?m\<rparr>)) (mem s2)" "region B2 = region ?B"
      using block_merge_next_step [OF ok1 Br fr] adj_cut_used [OF v co a(1,2) sz(1) True] by blast
    obtain s3 where s3: "block_insert s2 (W ?r) = Inr s3" "hok c s3 B2 ({?r} - {?r})" "same_pay c B2 (mem s2) (mem s3)"
      using block_insert_step [OF s2(2-4)] by auto
    have al: "allocs B2 = (allocs B)(a + 16 \<mapsto> sz)" using s2(6) allocs_cut [OF v a(1) sz(1) True] a(2) by simp
    have re: "region B2 = region B" using s2(8) region_cut [OF v a(1) sz(1) True] by simp
    have "same_pay c ?B (mem s) (mem s3)"
      using f(2) s2(7) s3(3) pay_eqI [OF s2(6,8)] by (simp add: same_pay_def)
    then have "kept c ((allocs B)(a + 16 \<mapsto> sz)) (region B) (mem s) (mem s3)"
      using kept_same_pay [of c ?B] al re s2(6,8) by simp
    moreover have "heap_ok c s3 ((allocs B)(a + 16 \<mapsto> sz)) (region B)"
      unfolding heap_ok_def using s3(2) s2(5) al re by auto
    moreover have "block_trim_used s (W a) (W sz) = Inr s3"
      using used can_split_iff [OF h a(1) sz(3)] True m(1) sp s2(1) s3(1) by (simp add: block_trim_used_def)
    ultimately show ?thesis using True by (intro exI [of _ s3] exI [of _ sz]) simp
  qed
qed

subsection \<open>Growing a used block into its successor\<close>

lemma adj_join_used:
  assumes v: "view_ok B" and a: "B a = Some b" "bsz b \<noteq> 0" and z: "B (a + 8 + bsz b) = Some u" "bsz u \<noteq> 0"
    and j: "adj (join B a False) x y"
  shows "adj B x y"
proof -
  let ?y = "a + 8 + bsz b + 8 + bsz u"
  obtain w where w: "B ?y = Some w" and f: "join B a False = B(a \<mapsto> b\<lparr>bsz := bsz b + 8 + bsz u, bfree := False\<rparr>,
      a + 8 + bsz b := None, ?y \<mapsto> w\<lparr>bpf := False\<rparr>)"
    using join_eq [OF v a z] by metis
  have old: "\<exists>q'. B t = Some q' \<and> bfree q' \<and> bsz q' = bsz q" if "join B a False t = Some q" "bfree q" for t q
    using that w unfolding f by (auto split: if_splits)
  obtain q q' where q: "join B a False x = Some q" "bfree q" "join B a False y = Some q'" "bfree q'" "y = x + 8 + bsz q"
    using j unfolding adj_def by blast
  from old [OF q(1,2)] old [OF q(3,4)] q(5) show ?thesis unfolding adj_def by metis
qed

lemma grow_step:
  assumes ok: "hok c s B {}" and co: "coalesced B" and a: "B a = Some b" "\<not> bfree b" "bsz b \<noteq> 0"
    and x: "x = a + 8 + bsz b" "B x = Some u" "bfree u"
  shows "\<exists>s1 m'. block_merge_next s (W a) = Inr (W a, s1) \<and> block_mark_as_used (mem s1) (W a) = Inr m' \<and>
    hok c (s1\<lparr>mem := m'\<rparr>) (join B a False) {} \<and> coalesced (join B a False) \<and> same_pay c B (mem s) m'"
proof -
  obtain L where h: "hinv c s B L {}" using ok by (rule hok_hinv)
  have u: "bsz u \<noteq> 0" using blk_free_size [OF view_blk [OF hinvD(1) [OF h] x(2)] x(3)] by simp
  obtain s0 where s0: "block_remove s (W x) = Inr s0" "hok c s0 B {x}" "same_pay c B (mem s) (mem s0)"
    using block_remove_step [OF ok x(2,3)] by auto
  obtain L0 where h0: "hinv c s0 B L0 {x}" using s0(2) by (rule hok_hinv)
  note v = hinvD(1) [OF h0] and mo = hinvD(3) [OF h0]
  let ?y = "x + 8 + bsz u" and ?N = "bsz b + 8 + bsz u"
  obtain w where w: "B ?y = Some w" "bpf w = bfree u" using view_next [OF v x(2) u] .
  note cells = view_cells(1,5) [OF v a(1)] view_cells(1,5) [OF v x(2)] view_cells(1) [OF v w(1)]
  have e: "a + 8 + ?N = ?y" using x by simp
  have sz: "?N < 2 ^ 64" "?N mod 8 = 0" "bsz w mod 8 = 0" "bsz b mod 8 = 0" "bsz u mod 8 = 0"
    using view_blk [OF v x(2)] view_blk [OF v a(1)] view_blk [OF v w(1)] x by (auto simp: blk_ok_def mod_eq_0_iff_dvd)
  define m1 where "m1 = wr (wr (mem s0) (a + 8) (hv ?N False (bpf b))) ?y (W a)"
  define m' where "m' = wr (wr m1 (?y + 8) (hv (bsz w) (bfree w) False)) (a + 8) (hv ?N False (bpf b))"
  have ab: "block_absorb (mem s0) (W a) (W x) = Inr (W a, m1)"
    using absorb_eq [OF mem_ok_hdr [OF mo a(1)] sz(4) a(3) block_size_hinv(1) [OF h0 x(2)] sz(5,1) cells(1)] a(2)
    by (simp only: m1_def e)
  have r1: "rd m1 (a + 8) = hv ?N False (bpf b)" "rd m1 (a + 8 + ?N + 8) = hv (bsz w) (bfree w) True"
    unfolding m1_def e using cells mem_ok_hdr [OF mo w(1)] w(2) x u by (simp_all add: rd_wr)
  have mu: "block_mark_as_used m1 (W a) = Inr m'"
    using mark_used_eq [OF r1(1) sz(2) _ sz(1) r1(2) sz(3) cells(1)] cells(5) unfolding m'_def e by simp
  have "block_next (mem s) (W a) = Inr (W x)" "\<not> block_is_last (mem s) (W a)"
    using next_cell [OF mem_ok_hdr [OF hinvD(3) [OF h] a(1)] sz(4) a(3)] sz(1) x(1) by simp_all
  moreover have "W x \<noteq> 0" using view_addr [OF v x(2)] by (simp add: W_eq_0_iff)
  ultimately have mn: "block_merge_next s (W a) = Inr (W a, s0\<lparr>mem := m1\<rparr>)"
    using block_size_hinv(2) [OF h x(2)] x(3) s0(1) ab by (simp add: block_merge_next_def)
  have g: "agree {a + 8, ?y, ?y + 8} (mem s0) m'"
    by (rule agree_mono [of "{a + 8, ?y + 8, ?y, a + 8}"])
      (unfold m'_def m1_def, intro agree_wr2 agree_wr cells, auto)
  have rd: "rd m' (a + 8) = hv ?N False (bpf b)" "rd m' (?y + 8) = hv (bsz w) (bfree w) False"
    unfolding m'_def using cells x u by (simp_all add: rd_wr)
  note j = join_step [OF h0 a(1,3) _ _ x _ refl w(1) g rd]
  have "hok c (s0\<lparr>mem := m'\<rparr>) (join B a False) {}" "same_pay c B (mem s0) m'"
    using j a(2) unfolding hok_def by auto
  moreover have "coalesced (join B a False)"
    using adj_join_used [OF v a(1,3)] x u co unfolding coalesced_adj by blast
  moreover have "same_pay c B (mem s) m'" using s0(3) calculation(2) by (rule same_pay_trans)
  ultimately show ?thesis using mn mu by (intro exI [of _ "s0\<lparr>mem := m1\<rparr>"] exI [of _ m']) simp
qed

lemma join_front:
  assumes v: "view_ok B" and a: "B a = Some b" "bsz b \<noteq> 0" and x: "B (a + 8 + bsz b) = Some u" "bsz u \<noteq> 0"
  shows "join B a f a = Some (b\<lparr>bsz := bsz b + 8 + bsz u, bfree := f\<rparr>)"
proof -
  obtain w where "join B a f = B(a \<mapsto> b\<lparr>bsz := bsz b + 8 + bsz u, bfree := f\<rparr>, a + 8 + bsz b := None,
      a + 8 + bsz b + 8 + bsz u \<mapsto> w\<lparr>bpf := f\<rparr>)"
    using join_eq [OF v a x] by metis
  then show ?thesis by simp
qed

subsection \<open>Client writes\<close>

lemma alloc_region:
  assumes "heap_ok c s A R" and "A p = Some n"
  shows "{p..<p + n} \<subseteq> R"
proof
  fix y assume y: "y \<in> {p..<p + n}"
  obtain B where B: "A = allocs B" "R = region B" using assms(1) by (rule heap_okE)
  obtain a b where a: "p = a + 16" "B a = Some b" "bsz b = n" using assms(2) unfolding B(1) allocs_Some by blast
  have "a + 8 \<le> y" "y < a + 16 + bsz b" using y a by auto
  with a(2) show "y \<in> R" unfolding B(2) region_def by blast
qed

lemma fold_writes:
  assumes "heap_ok c s A R" and "A q = Some k" and "n \<le> k"
  shows "heap_ok c (s\<lparr>mem := fold (\<lambda>i m. m(W q + of_nat i := f i m)) [0..<n] (mem s)\<rparr>) A R"
  using assms(3)
proof (induction n)
  case 0
  then show ?case using assms(1) by simp
next
  case (Suc n)
  let ?m = "fold (\<lambda>i m. m(W q + of_nat i := f i m)) [0..<n] (mem s)"
  have "heap_ok c (s\<lparr>mem := ?m\<rparr>) A R" by (rule Suc.IH) (use Suc.prems in simp)
  from write_spec [OF this assms(2), of n "f n ?m"] Suc.prems
  have "heap_ok c (s\<lparr>mem := ?m(W q + of_nat n := f n ?m)\<rparr>) A R" by (simp add: W_def)
  then show ?case by (simp only: upt_Suc zero_le if_True fold_append fold_simps comp_apply)
qed

lemma memcpy_spec:
  assumes ok: "heap_ok c s A R" and q: "A q = Some k" and p: "A p = Some n" "p \<noteq> q" and l: "unat l \<le> k" "unat l \<le> n"
  shows "heap_ok c (s\<lparr>mem := memcpy (mem s) (W q) (W p) l\<rparr>) A R"
    and "i < unat l \<Longrightarrow> memcpy (mem s) (W q) (W p) l (W (q + i)) = mem s (W (p + i))"
    and "kept c (A(q := None)) R (mem s) (memcpy (mem s) (W q) (W p) l)"
proof -
  show "heap_ok c (s\<lparr>mem := memcpy (mem s) (W q) (W p) l\<rparr>) A R"
    unfolding memcpy_def by (rule fold_writes [OF ok q l(1)])
  note hq = heap_block [OF ok q] and hp = heap_block [OF ok p(1)]
  have out: "memcpy (mem s) (W q) (W p) l (W y) = mem s (W y)" if "y < 2 ^ 64" "y < q \<or> q + k \<le> y" for y
  proof (rule memcpy_outside)
    show "W y \<notin> span (W q) (unat l)"
      unfolding W_def by (rule of_nat_notin_span) (use that l hq in auto)
  qed
  have d: "q + k + 8 \<le> r \<or> r + t + 8 \<le> q" if "A r = Some t" "r \<noteq> q" for r t
    using heap_disjoint [OF ok q that(1)] heap_disjoint [OF ok that(1) q] that(2) by (meson nat_neq_iff)
  have "span (W q) (unat l) \<inter> span (W p) (unat l) = {}"
    unfolding W_def
    by (rule span_disjoint_nat)
      (use d [OF p] l hq hp in auto)
  from memcpy_inside [OF this, of i "mem s"]
  show "i < unat l \<Longrightarrow> memcpy (mem s) (W q) (W p) l (W (q + i)) = mem s (W (p + i))"
    by (simp add: W_def)
  show "kept c (A(q := None)) R (mem s) (memcpy (mem s) (W q) (W p) l)"
    unfolding kept_def
  proof (intro conjI allI impI)
    fix r t j assume r: "(A(q := None)) r = Some t" "j < t"
    then have r': "A r = Some t" "r \<noteq> q" by (auto split: if_splits)
    show "memcpy (mem s) (W q) (W p) l (W (r + j)) = mem s (W (r + j))"
      by (rule out) (use r(2) heap_block(4) [OF ok r'(1)] d [OF r'] in auto)
  next
    fix y assume "y < 2 ^ 64" "y \<notin> R" "y < c \<or> c + 6536 \<le> y"
    moreover have "y < q \<or> q + k \<le> y" using alloc_region [OF ok q] \<open>y \<notin> R\<close> by (meson atLeastLessThan_iff not_le subsetD)
    ultimately show "memcpy (mem s) (W q) (W p) l (W y) = mem s (W y)" by (intro out)
  qed
qed

subsection \<open>Reallocation\<close>

text \<open>The two ways of \<open>tlsf_realloc\<close> for a block that is resized.\<close>

definition realloc_place :: "tlsf \<Rightarrow> addr \<Rightarrow> size_t \<Rightarrow> size_t \<Rightarrow> tlsf res" where
  "realloc_place s block adjust cursize =
     bindE (if adjust > cursize
            then bindE (block_merge_next s block) (\<lambda>(_, s).
                 bindE (block_mark_as_used (mem s) block) (\<lambda>m. Inr (s\<lparr>mem := m\<rparr>)))
            else Inr s) (\<lambda>s. block_trim_used s block adjust)"

definition realloc_move :: "tlsf \<Rightarrow> addr \<Rightarrow> size_t \<Rightarrow> size_t \<Rightarrow> (addr \<times> tlsf) res" where
  "realloc_move s ptr sz cursize =
     bindE (tlsf_malloc s sz) (\<lambda>(p, s).
       if p \<noteq> 0
       then bindE (tlsf_free (s\<lparr>mem := memcpy (mem s) p ptr (if cursize < sz then cursize else sz)\<rparr>) ptr) (\<lambda>s. Inr (p, s))
       else Inr (p, s))"

lemma tlsf_realloc_alt:
  assumes "ptr \<noteq> 0" and "sz \<noteq> 0"
  shows "tlsf_realloc s ptr sz =
    (let block = block_from_ptr ptr
     in bindE (block_next (mem s) block) (\<lambda>nxt.
        let cursize = block_size (mem s) block;
            combined = cursize + block_size (mem s) nxt + block_header_overhead
        in bindE (adjust_request_size sz (of_int ALIGN_SIZE)) (\<lambda>adjust.
           bindE (assertE (\<not> block_is_free (mem s) block)) (\<lambda>_.
           if adjust > cursize \<and> (\<not> block_is_free (mem s) nxt \<or> adjust > combined)
           then realloc_move s ptr sz cursize
           else bindE (realloc_place s block adjust cursize) (\<lambda>s. Inr (ptr, s))))))"
proof -
  have assoc: "bindE (bindE r f) g = bindE r (\<lambda>x. bindE (f x) g)" for r f g by (cases r) simp_all
  show ?thesis
    using assms
    by (simp add: tlsf_realloc_def realloc_place_def realloc_move_def Let_def assoc cong: if_cong split del: if_split)
qed

lemma realloc_place_step:
  assumes ok: "hok c s B {}" and co: "coalesced B" and a: "B a = Some b" "\<not> bfree b" "bsz b \<noteq> 0"
    and z: "24 \<le> z" "z mod 8 = 0" "z < 2 ^ 32"
    and fit: "bsz b < z \<Longrightarrow> \<exists>u. B (a + 8 + bsz b) = Some u \<and> bfree u \<and> z \<le> bsz b + 8 + bsz u"
  shows "\<exists>s' k. realloc_place s (W a) (W z) (W (bsz b)) = Inr s' \<and> z \<le> k \<and> k < z + 32 \<and>
    heap_ok c s' ((allocs B)(a + 16 \<mapsto> k)) (region B) \<and>
    kept c ((allocs B)(a + 16 \<mapsto> min k (bsz b))) (region B) (mem s) (mem s')"
proof -
  note v = hok_view [OF ok]
  have lt: "W z > W (bsz b) \<longleftrightarrow> bsz b < z" using z view_size [OF v a(1)] by (simp add: W_less_iff)
  show ?thesis
  proof (cases "bsz b < z")
    case False
    then obtain s' k where "block_trim_used s (W a) (W z) = Inr s'" "z \<le> k" "k < z + 32" "k \<le> bsz b"
        "heap_ok c s' ((allocs B)(a + 16 \<mapsto> k)) (region B)" "kept c ((allocs B)(a + 16 \<mapsto> k)) (region B) (mem s) (mem s')"
      using trim_used_step [OF ok co a(1,2) _ z] by auto
    then show ?thesis using False lt
      by (intro exI [of _ s'] exI [of _ k]) (simp add: realloc_place_def min_def)
  next
    case True
    then obtain u where u: "B (a + 8 + bsz b) = Some u" "bfree u" "z \<le> bsz b + 8 + bsz u" using fit by blast
    have nz: "bsz u \<noteq> 0" using blk_free_size [OF view_blk [OF v u(1)] u(2)] by simp
    let ?B = "join B a False" and ?b = "b\<lparr>bsz := bsz b + 8 + bsz u, bfree := False\<rparr>"
    obtain s1 m where s1: "block_merge_next s (W a) = Inr (W a, s1)" "block_mark_as_used (mem s1) (W a) = Inr m"
        "hok c (s1\<lparr>mem := m\<rparr>) ?B {}" "coalesced ?B" "same_pay c B (mem s) m"
      using grow_step [OF ok co a refl u(1,2)] by blast
    have Ba: "?B a = Some ?b" by (rule join_front [OF v a(1,3) u(1) nz])
    have al: "allocs ?B = (allocs B)(a + 16 \<mapsto> bsz b + 8 + bsz u)" using allocs_join [OF v a(1,3) u(1) nz u(2), of False] by simp
    have re: "region ?B = region B" by (rule region_join [OF v a(1,3) u(1) nz])
    obtain s' k where s': "block_trim_used (s1\<lparr>mem := m\<rparr>) (W a) (W z) = Inr s'" "z \<le> k" "k < z + 32"
        "heap_ok c s' ((allocs B)(a + 16 \<mapsto> k)) (region B)" "kept c ((allocs B)(a + 16 \<mapsto> k)) (region B) m (mem s')"
      using trim_used_step [OF s1(3,4) Ba _ _ z] u(3) al re by auto
    have "bsz b \<le> k" using True s'(2) by simp
    have "allocs B (a + 16) = Some (bsz b)" using a by (simp add: allocs_at)
    then have id: "(allocs B)(a + 16 \<mapsto> bsz b) = allocs B" by (simp add: fun_upd_idem)
    have k1: "kept c ((allocs B)(a + 16 \<mapsto> bsz b)) (region B) (mem s) m" using kept_same_pay [OF s1(5)] id by simp
    have k2: "kept c ((allocs B)(a + 16 \<mapsto> bsz b)) (region B) m (mem s')"
      using s'(5) \<open>bsz b \<le> k\<close> by (auto simp: kept_def)
    have "kept c ((allocs B)(a + 16 \<mapsto> min k (bsz b))) (region B) (mem s) (mem s')"
      using kept_trans [OF k1 k2] \<open>bsz b \<le> k\<close> by (simp add: min_def)
    then show ?thesis using True lt s1(1,2) s'
      by (intro exI [of _ s'] exI [of _ k]) (simp add: realloc_place_def)
  qed
qed

lemma realloc_move_step:
  assumes ok: "heap_ok c s A R" and p: "A p = Some n" and sz: "sz \<noteq> 0" "unat sz + 7 < 2 ^ 64"
  shows "realloc_move s (W p) sz (W n) = Inr (0, s) \<or>
    (\<exists>q k s'. realloc_move s (W p) sz (W n) = Inr (W q, s') \<and> A q = None \<and> unat sz \<le> k \<and>
      heap_ok c s' ((A(p := None))(q \<mapsto> k)) R \<and> kept c (A(p := None)) R (mem s) (mem s') \<and>
      (\<forall>i < min n (unat sz). mem s' (W (q + i)) = mem s (W (p + i))))"
proof -
  from malloc_spec [OF ok, of sz] consider
    (new) q k s1 where "tlsf_malloc s sz = Inr (W q, s1)" "A q = None" "heap_ok c s1 (A(q \<mapsto> k)) R"
      "adj_size (unat sz) \<le> k" "adj_size (unat sz) \<noteq> 0" "kept c A R (mem s) (mem s1)"
    | (none) "tlsf_malloc s sz = Inr (0, s)" by blast
  then show ?thesis
  proof cases
    case none
    then show ?thesis by (simp add: realloc_move_def)
  next
    case new
    have ne: "p \<noteq> q" using new(2) p by auto
    let ?A = "A(q \<mapsto> k)"
    have p1: "?A p = Some n" and q1: "?A q = Some k" using p ne by simp_all
    note hn = heap_block [OF ok p] and hq = heap_block [OF new(3) q1]
    have un: "unat (W n) = n" using hn by (intro unat_W) simp
    have fit: "unat sz \<le> k" using adj_size_fits [OF sz(2) new(5)] new(4) by simp
    let ?l = "if W n < sz then W n else sz"
    have l: "unat ?l = min n (unat sz)" using un by (auto simp: word_less_nat_alt)
    have lk: "unat ?l \<le> k" "unat ?l \<le> n" using l fit by auto
    let ?m = "memcpy (mem s1) (W q) (W p) ?l"
    note c = memcpy_spec [OF new(3) q1 p1 ne lk]
    from free_spec [OF c(1) p1] obtain s' where s': "tlsf_free (s1\<lparr>mem := ?m\<rparr>) (W p) = Inr s'"
      "heap_ok c s' (?A(p := None)) R" and k0: "kept c (?A(p := None)) R (mem (s1\<lparr>mem := ?m\<rparr>)) (mem s')" by blast
    have k1: "kept c (?A(p := None)) R ?m (mem s')" using k0 by simp
    have e: "?A(p := None) = (A(p := None))(q \<mapsto> k)" using ne by (simp add: fun_upd_twist)
    have "(A(p := None)) \<subseteq>\<^sub>m A" "(A(p := None)) \<subseteq>\<^sub>m ?A(q := None)" "(A(p := None)) \<subseteq>\<^sub>m (A(p := None))(q \<mapsto> k)"
      using new(2) by (auto simp: map_le_def)
    then have "kept c (A(p := None)) R (mem s) (mem s1)" "kept c (A(p := None)) R (mem s1) ?m" "kept c (A(p := None)) R ?m (mem s')"
      using kept_mono new(6) c(3) k1 unfolding e by blast+
    then have k: "kept c (A(p := None)) R (mem s) (mem s')" by (blast intro: kept_trans)
    have "mem s' (W (q + i)) = mem s (W (p + i))" if i: "i < min n (unat sz)" for i
    proof -
      have "mem s' (W (q + i)) = ?m (W (q + i))" using k1 fit i unfolding e by (auto simp: kept_def)
      also have "\<dots> = mem s1 (W (p + i))" by (rule c(2)) (use i l in simp)
      also have "\<dots> = mem s (W (p + i))" using new(6) p i by (auto simp: kept_def)
      finally show ?thesis .
    qed
    moreover have "realloc_move s (W p) sz (W n) = Inr (W q, s')"
      using new(1) s'(1) hq by (simp add: realloc_move_def W_eq_0_iff)
    ultimately show ?thesis using new(2) fit s'(2) k unfolding e by blast
  qed
qed

lemma realloc_spec:
  assumes ok: "heap_ok c s A R" and p: "A p = Some n" and sz: "sz \<noteq> 0" "unat sz + 7 < 2 ^ 64"
    and z: "adj_size (unat sz) \<noteq> 0"
  shows "tlsf_realloc s (W p) sz = Inr (0, s) \<or>
    (\<exists>q k s'. tlsf_realloc s (W p) sz = Inr (W q, s') \<and> (q = p \<or> A q = None) \<and> unat sz \<le> k \<and>
      heap_ok c s' ((A(p := None))(q \<mapsto> k)) R \<and> kept c (A(p := None)) R (mem s) (mem s') \<and>
      (\<forall>i < min n (unat sz). mem s' (W (q + i)) = mem s (W (p + i))))"
proof -
  obtain B where B: "hok c s B {}" "coalesced B" "A = allocs B" "view_ok B" "R = region B" using ok by (rule heap_okE)
  obtain a b where a: "p = a + 16" "B a = Some b" "\<not> bfree b" "bsz b = n" "bsz b \<noteq> 0" using p unfolding B(3) allocs_Some by blast
  obtain L where h: "hinv c s B L {}" using B(1) by (rule hok_hinv)
  let ?z = "adj_size (unat sz)" and ?nx = "a + 8 + bsz b"
  note r = adj_size_range [of "unat sz"]
  have z24: "24 \<le> ?z" using r z by simp
  have fit: "unat sz \<le> ?z" by (rule adj_size_fits [OF sz(2) z])
  obtain u where u: "B ?nx = Some u" using view_next [OF B(4) a(2,5)] .
  have nx: "block_next (mem s) (W a) = Inr (W ?nx)"
    using next_cell(1) [OF mem_ok_hdr [OF hinvD(3) [OF h] a(2)] _ a(5)] blk_size [OF view_blk [OF B(4) a(2)]] by simp
  have lt: "bsz b < 2 ^ 32" "bsz u < 2 ^ 32" using view_size [OF B(4)] a(2) u by simp_all
  have adj: "adjust_request_size sz (of_int ALIGN_SIZE) = Inr (W ?z)"
    by (simp add: tlsf_consts adjust_request_size_eq W_def)
  have p0: "W p \<noteq> 0" using heap_block [OF ok p] by (simp add: W_eq_0_iff)
  have cmp: "(W ?z > W (bsz b)) = (bsz b < ?z)" "(W ?z > W (bsz b) + W (bsz u) + 8) = (bsz b + 8 + bsz u < ?z)"
    using lt r by (simp_all add: W_less_iff W_add W_numeral ac_simps)
  have eq: "tlsf_realloc s (W p) sz =
      (if bsz b < ?z \<and> (\<not> bfree u \<or> bsz b + 8 + bsz u < ?z) then realloc_move s (W p) sz (W n)
       else bindE (realloc_place s (W a) (W ?z) (W (bsz b))) (\<lambda>s. Inr (W p, s)))"
    unfolding tlsf_realloc_alt [OF p0 sz(1)]
    using nx adj a block_size_hinv [OF h a(2)] block_size_hinv [OF h u]
    by (simp add: ptr_cell hdr_consts cmp [unfolded a(4)] Let_def cong: if_cong split del: if_split)
  show ?thesis
  proof (cases "bsz b < ?z \<and> (\<not> bfree u \<or> bsz b + 8 + bsz u < ?z)")
    case True
    then have "tlsf_realloc s (W p) sz = realloc_move s (W p) sz (W n)" using eq by simp
    with realloc_move_step [OF ok p sz] show ?thesis by (simp only:) blast
  next
    case False
    obtain s' k where s': "realloc_place s (W a) (W ?z) (W (bsz b)) = Inr s'" "?z \<le> k"
        "heap_ok c s' ((allocs B)(a + 16 \<mapsto> k)) (region B)"
        "kept c ((allocs B)(a + 16 \<mapsto> min k (bsz b))) (region B) (mem s) (mem s')"
      using realloc_place_step [OF B(1,2) a(2,3,5) z24 r(2,1)] False u by auto
    have "A(p := None) \<subseteq>\<^sub>m (allocs B)(a + 16 \<mapsto> min k (bsz b))" using a(1) B(3) by (auto simp: map_le_def)
    then have "kept c (A(p := None)) R (mem s) (mem s')" using kept_mono [OF s'(4)] B(5) by simp
    moreover have "mem s' (W (p + i)) = mem s (W (p + i))" if "i < min n (unat sz)" for i
      using s'(4) that fit s'(2) a(1,4) by (auto simp: kept_def)
    moreover have "heap_ok c s' ((A(p := None))(p \<mapsto> k)) R" using s'(3) a(1) B(3,5) by simp
    moreover have "tlsf_realloc s (W p) sz = Inr (W p, s')" unfolding eq if_not_P [OF False] s'(1) by simp
    ultimately show ?thesis using fit s'(2) by (intro disjI2 exI [of _ p] exI [of _ k] exI [of _ s']) simp
  qed
qed

end
