(* ===== verification/Tlsf_Spec.thy ===== *)
theory Tlsf_Spec
  imports Tlsf_Realloc
begin

text \<open>
  What the TLSF allocator promises. The theorems are stated on abstract heaps: \<open>heap_ok c s A R\<close>
  (the allocated blocks \<open>A\<close>, the pools \<open>R\<close>) and \<open>kept\<close> (what an operation must not change). The
  first section has the facts the theorems and their examples share: an example heap, built by
  the code itself, and success of an allocation.
\<close>

subsection \<open>Size classes are monotone\<close>

lemma map_ins_mono: "m \<le> n \<Longrightarrow> \<not> slot_less (map_ins n) (map_ins m)"
proof (cases "m < 256")
  case True
  assume "m \<le> n"
  then show ?thesis using True class_quotient [of n] div_le_mono [of m n 8]
    by (cases "n < 256") (auto simp: slot_less_def map_ins_def)
next
  case False
  assume le: "m \<le> n"
  with False have n: "\<not> n < 256" by simp
  have l: "ilog2 m \<le> ilog2 n" using le by (rule ilog2_mono)
  have b: "8 \<le> ilog2 m" "8 \<le> ilog2 n" using class_quotient False n by simp_all
  show ?thesis
  proof (cases "ilog2 m = ilog2 n")
    case True
    have "m div 2 ^ (ilog2 n - 5) \<le> n div 2 ^ (ilog2 n - 5)" using le by (rule div_le_mono)
    with True show ?thesis using False n by (simp add: slot_less_def map_ins_def)
  next
    case neq: False
    with l have "ilog2 m < ilog2 n" by simp
    then show ?thesis using False n b by (simp add: slot_less_def map_ins_def)
  qed
qed

lemma adj_size_mid:
  assumes "0 < n" and "n < 2 ^ 32 - 8"
  shows "adj_size n \<noteq> 0 \<and> n \<le> adj_size n \<and> adj_size n < n + 31"
proof -
  have "(n + 7) mod 2 ^ 64 = n + 7" using assms(2) by (intro mod_less) simp
  then have "adj_size n = max (8 * ((n + 7) div 8)) 24"
    using assms by (simp add: adj_size_def Let_def)
  then show ?thesis using assms(1) by auto
qed

subsection \<open>More facts on abstract heaps\<close>

lemma block_size_spec:
  assumes "heap_ok c s A R" and "A p = Some n"
  shows "tlsf_block_size (mem s) (W p) = W n"
proof -
  obtain B where B: "hok c s B {}" "A = allocs B" using assms(1) by (rule heap_okE)
  obtain a b where a: "p = a + 16" "B a = Some b" "bsz b = n" using assms(2) unfolding B(2) allocs_Some by blast
  obtain L where h: "hinv c s B L {}" using B(1) by (rule hok_hinv)
  have "W p \<noteq> 0" using heap_block [OF assms] by (simp add: W_eq_0_iff)
  then show ?thesis using a block_size_hinv(1) [OF h a(2)] by (simp add: tlsf_block_size_def ptr_cell)
qed

text \<open>The invariant depends on the memory of the pools only.\<close>

lemma rd_region:
  assumes v: "view_ok B" and a: "B a = Some b" and y: "owns a b y" "cell y"
    and same: "\<And>z. z \<in> region B \<Longrightarrow> m' (W z) = m (W z)"
  shows "rd m' y = rd m y"
  unfolding rd_def
proof (rule load64_cong)
  fix x assume "x \<in> span (W y) 8"
  then obtain i where i: "i < 8" "x = W (y + i)" by (auto simp: span_def W_def)
  obtain p q k where "y = 8 * p" "a = 8 * q" "bsz b = 8 * k"
    using y(2) view_blk [OF v a] by (auto simp: cell_def blk_ok_def mod_eq_0_iff_dvd elim!: dvdE)
  moreover from this have "p < q + 2 + k" using y(1) by (simp add: owns_def)
  ultimately have "a + 8 \<le> y + i" "y + i < a + 16 + bsz b" using y(1) i(1) by (auto simp: owns_def)
  then have "y + i \<in> region B" unfolding region_def using a by blast
  then show "m' x = m x" using same i(2) by simp
qed

lemma outside_write_spec:
  assumes ok: "heap_ok c s A R" and same: "\<And>z. z \<in> R \<Longrightarrow> m' (W z) = mem s (W z)"
  shows "heap_ok c (s\<lparr>mem := m'\<rparr>) A R"
proof -
  obtain B where B: "hok c s B {}" "coalesced B" "A = allocs B" "R = region B" using ok by (rule heap_okE)
  obtain L where h: "hinv c s B L {}" using B(1) by (rule hok_hinv)
  note v = hinvD(1) [OF h] and ct = hinvD(2) [OF h] and mo = hinvD(3) [OF h]
  have tb: "tab_ok c s L" and sg: "segs_ok c (mem s) B L {}" using h by (simp_all add: hinv_iff)
  have r: "rd m' y = rd (mem s) y" if "B a = Some b" "owns a b y" "cell y" for a b y
    using rd_region [OF v that] same B(4) by blast
  have "mem_ok m' B"
    unfolding mem_ok_def
  proof (intro allI impI)
    fix a b assume a: "B a = Some b"
    show "rd m' (a + 8) = hv (bsz b) (bfree b) (bpf b) \<and> (bfree b \<longrightarrow> rd m' (a + 8 + bsz b) = W a)"
      using mo a r [OF a] owns_own(1,2) [OF view_blk [OF v a]] view_cells(1,5) [OF v a] unfolding mem_ok_def by simp
  qed
  moreover have "segs_ok c m' B L {}"
    unfolding segs_ok_def
  proof (intro allI impI conjI)
    fix i j :: nat assume ij: "i < 25" "j < 32"
    show "dseg m' (W c) (L (i, j)) (W c)"
    proof (rule dseg_cong [OF segs_dseg(1) [OF sg ij]])
      fix x assume "x \<in> set (L (i, j))"
      then obtain b where b: "B x = Some b" "bfree b" using segs_member [OF sg ij] by blast
      then show "rd m' (x + 16) = rd (mem s) (x + 16)" "rd m' (x + 24) = rd (mem s) (x + 24)"
        using r [OF b(1)] owns_own(3,4) [OF view_blk [OF v b(1)] b(2)] view_cells(3,4) [OF v b(1)] by simp_all
    qed
  qed (use segs_dseg(2) [OF sg] segs_member [OF sg] in blast)+
  ultimately have "hinv c (s\<lparr>mem := m'\<rparr>) B L {}" using v ct tb by (simp add: hinv_iff tab_ok_def ctl_ok_def)
  then show ?thesis using B by (auto simp: heap_ok_def hok_def)
qed

text \<open>A view of the whole heap, with its free blocks, for statements on when a request is served.\<close>

definition heap_view :: "nat \<Rightarrow> tlsf \<Rightarrow> view \<Rightarrow> bool" where
  "heap_view c s B \<longleftrightarrow> hok c s B {} \<and> coalesced B"

lemma heap_view_ok: "heap_view c s B \<Longrightarrow> heap_ok c s (allocs B) (region B)"
  unfolding heap_view_def heap_ok_def by blast

lemma malloc_success:
  assumes v: "heap_view c s B" and b: "B a = Some b" "bfree b" and n: "n = adj_size (unat sz)" "n \<noteq> 0"
    and fit: "search_size n \<le> bsz b"
  shows "\<exists>q k s'. tlsf_malloc s sz = Inr (W q, s') \<and> W q \<noteq> 0 \<and> allocs B q = None \<and> n \<le> k \<and> k < n + 32 \<and>
    heap_ok c s' ((allocs B)(q \<mapsto> k)) (region B) \<and> kept c (allocs B) (region B) (mem s) (mem s')"
proof -
  have ok: "hok c s B {}" "coalesced B" using v by (simp_all add: heap_view_def)
  have "\<not> slot_less (map_ins (bsz b)) (map_ins (search_size n))" using fit by (rule map_ins_mono)
  then obtain x u s' k where x: "tlsf_malloc s sz = Inr (W (x + 16), s')" "B x = Some u" "bfree u" "n \<le> k" "k < n + 32"
      "heap_ok c s' ((allocs B)(x + 16 \<mapsto> k)) (region B)" "same_pay c B (mem s) (mem s')"
    using tlsf_malloc_step [OF ok n(1)] b n(2) by blast
  moreover have "W (x + 16) \<noteq> 0"
    using heap_block [OF x(6), of "x + 16" k] by (simp add: W_eq_0_iff)
  moreover have "allocs B (x + 16) = None" using x by (simp add: allocs_free)
  ultimately show ?thesis using kept_same_pay [OF x(7)] by blast
qed

subsection \<open>An example heap\<close>

text \<open>
  Control structure at 4096, one pool of 65536 bytes at 16384, all of memory zero before.
\<close>

definition demo_heap :: tlsf where
  "demo_heap = (case tlsf_create (\<lambda>_. 0) (W 4096) of
     Some s \<Rightarrow> (case tlsf_add_pool s (W 16384) (W 65536) of Inr (_, s') \<Rightarrow> s' | Inl _ \<Rightarrow> s))"

definition demo_pool :: "nat set" where
  "demo_pool = {16384..<16384 + 65536}"

definition demo_view :: view where
  "demo_view = add_view Map.empty 16376 65520"

lemma region_empty: "region B = {} \<Longrightarrow> B = Map.empty"
proof
  fix a assume "region B = {}"
  then show "B a = None" unfolding region_def by (cases "B a") (force, force)
qed

lemma demo_fits: "pool_fits Map.empty 16376 65520" "pool_size 65536 = 65520"
  by (simp_all add: pool_fits_def pool_size_def region_def)

lemma demo_heap_view: "heap_view 4096 demo_heap demo_view"
proof -
  obtain s where s: "tlsf_create (\<lambda>_. 0) (W 4096) = Some s" "heap_ok 4096 s Map.empty {}"
    using create_spec [of 4096 "\<lambda>_. 0"] by auto
  obtain B where "hok 4096 s B {}" "coalesced B" "{} = region B" "view_ok B" using s(2) by (rule heap_okE)
  then have B: "hok 4096 s Map.empty {}" "coalesced Map.empty" "view_ok Map.empty" using region_empty [of B] by auto
  obtain s' where s': "tlsf_add_pool s (W (16376 + 8)) (W 65536) = Inr (W (16376 + 8), s')" "hok 4096 s' (add_view Map.empty 16376 65520) {}"
    using add_pool_step [OF B(1), of 65536 16376] demo_fits by auto
  have "demo_heap = s'" using s(1) s'(1) by (simp add: demo_heap_def)
  moreover have "coalesced (add_view Map.empty 16376 65520)" by (rule add_view_coalesced [OF B(3) demo_fits(1) B(2)])
  ultimately show ?thesis using s'(2) by (simp add: heap_view_def demo_view_def)
qed

lemma demo_view_facts: "region demo_view = demo_pool" "allocs demo_view = Map.empty"
proof -
  have "allocs Map.empty = Map.empty" by (rule ext) (simp add: allocs_def)
  then show "allocs demo_view = Map.empty" using add_view_allocs [OF demo_fits(1)] by (simp add: demo_view_def)
  have "region Map.empty = {}" by (simp add: region_def)
  then show "region demo_view = demo_pool" using add_view_region [OF demo_fits(1)] by (simp add: demo_view_def demo_pool_def)
qed

lemma demo_ok: "heap_ok 4096 demo_heap Map.empty demo_pool"
  using heap_view_ok [OF demo_heap_view] by (simp add: demo_view_facts)

lemma demo_block: "demo_view 16376 = Some \<lparr>bsz = 65520, bfree = True, bpf = False, bpool = (16384, 81920)\<rparr>"
  by (simp add: demo_view_def add_view_def)

text \<open>The same heap after an allocation of 100 bytes.\<close>

lemma adj_size_100: "adj_size 100 = 104" "search_size 104 = 104"
  by (simp_all add: adj_size_def search_size_def)

lemma demo_malloc: "\<exists>q k s'. tlsf_malloc demo_heap 100 = Inr (W q, s') \<and> W q \<noteq> 0 \<and> heap_ok 4096 s' [q \<mapsto> k] demo_pool \<and> 104 \<le> k \<and> k < 136"
  using malloc_success [OF demo_heap_view demo_block, of "adj_size 100" 100]
  by (simp add: demo_view_facts adj_size_100) blast

definition demo_ptr :: nat where
  "demo_ptr = (case tlsf_malloc demo_heap 100 of Inr (p, _) \<Rightarrow> unat p | Inl _ \<Rightarrow> 0)"

definition demo_size :: nat where
  "demo_size = (case tlsf_malloc demo_heap 100 of Inr (p, s) \<Rightarrow> unat (tlsf_block_size (mem s) p) | Inl _ \<Rightarrow> 0)"

definition demo_used :: tlsf where
  "demo_used = (case tlsf_malloc demo_heap 100 of Inr (_, s) \<Rightarrow> s | Inl _ \<Rightarrow> demo_heap)"

lemma demo_used_ok:
  "tlsf_malloc demo_heap 100 = Inr (W demo_ptr, demo_used)" "heap_ok 4096 demo_used [demo_ptr \<mapsto> demo_size] demo_pool"
  "104 \<le> demo_size" "demo_size < 136" "W demo_ptr \<noteq> 0"
proof -
  obtain q k s' where d: "tlsf_malloc demo_heap 100 = Inr (W q, s')" "heap_ok 4096 s' [q \<mapsto> k] demo_pool" "104 \<le> k" "k < 136" "W q \<noteq> 0"
    using demo_malloc by blast
  note h = heap_block [OF d(2), of q k]
  have "unat (W q) = q" "unat (W k) = k" using h by (auto intro: unat_W)
  then have e: "demo_ptr = q" "demo_used = s'" "demo_size = k"
    using d(1) block_size_spec [OF d(2), of q k] by (simp_all add: demo_ptr_def demo_used_def demo_size_def)
  show "tlsf_malloc demo_heap 100 = Inr (W demo_ptr, demo_used)" "heap_ok 4096 demo_used [demo_ptr \<mapsto> demo_size] demo_pool"
    "104 \<le> demo_size" "demo_size < 136" "W demo_ptr \<noteq> 0"
    using d unfolding e by simp_all
qed

subsection \<open>The theorems\<close>

lemma malloc_result:
  assumes "heap_ok c s A R"
  shows "\<exists>p s'. tlsf_malloc s sz = Inr (p, s') \<and>
    (p = 0 \<and> s' = s \<or>
     (\<exists>q n. p = W q \<and> p \<noteq> 0 \<and> q mod 8 = 0 \<and> A q = None \<and> heap_ok c s' (A(q \<mapsto> n)) R \<and>
        (unat sz + 7 < 2 ^ 64 \<longrightarrow> unat sz \<le> n) \<and> kept c A R (mem s) (mem s')))"
proof -
  from malloc_spec [OF assms, of sz] consider
    (new) q n s' where "tlsf_malloc s sz = Inr (W q, s')" "A q = None" "heap_ok c s' (A(q \<mapsto> n)) R"
      "adj_size (unat sz) \<le> n" "adj_size (unat sz) \<noteq> 0" "kept c A R (mem s) (mem s')"
    | (none) "tlsf_malloc s sz = Inr (0, s)" by blast
  then show ?thesis
  proof cases
    case new
    note h = heap_block [OF new(3), of q n]
    have "q mod 8 = 0" "W q \<noteq> 0" using h by (simp_all add: W_eq_0_iff)
    moreover have "unat sz + 7 < 2 ^ 64 \<longrightarrow> unat sz \<le> n" using adj_size_fits [of "unat sz"] new(4,5) by linarith
    ultimately show ?thesis using new
      by (intro exI [of _ "W q"] exI [of _ s'] conjI disjI2 exI [of _ q] exI [of _ n]) simp_all
  qed blast
qed



text \<open>C5: a request is served whenever the heap has a free block of the size the search rounds the
  request up to (the request itself below 256 bytes, less than 1/32 more above): allocation fails
  only for want of memory.\<close>

theorem tlsf_malloc_serves:
  assumes "heap_view c s B" and "B a = Some b" and "bfree b" and "0 < unat sz" and "unat sz < 2 ^ 32 - 8"
    and "search_size (adj_size (unat sz)) \<le> bsz b"
  shows "\<exists>q n s'. tlsf_malloc s sz = Inr (W q, s') \<and> W q \<noteq> 0 \<and> allocs B q = None \<and> unat sz \<le> n \<and> n < unat sz + 63 \<and>
    heap_ok c s' ((allocs B)(q \<mapsto> n)) (region B) \<and> kept c (allocs B) (region B) (mem s) (mem s')"
proof -
  have "adj_size (unat sz) \<noteq> 0" "unat sz \<le> adj_size (unat sz)" "adj_size (unat sz) < unat sz + 31"
    using adj_size_mid [OF assms(4,5)] by simp_all
  moreover obtain q k s' where "tlsf_malloc s sz = Inr (W q, s')" "W q \<noteq> 0" "allocs B q = None"
      "adj_size (unat sz) \<le> k" "k < adj_size (unat sz) + 32"
      "heap_ok c s' ((allocs B)(q \<mapsto> k)) (region B)" "kept c (allocs B) (region B) (mem s) (mem s')"
    using malloc_success [OF assms(1-3) refl calculation(1) assms(6)] by blast
  ultimately show ?thesis by (intro exI [of _ q] exI [of _ k] exI [of _ s'] conjI) simp_all
qed

theorem tlsf_malloc_serves_witness:
  "\<exists>q n s'. tlsf_malloc demo_heap 100 = Inr (W q, s') \<and> W q \<noteq> 0 \<and> allocs demo_view q = None \<and> 100 \<le> n \<and> n < 163 \<and>
    heap_ok 4096 s' ((allocs demo_view)(q \<mapsto> n)) (region demo_view) \<and>
    kept 4096 (allocs demo_view) (region demo_view) (mem demo_heap) (mem s')"
  using tlsf_malloc_serves [OF demo_heap_view demo_block, of 100] by (simp add: adj_size_100)

text \<open>C2: releasing an allocated block never fails, removes exactly that block from the allocations,
  keeps the invariant and changes no byte of any other allocation and none outside the
  allocator's memory.\<close>

theorem tlsf_free_correct:
  assumes "heap_ok c s A R" and "A p = Some n"
  shows "\<exists>s'. tlsf_free s (W p) = Inr s' \<and> heap_ok c s' (A(p := None)) R \<and> kept c (A(p := None)) R (mem s) (mem s')"
  by (rule free_spec [OF assms])

theorem tlsf_free_correct_witness:
  "\<exists>s'. tlsf_free demo_used (W demo_ptr) = Inr s' \<and> heap_ok 4096 s' ([demo_ptr \<mapsto> demo_size](demo_ptr := None)) demo_pool \<and>
    kept 4096 ([demo_ptr \<mapsto> demo_size](demo_ptr := None)) demo_pool (mem demo_used) (mem s')"
  by (rule tlsf_free_correct [OF demo_used_ok(2)]) simp





text \<open>\<open>tlsf_add_pool\<close> on aligned memory that overlaps neither the existing pools nor the control
  structure makes it a pool of the heap, keeps the allocations and writes only the new pool, the old
  pools' free blocks and the control structure.\<close>

lemma tlsf_add_pool_correct:
  assumes "heap_ok c s A R" and "8 < p" and "p mod 8 = 0" and "16 \<le> n" and "n < 2 ^ 64"
    and "k = pool_size n" and "24 \<le> k" and "k < 2 ^ 32" and "p + 16 + k < 2 ^ 64"
    and "{p..<p + 16 + k} \<inter> R = {}" and "c + 6536 \<le> p \<or> p + 16 + k \<le> c"
  shows "\<exists>s'. tlsf_add_pool s (W p) (W n) = Inr (W p, s') \<and> heap_ok c s' A (R \<union> {p..<p + 16 + k}) \<and>
    kept c A (R \<union> {p..<p + 16 + k}) (mem s) (mem s')"
  by (rule add_pool_spec [OF assms])

subsection \<open>Runs of a client\<close>

text \<open>
  The states that a heap can reach: it is created, given pools, used through the interface with
  any request sizes, and its clients write to their own blocks while the rest of the kernel writes
  to memory outside the allocator. Blocks are released and reallocated only while they are allocated.
\<close>

inductive heap_run :: "nat \<Rightarrow> tlsf \<Rightarrow> (nat \<Rightarrow> nat option) \<Rightarrow> nat set \<Rightarrow> bool" for c :: nat where
  run_create: "0 < c \<Longrightarrow> c mod 8 = 0 \<Longrightarrow> c + 6536 < 2 ^ 64 \<Longrightarrow> tlsf_create m (W c) = Some s \<Longrightarrow>
    heap_run c s Map.empty {}"
| run_add_pool: "heap_run c s A R \<Longrightarrow> 8 < p \<Longrightarrow> p mod 8 = 0 \<Longrightarrow> 16 \<le> n \<Longrightarrow> n < 2 ^ 64 \<Longrightarrow>
    24 \<le> pool_size n \<Longrightarrow> pool_size n < 2 ^ 32 \<Longrightarrow> p + 16 + pool_size n < 2 ^ 64 \<Longrightarrow>
    {p..<p + 16 + pool_size n} \<inter> R = {} \<Longrightarrow> c + 6536 \<le> p \<or> p + 16 + pool_size n \<le> c \<Longrightarrow>
    tlsf_add_pool s (W p) (W n) = Inr (q, s') \<Longrightarrow> heap_run c s' A (R \<union> {p..<p + 16 + pool_size n})"
| run_malloc: "heap_run c s A R \<Longrightarrow> tlsf_malloc s sz = Inr (p, s') \<Longrightarrow>
    heap_run c s' (if p = 0 then A else A(unat p \<mapsto> unat (tlsf_block_size (mem s') p))) R"
| run_free: "heap_run c s A R \<Longrightarrow> A p = Some n \<Longrightarrow> tlsf_free s (W p) = Inr s' \<Longrightarrow> heap_run c s' (A(p := None)) R"
| run_realloc: "heap_run c s A R \<Longrightarrow> A p = Some n \<Longrightarrow> 0 < unat sz \<Longrightarrow> unat sz < 2 ^ 32 - 8 \<Longrightarrow>
    tlsf_realloc s (W p) sz = Inr (q, s') \<Longrightarrow>
    heap_run c s' (if q = 0 then A else (A(p := None))(unat q \<mapsto> unat (tlsf_block_size (mem s') q))) R"
| run_write: "heap_run c s A R \<Longrightarrow> A p = Some n \<Longrightarrow> i < n \<Longrightarrow>
    heap_run c (s\<lparr>mem := (mem s)(W (p + i) := v)\<rparr>) A R"
| run_other: "heap_run c s A R \<Longrightarrow> (\<And>z. z \<in> R \<Longrightarrow> m' (W z) = mem s (W z)) \<Longrightarrow>
    heap_run c (s\<lparr>mem := m'\<rparr>) A R"

lemma size_of_new:
  assumes "heap_ok c s (A(q \<mapsto> n)) R"
  shows "unat (W q) = q" and "W q \<noteq> 0" and "unat (tlsf_block_size (mem s) (W q)) = n"
proof -
  have q: "(A(q \<mapsto> n)) q = Some n" by simp
  note h = heap_block [OF assms q]
  show u: "unat (W q) = q" using h by (intro unat_W) simp
  show "W q \<noteq> 0" using h by (simp add: W_eq_0_iff)
  have "unat (W n) = n" using h by (intro unat_W) simp
  then show "unat (tlsf_block_size (mem s) (W q)) = n" using block_size_spec [OF assms q] by simp
qed

lemma heap_run_ok: "heap_run c s A R \<Longrightarrow> heap_ok c s A R"
proof (induction rule: heap_run.induct)
  case (run_create m s)
  then show ?case using create_spec [of c m] by auto
next
  case (run_add_pool s A R p n q s')
  then show ?case using add_pool_spec [OF run_add_pool.IH _ _ _ _ refl, of p n] by auto
next
  case (run_malloc s A R sz p s')
  from malloc_spec [OF run_malloc.IH, of sz] show ?case
  proof (elim disjE exE conjE)
    fix q n t assume q: "tlsf_malloc s sz = Inr (W q, t)" "heap_ok c t (A(q \<mapsto> n)) R"
    then have e: "p = W q" "s' = t" using run_malloc.hyps by simp_all
    show ?case unfolding e if_not_P [OF size_of_new(2) [OF q(2)]] size_of_new(1,3) [OF q(2)] by (rule q(2))
  qed (use run_malloc in auto)
next
  case (run_free s A R p n s')
  obtain t where "tlsf_free s (W p) = Inr t" "heap_ok c t (A(p := None)) R"
    using free_spec [OF run_free.IH run_free.hyps(2)] by blast
  then show ?case using run_free.hyps(3) by (simp only: sum.inject)
next
  case (run_realloc s A R p n sz q s')
  have "sz \<noteq> 0" "unat sz + 7 < 2 ^ 64" "adj_size (unat sz) \<noteq> 0"
    using run_realloc.hyps adj_size_mid [OF run_realloc.hyps(3,4)] by auto
  from realloc_spec [OF run_realloc.IH run_realloc.hyps(2) this] consider
    (new) r k t where "tlsf_realloc s (W p) sz = Inr (W r, t)" "heap_ok c t ((A(p := None))(r \<mapsto> k)) R"
    | (none) "tlsf_realloc s (W p) sz = Inr (0, s)" by blast
  then show ?case
  proof cases
    case new
    then have e: "q = W r" "s' = t" using run_realloc.hyps by simp_all
    show ?thesis unfolding e if_not_P [OF size_of_new(2) [OF new(2)]] size_of_new(1,3) [OF new(2)] by (rule new(2))
  qed (use run_realloc in auto)
next
  case (run_write s A R p n i v)
  then show ?case using write_spec by blast
next
  case (run_other s A R m')
  then show ?case using outside_write_spec by blast
qed



subsection \<open>Where the code falls short\<close>

text \<open>a request within 7 bytes of the largest \<open>size_t\<close> wraps to zero when it is rounded up, so
  \<open>tlsf_malloc\<close> serves it with a block of less than 56 bytes instead of returning the null
  pointer.\<close>

lemma tlsf_malloc_overflow:
  assumes "heap_view c s B" and "B a = Some b" and "bfree b" and "2 ^ 64 - 7 \<le> unat sz"
  shows "\<exists>q n s'. tlsf_malloc s sz = Inr (W q, s') \<and> W q \<noteq> 0 \<and> n < 56 \<and>
    heap_ok c s' ((allocs B)(q \<mapsto> n)) (region B)"
proof -
  have "unat sz < 2 ^ 64" by (rule unat_less_64)
  then have "(unat sz + 7) mod 2 ^ 64 = unat sz + 7 - 2 ^ 64" using assms(4) by (simp add: mod_if)
  moreover have "unat sz + 7 - 2 ^ 64 < 8" using \<open>unat sz < 2 ^ 64\<close> by simp
  ultimately have "(unat sz + 7) mod 2 ^ 64 div 8 = 0" by simp
  then have a: "adj_size (unat sz) = 24" using assms(4) by (simp add: adj_size_def)
  have "view_ok B" using assms(1) hok_view unfolding heap_view_def by blast
  then have "24 \<le> bsz b" using blk_free_size [OF view_blk assms(3)] assms(2) by blast
  then have "search_size (adj_size (unat sz)) \<le> bsz b" by (simp add: a search_size_def)
  from malloc_success [OF assms(1-3) refl _ this] a show ?thesis by auto
qed

text \<open>for a size of \<open>2 ^ 32\<close> bytes or more the rounded request is 0, and \<open>tlsf_realloc\<close> of a
  block of the minimal size then reports success without changing anything: the caller holds 24
  bytes instead of the size it asked for. The comment above the function says that an allocation
  that cannot be resized leaves the buffer unchanged and gives a null pointer.\<close>

lemma tlsf_realloc_huge:
  assumes "heap_ok c s A R" and "A p = Some 24" and "2 ^ 32 \<le> unat sz" and "unat sz + 7 < 2 ^ 64"
  shows "tlsf_realloc s (W p) sz = Inr (W p, s)"
proof -
  obtain B where B: "hok c s B {}" "A = allocs B" "view_ok B" using assms(1) by (rule heap_okE)
  obtain a b where a: "p = a + 16" "B a = Some b" "\<not> bfree b" "bsz b = 24" using assms(2) unfolding B(2) allocs_Some by blast
  obtain L where h: "hinv c s B L {}" using B(1) by (rule hok_hinv)
  have "2 ^ 32 \<le> 8 * ((unat sz + 7) div 8)" using assms(3) by auto
  then have "adj_size (unat sz) = 0" using assms(4) by (simp add: adj_size_def)
  then have adj: "adjust_request_size sz (of_int ALIGN_SIZE) = Inr (W 0)"
    by (simp add: tlsf_consts adjust_request_size_eq)
  have nx: "block_next (mem s) (W a) = Inr (W (a + 8 + 24))"
    using next_cell(1) [OF mem_ok_hdr [OF hinvD(3) [OF h] a(2)]] a(4) by simp
  have ns: "\<not> block_can_split (mem s) (W a) (W 0)" using can_split_iff [OF h a(2), of 0] a(4) by simp
  have "W p \<noteq> 0" "sz \<noteq> 0" using heap_block [OF assms(1,2)] assms(3) by (auto simp: W_eq_0_iff)
  from tlsf_realloc_alt [OF this] show ?thesis
    using adj nx ns a block_size_hinv [OF h a(2)]
    by (simp add: ptr_cell Let_def realloc_place_def block_trim_used_def)
qed

end
