(* ===== verification/Tlsf_Check.thy ===== *)
theory Tlsf_Check
  imports Tlsf_Spec
begin

text \<open>
  The consistency checks of the allocator, \<^verbatim>\<open>sys/mm/tlsf.c\<close> lines 814 to 938: \<open>tlsf_check\<close>
  walks every free list, \<open>tlsf_check_pool\<close> every block of a pool. The macro \<open>tlsf_insist\<close> asserts
  its condition before it would count a failure, so a check that does not hold is
  \<open>Inl Assert_Failed\<close>. A list or a pool that never ends gives \<open>None\<close>. The walker that prints a pool
  is not modelled.
\<close>

subsection \<open>Checking the free lists\<close>

definition tlsf_insist :: "bool \<Rightarrow> int \<Rightarrow> int res" where
  "tlsf_insist x status = bindE (assertE x) (\<lambda>_. Inr (if \<not> x then status - 1 else status))"

text \<open>The checks of one block of the list at slot \<open>i\<close>, \<open>j\<close>.\<close>

definition check_block :: "memory \<Rightarrow> addr \<Rightarrow> int \<Rightarrow> int \<Rightarrow> int \<Rightarrow> int res" where
  "check_block m block i j status =
     bindE (tlsf_insist (block_is_free m block) status) (\<lambda>status.
     bindE (tlsf_insist (\<not> block_is_prev_free m block) status) (\<lambda>status.
     bindE (block_next m block) (\<lambda>nxt.
     bindE (tlsf_insist (\<not> block_is_free m nxt) status) (\<lambda>status.
     bindE (block_next m block) (\<lambda>nxt.
     bindE (tlsf_insist (block_is_prev_free m nxt) status) (\<lambda>status.
     bindE (tlsf_insist (block_size m block \<ge> block_size_min) status) (\<lambda>status.
     let (fli, sli) = mapping_insert (block_size m block)
     in tlsf_insist (fli = i \<and> sli = j) status)))))))"

partial_function (option) check_list :: "tlsf \<Rightarrow> int \<Rightarrow> int \<Rightarrow> addr \<Rightarrow> int \<Rightarrow> int res option" where
  "check_list s i j block status =
     (if block \<noteq> control s
      then (case check_block (mem s) block i j status of
              Inl e \<Rightarrow> Some (Inl e)
            | Inr status \<Rightarrow> check_list s i j (next_free (mem s) block) status)
      else Some (Inr status))"

definition check_slot :: "tlsf \<Rightarrow> int \<Rightarrow> int \<Rightarrow> int \<Rightarrow> int res option" where
  "check_slot s i j status =
     (let fl_map = fl_bitmap s AND push_bit (nat i) 1
      in case array_get (sl_bitmap s) i of Inl e \<Rightarrow> Some (Inl e) | Inr sl_list \<Rightarrow>
         (let sl_map = sl_list AND push_bit (nat j) 1
          in case get_block s i j of Inl e \<Rightarrow> Some (Inl e) | Inr block \<Rightarrow>
             case (if fl_map = 0 then tlsf_insist (sl_map = 0) status else Inr status) of Inl e \<Rightarrow> Some (Inl e) | Inr status \<Rightarrow>
             if sl_map = 0 then Some (tlsf_insist (block = control s) status)
             else case bindE (tlsf_insist (sl_list \<noteq> 0) status) (tlsf_insist (block \<noteq> control s)) of
                    Inl e \<Rightarrow> Some (Inl e)
                  | Inr status \<Rightarrow> check_list s i j block status))"

fun check_slots :: "tlsf \<Rightarrow> (int \<times> int) list \<Rightarrow> int \<Rightarrow> int res option" where
  "check_slots s [] status = Some (Inr status)"
| "check_slots s ((i, j) # slots) status =
     (case check_slot s i j status of
        None \<Rightarrow> None
      | Some (Inl e) \<Rightarrow> Some (Inl e)
      | Some (Inr status) \<Rightarrow> check_slots s slots status)"

definition tlsf_check :: "tlsf \<Rightarrow> int res option" where
  "tlsf_check s =
     check_slots s (concat (map (\<lambda>i. map (\<lambda>j. (i, j)) [0..SL_INDEX_COUNT - 1]) [0..FL_INDEX_COUNT - 1])) 0"

subsection \<open>Walking a pool\<close>

record integrity =
  prev_status :: int
  status :: int

definition integrity_walker :: "memory \<Rightarrow> addr \<Rightarrow> size_t \<Rightarrow> bool \<Rightarrow> integrity \<Rightarrow> integrity res" where
  "integrity_walker m ptr sz used integ =
     (let block = block_from_ptr ptr;
          this_prev_status = (if block_is_prev_free m block then 1 else 0);
          this_status = (if block_is_free m block then 1 else 0);
          this_block_size = block_size m block
      in bindE (tlsf_insist (prev_status integ = this_prev_status) 0) (\<lambda>st.
         bindE (tlsf_insist (sz = this_block_size) st) (\<lambda>st.
         Inr (integ\<lparr>prev_status := this_status, status := status integ + st\<rparr>))))"

partial_function (option) walk_pool ::
  "(memory \<Rightarrow> addr \<Rightarrow> size_t \<Rightarrow> bool \<Rightarrow> 'u \<Rightarrow> 'u res) \<Rightarrow> memory \<Rightarrow> addr \<Rightarrow> 'u \<Rightarrow> 'u res option" where
  "walk_pool walker m block user =
     (if block \<noteq> 0 \<and> \<not> block_is_last m block
      then (case walker m (block_to_ptr block) (block_size m block) (\<not> block_is_free m block) user of
              Inl e \<Rightarrow> Some (Inl e)
            | Inr user \<Rightarrow>
                (case block_next m block of Inl e \<Rightarrow> Some (Inl e) | Inr nxt \<Rightarrow> walk_pool walker m nxt user))
      else Some (Inr user))"

definition tlsf_walk_pool ::
  "(memory \<Rightarrow> addr \<Rightarrow> size_t \<Rightarrow> bool \<Rightarrow> 'u \<Rightarrow> 'u res) \<Rightarrow> memory \<Rightarrow> addr \<Rightarrow> 'u \<Rightarrow> 'u res option" where
  "tlsf_walk_pool walker m pool user = walk_pool walker m (offset_to_block pool (- block_header_overhead)) user"

definition tlsf_check_pool :: "memory \<Rightarrow> addr \<Rightarrow> int res option" where
  "tlsf_check_pool m pool =
     map_option (\<lambda>r. bindE r (\<lambda>integ. Inr (status integ)))
       (tlsf_walk_pool integrity_walker m pool \<lparr>prev_status = 0, status = 0\<rparr>)"

subsection \<open>Both checks succeed on every heap that satisfies the invariant\<close>

lemma insist_True [simp]: "x \<Longrightarrow> tlsf_insist x st = Inr st"
  by (simp add: tlsf_insist_def)

lemma check_block_ok:
  assumes h: "hinv c s B L {}" and co: "coalesced B" and a: "B a = Some b" "bfree b" and k: "map_ins (bsz b) = (i, j)"
  shows "check_block (mem s) (W a) (int i) (int j) st = Inr st"
proof -
  note v = hinvD(1) [OF h] and mo = hinvD(3) [OF h]
  have b24: "24 \<le> bsz b" using blk_free_size [OF view_blk [OF v a(1)] a(2)] .
  then have nz: "bsz b \<noteq> 0" by simp
  let ?n = "a + 8 + bsz b"
  obtain w where w: "B ?n = Some w" "bpf w = bfree b" using view_next [OF v a(1) nz] .
  have "\<not> bpf b"
  proof
    assume "bpf b"
    then obtain p q where "B p = Some q" "bfree q" "p + 8 + bsz q = a" using view_prev [OF v a(1)] by metis
    with coalescedD [OF co] a show False by metis
  qed
  moreover have "\<not> bfree w" using coalescedD [OF co a] w(1) by blast
  moreover have "block_next (mem s) (W a) = Inr (W ?n)"
    using next_cell(1) [OF mem_ok_hdr [OF mo a(1)] _ nz] blk_size [OF view_blk [OF v a(1)]] by simp
  moreover have "24 \<le> W (bsz b)" using b24 view_size [OF v a(1)] by (simp add: W_numeral W_le_iff)
  ultimately show ?thesis
    using block_size_hinv [OF h a(1)] block_size_hinv [OF h w(1)] a(2) w(2) mapping_insert_W [OF h a(1)] k
    by (simp add: check_block_def hdr_consts)
qed

lemma check_list_ok:
  assumes h: "hinv c s B L {}" and co: "coalesced B"
    and "\<And>a. a \<in> set xs \<Longrightarrow> \<exists>b. B a = Some b \<and> bfree b \<and> map_ins (bsz b) = (i, j)"
    and "dseg (mem s) p xs (W c)"
  shows "check_list s (int i) (int j) (lhead (W c) xs) st = Some (Inr st)"
  using assms(3,4)
proof (induction xs arbitrary: p)
  case Nil
  have "control s = W c" using hinvD(2) [OF h] by (simp add: ctl_ok_def)
  then show ?case by (simp add: lhead_def check_list.simps)
next
  case (Cons x xs)
  note ct = hinvD(2) [OF h] and v = hinvD(1) [OF h]
  obtain b where b: "B x = Some b" "bfree b" "map_ins (bsz b) = (i, j)" using Cons.prems(1) by auto
  have "x \<noteq> c" using ctl_notin [OF ct] b(1) by auto
  then have ne: "W x \<noteq> control s" using ct view_addr [OF v b(1)] ctl_bound [OF ct] by (simp add: ctl_ok_def W_eq_iff)
  have nx: "next_free (mem s) (W x) = lhead (W c) xs" using Cons.prems(2) by (simp add: fields_cell)
  have "check_list s (int i) (int j) (W x) st = check_list s (int i) (int j) (lhead (W c) xs) st"
    using ne check_block_ok [OF h co b] nx by (subst check_list.simps) simp
  also have "\<dots> = Some (Inr st)" using Cons.prems by (intro Cons.IH) auto
  finally show ?case by (simp add: lhead_def)
qed

lemma bit_and_push: "((w :: uint32_t) AND push_bit j 1 = 0) \<longleftrightarrow> \<not> (bit w j \<and> j < 32)"
proof -
  have "bit (w AND push_bit j 1) k \<longleftrightarrow> bit w k \<and> k = j \<and> k < 32" for k
    by (auto simp: bit_simps dest: bit_imp_le_length)
  then show ?thesis unfolding word_eq_0_bits by auto
qed

lemma check_slot_ok:
  assumes h: "hinv c s B L {}" and co: "coalesced B" and ij: "i < 25" "j < 32"
  shows "check_slot s (int i) (int j) st = Some (Inr st)"
proof -
  have tb: "tab_ok c s L" and sg: "segs_ok c (mem s) B L {}" and cs: "control s = W c"
    using h by (simp_all add: hinv_iff ctl_ok_def)
  note g = get_set_block [OF tb ij]
  have sl: "bit (sl_bitmap s ! i) j \<longleftrightarrow> L (i, j) \<noteq> []" and fl: "bit (fl_bitmap s) i \<longleftrightarrow> sl_bitmap s ! i \<noteq> 0"
    using tb ij by (auto simp: tab_ok_def)
  have sl0: "(sl_bitmap s ! i AND push_bit j 1 = 0) = (L (i, j) = [])" unfolding bit_and_push using sl ij by simp
  have fl0: "(fl_bitmap s AND push_bit i 1 = 0) = (sl_bitmap s ! i = 0)" unfolding bit_and_push using fl ij by simp
  show ?thesis
  proof (cases "L (i, j) = []")
    case True
    then show ?thesis using g sl0 fl0 cs by (simp add: check_slot_def Let_def lhn_def)
  next
    case False
    then have nz: "sl_bitmap s ! i \<noteq> 0" using sl by auto
    obtain x xs where x: "L (i, j) = x # xs" using False by (cases "L (i, j)") auto
    then obtain b where b: "B x = Some b" using segs_member [OF sg ij, of x] by auto
    have ct: "ctl_ok c s B" using hinvD(2) [OF h] .
    have "x \<noteq> c" using ctl_notin [OF ct] b by auto
    then have "W x \<noteq> W c" using view_addr [OF hinvD(1) [OF h] b] ctl_bound [OF ct] by (simp add: W_eq_iff)
    moreover have "check_list s (int i) (int j) (W x) st = Some (Inr st)"
      using check_list_ok [OF h co _ segs_dseg(1) [OF sg ij], of i j st] segs_member [OF sg ij] x by (auto simp: lhead_def)
    ultimately show ?thesis using g sl0 fl0 nz cs False x by (simp add: check_slot_def Let_def lhn_def)
  qed
qed

lemma tlsf_check_ok:
  assumes "heap_view c s B"
  shows "tlsf_check s = Some (Inr 0)"
proof -
  obtain L where h: "hinv c s B L {}" and co: "coalesced B" using assms by (auto simp: heap_view_def hok_def)
  have "check_slots s xs 0 = Some (Inr 0)" if "\<And>i j. (i, j) \<in> set xs \<Longrightarrow> 0 \<le> i \<and> i < 25 \<and> 0 \<le> j \<and> j < 32" for xs
    using that
  proof (induction xs)
    case (Cons x xs)
    obtain i j where x: "x = (i, j)" by force
    then have "0 \<le> i" "i < 25" "0 \<le> j" "j < 32" using Cons.prems by auto
    then have "check_slot s i j 0 = Some (Inr 0)" using check_slot_ok [OF h co, of "nat i" "nat j" 0] by simp
    moreover have "check_slots s xs 0 = Some (Inr 0)" by (rule Cons.IH) (rule Cons.prems, simp)
    ultimately show ?case using x by simp
  qed simp
  moreover have "0 \<le> i \<and> i < 25 \<and> 0 \<le> j \<and> j < 32"
    if "(i, j) \<in> set (concat (map (\<lambda>i. map (\<lambda>j. (i, j)) [0..SL_INDEX_COUNT - 1]) [0..FL_INDEX_COUNT - 1]))" for i j
    using that by (auto simp: tlsf_consts)
  ultimately show ?thesis unfolding tlsf_check_def by blast
qed

lemma walk_pool_ok:
  assumes h: "hinv c s B L {}" and "B a = Some b"
    and "prev_status g = (if bpf b then 1 else 0)" and "status g = 0"
  shows "\<exists>g'. walk_pool integrity_walker (mem s) (W a) g = Some (Inr g') \<and> status g' = 0"
  using assms(2-)
proof (induction "snd (bpool b) - a" arbitrary: a b g rule: less_induct)
  case less
  note v = hinvD(1) [OF h] and mo = hinvD(3) [OF h]
  note a = less.prems(1)
  have ok: "blk_ok a b" by (rule view_blk [OF v a])
  have a0: "W a \<noteq> 0" using view_addr [OF v a] by (simp add: W_eq_0_iff)
  show ?case
  proof (cases "bsz b = 0")
    case True
    then have "block_is_last (mem s) (W a)" using block_size_hinv(1) [OF h a] by (simp add: block_is_last_def)
    then show ?thesis using less.prems by (subst walk_pool.simps) simp
  next
    case nz: False
    let ?n = "a + 8 + bsz b" and ?g = "g\<lparr>prev_status := if bfree b then 1 else 0, status := 0\<rparr>"
    obtain w where w: "B ?n = Some w" "bpf w = bfree b" "bpool w = bpool b" using view_next [OF v a nz] .
    have lt: "snd (bpool w) - ?n < snd (bpool b) - a" using ok w(3) by (auto simp: blk_ok_def)
    obtain g' where g': "walk_pool integrity_walker (mem s) (W ?n) ?g = Some (Inr g')" "status g' = 0"
      using less.hyps [OF lt w(1), of ?g] w(2) by auto
    have nx: "block_next (mem s) (W a) = Inr (W ?n)" "\<not> block_is_last (mem s) (W a)"
      using next_cell [OF mem_ok_hdr [OF mo a] _ nz] blk_size [OF ok] by simp_all
    have "integrity_walker (mem s) (block_to_ptr (W a)) (block_size (mem s) (W a)) used g = Inr ?g" for used
      using block_size_hinv [OF h a] less.prems(2,3) by (simp add: integrity_walker_def ptr_cell)
    then have "walk_pool integrity_walker (mem s) (W a) g = Some (Inr g')"
      using nx a0 g'(1) by (subst walk_pool.simps) simp
    then show ?thesis using g'(2) by blast
  qed
qed

text \<open>C7: the allocator's own consistency check \<open>tlsf_check\<close> terminates, passes every assertion
  and returns 0 on every heap that satisfies the invariant: the invariant of this development is at
  least as strong as the one the authors check at run time.\<close>

theorem tlsf_check_correct:
  assumes "heap_view c s B"
  shows "tlsf_check s = Some (Inr 0)"
  by (rule tlsf_check_ok [OF assms])

theorem tlsf_check_correct_witness: "tlsf_check demo_heap = Some (Inr 0)"
  by (rule tlsf_check_correct [OF demo_heap_view])

text \<open>\<open>tlsf_check_pool\<close> reaches the end of every pool and finds every block's flags and sizes
  in agreement with its neighbours.\<close>

lemma tlsf_check_pool_correct:
  assumes "heap_view c s B" and "B a = Some b" and "\<not> bpf b"
  shows "tlsf_check_pool (mem s) (W (a + 8)) = Some (Inr 0)"
proof -
  obtain L where h: "hinv c s B L {}" using assms(1) by (auto simp: heap_view_def hok_def)
  have e: "offset_to_block (W (a + 8)) (- 8) = W a" by (simp add: offset_to_block_def W_def)
  from walk_pool_ok [OF h assms(2), of "\<lparr>prev_status = 0, status = 0\<rparr>"] assms(3) show ?thesis
    by (auto simp: tlsf_check_pool_def tlsf_walk_pool_def hdr_consts e)
qed

end
