(* ===== verification/Crc.thy ===== *)
theory Crc
  imports Libkern
begin

text \<open>
  The checksum of \<^verbatim>\<open>sys/include/lib/hashmap.h\<close>: \<open>hashmap_crc32_helper\<close> with its table of 256 words.
  The reference definition divides by the polynomial bit by bit; the lemmas show that the table
  holds the remainders of the 256 bytes and that both compute the same checksum.
\<close>

definition crc32_tab :: "uint32_t list" where
  "crc32_tab = [
    0x00000000, 0xF26B8303, 0xE13B70F7, 0x1350F3F4, 0xC79A971F, 0x35F1141C, 0x26A1E7E8, 0xD4CA64EB,
    0x8AD958CF, 0x78B2DBCC, 0x6BE22838, 0x9989AB3B, 0x4D43CFD0, 0xBF284CD3, 0xAC78BF27, 0x5E133C24,
    0x105EC76F, 0xE235446C, 0xF165B798, 0x030E349B, 0xD7C45070, 0x25AFD373, 0x36FF2087, 0xC494A384,
    0x9A879FA0, 0x68EC1CA3, 0x7BBCEF57, 0x89D76C54, 0x5D1D08BF, 0xAF768BBC, 0xBC267848, 0x4E4DFB4B,
    0x20BD8EDE, 0xD2D60DDD, 0xC186FE29, 0x33ED7D2A, 0xE72719C1, 0x154C9AC2, 0x061C6936, 0xF477EA35,
    0xAA64D611, 0x580F5512, 0x4B5FA6E6, 0xB93425E5, 0x6DFE410E, 0x9F95C20D, 0x8CC531F9, 0x7EAEB2FA,
    0x30E349B1, 0xC288CAB2, 0xD1D83946, 0x23B3BA45, 0xF779DEAE, 0x05125DAD, 0x1642AE59, 0xE4292D5A,
    0xBA3A117E, 0x4851927D, 0x5B016189, 0xA96AE28A, 0x7DA08661, 0x8FCB0562, 0x9C9BF696, 0x6EF07595,
    0x417B1DBC, 0xB3109EBF, 0xA0406D4B, 0x522BEE48, 0x86E18AA3, 0x748A09A0, 0x67DAFA54, 0x95B17957,
    0xCBA24573, 0x39C9C670, 0x2A993584, 0xD8F2B687, 0x0C38D26C, 0xFE53516F, 0xED03A29B, 0x1F682198,
    0x5125DAD3, 0xA34E59D0, 0xB01EAA24, 0x42752927, 0x96BF4DCC, 0x64D4CECF, 0x77843D3B, 0x85EFBE38,
    0xDBFC821C, 0x2997011F, 0x3AC7F2EB, 0xC8AC71E8, 0x1C661503, 0xEE0D9600, 0xFD5D65F4, 0x0F36E6F7,
    0x61C69362, 0x93AD1061, 0x80FDE395, 0x72966096, 0xA65C047D, 0x5437877E, 0x4767748A, 0xB50CF789,
    0xEB1FCBAD, 0x197448AE, 0x0A24BB5A, 0xF84F3859, 0x2C855CB2, 0xDEEEDFB1, 0xCDBE2C45, 0x3FD5AF46,
    0x7198540D, 0x83F3D70E, 0x90A324FA, 0x62C8A7F9, 0xB602C312, 0x44694011, 0x5739B3E5, 0xA55230E6,
    0xFB410CC2, 0x092A8FC1, 0x1A7A7C35, 0xE811FF36, 0x3CDB9BDD, 0xCEB018DE, 0xDDE0EB2A, 0x2F8B6829,
    0x82F63B78, 0x709DB87B, 0x63CD4B8F, 0x91A6C88C, 0x456CAC67, 0xB7072F64, 0xA457DC90, 0x563C5F93,
    0x082F63B7, 0xFA44E0B4, 0xE9141340, 0x1B7F9043, 0xCFB5F4A8, 0x3DDE77AB, 0x2E8E845F, 0xDCE5075C,
    0x92A8FC17, 0x60C37F14, 0x73938CE0, 0x81F80FE3, 0x55326B08, 0xA759E80B, 0xB4091BFF, 0x466298FC,
    0x1871A4D8, 0xEA1A27DB, 0xF94AD42F, 0x0B21572C, 0xDFEB33C7, 0x2D80B0C4, 0x3ED04330, 0xCCBBC033,
    0xA24BB5A6, 0x502036A5, 0x4370C551, 0xB11B4652, 0x65D122B9, 0x97BAA1BA, 0x84EA524E, 0x7681D14D,
    0x2892ED69, 0xDAF96E6A, 0xC9A99D9E, 0x3BC21E9D, 0xEF087A76, 0x1D63F975, 0x0E330A81, 0xFC588982,
    0xB21572C9, 0x407EF1CA, 0x532E023E, 0xA145813D, 0x758FE5D6, 0x87E466D5, 0x94B49521, 0x66DF1622,
    0x38CC2A06, 0xCAA7A905, 0xD9F75AF1, 0x2B9CD9F2, 0xFF56BD19, 0x0D3D3E1A, 0x1E6DCDEE, 0xEC064EED,
    0xC38D26C4, 0x31E6A5C7, 0x22B65633, 0xD0DDD530, 0x0417B1DB, 0xF67C32D8, 0xE52CC12C, 0x1747422F,
    0x49547E0B, 0xBB3FFD08, 0xA86F0EFC, 0x5A048DFF, 0x8ECEE914, 0x7CA56A17, 0x6FF599E3, 0x9D9E1AE0,
    0xD3D3E1AB, 0x21B862A8, 0x32E8915C, 0xC083125F, 0x144976B4, 0xE622F5B7, 0xF5720643, 0x07198540,
    0x590AB964, 0xAB613A67, 0xB831C993, 0x4A5A4A90, 0x9E902E7B, 0x6CFBAD78, 0x7FAB5E8C, 0x8DC0DD8F,
    0xE330A81A, 0x115B2B19, 0x020BD8ED, 0xF0605BEE, 0x24AA3F05, 0xD6C1BC06, 0xC5914FF2, 0x37FACCF1,
    0x69E9F0D5, 0x9B8273D6, 0x88D28022, 0x7AB90321, 0xAE7367CA, 0x5C18E4C9, 0x4F48173D, 0xBD23943E,
    0xF36E6F75, 0x0105EC76, 0x12551F82, 0xE03E9C81, 0x34F4F86A, 0xC69F7B69, 0xD5CF889D, 0x27A40B9E,
    0x79B737BA, 0x8BDCB4B9, 0x988C474D, 0x6AE7C44E, 0xBE2DA0A5, 0x4C4623A6, 0x5F16D052, 0xAD7D5351]"

definition crc_step :: "uint32_t \<Rightarrow> uint8_t \<Rightarrow> uint32_t" where
  "crc_step crc32val c = crc32_tab ! unat ((ucast crc32val :: uint8_t) XOR c) XOR drop_bit 8 crc32val"

definition hashmap_crc32_helper :: "memory \<Rightarrow> addr \<Rightarrow> uint32_t \<Rightarrow> uint32_t" where
  "hashmap_crc32_helper m s len = fold (\<lambda>i crc32val. crc_step crc32val (m (s + of_nat i))) [0..<unat len] 0"

subsection \<open>The checksum bit by bit\<close>

definition crc_shift :: "uint32_t \<Rightarrow> uint32_t" where
  "crc_shift c = (if bit c 0 then drop_bit 1 c XOR 0x82F63B78 else drop_bit 1 c)"

definition crc_byte :: "uint32_t \<Rightarrow> uint8_t \<Rightarrow> uint32_t" where
  "crc_byte crc c = (crc_shift ^^ 8) (crc XOR ucast c)"

definition crc32c :: "uint8_t list \<Rightarrow> uint32_t" where
  "crc32c bs = foldl crc_byte 0 bs"

lemma crc_shift_xor: "crc_shift (a XOR b) = crc_shift a XOR crc_shift b"
  by (rule bit_word_eqI) (auto simp: crc_shift_def bit_xor_iff drop_bit_xor)

lemma crc_shifts_xor: "(crc_shift ^^ n) (a XOR b) = (crc_shift ^^ n) a XOR (crc_shift ^^ n) b"
  by (induction n) (simp_all add: crc_shift_xor)

definition ishift :: "int \<Rightarrow> int" where
  "ishift c = (if odd c then (c div 2) XOR 0x82F63B78 else c div 2)"

lemma uint_crc_shift: "uint (crc_shift c) = ishift (uint c)"
proof -
  have "uint (drop_bit 1 c) = uint c div 2" by (simp add: drop_bit_eq_div uint_div)
  moreover have "bit c 0 \<longleftrightarrow> odd (uint c)" using bit_uint_iff [of c 0] by (simp add: bit_0)
  ultimately show ?thesis by (simp add: crc_shift_def ishift_def unsigned_xor_eq)
qed

lemma funpow_8: "(f ^^ 8) x = f (f (f (f (f (f (f (f x)))))))"
  by (simp add: numeral_eq_Suc)

lemma crc_shift_8: "(crc_shift ^^ 8) c = w \<longleftrightarrow> ishift (ishift (ishift (ishift (ishift (ishift (ishift (ishift (uint c)))))))) = uint w"
  by (simp add: word_uint_eq_iff uint_crc_shift funpow_8)

text \<open>The entry of a power of two, and the entries above it from the ones below.\<close>

lemma crc_table_powers:
  "(crc_shift ^^ 8) 0 = 0" "(crc_shift ^^ 8) 1 = 0xF26B8303" "(crc_shift ^^ 8) 2 = 0xE13B70F7"
  "(crc_shift ^^ 8) 4 = 0xC79A971F" "(crc_shift ^^ 8) 8 = 0x8AD958CF" "(crc_shift ^^ 8) 16 = 0x105EC76F"
  "(crc_shift ^^ 8) 32 = 0x20BD8EDE" "(crc_shift ^^ 8) 64 = 0x417B1DBC" "(crc_shift ^^ 8) 128 = 0x82F63B78"
  by (simp_all add: crc_shift_8 ishift_def)

definition crc_tab_ok :: "nat \<Rightarrow> bool" where
  "crc_tab_ok n \<longleftrightarrow> (\<forall>i < n. crc32_tab ! i = (crc_shift ^^ 8) (of_nat i))"

lemma crc_tab_double:
  assumes "crc_tab_ok (2 ^ k)" and "k < 8" and "(crc_shift ^^ 8) (2 ^ k) = w"
    and "take (2 ^ k) (drop (2 ^ k) crc32_tab) = map (\<lambda>x. x XOR w) (take (2 ^ k) crc32_tab)"
  shows "crc_tab_ok (2 ^ Suc k)"
  unfolding crc_tab_ok_def
proof (intro allI impI)
  fix i :: nat assume i: "i < 2 ^ Suc k"
  have len: "length crc32_tab = 256" by (simp add: crc32_tab_def)
  have le: "(2 :: nat) ^ Suc k \<le> 2 ^ 8" using assms(2) by (intro power_increasing) simp_all
  show "crc32_tab ! i = (crc_shift ^^ 8) (of_nat i)"
  proof (cases "i < 2 ^ k")
    case True
    then show ?thesis using assms(1) by (simp add: crc_tab_ok_def)
  next
    case False
    then obtain j where j: "i = 2 ^ k + j" "j < 2 ^ k" using i by (metis le_Suc_ex linorder_not_le nat_add_left_cancel_less power_Suc mult_2)
    have "crc32_tab ! i = take (2 ^ k) (drop (2 ^ k) crc32_tab) ! j" using j len le by simp
    also have "\<dots> = crc32_tab ! j XOR w" using j len le unfolding assms(4) by simp
    also have "\<dots> = (crc_shift ^^ 8) (of_nat j XOR 2 ^ k)"
      using assms(1,3) j(2) by (simp add: crc_tab_ok_def crc_shifts_xor)
    also have "of_nat j XOR 2 ^ k = (of_nat i :: uint32_t)"
    proof -
      have "take_bit k j = j" using j(2) by (simp add: take_bit_nat_eq_self)
      then have "\<not> bit j k" by (metis bit_take_bit_iff less_irrefl)
      then have "(of_nat j :: uint32_t) AND 2 ^ k = 0"
        by (intro bit_word_eqI) (auto simp: bit_and_iff bit_exp_iff bit_of_nat_iff)
      then have "(of_nat j :: uint32_t) + 2 ^ k = of_nat j XOR 2 ^ k" by (rule disjunctive_add_eq_xor)
      then show ?thesis by (simp add: j(1) add.commute)
    qed
    finally show ?thesis .
  qed
qed

lemma crc_table: "crc_tab_ok 256"
proof -
  have 0: "crc_tab_ok (2 ^ 0)" using crc_table_powers(1) by (simp add: crc_tab_ok_def crc32_tab_def)
  have 1: "crc_tab_ok (2 ^ Suc 0)" by (rule crc_tab_double [OF 0 _ refl]) (simp_all add: crc_table_powers crc32_tab_def)
  have 2: "crc_tab_ok (2 ^ Suc (Suc 0))" by (rule crc_tab_double [OF 1 _ refl]) (simp_all add: crc_table_powers crc32_tab_def)
  have 3: "crc_tab_ok (2 ^ 3)" using crc_tab_double [OF 2 _ refl] by (simp add: crc_table_powers crc32_tab_def)
  have 4: "crc_tab_ok (2 ^ 4)" using crc_tab_double [OF 3 _ refl] by (simp add: crc_table_powers crc32_tab_def)
  have 5: "crc_tab_ok (2 ^ 5)" using crc_tab_double [OF 4 _ refl] by (simp add: crc_table_powers crc32_tab_def)
  have 6: "crc_tab_ok (2 ^ 6)" using crc_tab_double [OF 5 _ refl] by (simp add: crc_table_powers crc32_tab_def)
  have 7: "crc_tab_ok (2 ^ 7)" using crc_tab_double [OF 6 _ refl] by (simp add: crc_table_powers crc32_tab_def)
  show ?thesis using crc_tab_double [OF 7 _ refl] by (simp add: crc_table_powers crc32_tab_def)
qed

lemma crc_shift_zeros: "(\<And>i. i < n \<Longrightarrow> \<not> bit h i) \<Longrightarrow> (crc_shift ^^ n) h = drop_bit n h"
proof (induction n arbitrary: h)
  case (Suc n)
  have "\<not> bit (drop_bit 1 h) i" if "i < n" for i using Suc.prems [of "Suc i"] that by (simp add: bit_drop_bit_eq)
  then have "(crc_shift ^^ n) (drop_bit 1 h) = drop_bit n (drop_bit 1 h)" by (rule Suc.IH)
  moreover have "crc_shift h = drop_bit 1 h" using Suc.prems [of 0] by (simp add: crc_shift_def)
  ultimately show ?case by (simp add: funpow_swap1 drop_bit_drop_bit del: drop_bit_Suc)
qed simp

lemma crc32_eq:
  "hashmap_crc32_helper m s len = crc32c (bytes_at m s (unat len))"
proof -
  have step: "crc_step c b = crc_byte c b" for c b
  proof -
    let ?l = "take_bit 8 c" and ?h = "push_bit 8 (drop_bit 8 c)" and ?i = "(ucast c :: uint8_t) XOR b"
    have "crc_byte c b = (crc_shift ^^ 8) (ucast ?i XOR ?h)"
      unfolding crc_byte_def by (rule arg_cong [of _ _ "crc_shift ^^ 8"], rule bit_word_eqI) (auto simp: bit_simps)
    also have "\<dots> = (crc_shift ^^ 8) (ucast ?i) XOR drop_bit 8 ?h"
      unfolding crc_shifts_xor by (subst crc_shift_zeros [of 8 ?h]) (simp_all add: bit_push_bit_iff)
    also have "drop_bit 8 ?h = drop_bit 8 c"
      by (rule bit_word_eqI) (auto simp: bit_simps dest: bit_imp_le_length)
    also have "(crc_shift ^^ 8) (ucast ?i) = crc32_tab ! unat ?i"
      using crc_table unsigned_less [of ?i, where ?'a = nat] by (simp add: crc_tab_ok_def)
    finally show ?thesis by (simp add: crc_step_def)
  qed
  have "fold (\<lambda>i c. crc_byte c (m (s + of_nat i))) xs c = foldl crc_byte c (map (\<lambda>i. m (s + of_nat i)) xs)" for xs c
    by (induction xs arbitrary: c) simp_all
  then show ?thesis by (simp add: hashmap_crc32_helper_def step crc32c_def bytes_at_def)
qed

text \<open>C25: the table-driven checksum of a key is the CRC-32C (Castagnoli polynomial, zero start value)
  of its bytes computed bit by bit; in particular all 256 words of the table are right.\<close>

theorem crc32_table_correct:
  "hashmap_crc32_helper m s len = crc32c (bytes_at m s (unat len))"
  by (rule crc32_eq)

end
