(* ===== verification/Bitmap.thy ===== *)
theory Bitmap
  imports Libkern
begin

text \<open>
  The bit arrays of \<^verbatim>\<open>sys/libkern/bitmap.c\<close> and the macros of
  \<^verbatim>\<open>sys/include/lib/math.h\<close> that the memory managers use.

  A bitmap is a byte pointer into memory. \<open>bitmap_test_bit\<close> shifts an \<open>int\<close> right by the index of
  the bit; C leaves the result undefined for an index of 32 or more, so what the compiled code
  then computes is a parameter \<open>ub\<close> of the model. \<open>shr32\<close> is what the x86 instruction does, which
  masks the shift count to 5 bits.
\<close>

subsection \<open>Macros\<close>

definition ALIGN_DOWN :: "uint64_t \<Rightarrow> uint64_t \<Rightarrow> uint64_t" where
  "ALIGN_DOWN address align = address AND NOT (align - 1)"

definition ALIGN_UP :: "uint64_t \<Rightarrow> uint64_t \<Rightarrow> uint64_t" where
  "ALIGN_UP address align = (address + align - 1) AND NOT (align - 1)"

definition DIV_ROUNDUP :: "uint64_t \<Rightarrow> uint64_t \<Rightarrow> uint64_t" where
  "DIV_ROUNDUP v d = (v + (d - 1)) div d"

subsection \<open>Bit operations\<close>

definition bitmap_set_bit :: "memory \<Rightarrow> addr \<Rightarrow> size_t \<Rightarrow> memory" where
  "bitmap_set_bit m bitmap idx =
     (let a = bitmap + idx div 8 in m(a := m a OR push_bit (unat (idx mod 8)) 1))"

definition bitmap_unset_bit :: "memory \<Rightarrow> addr \<Rightarrow> size_t \<Rightarrow> memory" where
  "bitmap_unset_bit m bitmap idx =
     (let a = bitmap + idx div 8 in m(a := m a AND NOT (push_bit (unat (idx mod 8)) 1)))"

type_synonym shift_ub = "uint32_t \<Rightarrow> size_t \<Rightarrow> uint8_t"

definition bitmap_test_bit :: "shift_ub \<Rightarrow> memory \<Rightarrow> addr \<Rightarrow> size_t \<Rightarrow> uint8_t" where
  "bitmap_test_bit ub m bitmap idx =
     (let v = (ucast (m (bitmap + idx div 8)) :: uint32_t) AND push_bit (unat (idx mod 8)) 1
      in if idx < 32 then ucast (drop_bit (unat idx) v) else ub v idx)"

definition shr32 :: shift_ub where
  "shr32 v n = ucast (drop_bit (unat n mod 32) v)"

text \<open>The bit that a reader of the bitmap means.\<close>

definition bm :: "memory \<Rightarrow> addr \<Rightarrow> nat \<Rightarrow> bool" where
  "bm m bitmap i \<longleftrightarrow> bit (m (bitmap + of_nat (i div 8))) (i mod 8)"

subsection \<open>Setting and clearing\<close>

lemma size_div_8: "bitmap + n div 8 = bitmap + of_nat (unat (n :: size_t) div 8)"
  by (simp add: word_arith_nat_div)

lemma bm_eq_iff:
  assumes "i < 2 ^ 64" and "j < 2 ^ 64"
  shows "(bitmap :: addr) + of_nat (i div 8) = bitmap + of_nat (j div 8) \<longleftrightarrow> i div 8 = j div 8"
proof (rule inj_offset)
  show "i div 8 < 2 ^ 64" "j div 8 < 2 ^ 64" using assms by (meson div_le_dividend le_less_trans)+
qed

lemma nat_eq_div_mod: "i = j \<longleftrightarrow> i div 8 = j div 8 \<and> i mod 8 = j mod (8::nat)"
  by (metis div_mult_mod_eq)

lemma bit_power_8: "bit (2 ^ k :: uint8_t) j \<longleftrightarrow> j = k \<and> j < 8"
  by (auto simp: bit_exp_iff)

lemma bm_set:
  assumes "i < 2 ^ 64"
  shows "bm (bitmap_set_bit m bitmap n) bitmap i \<longleftrightarrow> i = unat n \<or> bm m bitmap i"
proof -
  have n: "unat n < 2 ^ 64" by (rule unat_less_64)
  have m8: "i mod 8 < 8" "unat n mod 8 < 8" by simp_all
  show ?thesis
    using bm_eq_iff [OF assms n, of bitmap] m8
    unfolding bitmap_set_bit_def bm_def Let_def size_div_8 nat_eq_div_mod [of i]
    by (auto simp: unat_mod bit_or_iff bit_power_8)
qed

lemma bm_unset:
  assumes "i < 2 ^ 64"
  shows "bm (bitmap_unset_bit m bitmap n) bitmap i \<longleftrightarrow> i \<noteq> unat n \<and> bm m bitmap i"
proof -
  have n: "unat n < 2 ^ 64" by (rule unat_less_64)
  have m8: "i mod 8 < 8" "unat n mod 8 < 8" by simp_all
  show ?thesis
    using bm_eq_iff [OF assms n, of bitmap] m8
    unfolding bitmap_unset_bit_def bm_def Let_def size_div_8 nat_eq_div_mod [of i]
    by (auto simp: unat_mod bit_and_iff bit_not_iff bit_power_8)
qed

subsection \<open>Testing\<close>

lemma test_value:
  fixes x :: uint8_t
  assumes "k < 8"
  shows "(ucast (drop_bit n ((ucast x :: uint32_t) AND push_bit k 1)) :: uint8_t) =
    (if n \<le> k \<and> bit x k then push_bit (k - n) 1 else 0)"
  by (rule bit_word_eqI) (use assms in \<open>auto simp: bit_simps\<close>)

lemma test_low:
  assumes "unat n < 8"
  shows "bitmap_test_bit ub m bitmap n = of_bool (bm m bitmap (unat n))"
proof -
  have "n < 32" using assms by (simp add: word_less_nat_alt)
  then show ?thesis
    using assms test_value [of "unat n" "unat n"]
    by (simp add: bitmap_test_bit_def Let_def size_div_8 unat_mod bm_def)
qed

lemma test_mid:
  assumes "8 \<le> unat n" and "unat n < 32"
  shows "bitmap_test_bit ub m bitmap n = 0"
proof -
  have "n < 32" using assms by (simp add: word_less_nat_alt)
  moreover have "\<not> unat n \<le> unat n mod 8" using assms mod_less_divisor [of 8 "unat n"] by simp
  ultimately show ?thesis
    using test_value [of "unat n mod 8" "unat n"] by (simp add: bitmap_test_bit_def Let_def unat_mod)
qed

text \<open>C18: \<open>bitmap_test_bit\<close> agrees with \<open>bitmap_set_bit\<close> and \<open>bitmap_unset_bit\<close> on the first eight
  bits of a bitmap only. For the bits 8 to 31 it returns 0 whatever the bitmap holds, because it
  shifts by the index of the bit in the bitmap instead of its index in the byte; on x86, where the
  shift count is taken modulo 32, the same holds for every later bit whose index modulo 32 is 8
  or more.\<close>

theorem bitmap_test_bit_wrong:
  "(unat n < 8 \<longrightarrow> bitmap_test_bit ub m bitmap n = of_bool (bm m bitmap (unat n))) \<and>
   (8 \<le> unat n \<and> unat n < 32 \<longrightarrow> bitmap_test_bit ub m bitmap n = 0) \<and>
   bitmap_test_bit shr32 m bitmap n = of_bool (unat n mod 32 < 8 \<and> bm m bitmap (unat n))"
proof -
  let ?k = "unat n mod 8" and ?n = "unat n mod 32"
  have k: "?k < 8" "?n mod 8 = ?k" by (simp_all add: mod_mod_cancel)
  have "bitmap_test_bit shr32 m bitmap n = (if ?n \<le> ?k \<and> bm m bitmap (unat n) then push_bit (?k - ?n) 1 else 0)"
    using test_value [OF k(1), of ?n] test_value [OF k(1), of "unat n"]
    by (auto simp: bitmap_test_bit_def shr32_def Let_def size_div_8 unat_mod bm_def word_less_nat_alt mod_less)
  moreover have "?n \<le> ?k \<longleftrightarrow> ?n < 8" "?n < 8 \<Longrightarrow> ?k - ?n = 0"
    using k mod_less_divisor [of 8 "?n"] by (auto simp: mod_less)
  ultimately have "bitmap_test_bit shr32 m bitmap n = of_bool (?n < 8 \<and> bm m bitmap (unat n))" by auto
  then show ?thesis using test_low [of n] test_mid [of n] by blast
qed

theorem bitmap_test_bit_wrong_witness:
  "bitmap_test_bit shr32 (\<lambda>_. 255) 4096 9 = 0 \<and> bm (\<lambda>_. 255) 4096 9 \<and> bitmap_test_bit shr32 (\<lambda>_. 255) 4096 3 = 1"
  using bitmap_test_bit_wrong [of 9 shr32 "\<lambda>_. 255" 4096] bitmap_test_bit_wrong [of 3 shr32 "\<lambda>_. 255" 4096]
  by (simp add: bm_def)

text \<open>\<open>bitmap_set_bit\<close> sets one bit, \<open>bitmap_unset_bit\<close> clears one bit, and both leave every other
  bit and every other byte as it was.\<close>

lemma bitmap_update_correct:
  assumes "i < 2 ^ 64"
  shows "(bm (bitmap_set_bit m bitmap n) bitmap i \<longleftrightarrow> i = unat n \<or> bm m bitmap i) \<and>
    (bm (bitmap_unset_bit m bitmap n) bitmap i \<longleftrightarrow> i \<noteq> unat n \<and> bm m bitmap i) \<and>
    (x \<noteq> bitmap + n div 8 \<longrightarrow> bitmap_set_bit m bitmap n x = m x \<and> bitmap_unset_bit m bitmap n x = m x)"
proof -
  have "x \<noteq> bitmap + n div 8 \<Longrightarrow> bitmap_set_bit m bitmap n x = m x \<and> bitmap_unset_bit m bitmap n x = m x"
    by (simp add: bitmap_set_bit_def bitmap_unset_bit_def Let_def)
  with bm_set [OF assms] bm_unset [OF assms] show ?thesis by blast
qed

end
