(* ===== verification/Pmm.thy ===== *)
theory Pmm
  imports Bitmap
begin

text \<open>
  The physical memory manager, \<^verbatim>\<open>sys/mm/pmm.c\<close>: a bitmap with one bit per 4 KiB frame, set for
  frames in use, and a first-fit search for runs of clear bits.

  The boot loader's memory map is a list of entries, which \<open>init_bitmap\<close> shortens to make room for
  the bitmap; the offset of the direct map (\<open>VMM_HIGHER_HALF\<close>, from the boot loader) and the
  result of an oversized shift in \<open>bitmap_test_bit\<close> are parameters. Loops whose counter could wrap
  are partial functions that give \<open>None\<close> where the code would not stop.
\<close>

record memmap_entry =
  mbase :: uint64_t
  mlen :: uint64_t
  mtype :: uint64_t

record pmm =
  pmem :: memory
  mmap :: "memmap_entry list"
  pbitmap :: addr

definition LIMINE_MEMMAP_USABLE :: uint64_t where "LIMINE_MEMMAP_USABLE = 0"
definition PAGE_SIZE :: uint64_t where "PAGE_SIZE = 4096"

subsection \<open>Size and place of the bitmap\<close>

definition find_highest_mem_chunk :: "memmap_entry list \<Rightarrow> memmap_entry option" where
  "find_highest_mem_chunk entries =
     fold (\<lambda>entry chunk.
       if mtype entry \<noteq> LIMINE_MEMMAP_USABLE then chunk
       else case chunk of
              None \<Rightarrow> Some entry
            | Some c \<Rightarrow> if mbase entry > mbase c then Some entry else Some c) entries None"

definition get_bitmap_size :: "memmap_entry list \<Rightarrow> size_t res" where
  "get_bitmap_size entries =
     (case find_highest_mem_chunk entries of
        None \<Rightarrow> Inl Null_Deref
      | Some highest_entry \<Rightarrow>
          (let highest_address = mbase highest_entry + mlen highest_entry
           in Inr (ALIGN_UP (highest_address div 0x1000 div 8) 0x1000)))"

text \<open>The first loop of \<open>init_bitmap\<close>: the first usable entry that is long enough is shortened.\<close>

fun place_bitmap :: "size_t \<Rightarrow> memmap_entry list \<Rightarrow> (uint64_t \<times> memmap_entry list) option" where
  "place_bitmap sz [] = None"
| "place_bitmap sz (entry # entries) =
     (if mtype entry = LIMINE_MEMMAP_USABLE \<and> mlen entry \<ge> sz
      then Some (mbase entry, entry\<lparr>mlen := mlen entry - sz, mbase := mbase entry + sz\<rparr> # entries)
      else map_option (\<lambda>(b, es). (b, entry # es)) (place_bitmap sz entries))"

partial_function (option) unset_frames :: "memory \<Rightarrow> addr \<Rightarrow> uint64_t \<Rightarrow> uint64_t \<Rightarrow> size_t \<Rightarrow> memory option" where
  "unset_frames m bitmap b l j =
     (if j < l then unset_frames (bitmap_unset_bit m bitmap ((b + j) div 0x1000)) bitmap b l (j + 0x1000)
      else Some m)"

fun unset_entries :: "size_t \<Rightarrow> addr \<Rightarrow> memmap_entry list \<Rightarrow> memory \<Rightarrow> memory option" where
  "unset_entries sz bitmap [] m = Some m"
| "unset_entries sz bitmap (entry # entries) m =
     (if mtype entry = LIMINE_MEMMAP_USABLE \<and> mlen entry \<ge> sz
      then (case unset_frames m bitmap (mbase entry) (mlen entry) 0 of
              None \<Rightarrow> None | Some m \<Rightarrow> unset_entries sz bitmap entries m)
      else unset_entries sz bitmap entries m)"

definition init_bitmap :: "addr \<Rightarrow> pmm \<Rightarrow> pmm res option" where
  "init_bitmap hhdm s =
     (case get_bitmap_size (mmap s) of
        Inl e \<Rightarrow> Some (Inl e)
      | Inr bitmap_size \<Rightarrow>
          (let s = (case place_bitmap bitmap_size (mmap s) of
                      None \<Rightarrow> s
                    | Some (b, entries) \<Rightarrow>
                        s\<lparr>pbitmap := b + hhdm, mmap := entries,
                          pmem := memset (pmem s) (b + hhdm) 0xFF bitmap_size\<rparr>)
           in map_option (\<lambda>m. Inr (s\<lparr>pmem := m\<rparr>)) (unset_entries bitmap_size (pbitmap s) (mmap s) (pmem s))))"

definition pmm_init :: "addr \<Rightarrow> memory \<Rightarrow> memmap_entry list \<Rightarrow> pmm res option" where
  "pmm_init hhdm m response = init_bitmap hhdm \<lparr>pmem = m, mmap = response, pbitmap = 0\<rparr>"

subsection \<open>Allocation of frames\<close>

function find_chunk_from :: "(size_t \<Rightarrow> bool) \<Rightarrow> size_t \<Rightarrow> size_t \<Rightarrow> size_t \<Rightarrow> size_t \<Rightarrow> size_t \<Rightarrow> size_t" where
  "find_chunk_from used frame_count limit idx frames_found bit_start =
     (if idx < limit
      then if \<not> used idx
           then if frames_found \<ge> frame_count then bit_start
                else find_chunk_from used frame_count limit (idx + 1) (frames_found + 1)
                       (if bit_start = 0 then idx else bit_start)
           else find_chunk_from used frame_count limit (idx + 1) 0 0
      else bit_start)"
  by pat_completeness auto
termination
  by (relation "measure (\<lambda>(used, frame_count, limit, idx, frames_found, bit_start). unat limit - unat idx)")
    (auto intro: count_up_less)

declare find_chunk_from.simps [simp del]

definition find_contigious_chunk :: "shift_ub \<Rightarrow> pmm \<Rightarrow> size_t \<Rightarrow> size_t res" where
  "find_contigious_chunk ub s frame_count =
     bindE (get_bitmap_size (mmap s)) (\<lambda>bitmap_size.
     Inr (find_chunk_from (\<lambda>idx. bitmap_test_bit ub (pmem s) (pbitmap s) idx \<noteq> 0)
            frame_count (bitmap_size * 8) 1 0 0))"

function set_frames :: "memory \<Rightarrow> addr \<Rightarrow> size_t \<Rightarrow> size_t \<Rightarrow> memory" where
  "set_frames m bitmap i limit =
     (if i < limit then set_frames (bitmap_set_bit m bitmap i) bitmap (i + 1) limit else m)"
  by pat_completeness auto
termination
  by (relation "measure (\<lambda>(m, bitmap, i, limit). unat limit - unat i)") (auto intro: count_up_less)

declare set_frames.simps [simp del]

definition pmm_alloc :: "shift_ub \<Rightarrow> pmm \<Rightarrow> size_t \<Rightarrow> (addr \<times> pmm) res" where
  "pmm_alloc ub s frames =
     bindE (find_contigious_chunk ub s frames) (\<lambda>idx.
     if idx = 0 then Inr (0, s)
     else Inr (PAGE_SIZE * idx, s\<lparr>pmem := set_frames (pmem s) (pbitmap s) idx (idx + frames)\<rparr>))"

partial_function (option) free_from :: "memory \<Rightarrow> addr \<Rightarrow> addr \<Rightarrow> addr \<Rightarrow> memory option" where
  "free_from m bitmap i limit =
     (if i < limit then free_from (bitmap_unset_bit m bitmap (i div 0x1000)) bitmap (i + PAGE_SIZE) limit
      else Some m)"

definition pmm_free :: "pmm \<Rightarrow> addr \<Rightarrow> size_t \<Rightarrow> pmm option" where
  "pmm_free s ptr frames =
     map_option (\<lambda>m. s\<lparr>pmem := m\<rparr>) (free_from (pmem s) (pbitmap s) ptr (ptr + frames * PAGE_SIZE))"

subsection \<open>The search\<close>

text \<open>
  What the loop knows when it reaches bit \<open>idx\<close>: it is outside a run, or in a run of
  \<open>found\<close> clear bits that began at \<open>start\<close>.
\<close>

definition run_inv :: "(size_t \<Rightarrow> bool) \<Rightarrow> size_t \<Rightarrow> size_t \<Rightarrow> size_t \<Rightarrow> size_t \<Rightarrow> bool" where
  "run_inv used count idx found start \<longleftrightarrow> 0 < unat idx \<and>
     (start = 0 \<and> found = 0 \<or>
      0 < unat start \<and> 0 < unat found \<and> unat start + unat found = unat idx \<and> unat found \<le> unat count \<and>
      (\<forall>i. unat start \<le> i \<longrightarrow> i < unat idx \<longrightarrow> \<not> used (of_nat i)))"

lemma run_inv_used: "idx < limit \<Longrightarrow> run_inv used count idx found start \<Longrightarrow> run_inv used count (idx + 1) 0 0"
  by (simp add: run_inv_def unat_Suc_less)

lemma run_inv_free:
  assumes "idx < limit" and "run_inv used count idx found start" and "\<not> used idx" and "\<not> found \<ge> count"
  shows "run_inv used count (idx + 1) (found + 1) (if start = 0 then idx else start)"
proof -
  have f: "unat found < unat count" using assms(4) by (simp add: word_le_nat_alt)
  then have f1: "unat (found + 1) = Suc (unat found)" by (intro unat_Suc_less [of _ count]) (simp add: word_less_nat_alt)
  have id: "of_nat (unat idx) = idx" by simp
  show ?thesis
    using assms(2,3) f f1 id unat_Suc_less [OF assms(1)] unfolding run_inv_def
    by (auto simp: less_Suc_eq)
qed

lemma find_chunk_sound:
  assumes "run_inv used count idx found start" and "idx \<le> limit"
    and "find_chunk_from used count limit idx found start = r" and "r \<noteq> 0"
  shows "unat r < unat limit \<and> (\<forall>i. unat r \<le> i \<longrightarrow> i < unat r + unat count \<longrightarrow> i < unat limit \<longrightarrow> \<not> used (of_nat i))"
  using assms
proof (induction used count limit idx found start rule: find_chunk_from.induct)
  case (1 used count limit idx found start)
  have le: "idx < limit \<Longrightarrow> idx + 1 \<le> limit"
    using unat_Suc_less [of idx limit] by (simp add: word_le_nat_alt word_less_nat_alt)
  show ?case
  proof (cases "idx < limit")
    case False
    then have "r = start" "unat idx = unat limit"
      using "1.prems"(2,3) by (simp_all add: find_chunk_from.simps word_less_nat_alt word_le_nat_alt)
    then show ?thesis using "1.prems"(1,4) by (auto simp: run_inv_def)
  next
    case lt: True
    show ?thesis
    proof (cases "\<not> used idx \<and> found \<ge> count")
      case True
      then have "r = start" using "1.prems"(3) lt by (simp add: find_chunk_from.simps)
      moreover have "unat idx < unat limit" using lt by (simp add: word_less_nat_alt)
      ultimately show ?thesis using "1.prems"(1,4) True by (auto simp: run_inv_def word_le_nat_alt)
    next
      case False
      show ?thesis
      proof (cases "used idx")
        case True
        have "find_chunk_from used count limit (idx + 1) 0 0 = r"
          using "1.prems"(3) lt True by (subst (asm) find_chunk_from.simps) simp
        with "1.IH"(2) [OF lt] True run_inv_used [OF lt "1.prems"(1)] le [OF lt] "1.prems"(4) show ?thesis by simp
      next
        case nu: False
        with False have f: "\<not> found \<ge> count" by simp
        have "find_chunk_from used count limit (idx + 1) (found + 1) (if start = 0 then idx else start) = r"
          using "1.prems"(3) lt nu f by (subst (asm) find_chunk_from.simps) simp
        with "1.IH"(1) [OF lt _ f] nu run_inv_free [OF lt "1.prems"(1) nu f] le [OF lt] "1.prems"(4) show ?thesis by blast
      qed
    qed
  qed
qed

lemma find_chunk_complete:
  assumes "run_inv used count idx found start" and "idx \<le> limit" and "0 < unat count"
    and "0 < k" "k + unat count < unat limit" "unat idx \<le> k + unat count" "unat idx \<le> k \<or> start \<noteq> 0 \<and> unat start \<le> k"
    and "\<And>i. k \<le> i \<Longrightarrow> i \<le> k + unat count \<Longrightarrow> \<not> used (of_nat i)"
  shows "find_chunk_from used count limit idx found start \<noteq> 0 \<and>
    unat (find_chunk_from used count limit idx found start) + unat count < unat limit"
  using assms
proof (induction used count limit idx found start rule: find_chunk_from.induct)
  case (1 used count limit idx found start)
  note inv = "1.prems"(1)
  have lt: "idx < limit" using "1.prems"(5,6) by (simp add: word_less_nat_alt)
  have le: "idx + 1 \<le> limit" and s: "unat (idx + 1) = Suc (unat idx)"
    using unat_Suc_less [OF lt] lt by (simp_all add: word_le_nat_alt word_less_nat_alt)
  show ?case
  proof (cases "used idx")
    case True
    have "\<not> (k \<le> unat idx \<and> unat idx \<le> k + unat count)" using "1.prems"(8) [of "unat idx"] True by auto
    then have "unat (idx + 1) \<le> k" using "1.prems"(6) s by simp
    then show ?thesis
      using "1.IH"(2) [OF lt] True run_inv_used [OF lt inv] le "1.prems"(3-5,8) lt
      by (subst (1 2) find_chunk_from.simps) simp
  next
    case nu: False
    show ?thesis
    proof (cases "found \<ge> count")
      case True
      then have f: "unat count \<le> unat found" "find_chunk_from used count limit idx found start = start"
        using lt nu by (simp_all add: word_le_nat_alt find_chunk_from.simps)
      then have "unat start + unat count = unat idx" "start \<noteq> 0" using inv "1.prems"(3) by (auto simp: run_inv_def)
      then show ?thesis using f(2) lt by (simp add: word_less_nat_alt)
    next
      case f: False
      let ?s = "if start = 0 then idx else start"
      have fl: "unat found < unat count" using f by (simp add: word_le_nat_alt)
      have "unat idx \<noteq> k + unat count"
        using "1.prems"(3,7) inv fl by (auto simp: run_inv_def)
      then have b: "unat (idx + 1) \<le> k + unat count" using "1.prems"(6) s by simp
      have i0: "idx \<noteq> 0" using inv by (auto simp: run_inv_def)
      have "unat start \<le> unat idx" using inv by (auto simp: run_inv_def)
      then have c: "unat (idx + 1) \<le> k \<or> ?s \<noteq> 0 \<and> unat ?s \<le> k" using "1.prems"(7) s i0 by auto
      show ?thesis
        using "1.IH"(1) [OF lt _ f run_inv_free [OF lt inv nu f] le "1.prems"(3-5) b c "1.prems"(8)] nu f lt
        by (subst (1 2) find_chunk_from.simps) simp
    qed
  qed
qed

subsection \<open>Marking frames\<close>

definition frame_used :: "pmm \<Rightarrow> nat \<Rightarrow> bool" where
  "frame_used s k = bm (pmem s) (pbitmap s) k"

lemma bm_set_frames:
  assumes "k < 2 ^ 64"
  shows "bm (set_frames m bitmap i limit) bitmap k \<longleftrightarrow> unat i \<le> k \<and> k < unat limit \<or> bm m bitmap k"
proof (induction m bitmap i limit rule: set_frames.induct)
  case (1 m bitmap i limit)
  show ?case
  proof (cases "i < limit")
    case True
    then have "unat i < unat limit" by (simp add: word_less_nat_alt)
    with True 1 bm_set [OF assms, of m bitmap i] unat_Suc_less [OF True] show ?thesis
      by (subst set_frames.simps) auto
  qed (subst set_frames.simps, auto simp: word_less_nat_alt)
qed

text \<open>Both releasing loops walk a range of addresses in steps of a page.\<close>

lemma page_div: "unat ((i :: addr) div 0x1000) = unat i div 4096"
  by (simp add: unat_div)

lemma page_step:
  fixes i :: addr
  assumes "unat i + 4096 < 2 ^ 64"
  shows "unat (i + 4096) = unat i + 4096"
  using assms by (simp add: unat_word_ariths)

lemma free_from_spec:
  assumes "unat limit + 4096 < 2 ^ 64"
  shows "\<exists>m'. free_from m bitmap i limit = Some m' \<and>
    (\<forall>k < 2 ^ 64. bm m' bitmap k \<longleftrightarrow> bm m bitmap k \<and> \<not> (\<exists>j. k = (unat i + 4096 * j) div 4096 \<and> unat i + 4096 * j < unat limit))"
proof (induction "unat limit - unat i" arbitrary: i m rule: less_induct)
  case less
  show ?case
  proof (cases "i < limit")
    case True
    then have lt: "unat i < unat limit" by (simp add: word_less_nat_alt)
    have s: "unat (i + 4096) = unat i + 4096" using lt assms by (intro page_step) simp
    let ?m = "bitmap_unset_bit m bitmap (i div 0x1000)"
    have "unat limit - unat (i + 4096) < unat limit - unat i" using s lt by simp
    from less [OF this, of ?m] obtain m' where m': "free_from ?m bitmap (i + 4096) limit = Some m'"
      and b: "\<And>k. k < 2 ^ 64 \<Longrightarrow> bm m' bitmap k \<longleftrightarrow> bm ?m bitmap k \<and>
        \<not> (\<exists>j. k = (unat i + 4096 + 4096 * j) div 4096 \<and> unat i + 4096 + 4096 * j < unat limit)"
      unfolding s by blast
    have ex: "(\<exists>j. P j) \<longleftrightarrow> P 0 \<or> (\<exists>j. P (Suc j))" for P by (metis not0_implies_Suc)
    have "free_from m bitmap i limit = Some m'"
      using True m' by (subst free_from.simps) (simp add: PAGE_SIZE_def)
    moreover have "bm m' bitmap k \<longleftrightarrow> bm m bitmap k \<and> \<not> (\<exists>j. k = (unat i + 4096 * j) div 4096 \<and> unat i + 4096 * j < unat limit)"
      if k: "k < 2 ^ 64" for k
      unfolding b [OF k] bm_unset [OF k] page_div by (subst (2) ex) (use lt in \<open>auto simp: algebra_simps\<close>)
    ultimately show ?thesis by blast
  next
    case False
    then have "free_from m bitmap i limit = Some m" by (subst free_from.simps) simp
    then show ?thesis using False by (auto simp: word_less_nat_alt)
  qed
qed

lemma unset_frames_free:
  assumes "unat b + unat l + 4096 < 2 ^ 64" and "unat j \<le> unat l + 4096"
  shows "unset_frames m bitmap b l j = free_from m bitmap (b + j) (b + l)"
  using assms(2)
proof (induction "unat l - unat j" arbitrary: j m rule: less_induct)
  case less
  have bl: "unat (b + l) = unat b + unat l" using assms(1) by (simp add: unat_word_ariths)
  have bj: "unat (b + j) = unat b + unat j" using assms(1) less.prems by (simp add: unat_word_ariths)
  show ?case
  proof (cases "j < l")
    case True
    then have lt: "unat j < unat l" by (simp add: word_less_nat_alt)
    have s: "unat (j + 4096) = unat j + 4096" using lt assms(1) by (intro page_step) simp
    have "unset_frames m bitmap b l (j + 4096) = free_from m bitmap (b + (j + 4096)) (b + l)" for m
      using less.hyps [of "j + 4096"] s lt by simp
    moreover have "b + j < b + l" using lt by (simp add: word_less_nat_alt bl bj)
    ultimately show ?thesis
      using True by (subst unset_frames.simps, subst free_from.simps) (simp add: PAGE_SIZE_def add.assoc)
  next
    case False
    then have "\<not> b + j < b + l" by (simp add: word_less_nat_alt bl bj)
    with False show ?thesis by (subst unset_frames.simps, subst free_from.simps) simp
  qed
qed

text \<open>The frames that start inside a range of addresses.\<close>

definition frames_of :: "nat \<Rightarrow> nat \<Rightarrow> nat set" where
  "frames_of a n = {a div 4096..<a div 4096 + (n + 4095) div 4096}"

lemma frames_of_eq: "(\<exists>j. k = (a + 4096 * j) div 4096 \<and> a + 4096 * j < a + n) \<longleftrightarrow> k \<in> frames_of a n"
proof -
  have d: "(a + 4096 * j) div 4096 = a div 4096 + j" for j by simp
  have l: "4096 * j < n \<longleftrightarrow> j < (n + 4095) div 4096" for j by linarith
  have "(\<exists>j. k = a div 4096 + j \<and> j < N) \<longleftrightarrow> a div 4096 \<le> k \<and> k < a div 4096 + N" for N
    by (metis add_less_cancel_left le_Suc_ex le_add1)
  then show ?thesis unfolding d frames_of_def by (simp add: l)
qed

lemma unset_entries_spec:
  assumes "\<And>e. e \<in> set es \<Longrightarrow> unat (mbase e) + unat (mlen e) + 4096 < 2 ^ 64"
  shows "\<exists>m'. unset_entries sz bitmap es m = Some m' \<and>
    (\<forall>k < 2 ^ 64. bm m' bitmap k \<longleftrightarrow> bm m bitmap k \<and>
       \<not> (\<exists>e \<in> set es. mtype e = LIMINE_MEMMAP_USABLE \<and> mlen e \<ge> sz \<and> k \<in> frames_of (unat (mbase e)) (unat (mlen e))))"
  using assms
proof (induction es arbitrary: m)
  case (Cons e es)
  let ?u = "mtype e = LIMINE_MEMMAP_USABLE \<and> mlen e \<ge> sz"
  have nw: "unat (mbase e) + unat (mlen e) + 4096 < 2 ^ 64" using Cons.prems by simp
  then have bl: "unat (mbase e + mlen e) = unat (mbase e) + unat (mlen e)" by (simp add: unat_word_ariths)
  obtain m1 where m1: "free_from m bitmap (mbase e) (mbase e + mlen e) = Some m1"
    and b1: "\<And>k. k < 2 ^ 64 \<Longrightarrow> bm m1 bitmap k \<longleftrightarrow> bm m bitmap k \<and> k \<notin> frames_of (unat (mbase e)) (unat (mlen e))"
    using free_from_spec [of "mbase e + mlen e" m bitmap "mbase e"] nw unfolding bl frames_of_eq by auto
  have u: "unset_frames m bitmap (mbase e) (mlen e) 0 = Some m1"
    using unset_frames_free [OF nw, of 0 m bitmap] m1 by simp
  obtain m2 where m2: "unset_entries sz bitmap es (if ?u then m1 else m) = Some m2"
    and b2: "\<And>k. k < 2 ^ 64 \<Longrightarrow> bm m2 bitmap k \<longleftrightarrow> bm (if ?u then m1 else m) bitmap k \<and>
       \<not> (\<exists>e \<in> set es. mtype e = LIMINE_MEMMAP_USABLE \<and> mlen e \<ge> sz \<and> k \<in> frames_of (unat (mbase e)) (unat (mlen e)))"
    using Cons.IH [of "if ?u then m1 else m"] Cons.prems by auto
  show ?case
    by (rule exI [of _ m2]) (use m2 u b1 b2 in \<open>auto split: if_splits\<close>)
qed simp

subsection \<open>Properties\<close>

lemma bm_memset_ff:
  assumes "k < 8 * unat sz"
  shows "bm (memset m bitmap 0xFF sz) bitmap k"
proof -
  have "k div 8 < unat sz" using assms by auto
  from memset_inside [OF this] have *: "memset m bitmap 0xFF sz (bitmap + of_nat (k div 8)) = 0xFF" .
  have "k mod 8 < 8" by simp
  moreover have "(0xFF :: uint8_t) = mask 8" by (simp add: mask_eq_exp_minus_1)
  ultimately have "bit (0xFF :: uint8_t) (k mod 8)" by (simp only: bit_mask_iff) simp
  with * show ?thesis by (simp add: bm_def)
qed


text \<open>C14: initialisation ends with a bitmap in which the clear bits are exactly the frames of the usable
  entries of the memory map that are at least as long as the bitmap, after the entry that now holds
  the bitmap has been shortened by it; every other frame below the highest usable one is marked used.\<close>

theorem pmm_init_correct:
  assumes "get_bitmap_size es = Inr sz" and "place_bitmap sz es = Some (b, es')" and "8 * unat sz < 2 ^ 64"
    and "\<And>e. e \<in> set es' \<Longrightarrow> unat (mbase e) + unat (mlen e) + 4096 < 2 ^ 64"
  shows "\<exists>s. pmm_init hhdm m es = Some (Inr s) \<and> pbitmap s = b + hhdm \<and> mmap s = es' \<and>
    (\<forall>k < 8 * unat sz. frame_used s k \<longleftrightarrow>
       \<not> (\<exists>e \<in> set es'. mtype e = LIMINE_MEMMAP_USABLE \<and> mlen e \<ge> sz \<and> k \<in> frames_of (unat (mbase e)) (unat (mlen e))))"
proof -
  let ?m = "memset m (b + hhdm) 0xFF sz"
  obtain m' where "unset_entries sz (b + hhdm) es' ?m = Some m'"
    and b: "\<And>k. k < 2 ^ 64 \<Longrightarrow> bm m' (b + hhdm) k \<longleftrightarrow> bm ?m (b + hhdm) k \<and>
       \<not> (\<exists>e \<in> set es'. mtype e = LIMINE_MEMMAP_USABLE \<and> mlen e \<ge> sz \<and> k \<in> frames_of (unat (mbase e)) (unat (mlen e)))"
    using unset_entries_spec [OF assms(4)] by blast
  then have "pmm_init hhdm m es = Some (Inr \<lparr>pmem = m', mmap = es', pbitmap = b + hhdm\<rparr>)"
    by (simp add: pmm_init_def init_bitmap_def assms(1,2) Let_def)
  moreover have "frame_used \<lparr>pmem = m', mmap = es', pbitmap = b + hhdm\<rparr> k \<longleftrightarrow>
      \<not> (\<exists>e \<in> set es'. mtype e = LIMINE_MEMMAP_USABLE \<and> mlen e \<ge> sz \<and> k \<in> frames_of (unat (mbase e)) (unat (mlen e)))"
    if "k < 8 * unat sz" for k
    using b [of k] bm_memset_ff [OF that, of m "b + hhdm"] that assms(3) by (simp add: frame_used_def)
  ultimately show ?thesis by (intro exI) (rule conjI, assumption, simp)
qed

theorem pmm_init_correct_witness:
  "\<exists>s. pmm_init 0x100000000 (\<lambda>_. 0) [\<lparr>mbase = 0, mlen = 0x1000, mtype = 1\<rparr>, \<lparr>mbase = 0x1000, mlen = 0x9000, mtype = 0\<rparr>] = Some (Inr s) \<and>
     pbitmap s = 0x100001000 \<and> frame_used s 1 \<and> \<not> frame_used s 2 \<and> \<not> frame_used s 9 \<and> frame_used s 10"
proof -
  let ?es = "[\<lparr>mbase = 0, mlen = 0x1000, mtype = 1\<rparr>, \<lparr>mbase = 0x1000, mlen = 0x9000, mtype = 0\<rparr>] :: memmap_entry list"
  let ?es' = "[\<lparr>mbase = 0, mlen = 0x1000, mtype = 1\<rparr>, \<lparr>mbase = 0x2000, mlen = 0x8000, mtype = 0\<rparr>] :: memmap_entry list"
  have "get_bitmap_size ?es = Inr 0x1000"
    by (simp add: get_bitmap_size_def find_highest_mem_chunk_def LIMINE_MEMMAP_USABLE_def ALIGN_UP_def Let_def)
  moreover have "place_bitmap 0x1000 ?es = Some (0x1000, ?es')" by (simp add: LIMINE_MEMMAP_USABLE_def)
  ultimately show ?thesis
    using pmm_init_correct [of ?es "0x1000" "0x1000" ?es' "0x100000000" "\<lambda>_. 0"]
    by (fastforce simp: frames_of_def LIMINE_MEMMAP_USABLE_def)
qed


text \<open>A memory map with one usable entry, whose bitmap has 32768 bits, and managers over it.\<close>

definition demo_map :: "memmap_entry list" where
  "demo_map = [\<lparr>mbase = 0x2000, mlen = 0x8000, mtype = 0\<rparr>]"

lemma demo_map_size [simp]: "get_bitmap_size demo_map = Inr 0x1000"
  by (simp add: demo_map_def get_bitmap_size_def find_highest_mem_chunk_def LIMINE_MEMMAP_USABLE_def ALIGN_UP_def)

definition demo_pmm :: "uint8_t \<Rightarrow> pmm" where
  "demo_pmm byte = \<lparr>pmem = \<lambda>_. byte, mmap = demo_map, pbitmap = 0x1000\<rparr>"

lemma demo_pmm_simps [simp]:
  "pmem (demo_pmm byte) = (\<lambda>_. byte)" "mmap (demo_pmm byte) = demo_map" "pbitmap (demo_pmm byte) = 0x1000"
  by (simp_all add: demo_pmm_def)

lemma demo_pmm_used: "frame_used (demo_pmm 255) k"
proof -
  have "(255 :: uint8_t) = mask 8" by (simp add: mask_eq_exp_minus_1)
  moreover have "k mod 8 < 8" by simp
  ultimately show ?thesis by (simp only: frame_used_def bm_def demo_pmm_simps bit_mask_iff) simp
qed


lemma pmm_alloc_eq:
  assumes "get_bitmap_size (mmap s) = Inr sz"
  shows "pmm_alloc ub s frames =
    (let r = find_chunk_from (\<lambda>idx. bitmap_test_bit ub (pmem s) (pbitmap s) idx \<noteq> 0) frames (sz * 8) 1 0 0
     in if r = 0 then Inr (0, s)
        else Inr (PAGE_SIZE * r, s\<lparr>pmem := set_frames (pmem s) (pbitmap s) r (r + frames)\<rparr>))"
  by (simp add: pmm_alloc_def find_contigious_chunk_def assms Let_def)

text \<open>C16: a request for \<open>frames\<close> frames is served, entirely inside the bitmap, whenever some
  \<open>frames + 1\<close> consecutive bits test clear. The extra bit is needed because the search only stops at a
  further clear bit.\<close>

theorem pmm_alloc_serves:
  assumes "get_bitmap_size (mmap s) = Inr sz" and "0 < unat frames" and "0 < k" and "k + unat frames < unat (sz * 8)"
    and "\<And>i. k \<le> i \<Longrightarrow> i \<le> k + unat frames \<Longrightarrow> bitmap_test_bit ub (pmem s) (pbitmap s) (of_nat i) = 0"
  shows "\<exists>r s'. pmm_alloc ub s frames = Inr (PAGE_SIZE * r, s') \<and> r \<noteq> 0 \<and> unat r + unat frames < unat (sz * 8)"
proof -
  let ?u = "\<lambda>idx. bitmap_test_bit ub (pmem s) (pbitmap s) idx \<noteq> 0"
  have "run_inv ?u frames 1 0 0" and "(1 :: size_t) \<le> sz * 8"
    using assms(3,4) by (simp_all add: run_inv_def word_le_nat_alt)
  from find_chunk_complete [OF this assms(2-4)] assms(3,5)
  have "find_chunk_from ?u frames (sz * 8) 1 0 0 \<noteq> 0 \<and> unat (find_chunk_from ?u frames (sz * 8) 1 0 0) + unat frames < unat (sz * 8)"
    by simp
  then show ?thesis by (auto simp: pmm_alloc_eq [OF assms(1)] Let_def)
qed

theorem pmm_alloc_serves_witness:
  "\<exists>r s'. pmm_alloc shr32 (demo_pmm 0) 7 = Inr (PAGE_SIZE * r, s') \<and> r \<noteq> 0 \<and> unat r + 7 < 32768"
proof -
  have "bitmap_test_bit shr32 (pmem (demo_pmm 0)) (pbitmap (demo_pmm 0)) (of_nat i) = 0" if "8 \<le> i" "i \<le> 8 + 7" for i
    using that by (intro test_mid) (simp_all add: take_bit_nat_eq_self unsigned_of_nat)
  then show ?thesis using pmm_alloc_serves [of "demo_pmm 0" "0x1000" 7 8 shr32] by simp
qed

text \<open>releasing frames clears exactly their bits, so releasing an allocation of frames that were
  free restores the bitmap.\<close>

lemma pmm_free_correct:
  assumes "4096 * (r + unat frames) + 4096 < 2 ^ 64"
  shows "\<exists>s'. pmm_free s (of_nat (4096 * r)) frames = Some s' \<and> pbitmap s' = pbitmap s \<and> mmap s' = mmap s \<and>
    (\<forall>k < 2 ^ 64. frame_used s' k \<longleftrightarrow> frame_used s k \<and> \<not> (r \<le> k \<and> k < r + unat frames))"
proof -
  let ?p = "of_nat (4096 * r) :: addr"
  have p: "unat ?p = 4096 * r" using assms by (simp only: unsigned_of_nat) (simp add: take_bit_nat_eq_self)
  have f: "unat (frames * PAGE_SIZE) = 4096 * unat frames"
    using assms by (simp add: PAGE_SIZE_def unat_word_ariths)
  have l: "unat (?p + frames * PAGE_SIZE) = 4096 * r + 4096 * unat frames"
    using assms p f by (simp add: unat_word_ariths)
  obtain m' where m': "free_from (pmem s) (pbitmap s) ?p (?p + frames * PAGE_SIZE) = Some m'"
    and b: "\<And>k. k < 2 ^ 64 \<Longrightarrow> bm m' (pbitmap s) k \<longleftrightarrow> bm (pmem s) (pbitmap s) k \<and> k \<notin> frames_of (4096 * r) (4096 * unat frames)"
    using free_from_spec [of "?p + frames * PAGE_SIZE" "pmem s" "pbitmap s" ?p] assms unfolding l p frames_of_eq by auto
  have "frames_of (4096 * r) (4096 * unat frames) = {r..<r + unat frames}"
    unfolding frames_of_def by simp
  then show ?thesis
    using m' b by (intro exI [of _ "s\<lparr>pmem := m'\<rparr>"]) (simp add: pmm_free_def frame_used_def)
qed

lemma find_chunk_hit_from:
  assumes "\<And>i. unat s \<le> i \<Longrightarrow> i \<le> unat s + unat count \<Longrightarrow> \<not> used (of_nat i)" and "0 < unat s"
    and "unat s + unat count < unat limit" and "unat found \<le> unat count" "0 < unat found"
  shows "find_chunk_from used count limit (s + found) found s = s"
  using assms(4,5)
proof (induction "unat count - unat found" arbitrary: found)
  have u: "unat (s + f) = unat s + unat f" if "unat f \<le> unat count" for f
    using that assms(3) unat_less_64 [of limit] by (simp add: unat_word_ariths)
  have step: "s + f < limit" "\<not> used (s + f)" if "unat f \<le> unat count" for f
    using u [OF that] that assms(3) assms(1) [of "unat (s + f)"] by (simp_all add: word_less_nat_alt)
  {
    case 0
    then show ?case using step [of found] by (simp add: find_chunk_from.simps [of _ _ _ "s + found"] word_le_nat_alt)
  next
    case (Suc d)
    then have lt: "found < count" by (simp add: word_less_nat_alt)
    have "find_chunk_from used count limit (s + (found + 1)) (found + 1) s = s"
      using Suc unat_Suc_less [OF lt] by (intro Suc.hyps) simp_all
    moreover have "s \<noteq> 0" using assms(2) by auto
    ultimately show ?case
      using step [of found] Suc.prems lt
      by (simp add: find_chunk_from.simps [of _ _ _ "s + found"] add.assoc linorder_not_less [symmetric])
  }
qed

lemma find_chunk_hit:
  assumes "\<And>i. unat s \<le> i \<Longrightarrow> i \<le> unat s + unat count \<Longrightarrow> \<not> used (of_nat i)" and "0 < unat s"
    and "unat s + unat count < unat limit" and "0 < unat count"
  shows "find_chunk_from used count limit s 0 0 = s"
proof -
  have "s < limit" "\<not> used s" "\<not> 0 \<ge> count"
    using assms(3,4) assms(1) [of "unat s"] by (simp_all add: word_less_nat_alt word_le_nat_alt)
  then show ?thesis
    using find_chunk_hit_from [of s count used limit 1, OF assms(1-3)] assms(4) by (simp add: find_chunk_from.simps [of _ _ _ s])
qed
lemma find_chunk_skip:
  assumes "\<And>i. unat idx \<le> i \<Longrightarrow> i < unat idx + n \<Longrightarrow> used (of_nat i)" and "unat idx + n \<le> unat limit" and "0 < n"
  shows "find_chunk_from used count limit idx found start = find_chunk_from used count limit (idx + of_nat n) 0 0"
  using assms
proof (induction n arbitrary: idx found start)
  case (Suc n)
  have lt: "idx < limit" using Suc.prems(2) by (simp add: word_less_nat_alt)
  have "used idx" using Suc.prems(1) [of "unat idx"] by simp
  then have "find_chunk_from used count limit idx found start = find_chunk_from used count limit (idx + 1) 0 0"
    using lt by (subst find_chunk_from.simps) simp
  also have "\<dots> = find_chunk_from used count limit (idx + of_nat (Suc n)) 0 0"
  proof (cases n)
    case (Suc k)
    then show ?thesis using Suc.prems(2) Suc.IH [of "idx + 1" 0 0] Suc.prems(1) unat_Suc_less [OF lt]
      by (simp add: algebra_simps)
  qed simp
  finally show ?case .
qed simp

lemma alloc_one:
  assumes "get_bitmap_size (mmap s) = Inr sz" and "9 < unat (sz * 8)" and "\<forall>k. 1 \<le> k \<and> k < 8 \<longrightarrow> frame_used s k"
  shows "pmm_alloc ub s 1 = Inr (0x8000, s\<lparr>pmem := bitmap_set_bit (pmem s) (pbitmap s) 8\<rparr>)"
proof -
  let ?u = "\<lambda>idx. bitmap_test_bit ub (pmem s) (pbitmap s) idx \<noteq> 0"
  have u: "?u (of_nat i)" if "1 \<le> i" "i < 8" for i
    using that assms(3) test_low [of "of_nat i" ub "pmem s" "pbitmap s"]
    by (simp add: unsigned_of_nat take_bit_nat_eq_self frame_used_def)
  have "\<not> ?u 8" "\<not> ?u 9" using test_mid [of 8] test_mid [of 9] by simp_all
  have "find_chunk_from ?u 1 (sz * 8) 1 0 0 = find_chunk_from ?u 1 (sz * 8) (1 + of_nat 7) 0 0"
    using u assms(2) by (intro find_chunk_skip) simp_all
  also have "\<dots> = 8"
    using assms(2) \<open>\<not> ?u 8\<close> \<open>\<not> ?u 9\<close>
    by (simp add: find_chunk_from.simps [of _ _ _ 8] find_chunk_from.simps [of _ _ _ 9] word_less_nat_alt)
  finally have "find_chunk_from ?u 1 (sz * 8) 1 0 0 = 8" .
  moreover have "set_frames m b 8 9 = bitmap_set_bit m b 8" for m b
    by (simp add: set_frames.simps [of _ _ 8] set_frames.simps [of _ _ 9])
  ultimately show ?thesis by (simp add: pmm_alloc_eq [OF assms(1)] PAGE_SIZE_def)
qed

text \<open>C17: because \<open>bitmap_test_bit\<close> reports the bits 8 to 31 clear whatever they hold, single-frame
  allocations stop making progress: once the frames 1 to 7 are in use every request for one frame
  returns the address \<open>0x8000\<close>, so two callers share a frame, also where the boot loader marked it
  unusable.\<close>

theorem pmm_alloc_same_frame:
  assumes "get_bitmap_size (mmap s) = Inr sz" and "9 < unat (sz * 8)" and "\<forall>k. 1 \<le> k \<and> k < 8 \<longrightarrow> frame_used s k"
  shows "\<exists>s1 s2. pmm_alloc ub s 1 = Inr (0x8000, s1) \<and> frame_used s1 8 \<and> pmm_alloc ub s1 1 = Inr (0x8000, s2)"
proof -
  let ?s = "s\<lparr>pmem := bitmap_set_bit (pmem s) (pbitmap s) 8\<rparr>"
  have "frame_used ?s k \<longleftrightarrow> k = 8 \<or> frame_used s k" if "k < 2 ^ 64" for k
    using bm_set [OF that, of "pmem s" "pbitmap s" 8] by (simp add: frame_used_def)
  then have "frame_used ?s 8" and "\<forall>k. 1 \<le> k \<and> k < 8 \<longrightarrow> frame_used ?s k" using assms(3) by simp_all
  with alloc_one [of ?s sz] alloc_one [OF assms] assms(1,2) show ?thesis by simp
qed

theorem pmm_alloc_same_frame_witness:
  "\<exists>s1 s2. pmm_alloc shr32 (demo_pmm 255) 1 = Inr (0x8000, s1) \<and> frame_used (demo_pmm 255) 8 \<and> pmm_alloc shr32 s1 1 = Inr (0x8000, s2)"
  using pmm_alloc_same_frame [of "demo_pmm 255" "0x1000" shr32] by (auto simp: demo_pmm_used)

end
