(* ===== verification/Vmm.thy ===== *)
theory Vmm
  imports Pmm
begin

text \<open>
  The virtual memory manager, \<^verbatim>\<open>sys/mm/vmm.c\<close> and the page-table macros of
  \<^verbatim>\<open>sys/include/mm/vmm.h\<close>: four levels of tables of 512 entries in the byte memory, reached through
  the direct map at offset \<open>hhdm\<close>, with new tables taken from the physical memory manager.

  The state adds the processor's CR3, the cached translations (page number to entry) that
  \<open>__amd64_flush_tlb_single\<close> drops, and the static variable \<open>old_pml4\<close> of \<open>vmm_make_pml4\<close>.
\<close>

record vmm =
  pm :: pmm
  cr3 :: uint64_t
  tlb :: "uint64_t \<Rightarrow> uint64_t option"
  old_pml4 :: addr

definition PTE_ADDR_MASK :: uint64_t where "PTE_ADDR_MASK = 0x000FFFFFFFFFF000"
definition PTE_PRESENT :: uint64_t where "PTE_PRESENT = push_bit 0 1"
definition PTE_WRITABLE :: uint64_t where "PTE_WRITABLE = push_bit 1 1"
definition PTE_USER :: uint64_t where "PTE_USER = push_bit 2 1"
definition PTE_NX :: uint64_t where "PTE_NX = push_bit 63 1"

definition PTE_GET_ADDR :: "uint64_t \<Rightarrow> uint64_t" where
  "PTE_GET_ADDR v = v AND PTE_ADDR_MASK"

definition VIRT_TO_PT_INDEX :: "uint64_t \<Rightarrow> uint64_t" where
  "VIRT_TO_PT_INDEX virt = drop_bit 12 virt AND 0x1FF"

definition flush_tlb_single :: "vmm \<Rightarrow> addr \<Rightarrow> vmm" where
  "flush_tlb_single s virt = s\<lparr>tlb := (tlb s)(drop_bit 12 virt := None)\<rparr>"

subsection \<open>Walking and extending the tables\<close>

definition get_next_level :: "shift_ub \<Rightarrow> addr \<Rightarrow> pmm \<Rightarrow> addr \<Rightarrow> size_t \<Rightarrow> bool \<Rightarrow> (addr \<times> pmm) res" where
  "get_next_level ub hhdm s top_level index alloc =
     (let entry = load64 (pmem s) (top_level + 8 * index)
      in if entry AND PTE_PRESENT \<noteq> 0 then Inr (PTE_GET_ADDR entry + hhdm, s)
         else if \<not> alloc then Inr (0, s)
         else bindE (pmm_alloc ub s 1) (\<lambda>(next_level, s).
              Inr (next_level + hhdm,
                   s\<lparr>pmem := store64 (pmem s) (top_level + 8 * index)
                       (next_level OR PTE_PRESENT OR PTE_WRITABLE OR PTE_NX)\<rparr>)))"

definition get_page_table :: "shift_ub \<Rightarrow> addr \<Rightarrow> pmm \<Rightarrow> addr \<Rightarrow> addr \<Rightarrow> bool \<Rightarrow> (addr \<times> pmm) res" where
  "get_page_table ub hhdm s pml4 virt alloc =
     (let pml4_index = drop_bit 39 virt AND 0x1FF;
          pdpt_index = drop_bit 30 virt AND 0x1FF;
          pd_index = drop_bit 21 virt AND 0x1FF
      in bindE (get_next_level ub hhdm s pml4 pml4_index alloc) (\<lambda>(pdpt, s).
         if pdpt = 0 then Inr (0, s)
         else bindE (get_next_level ub hhdm s pdpt pdpt_index alloc) (\<lambda>(pd, s).
         if pd = 0 then Inr (0, s)
         else get_next_level ub hhdm s pd pd_index alloc)))"

definition vmm_map_page :: "shift_ub \<Rightarrow> addr \<Rightarrow> vmm \<Rightarrow> addr \<Rightarrow> addr \<Rightarrow> addr \<Rightarrow> size_t \<Rightarrow> vmm res" where
  "vmm_map_page ub hhdm s pml4 virt phys flags =
     bindE (get_page_table ub hhdm (pm s) pml4 virt True) (\<lambda>(page_table, p).
     if page_table = 0 then Inl Null_Deref
     else Inr (flush_tlb_single
       (s\<lparr>pm := p\<lparr>pmem := store64 (pmem p) (page_table + 8 * VIRT_TO_PT_INDEX virt) (phys OR flags)\<rparr>\<rparr>) virt))"

definition vmm_unmap_page :: "shift_ub \<Rightarrow> addr \<Rightarrow> vmm \<Rightarrow> addr \<Rightarrow> addr \<Rightarrow> vmm res" where
  "vmm_unmap_page ub hhdm s pml4 virt =
     bindE (get_page_table ub hhdm (pm s) pml4 virt False) (\<lambda>(page_table, p).
     if page_table = 0 then Inr (s\<lparr>pm := p\<rparr>)
     else Inr (flush_tlb_single
       (s\<lparr>pm := p\<lparr>pmem := store64 (pmem p) (page_table + 8 * VIRT_TO_PT_INDEX virt) 0\<rparr>\<rparr>) virt))"

definition vmm_alloc_pages :: "shift_ub \<Rightarrow> addr \<Rightarrow> pmm \<Rightarrow> size_t \<Rightarrow> (addr \<times> pmm) res" where
  "vmm_alloc_pages ub hhdm s pages = bindE (pmm_alloc ub s pages) (\<lambda>(ptr, s). Inr (ptr + hhdm, s))"

definition vmm_get_pml4 :: "addr \<Rightarrow> vmm \<Rightarrow> addr" where
  "vmm_get_pml4 hhdm s = cr3 s + hhdm"

definition vmm_load_pml4 :: "addr \<Rightarrow> vmm \<Rightarrow> addr \<Rightarrow> vmm" where
  "vmm_load_pml4 hhdm s pml4 = s\<lparr>cr3 := pml4 - hhdm, tlb := Map.empty\<rparr>"

text \<open>The loop of \<open>vmm_make_pml4\<close>, up to the entry \<open>n\<close>.\<close>

definition copy_to :: "addr \<Rightarrow> addr \<Rightarrow> nat \<Rightarrow> memory \<Rightarrow> memory" where
  "copy_to t u n = fold (\<lambda>i m. store64 m (t + 8 * of_nat i) (load64 m (u + 8 * of_nat i))) [256..<n]"

definition vmm_make_pml4 :: "shift_ub \<Rightarrow> addr \<Rightarrow> vmm \<Rightarrow> (addr \<times> vmm) res" where
  "vmm_make_pml4 ub hhdm s =
     (let s = (if old_pml4 s = 0 then s\<lparr>old_pml4 := vmm_get_pml4 hhdm s\<rparr> else s)
      in bindE (vmm_alloc_pages ub hhdm (pm s) 1) (\<lambda>(new_pml4, p).
         let m = memzero (pmem p) new_pml4 512;
             m = copy_to new_pml4 (old_pml4 s) 512 m
         in Inr (new_pml4, s\<lparr>pm := p\<lparr>pmem := m\<rparr>\<rparr>)))"

definition vmm_get_phys :: "shift_ub \<Rightarrow> addr \<Rightarrow> vmm \<Rightarrow> addr \<Rightarrow> (addr \<times> vmm) res" where
  "vmm_get_phys ub hhdm s virt =
     (let virt = ALIGN_DOWN virt 0x1000
      in bindE (get_page_table ub hhdm (pm s) (vmm_get_pml4 hhdm s) virt True) (\<lambda>(page_table, p).
         if page_table = 0 then Inl Null_Deref
         else let pte_value = load64 (pmem p) (page_table + 8 * VIRT_TO_PT_INDEX virt)
              in Inr (PTE_GET_ADDR pte_value, s\<lparr>pm := p\<rparr>)))"

subsection \<open>The translation that a set of tables defines\<close>

text \<open>
  What the processor does on a miss: from the entry at each level, if it is present, to the next
  table, as long as the walk stays inside the direct map.
\<close>

definition level :: "addr \<Rightarrow> memory \<Rightarrow> addr \<Rightarrow> uint64_t \<Rightarrow> addr option" where
  "level hhdm m t i =
     (let e = load64 m (t + 8 * i)
      in if e AND PTE_PRESENT \<noteq> 0 \<and> PTE_GET_ADDR e + hhdm \<noteq> 0 then Some (PTE_GET_ADDR e + hhdm) else None)"

definition table_path :: "addr \<Rightarrow> memory \<Rightarrow> addr \<Rightarrow> addr \<Rightarrow> (addr \<times> addr \<times> addr) option" where
  "table_path hhdm m pml4 virt =
     (case level hhdm m pml4 (drop_bit 39 virt AND 0x1FF) of None \<Rightarrow> None | Some t1 \<Rightarrow>
      case level hhdm m t1 (drop_bit 30 virt AND 0x1FF) of None \<Rightarrow> None | Some t2 \<Rightarrow>
      case level hhdm m t2 (drop_bit 21 virt AND 0x1FF) of None \<Rightarrow> None | Some t3 \<Rightarrow> Some (t1, t2, t3))"

definition translate :: "addr \<Rightarrow> memory \<Rightarrow> addr \<Rightarrow> addr \<Rightarrow> uint64_t option" where
  "translate hhdm m pml4 virt =
     map_option (\<lambda>(t1, t2, t3). load64 m (t3 + 8 * VIRT_TO_PT_INDEX virt)) (table_path hhdm m pml4 virt)"

subsection \<open>Cells of tables\<close>

lemma index_less: "unat ((x :: uint64_t) AND 0x1FF) < 512"
proof -
  have "x AND 0x1FF = take_bit 9 x" by (simp add: take_bit_eq_mask mask_eq_exp_minus_1)
  moreover have "unat (take_bit 9 x) < 2 ^ 9" unfolding unsigned_take_bit_eq by (rule take_bit_nat_less_exp)
  ultimately show ?thesis by simp
qed

lemma pt_index_less: "unat (VIRT_TO_PT_INDEX v) < 512"
  unfolding VIRT_TO_PT_INDEX_def by (rule index_less)

lemma cell_nat:
  assumes "unat (t :: addr) mod 4096 = 0" and "unat i < 512"
  shows "t + 8 * i = of_nat (unat t + 8 * unat i)" and "unat t + 8 * unat i + 8 \<le> 2 ^ 64"
proof -
  show "t + 8 * i = of_nat (unat t + 8 * unat i)" by simp
  have "unat t + 4096 \<le> 2 ^ 64"
  proof -
    have "unat t < 2 ^ 64" by (rule unat_less_64)
    then show ?thesis using assms(1) by (auto simp: mod_eq_0_iff_dvd elim!: dvdE)
  qed
  then show "unat t + 8 * unat i + 8 \<le> 2 ^ 64" using assms(2) by simp
qed

lemma cells_apart:
  assumes "unat (t :: addr) mod 4096 = 0" "unat (u :: addr) mod 4096 = 0" "unat i < 512" "unat j < 512"
    and "t \<noteq> u \<or> i \<noteq> j"
  shows "load64 (store64 m (u + 8 * j) v) (t + 8 * i) = load64 m (t + 8 * i)"
proof -
  have "unat t + 8 * unat i + 8 \<le> unat u + 8 * unat j \<or> unat u + 8 * unat j + 8 \<le> unat t + 8 * unat i"
  proof (cases "t = u")
    case True
    then have "unat i \<noteq> unat j" using assms(5) by (simp add: word_unat_eq_iff)
    with True show ?thesis by auto
  next
    case False
    then have "unat t \<noteq> unat u" by (simp add: word_unat_eq_iff)
    moreover obtain x y where "unat t = 4096 * x" "unat u = 4096 * y"
      using assms(1,2) by (auto simp: mod_eq_0_iff_dvd elim!: dvdE)
    ultimately show ?thesis using assms(3,4) by (cases "x < y") auto
  qed
  then show ?thesis
    unfolding cell_nat(1) [OF assms(1,3)] cell_nat(1) [OF assms(2,4)]
    by (rule load64_store64_nat) (use cell_nat(2) [OF assms(1,3)] cell_nat(2) [OF assms(2,4)] in auto)
qed

lemma page_aligned_iff: "unat (x :: uint64_t) mod 4096 = 0 \<longleftrightarrow> (\<forall>k < 12. \<not> bit x k)"
proof -
  have "unat x mod 4096 = 0 \<longleftrightarrow> take_bit 12 x = 0"
    by (simp add: take_bit_eq_mod unat_arith_simps unat_mod)
  then show ?thesis by (auto simp: bit_eq_iff bit_simps)
qed

lemma PTE_ADDR_MASK_bits: "PTE_ADDR_MASK = push_bit 12 (mask 40)"
  by (simp add: PTE_ADDR_MASK_def mask_eq_exp_minus_1)

lemma pte_addr_aligned: "unat (PTE_GET_ADDR e) mod 4096 = 0"
  by (simp add: page_aligned_iff PTE_GET_ADDR_def PTE_ADDR_MASK_bits bit_simps)

lemma page_add:
  assumes "unat (x :: addr) mod 4096 = 0" "unat (y :: addr) mod 4096 = 0"
  shows "unat (x + y) mod 4096 = 0"
proof -
  have "unat (x + y) = (unat x + unat y) mod 2 ^ 64" by (simp add: unat_word_ariths)
  moreover have "(unat x + unat y) mod 2 ^ 64 mod 4096 = (unat x + unat y) mod 4096" by (rule mod_mod_cancel) simp
  ultimately show ?thesis using assms by (metis mod_add_eq add_0 mod_0)
qed

lemma level_aligned:
  "unat hhdm mod 4096 = 0 \<Longrightarrow> level hhdm m t i = Some u \<Longrightarrow> unat u mod 4096 = 0"
  by (auto simp: level_def Let_def page_add pte_addr_aligned split: if_splits)

lemma table_path_eq:
  "table_path hhdm m pml4 virt = Some (t1, t2, t3) \<longleftrightarrow>
     level hhdm m pml4 (drop_bit 39 virt AND 0x1FF) = Some t1 \<and>
     level hhdm m t1 (drop_bit 30 virt AND 0x1FF) = Some t2 \<and>
     level hhdm m t2 (drop_bit 21 virt AND 0x1FF) = Some t3"
  by (auto simp: table_path_def split: option.splits)

lemma path_aligned:
  "unat hhdm mod 4096 = 0 \<Longrightarrow> table_path hhdm m pml4 virt = Some (t1, t2, t3) \<Longrightarrow>
   unat t1 mod 4096 = 0 \<and> unat t2 mod 4096 = 0 \<and> unat t3 mod 4096 = 0"
  unfolding table_path_eq by (metis level_aligned)

lemma next_level_present: "level hhdm (pmem s) t i = Some u \<Longrightarrow> get_next_level ub hhdm s t i alloc = Inr (u, s) \<and> u \<noteq> 0"
  by (auto simp: level_def get_next_level_def Let_def split: if_splits)

lemma next_level_absent: "level hhdm (pmem s) t i = None \<Longrightarrow> get_next_level ub hhdm s t i False = Inr (0, s)"
  by (auto simp: level_def get_next_level_def Let_def split: if_splits)

lemma page_table_present:
  "table_path hhdm (pmem s) pml4 virt = Some (t1, t2, t3) \<Longrightarrow> get_page_table ub hhdm s pml4 virt alloc = Inr (t3, s) \<and> t3 \<noteq> 0"
  unfolding table_path_eq by (auto simp: get_page_table_def Let_def dest!: next_level_present [where ub = ub and alloc = alloc])

lemma page_table_absent:
  assumes "table_path hhdm (pmem s) pml4 virt = None"
  shows "get_page_table ub hhdm s pml4 virt False = Inr (0, s)"
  using assms
  by (auto simp: table_path_def get_page_table_def Let_def next_level_absent split: option.splits
      dest!: next_level_present [where alloc = False and ub = ub])

text \<open>A store to an entry of a last-level table leaves the paths through other tables alone.\<close>

lemma level_store:
  assumes "unat t mod 4096 = 0" "unat u mod 4096 = 0" "unat i < 512" "unat j < 512" "t \<noteq> u \<or> i \<noteq> j"
  shows "level hhdm (store64 m (u + 8 * j) v) t i = level hhdm m t i"
  unfolding level_def cells_apart [OF assms] ..

lemma path_store:
  assumes a: "unat hhdm mod 4096 = 0" "unat pml4 mod 4096 = 0" "unat u mod 4096 = 0" "unat j < 512"
    and p: "table_path hhdm m pml4 virt = Some (t1, t2, t3)" and n: "u \<notin> {pml4, t1, t2}"
  shows "table_path hhdm (store64 m (u + 8 * j) v) pml4 virt = Some (t1, t2, t3)"
proof -
  note al = path_aligned [OF a(1) p]
  have "level hhdm (store64 m (u + 8 * j) v) t i = level hhdm m t i"
    if "t \<in> {pml4, t1, t2}" "unat i < 512" for t i
    by (rule level_store) (use that n al a in auto)
  then show ?thesis using p unfolding table_path_eq by (simp add: index_less)
qed

lemma translate_store:
  assumes a: "unat hhdm mod 4096 = 0" "unat pml4 mod 4096 = 0" "unat u mod 4096 = 0" "unat j < 512"
    and p: "table_path hhdm m pml4 virt = Some (t1, t2, t3)" and n: "u \<notin> {pml4, t1, t2}"
  shows "translate hhdm (store64 m (u + 8 * j) v) pml4 virt =
    (if u = t3 \<and> j = VIRT_TO_PT_INDEX virt then Some v else translate hhdm m pml4 virt)"
proof -
  have "load64 (store64 m (u + 8 * j) v) (t3 + 8 * VIRT_TO_PT_INDEX virt) = load64 m (t3 + 8 * VIRT_TO_PT_INDEX virt)"
    if "\<not> (u = t3 \<and> j = VIRT_TO_PT_INDEX virt)"
    by (rule cells_apart) (use that path_aligned [OF a(1) p] a pt_index_less in auto)
  then show ?thesis using path_store [OF assms, of v] p by (auto simp: translate_def)
qed

lemma pt_index_align: "k \<ge> 12 \<Longrightarrow> drop_bit k (ALIGN_DOWN virt 0x1000) = drop_bit k virt"
proof -
  assume k: "k \<ge> 12"
  have e: "ALIGN_DOWN virt 0x1000 = virt AND NOT (mask 12)" by (simp add: ALIGN_DOWN_def mask_eq_exp_minus_1)
  show ?thesis unfolding e by (rule bit_word_eqI) (use k in \<open>auto simp: bit_simps dest: bit_imp_le_length\<close>)
qed

lemma get_addr_or:
  assumes "unat phys mod 4096 = 0" and "unat phys < 2 ^ 52" and "flags AND PTE_ADDR_MASK = 0"
  shows "PTE_GET_ADDR (phys OR flags) = phys"
proof (rule bit_word_eqI)
  fix n assume "n < LENGTH(64)"
  have "take_bit 52 phys = phys" using assms(2) by (simp add: word_unat_eq_iff unsigned_take_bit_eq take_bit_nat_eq_self)
  then have "bit phys n \<Longrightarrow> n < 52" by (metis bit_take_bit_iff)
  moreover have "bit phys n \<Longrightarrow> 12 \<le> n" using assms(1) unfolding page_aligned_iff by (meson not_le)
  moreover have "\<not> (bit flags n \<and> bit PTE_ADDR_MASK n)" using assms(3) by (metis bit_and_iff bit_0_eq bot_apply bot_bool_def)
  ultimately show "bit (PTE_GET_ADDR (phys OR flags)) n = bit phys n"
    using \<open>n < LENGTH(64)\<close> by (auto simp: PTE_GET_ADDR_def PTE_ADDR_MASK_bits bit_simps)
qed

subsection \<open>New tables\<close>

lemma new_entry:
  assumes "unat f mod 4096 = 0" and "unat f < 2 ^ 52"
  shows "PTE_GET_ADDR (f OR PTE_PRESENT OR PTE_WRITABLE OR PTE_NX) = f"
    and "(f OR PTE_PRESENT OR PTE_WRITABLE OR PTE_NX) AND PTE_PRESENT \<noteq> 0"
proof -
  have "(PTE_PRESENT OR PTE_WRITABLE OR PTE_NX) AND PTE_ADDR_MASK = 0"
    by (simp add: PTE_PRESENT_def PTE_WRITABLE_def PTE_NX_def PTE_ADDR_MASK_def)
  from get_addr_or [OF assms this] show "PTE_GET_ADDR (f OR PTE_PRESENT OR PTE_WRITABLE OR PTE_NX) = f"
    by (simp add: or.assoc)
  have "bit ((f OR PTE_PRESENT OR PTE_WRITABLE OR PTE_NX) AND PTE_PRESENT) 0"
    by (simp add: PTE_PRESENT_def bit_simps)
  then show "(f OR PTE_PRESENT OR PTE_WRITABLE OR PTE_NX) AND PTE_PRESENT \<noteq> 0" by auto
qed

lemma level_cong: "load64 m (t + 8 * i) = load64 m' (t + 8 * i) \<Longrightarrow> level hhdm m t i = level hhdm m' t i"
  by (simp add: level_def)

lemma load64_zero: "(\<And>x. x \<in> span a 8 \<Longrightarrow> m x = 0) \<Longrightarrow> load64 m a = 0"
proof -
  assume z: "\<And>x. x \<in> span a 8 \<Longrightarrow> m x = 0"
  have "load64 m a = load64 (\<lambda>_. 0) a" by (rule load64_cong) (simp add: z)
  moreover have "load_le n (\<lambda>_. 0) b = (0 :: uint64_t)" for n b by (induction n arbitrary: b) simp_all
  ultimately show ?thesis by (simp add: load64_def)
qed

lemma entry_bytes: "x \<in> span (t + 8 * of_nat i) 8 \<longleftrightarrow> (\<exists>j < 8. x = t + of_nat (8 * i + j))"
  unfolding span_def by (simp add: add.assoc) blast

lemma memzero_entries:
  assumes "i < 512"
  shows "load64 (memzero m t 512) (t + 8 * of_nat i) = (if i < 64 then 0 else load64 m (t + 8 * of_nat i))"
proof (cases "i < 64")
  case True
  have "memzero m t 512 x = 0" if x: "x \<in> span (t + 8 * of_nat i) 8" for x
  proof -
    obtain j where j: "j < 8" "x = t + of_nat (8 * i + j)" using x unfolding entry_bytes by blast
    with True have "8 * i + j < unat (512 :: size_t)" by simp
    from memset_inside [OF this] show ?thesis unfolding j(2) memzero_memset .
  qed
  then show ?thesis using True load64_zero by (simp only: if_True)
next
  case False
  have "memzero m t 512 x = m x" if x: "x \<in> span (t + 8 * of_nat i) 8" for x
  proof -
    obtain j where j: "j < 8" "x = t + of_nat (8 * i + j)" using x unfolding entry_bytes by blast
    have "x \<notin> span t (unat (512 :: size_t))"
    proof
      assume "x \<in> span t (unat (512 :: size_t))"
      then obtain k where k: "k < 512" "x = t + of_nat k" unfolding span_def by auto
      moreover have "k = 8 * i + j \<longleftrightarrow> t + of_nat k = t + of_nat (8 * i + j)"
        by (rule inj_offset [symmetric]) (use k(1) j(1) assms in simp_all)
      ultimately show False using False j by simp
    qed
    from memset_outside [OF this] show ?thesis unfolding memzero_memset .
  qed
  then have "load64 (memzero m t 512) (t + 8 * of_nat i) = load64 m (t + 8 * of_nat i)" by (rule load64_cong)
  then show ?thesis using False by (simp only: if_False)
qed

lemma copy_entries:
  assumes "unat t mod 4096 = 0" "unat u mod 4096 = 0" "t \<noteq> u" and "256 \<le> n" "n \<le> 512" and "i < 512"
  shows "load64 (copy_to t u n m) (t + 8 * of_nat i) = load64 m ((if 256 \<le> i \<and> i < n then u else t) + 8 * of_nat i) \<and>
    load64 (copy_to t u n m) (u + 8 * of_nat i) = load64 m (u + 8 * of_nat i)"
  using assms(4-6)
proof (induction n arbitrary: i rule: dec_induct)
  case base
  then show ?case by (auto simp: copy_to_def)
next
  case (step n)
  have le: "unat (of_nat k :: uint64_t) < 512" if "k < 512" for k
    using that by (simp add: unsigned_of_nat take_bit_nat_eq_self)
  have ne: "i \<noteq> n \<Longrightarrow> (of_nat i :: uint64_t) \<noteq> of_nat n"
    using step.prems of_nat_addr_eq_iff [of i n] by simp
  have n: "n < 512" using step.prems by simp
  let ?m = "copy_to t u n m" and ?v = "load64 m (u + 8 * of_nat n)"
  have up: "copy_to t u (Suc n) m = store64 ?m (t + 8 * of_nat n) ?v"
    using step.hyps step.IH [of n] n by (simp add: copy_to_def)
  show ?case
  proof (cases "i = n")
    case True
    then show ?thesis
      using step.IH [of i] step.prems step.hyps cells_apart [OF assms(2,1) le le, of i n ?m ?v] assms(3) n
      by (simp add: up)
  next
    case False
    then show ?thesis
      using step.IH [of i] step.prems step.hyps n ne cells_apart [OF assms(2,1) le le, of i n ?m ?v] assms(3)
        cells_apart [OF assms(1,1) le le, of i n ?m ?v] by (auto simp: up less_Suc_eq)
  qed
qed

subsection \<open>Properties\<close>

text \<open>Tables for the page 0: one of each level, in consecutive frames of the direct map.\<close>

definition demo_vmm :: vmm where
  "demo_vmm =
     \<lparr>pm = \<lparr>pmem = store64 (store64 (store64 (\<lambda>_. 0) 0x100001000 0x2003) 0x100002000 0x3003) 0x100003000 0x4003,
            mmap = [], pbitmap = 0\<rparr>, cr3 = 0x1000, tlb = Map.empty, old_pml4 = 0\<rparr>"

lemma demo_vmm_path:
  "table_path 0x100000000 (pmem (pm demo_vmm)) 0x100001000 0 = Some (0x100002000, 0x100003000, 0x100004000)"
proof -
  have "load64 (pmem (pm demo_vmm)) 0x100001000 = 0x2003" "load64 (pmem (pm demo_vmm)) 0x100002000 = 0x3003"
    "load64 (pmem (pm demo_vmm)) 0x100003000 = 0x4003"
    using cells_apart [of "0x100001000" "0x100002000" 0 0] cells_apart [of "0x100001000" "0x100003000" 0 0]
      cells_apart [of "0x100002000" "0x100003000" 0 0]
    by (simp_all add: demo_vmm_def)
  then show ?thesis
    by (simp add: table_path_def level_def PTE_PRESENT_def PTE_GET_ADDR_def PTE_ADDR_MASK_def)
qed

text \<open>C27: mapping a page whose three upper tables exist makes the tables translate it to the given
  frame and flags and drops any cached translation of it. Every other page whose walk does not use
  the written table as an upper level keeps its translation.\<close>

theorem vmm_map_page_correct:
  assumes "unat hhdm mod 4096 = 0" and "unat pml4 mod 4096 = 0"
    and "table_path hhdm (pmem (pm s)) pml4 virt = Some (t1, t2, t3)" and "t3 \<notin> {pml4, t1, t2}"
  shows "\<exists>s'. vmm_map_page ub hhdm s pml4 virt phys flags = Inr s' \<and>
    translate hhdm (pmem (pm s')) pml4 virt = Some (phys OR flags) \<and> tlb s' (drop_bit 12 virt) = None \<and>
    (\<forall>v u1 u2 u3. table_path hhdm (pmem (pm s)) pml4 v = Some (u1, u2, u3) \<longrightarrow> t3 \<notin> {pml4, u1, u2} \<longrightarrow>
       u3 \<noteq> t3 \<or> VIRT_TO_PT_INDEX v \<noteq> VIRT_TO_PT_INDEX virt \<longrightarrow>
       translate hhdm (pmem (pm s')) pml4 v = translate hhdm (pmem (pm s)) pml4 v)"
proof -
  let ?m = "store64 (pmem (pm s)) (t3 + 8 * VIRT_TO_PT_INDEX virt) (phys OR flags)"
  let ?s = "flush_tlb_single (s\<lparr>pm := (pm s)\<lparr>pmem := ?m\<rparr>\<rparr>) virt"
  have "vmm_map_page ub hhdm s pml4 virt phys flags = Inr ?s"
    using page_table_present [OF assms(3), of ub True] by (simp add: vmm_map_page_def)
  moreover have "pmem (pm ?s) = ?m" "tlb ?s (drop_bit 12 virt) = None" by (simp_all add: flush_tlb_single_def)
  moreover have t3: "unat t3 mod 4096 = 0" using path_aligned [OF assms(1,3)] by simp
  moreover note translate_store [OF assms(1,2) t3 pt_index_less]
  ultimately show ?thesis using assms(3,4) by (intro exI [of _ ?s]) auto
qed

theorem vmm_map_page_correct_witness:
  "\<exists>s'. vmm_map_page shr32 0x100000000 demo_vmm 0x100001000 0 0x7000 3 = Inr s' \<and>
     translate 0x100000000 (pmem (pm s')) 0x100001000 0 = Some 0x7003"
  using vmm_map_page_correct [of "0x100000000" "0x100001000" demo_vmm 0 "0x100002000" "0x100003000" "0x100004000" shr32 "0x7000" 3]
    demo_vmm_path by auto

text \<open>unmapping a page clears its entry and drops its cached translation; where an upper table is
  missing it does nothing, and it never allocates.\<close>

lemma vmm_unmap_page_correct:
  assumes "unat hhdm mod 4096 = 0" and "unat pml4 mod 4096 = 0"
    and "\<And>t1 t2 t3. table_path hhdm (pmem (pm s)) pml4 virt = Some (t1, t2, t3) \<Longrightarrow> t3 \<notin> {pml4, t1, t2}"
  shows "\<exists>s'. vmm_unmap_page ub hhdm s pml4 virt = Inr s' \<and> pbitmap (pm s') = pbitmap (pm s) \<and>
    (case translate hhdm (pmem (pm s)) pml4 virt of
       None \<Rightarrow> s' = s
     | Some e \<Rightarrow> translate hhdm (pmem (pm s')) pml4 virt = Some 0 \<and> tlb s' (drop_bit 12 virt) = None)"
proof (cases "table_path hhdm (pmem (pm s)) pml4 virt")
  case None
  then show ?thesis
    using page_table_absent [OF None, of ub] by (simp add: vmm_unmap_page_def translate_def)
next
  case (Some t)
  obtain t1 t2 t3 where "t = (t1, t2, t3)" by (cases t) auto
  with Some have p: "table_path hhdm (pmem (pm s)) pml4 virt = Some (t1, t2, t3)" by simp
  let ?m = "store64 (pmem (pm s)) (t3 + 8 * VIRT_TO_PT_INDEX virt) 0"
  let ?s = "flush_tlb_single (s\<lparr>pm := (pm s)\<lparr>pmem := ?m\<rparr>\<rparr>) virt"
  have "vmm_unmap_page ub hhdm s pml4 virt = Inr ?s"
    using page_table_present [OF p, of ub False] by (simp add: vmm_unmap_page_def)
  moreover have t3: "unat t3 mod 4096 = 0" using path_aligned [OF assms(1) p] by simp
  moreover note translate_store [OF assms(1,2) t3 pt_index_less p assms(3) [OF p], of virt 0]
  ultimately show ?thesis using p by (intro exI [of _ ?s]) (auto simp: flush_tlb_single_def translate_def)
qed



text \<open>mapping a page whose last-level table is missing installs the frame that \<open>pmm_alloc\<close> returns
  and makes the tables translate the page as asked. The new table is not cleared: every other page of
  the same 2 MiB region gets whatever entry the frame happened to hold.\<close>

lemma vmm_map_page_new_table:
  assumes "unat hhdm mod 4096 = 0" and "unat pml4 mod 4096 = 0"
    and "level hhdm (pmem (pm s)) pml4 (drop_bit 39 virt AND 0x1FF) = Some t1"
    and "level hhdm (pmem (pm s)) t1 (drop_bit 30 virt AND 0x1FF) = Some t2"
    and "load64 (pmem (pm s)) (t2 + 8 * (drop_bit 21 virt AND 0x1FF)) AND PTE_PRESENT = 0"
    and "pmm_alloc ub (pm s) 1 = Inr (f, p)" and "unat f mod 4096 = 0" and "unat f < 2 ^ 52" and "f + hhdm \<noteq> 0"
    and "\<And>t i. t \<in> {pml4, t1} \<Longrightarrow> unat i < 512 \<Longrightarrow> load64 (pmem p) (t + 8 * i) = load64 (pmem (pm s)) (t + 8 * i)"
    and "t2 \<notin> {pml4, t1}" and "f + hhdm \<notin> {pml4, t1, t2}"
  shows "\<exists>s'. vmm_map_page ub hhdm s pml4 virt phys flags = Inr s' \<and>
    translate hhdm (pmem (pm s')) pml4 virt = Some (phys OR flags) \<and>
    (\<forall>v. drop_bit 21 v = drop_bit 21 virt \<longrightarrow> VIRT_TO_PT_INDEX v \<noteq> VIRT_TO_PT_INDEX virt \<longrightarrow>
       translate hhdm (pmem (pm s')) pml4 v = Some (load64 (pmem p) (f + hhdm + 8 * VIRT_TO_PT_INDEX v)))"
proof -
  let ?i3 = "drop_bit 21 virt AND 0x1FF" and ?t3 = "f + hhdm" and ?e = "f OR PTE_PRESENT OR PTE_WRITABLE OR PTE_NX"
  let ?m1 = "store64 (pmem p) (t2 + 8 * ?i3) ?e"
  let ?m2 = "store64 ?m1 (?t3 + 8 * VIRT_TO_PT_INDEX virt) (phys OR flags)"
  let ?s = "flush_tlb_single (s\<lparr>pm := p\<lparr>pmem := ?m2\<rparr>\<rparr>) virt"
  have al: "unat t1 mod 4096 = 0" "unat t2 mod 4096 = 0" "unat ?t3 mod 4096 = 0"
    using level_aligned [OF assms(1,3)] level_aligned [OF assms(1,4)] page_add [OF assms(7,1)] by simp_all
  have "get_next_level ub hhdm (pm s) t2 ?i3 True = Inr (?t3, p\<lparr>pmem := ?m1\<rparr>)"
    using assms(5,6) by (simp add: get_next_level_def)
  then have "get_page_table ub hhdm (pm s) pml4 virt True = Inr (?t3, p\<lparr>pmem := ?m1\<rparr>)"
    using next_level_present [OF assms(3), of ub True] next_level_present [OF assms(4), of ub True]
    by (simp add: get_page_table_def)
  then have r: "vmm_map_page ub hhdm s pml4 virt phys flags = Inr ?s" using assms(9) by (simp add: vmm_map_page_def)
  have up: "level hhdm ?m1 t i = level hhdm (pmem (pm s)) t i" if "t \<in> {pml4, t1}" "unat i < 512" for t i
    using level_store [of t t2 i ?i3 hhdm "pmem p" ?e] level_cong [OF assms(10) [OF that]] that al assms(2,11) index_less
    by auto
  have "level hhdm ?m1 t2 ?i3 = Some ?t3" using new_entry [OF assms(7,8)] assms(9) by (simp add: level_def)
  then have path: "table_path hhdm ?m1 pml4 v = Some (t1, t2, ?t3)" if "drop_bit 21 v = drop_bit 21 virt" for v
  proof -
    have "drop_bit k v = drop_bit k virt" if "21 \<le> k" for k
      using \<open>drop_bit 21 v = drop_bit 21 virt\<close> that by (metis drop_bit_drop_bit le_add_diff_inverse2)
    then show ?thesis
      using \<open>level hhdm ?m1 t2 ?i3 = Some ?t3\<close> up index_less assms(3,4) unfolding table_path_eq by simp
  qed
  have t3: "?t3 \<notin> {pml4, t1, t2}" using assms(12) .
  have old: "translate hhdm ?m1 pml4 v = Some (load64 (pmem p) (?t3 + 8 * VIRT_TO_PT_INDEX v))"
    if "drop_bit 21 v = drop_bit 21 virt" for v
    using path [OF that] cells_apart [OF al(3,2) pt_index_less index_less, of v "drop_bit 21 virt" "pmem p" ?e] t3
    by (simp add: translate_def)
  show ?thesis
    using r translate_store [OF assms(1,2) al(3) pt_index_less path t3, of _ virt "phys OR flags"] old
    by (intro exI [of _ ?s]) (simp add: flush_tlb_single_def)
qed

text \<open>Tables without a last level, in memory that is otherwise all ones, and the frame \<open>0x8000\<close> for a new one.\<close>

definition demo_bare :: vmm where
  "demo_bare =
     \<lparr>pm = \<lparr>pmem = store64 (store64 (store64 (\<lambda>_. 255) 0x100010000 0x11003) 0x100011000 0x12003) 0x100012000 0,
            mmap = demo_map, pbitmap = 0x1000\<rparr>, cr3 = 0x10000, tlb = Map.empty, old_pml4 = 0\<rparr>"

lemma demo_bare_entries:
  "load64 (pmem (pm demo_bare)) 0x100010000 = 0x11003" "load64 (pmem (pm demo_bare)) 0x100011000 = 0x12003"
  "load64 (pmem (pm demo_bare)) 0x100012000 = 0"
  using cells_apart [of "0x100010000" "0x100011000" 0 0] cells_apart [of "0x100010000" "0x100012000" 0 0]
    cells_apart [of "0x100011000" "0x100012000" 0 0]
  by (simp_all add: demo_bare_def)

lemma demo_bare_byte: "x \<in> {0x1000, 0x1001} \<Longrightarrow> pmem (pm demo_bare) x = 255"
  using of_nat_notin_span [of "unat x" "0x100010000" 8] of_nat_notin_span [of "unat x" "0x100011000" 8]
    of_nat_notin_span [of "unat x" "0x100012000" 8]
  by (auto simp: demo_bare_def store64_notin)

lemma demo_bare_alloc:
  "pmm_alloc shr32 (pm demo_bare) 1 = Inr (0x8000, (pm demo_bare)\<lparr>pmem := bitmap_set_bit (pmem (pm demo_bare)) 0x1000 8\<rparr>)"
proof -
  have b: "pbitmap (pm demo_bare) = 0x1000" "mmap (pm demo_bare) = demo_map" by (simp_all add: demo_bare_def)
  have "frame_used (pm demo_bare) k" if k: "k < 8" for k
  proof -
    have "pmem (pm demo_bare) (0x1000 + of_nat (k div 8)) = mask 8"
      using demo_bare_byte [of "0x1000"] k by (simp add: mask_eq_exp_minus_1)
    then show ?thesis using k by (simp add: frame_used_def bm_def b bit_mask_iff)
  qed
  then show ?thesis using alloc_one [of "pm demo_bare" "0x1000" shr32] b by simp
qed

lemma bitmap_set_far:
  assumes "unat a + 8 \<le> 2 ^ 64" and "0x2000 \<le> unat a"
  shows "load64 (bitmap_set_bit m 0x1000 8) a = load64 m a"
proof (rule load64_cong)
  fix x assume "x \<in> span a 8"
  then have "x \<noteq> 0x1001" using of_nat_notin_span [of "0x1001" "unat a" 8] assms by auto
  then show "bitmap_set_bit m 0x1000 8 x = m x" by (simp add: bitmap_set_bit_def)
qed

text \<open>C29: a new top-level table shares the upper half of the first address space, so the kernel is
  mapped in every address space. Of the lower half only the first 64 of the 256 entries are cleared
  (\<open>memzero\<close> is given 512, the number of entries, as a number of bytes); the others keep what the frame
  held.\<close>

theorem vmm_make_pml4_correct:
  assumes "unat hhdm mod 4096 = 0" and "pmm_alloc ub (pm s) 1 = Inr (f, p)" and "unat f mod 4096 = 0"
    and "old = (if old_pml4 s = 0 then cr3 s + hhdm else old_pml4 s)" and "unat old mod 4096 = 0" and "f + hhdm \<noteq> old"
  shows "\<exists>s'. vmm_make_pml4 ub hhdm s = Inr (f + hhdm, s') \<and> old_pml4 s' = old \<and>
    (\<forall>i < 512. load64 (pmem (pm s')) (f + hhdm + 8 * of_nat i) =
       (if 256 \<le> i then load64 (memzero (pmem p) (f + hhdm) 512) (old + 8 * of_nat i)
        else if i < 64 then 0 else load64 (pmem p) (f + hhdm + 8 * of_nat i)))"
proof -
  let ?t = "f + hhdm"
  let ?m = "copy_to ?t old 512 (memzero (pmem p) ?t 512)"
  let ?s = "s\<lparr>old_pml4 := old, pm := p\<lparr>pmem := ?m\<rparr>\<rparr>"
  have t: "unat ?t mod 4096 = 0" using assms(1,3) by (rule page_add [rotated])
  have "vmm_make_pml4 ub hhdm s = Inr (?t, ?s)"
    using assms(2,4) by (simp add: vmm_make_pml4_def vmm_alloc_pages_def vmm_get_pml4_def Let_def)
  moreover have "load64 ?m (?t + 8 * of_nat i) =
      (if 256 \<le> i then load64 (memzero (pmem p) ?t 512) (old + 8 * of_nat i)
       else if i < 64 then 0 else load64 (pmem p) (?t + 8 * of_nat i))" if i: "i < 512" for i
    using copy_entries [OF t assms(5,6) _ _ i, of 512 "memzero (pmem p) ?t 512"] memzero_entries [OF i, of "pmem p" ?t] i
    by simp
  ultimately show ?thesis by (intro exI [of _ ?s]) simp
qed

theorem vmm_make_pml4_correct_witness:
  "\<exists>s'. vmm_make_pml4 shr32 0x100000000 demo_bare = Inr (0x100008000, s') \<and> old_pml4 s' = 0x100010000 \<and>
    load64 (pmem (pm s')) 0x100008008 = 0"
proof -
  have c: "old_pml4 demo_bare = 0" "cr3 demo_bare = 0x10000" by (simp_all add: demo_bare_def)
  obtain s' where "vmm_make_pml4 shr32 0x100000000 demo_bare = Inr (0x100008000, s')" "old_pml4 s' = 0x100010000"
    and e: "\<forall>i < 512. load64 (pmem (pm s')) (0x100008000 + 8 * of_nat i) =
       (if 256 \<le> i then load64 (memzero (bitmap_set_bit (pmem (pm demo_bare)) 0x1000 8) 0x100008000 512) (0x100010000 + 8 * of_nat i)
        else if i < 64 then 0 else load64 (bitmap_set_bit (pmem (pm demo_bare)) 0x1000 8) (0x100008000 + 8 * of_nat i))"
    using vmm_make_pml4_correct [OF _ demo_bare_alloc, of "0x100000000" "0x100010000"] c by auto
  moreover have "load64 (pmem (pm s')) 0x100008008 = 0" using e [rule_format, of 1] by simp
  ultimately show ?thesis by blast
qed

end
