(* ===== verification/Heap.thy ===== *)
theory Heap
  imports Tlsf_Check Vmm
begin

text \<open>
  The kernel heap, \<^verbatim>\<open>sys/mm/heap.c\<close>: a TLSF heap of \<open>HEAP_SIZE_PAGES\<close> pages behind \<open>kmalloc\<close>,
  \<open>kcalloc\<close>, \<open>krealloc\<close> and \<open>kfree\<close>, and the interface that its clients rely on, the locale
  \<open>allocator\<close>. The locale is interpreted on TLSF and on the kernel heap.
\<close>

record kheap =
  tlsf_ctx :: "tlsf option"
  bytes_allocated :: size_t

definition HEAP_SIZE_PAGES :: size_t where "HEAP_SIZE_PAGES = 30"

text \<open>The heap lives in the memory of the physical memory manager, which \<open>heap_init\<close> hands over.\<close>

definition heap_init :: "shift_ub \<Rightarrow> addr \<Rightarrow> kheap \<Rightarrow> pmm \<Rightarrow> (kheap \<times> pmm) res" where
  "heap_init ub hhdm h s =
     bindE (vmm_alloc_pages ub hhdm s HEAP_SIZE_PAGES) (\<lambda>(p, s).
     bindE (tlsf_create_with_pool (pmem s) p (HEAP_SIZE_PAGES * 4096)) (\<lambda>ctx.
     Inr (h\<lparr>tlsf_ctx := ctx\<rparr>,
          case ctx of None \<Rightarrow> s | Some t \<Rightarrow> s\<lparr>pmem := mem t\<rparr>)))"

text \<open>
  The context is null before \<open>heap_init\<close> (and after it, if the memory is not aligned). TLSF then
  reads its control structure through the null pointer, except for requests that need no block.
\<close>

definition kmalloc :: "kheap \<Rightarrow> size_t \<Rightarrow> (addr \<times> kheap) res" where
  "kmalloc h sz =
     (let h = h\<lparr>bytes_allocated := bytes_allocated h + sz\<rparr>
      in case tlsf_ctx h of
           None \<Rightarrow> bindE (adjust_request_size sz (of_int ALIGN_SIZE)) (\<lambda>adjust.
                   if adjust = 0 then Inr (0, h) else Inl Null_Deref)
         | Some t \<Rightarrow> bindE (tlsf_malloc t sz) (\<lambda>(p, t). Inr (p, h\<lparr>tlsf_ctx := Some t\<rparr>)))"

definition kcalloc :: "kheap \<Rightarrow> size_t \<Rightarrow> size_t \<Rightarrow> (addr \<times> kheap) res" where
  "kcalloc h nmemb sz =
     bindE (kmalloc h (sz * nmemb)) (\<lambda>(p, h).
     if p = 0 \<and> sz * nmemb \<noteq> 0 then Inl Null_Deref
     else Inr (p, h\<lparr>tlsf_ctx := map_option (\<lambda>t. t\<lparr>mem := memzero (mem t) p (sz * nmemb)\<rparr>) (tlsf_ctx h)\<rparr>))"

definition krealloc :: "kheap \<Rightarrow> addr \<Rightarrow> size_t \<Rightarrow> (addr \<times> kheap) res" where
  "krealloc h ptr sz =
     (case tlsf_ctx h of
        None \<Rightarrow> if ptr = 0
                then bindE (adjust_request_size sz (of_int ALIGN_SIZE)) (\<lambda>adjust.
                     if adjust = 0 then Inr (0, h) else Inl Null_Deref)
                else Inl Null_Deref
      | Some t \<Rightarrow> bindE (tlsf_realloc t ptr sz) (\<lambda>(p, t). Inr (p, h\<lparr>tlsf_ctx := Some t\<rparr>)))"

definition kfree :: "kheap \<Rightarrow> addr \<Rightarrow> kheap res" where
  "kfree h ptr =
     (case tlsf_ctx h of
        None \<Rightarrow> if ptr = 0 then Inr h else Inl Null_Deref
      | Some t \<Rightarrow> bindE (tlsf_free t ptr) (\<lambda>t. Inr (h\<lparr>tlsf_ctx := Some t\<rparr>)))"

subsection \<open>What a client of an allocator relies on\<close>

text \<open>
  \<open>inv s A\<close>: in the state \<open>s\<close> the blocks \<open>A\<close> (address to size) are allocated. \<open>fetch s\<close> is the
  contents of memory.
\<close>

locale allocator =
  fixes inv :: "'s \<Rightarrow> (nat \<Rightarrow> nat option) \<Rightarrow> bool"
    and alloc :: "'s \<Rightarrow> size_t \<Rightarrow> (addr \<times> 's) res"
    and release :: "'s \<Rightarrow> addr \<Rightarrow> 's res"
    and fetch :: "'s \<Rightarrow> memory"
  assumes alloc_law: "inv s A \<Longrightarrow> \<exists>p s'. alloc s n = Inr (p, s') \<and>
      (p = 0 \<and> inv s' A \<and> fetch s' = fetch s \<or>
       (\<exists>q k. p = W q \<and> p \<noteq> 0 \<and> A q = None \<and> inv s' (A(q \<mapsto> k)) \<and> (unat n + 7 < 2 ^ 64 \<longrightarrow> unat n \<le> k) \<and>
          (\<forall>r j i. A r = Some j \<longrightarrow> i < j \<longrightarrow> fetch s' (W (r + i)) = fetch s (W (r + i)))))"
    and release_law: "inv s A \<Longrightarrow> A q = Some k \<Longrightarrow> \<exists>s'. release s (W q) = Inr s' \<and> inv s' (A(q := None)) \<and>
      (\<forall>r j i. A r = Some j \<longrightarrow> r \<noteq> q \<longrightarrow> i < j \<longrightarrow> fetch s' (W (r + i)) = fetch s (W (r + i)))"
    and disjoint_law: "inv s A \<Longrightarrow> A q = Some k \<Longrightarrow> A r = Some j \<Longrightarrow> q \<noteq> r \<Longrightarrow> {q..<q + k} \<inter> {r..<r + j} = {}"
begin

text \<open>A block that is allocated and released leaves the abstract heap and the other blocks as they were.\<close>

lemma alloc_release:
  assumes "inv s A" and "alloc s n = Inr (p, s')" and "p \<noteq> 0"
  shows "\<exists>s''. release s' p = Inr s'' \<and> inv s'' A \<and>
    (\<forall>r j i. A r = Some j \<longrightarrow> i < j \<longrightarrow> fetch s'' (W (r + i)) = fetch s (W (r + i)))"
proof -
  obtain q k where q: "p = W q" "A q = None" "inv s' (A(q \<mapsto> k))"
    and old: "\<And>r j i. A r = Some j \<Longrightarrow> i < j \<Longrightarrow> fetch s' (W (r + i)) = fetch s (W (r + i))"
    using alloc_law [OF assms(1), of n] assms(2,3) by auto
  have "(A(q \<mapsto> k)) q = Some k" by simp
  from release_law [OF q(3) this] obtain s'' where s'': "release s' (W q) = Inr s''" "inv s'' ((A(q \<mapsto> k))(q := None))"
    and new: "\<And>r j i. (A(q \<mapsto> k)) r = Some j \<Longrightarrow> r \<noteq> q \<Longrightarrow> i < j \<Longrightarrow> fetch s'' (W (r + i)) = fetch s' (W (r + i))"
    by blast
  have A: "(A(q \<mapsto> k))(q := None) = A" using q(2) by (simp add: fun_upd_idem)
  have "fetch s'' (W (r + i)) = fetch s (W (r + i))" if r: "A r = Some j" "i < j" for r j i
  proof -
    have "r \<noteq> q" using r q(2) by auto
    then show ?thesis using new [of r j i] old [OF r] r by simp
  qed
  then show ?thesis using s'' q(1) unfolding A by blast
qed

text \<open>Two allocations never share a byte.\<close>

lemma alloc_twice:
  assumes "inv s A" and "alloc s n = Inr (p, s1)" and "alloc s1 k = Inr (q, s2)" and "p \<noteq> 0" and "q \<noteq> 0"
  shows "\<exists>a b x y. p = W a \<and> q = W b \<and> inv s2 (A(a \<mapsto> x, b \<mapsto> y)) \<and> {a..<a + x} \<inter> {b..<b + y} = {} \<and>
    (unat n + 7 < 2 ^ 64 \<longrightarrow> unat n \<le> x) \<and> (unat k + 7 < 2 ^ 64 \<longrightarrow> unat k \<le> y)"
proof -
  obtain a x where a: "p = W a" "inv s1 (A(a \<mapsto> x))" "unat n + 7 < 2 ^ 64 \<longrightarrow> unat n \<le> x"
    using alloc_law [OF assms(1), of n] assms(2,4) by auto
  obtain b y where b: "q = W b" "(A(a \<mapsto> x)) b = None" "inv s2 (A(a \<mapsto> x, b \<mapsto> y))" "unat k + 7 < 2 ^ 64 \<longrightarrow> unat k \<le> y"
    using alloc_law [OF a(2), of k] assms(3,5) by auto
  have "a \<noteq> b" using b(2) by auto
  then have "{a..<a + x} \<inter> {b..<b + y} = {}" using disjoint_law [OF b(3), of a x b y] by simp
  then show ?thesis using a b by blast
qed

end

text \<open>An allocator that leaves the memory outside its pools alone.\<close>

locale static_allocator = allocator +
  fixes outside :: "addr set"
  assumes alloc_static: "inv s A \<Longrightarrow> alloc s n = Inr (p, s') \<Longrightarrow> x \<in> outside \<Longrightarrow> fetch s' x = fetch s x"
    and release_static: "inv s A \<Longrightarrow> A q = Some k \<Longrightarrow> release s (W q) = Inr s' \<Longrightarrow> x \<in> outside \<Longrightarrow> fetch s' x = fetch s x"
begin

lemma alloc_release_static:
  assumes "inv s A" and "alloc s n = Inr (p, s')" and "p \<noteq> 0" and "release s' p = Inr s''" and "x \<in> outside"
  shows "fetch s'' x = fetch s x"
proof -
  obtain q k where q: "p = W q" "inv s' (A(q \<mapsto> k))" using alloc_law [OF assms(1), of n] assms(2,3) by auto
  have "fetch s'' x = fetch s' x" using release_static [OF q(2), of q k s'' x] assms(4,5) q(1) by simp
  then show ?thesis using alloc_static [OF assms(1,2,5)] by simp
qed

end

subsection \<open>The two allocators\<close>

lemma heap_disjoint_both:
  assumes "heap_ok c s A R" and "A p = Some n" and "A q = Some k" and "p \<noteq> q"
  shows "{p..<p + n} \<inter> {q..<q + k} = {}"
  using heap_disjoint [OF assms(1-3)] heap_disjoint [OF assms(1,3,2)] assms(4) by (cases "p < q") auto

lemma keptD: "kept c A R m m' \<Longrightarrow> A r = Some j \<Longrightarrow> i < j \<Longrightarrow> m' (W (r + i)) = m (W (r + i))"
  unfolding kept_def by blast

interpretation th: allocator "\<lambda>s A. \<exists>c R. heap_ok c s A R" tlsf_malloc tlsf_free mem
proof (unfold_locales, goal_cases)
  case (1 s A n)
  then obtain c R where ok: "heap_ok c s A R" by blast
  then show ?case using malloc_result [OF ok, of n] by (fast dest: keptD)
next
  case (2 s A q k)
  then obtain c R where ok: "heap_ok c s A R" by blast
  from free_spec [OF ok 2(2)] obtain s' where s': "tlsf_free s (W q) = Inr s'" "heap_ok c s' (A(q := None)) R"
    and k: "kept c (A(q := None)) R (mem s) (mem s')" by blast
  have "mem s' (W (r + i)) = mem s (W (r + i))" if "A r = Some j" "r \<noteq> q" "i < j" for r j i
    using keptD [OF k, of r j i] that by simp
  then show ?case using s' by blast
next
  case (3 s A q k r j)
  then show ?case using heap_disjoint_both by blast
qed

text \<open>\<open>kheap_in U h A\<close>: the kernel heap is initialised, the blocks \<open>A\<close> are allocated, and the addresses \<open>U\<close> lie
  outside the memory of the heap, as static data and stacks do.\<close>

definition kheap_in :: "addr set \<Rightarrow> kheap \<Rightarrow> (nat \<Rightarrow> nat option) \<Rightarrow> bool" where
  "kheap_in U h A \<longleftrightarrow> (\<exists>t c R. tlsf_ctx h = Some t \<and> heap_ok c t A R \<and> (\<forall>x \<in> U. unat x \<notin> R \<and> (unat x < c \<or> c + 6536 \<le> unat x)))"

definition kheap_ok :: "kheap \<Rightarrow> (nat \<Rightarrow> nat option) \<Rightarrow> bool" where
  "kheap_ok h A \<longleftrightarrow> (\<exists>t c R. tlsf_ctx h = Some t \<and> heap_ok c t A R)"

lemma kheap_okI: "tlsf_ctx h = Some t \<Longrightarrow> heap_ok c t A R \<Longrightarrow> kheap_ok h A"
  unfolding kheap_ok_def by blast

lemma kheap_inI:
  "tlsf_ctx h = Some t \<Longrightarrow> heap_ok c t A R \<Longrightarrow> \<forall>x \<in> U. unat x \<notin> R \<and> (unat x < c \<or> c + 6536 \<le> unat x) \<Longrightarrow> kheap_in U h A"
  unfolding kheap_in_def by blast

lemma kheap_in_empty: "kheap_ok h A \<longleftrightarrow> kheap_in {} h A"
  by (simp add: kheap_ok_def kheap_in_def)

lemma kheap_in_ok: "kheap_in U h A \<Longrightarrow> kheap_ok h A"
  unfolding kheap_ok_def kheap_in_def by blast

definition kmem :: "kheap \<Rightarrow> memory" where
  "kmem h = (case tlsf_ctx h of None \<Rightarrow> (\<lambda>_. 0) | Some t \<Rightarrow> mem t)"

lemma kept_outside: "kept c A R m m' \<Longrightarrow> unat x \<notin> R \<Longrightarrow> unat x < c \<or> c + 6536 \<le> unat x \<Longrightarrow> m' x = m x"
  unfolding kept_def using unsigned_less [of x, where ?'a = nat] by (auto simp: W_def dest!: spec [of _ "unat x"])

interpretation ku: static_allocator "kheap_in U" kmalloc kfree kmem U for U
proof (unfold_locales, goal_cases)
  case (1 h A n)
  then obtain t c R where t: "tlsf_ctx h = Some t" and ok: "heap_ok c t A R" and U: "\<forall>x \<in> U. unat x \<notin> R \<and> (unat x < c \<or> c + 6536 \<le> unat x)"
    by (auto simp: kheap_in_def)
  from malloc_result [OF ok, of n] obtain p t' where p: "tlsf_malloc t n = Inr (p, t')" and
    c: "p = 0 \<and> t' = t \<or> (\<exists>q k. p = W q \<and> p \<noteq> 0 \<and> A q = None \<and> heap_ok c t' (A(q \<mapsto> k)) R \<and> (unat n + 7 < 2 ^ 64 \<longrightarrow> unat n \<le> k) \<and>
       (\<forall>r j i. A r = Some j \<longrightarrow> i < j \<longrightarrow> mem t' (W (r + i)) = mem t (W (r + i))))" by (fast dest: keptD)
  let ?h = "h\<lparr>bytes_allocated := bytes_allocated h + n, tlsf_ctx := Some t'\<rparr>"
  have k: "kmalloc h n = Inr (p, ?h)" "kmem ?h = mem t'" "kmem h = mem t" using p t by (simp_all add: kmalloc_def kmem_def)
  have i: "kheap_in U ?h B" if "heap_ok c t' B R" for B by (rule kheap_inI [OF _ that U]) simp
  show ?case
  proof (cases "p = 0")
    case True
    then show ?thesis using c i [of A] ok k by auto
  next
    case False
    then obtain q m where "p = W q" "A q = None" "heap_ok c t' (A(q \<mapsto> m)) R" "unat n + 7 < 2 ^ 64 \<longrightarrow> unat n \<le> m"
      "\<forall>r j i. A r = Some j \<longrightarrow> i < j \<longrightarrow> mem t' (W (r + i)) = mem t (W (r + i))" using c by blast
    then show ?thesis using i [of "A(q \<mapsto> m)"] k(1) False
      by - (rule exI [of _ p], rule exI [of _ ?h], rule conjI, assumption, rule disjI2, rule exI [of _ q], rule exI [of _ m],
        simp only: k(2,3) simp_thms)
  qed
next
  case (2 h A q k)
  then obtain t c R where t: "tlsf_ctx h = Some t" and ok: "heap_ok c t A R" and U: "\<forall>x \<in> U. unat x \<notin> R \<and> (unat x < c \<or> c + 6536 \<le> unat x)"
    by (auto simp: kheap_in_def)
  from free_spec [OF ok 2(2)] obtain t' where t': "tlsf_free t (W q) = Inr t'" "heap_ok c t' (A(q := None)) R"
    and k: "kept c (A(q := None)) R (mem t) (mem t')" by blast
  have "mem t' (W (r + i)) = mem t (W (r + i))" if "A r = Some j" "r \<noteq> q" "i < j" for r j i
    using keptD [OF k, of r j i] that by simp
  then show ?case using t' U t
    by (intro exI [of _ "h\<lparr>tlsf_ctx := Some t'\<rparr>"]) (auto simp: kfree_def kheap_in_def kmem_def)
next
  case (3 h A q k r j)
  then show ?case unfolding kheap_in_def using heap_disjoint_both by blast
next
  case (4 h A n p h' x)
  then obtain t c R where t: "tlsf_ctx h = Some t" "heap_ok c t A R" and x: "unat x \<notin> R" "unat x < c \<or> c + 6536 \<le> unat x"
    by (auto simp: kheap_in_def)
  then show ?case using malloc_result [OF t(2), of n] 4(2) kept_outside [OF _ x] by (auto simp: kmalloc_def kmem_def)
next
  case (5 h A q k h' x)
  then obtain t c R where t: "tlsf_ctx h = Some t" "heap_ok c t A R" and x: "unat x \<notin> R" "unat x < c \<or> c + 6536 \<le> unat x"
    by (auto simp: kheap_in_def)
  then show ?case using free_spec [OF t(2) 5(2)] 5(3) kept_outside [OF _ x] by (auto simp: kfree_def kmem_def)
qed

interpretation kh: allocator kheap_ok kmalloc kfree kmem
  using ku.allocator_axioms [of "{}"] unfolding kheap_in_empty [symmetric] .

text \<open>What an operation of the heap leaves alone: the blocks \<open>A\<close> and the addresses \<open>U\<close>.\<close>

definition kframe :: "addr set \<Rightarrow> (nat \<Rightarrow> nat option) \<Rightarrow> kheap \<Rightarrow> kheap \<Rightarrow> bool" where
  "kframe U A h h' \<longleftrightarrow> (\<forall>r j i. A r = Some j \<longrightarrow> i < j \<longrightarrow> kmem h' (W (r + i)) = kmem h (W (r + i))) \<and> (\<forall>x \<in> U. kmem h' x = kmem h x)"

lemma kframe_refl [simp]: "kframe U A h h"
  by (simp add: kframe_def)

lemma kframe_trans: "kframe U A h h' \<Longrightarrow> kframe U A h' h'' \<Longrightarrow> kframe U A h h''"
  by (simp add: kframe_def)

lemma kframe_mono: "kframe U B h h' \<Longrightarrow> (\<And>q k. A q = Some k \<Longrightarrow> B q = Some k) \<Longrightarrow> kframe U A h h'"
  unfolding kframe_def by blast

lemma kmalloc_in:
  assumes "kheap_in U h A"
  shows "\<exists>p h'. kmalloc h n = Inr (p, h') \<and> kframe U A h h' \<and>
    (p = 0 \<and> kheap_in U h' A \<or>
     (\<exists>q k. p = W q \<and> p \<noteq> 0 \<and> A q = None \<and> kheap_in U h' (A(q \<mapsto> k)) \<and> (unat n + 7 < 2 ^ 64 \<longrightarrow> unat n \<le> k)))"
proof -
  obtain p h' where p: "kmalloc h n = Inr (p, h')" and
    c: "p = 0 \<and> kheap_in U h' A \<and> kmem h' = kmem h \<or>
     (\<exists>q k. p = W q \<and> p \<noteq> 0 \<and> A q = None \<and> kheap_in U h' (A(q \<mapsto> k)) \<and> (unat n + 7 < 2 ^ 64 \<longrightarrow> unat n \<le> k) \<and>
        (\<forall>r j i. A r = Some j \<longrightarrow> i < j \<longrightarrow> kmem h' (W (r + i)) = kmem h (W (r + i))))"
    using ku.alloc_law [OF assms, of n] by blast
  have "kframe U A h h'" unfolding kframe_def using c ku.alloc_static [OF assms p] by auto
  then show ?thesis using p c by blast
qed

lemma kfree_in:
  assumes "kheap_in U h A" and "A q = Some k"
  shows "\<exists>h'. kfree h (W q) = Inr h' \<and> kheap_in U h' (A(q := None)) \<and> kframe U (A(q := None)) h h'"
proof -
  obtain h' where h': "kfree h (W q) = Inr h'" "kheap_in U h' (A(q := None))"
    "\<forall>r j i. A r = Some j \<longrightarrow> r \<noteq> q \<longrightarrow> i < j \<longrightarrow> kmem h' (W (r + i)) = kmem h (W (r + i))"
    using ku.release_law [OF assms] by blast
  then have "kframe U (A(q := None)) h h'" unfolding kframe_def using ku.release_static [OF assms h'(1)] by auto
  then show ?thesis using h' by blast
qed

subsection \<open>Zeroed blocks\<close>

text \<open>A run of writes inside an allocated block.\<close>

lemma write_mem:
  "heap_ok c (s\<lparr>mem := m\<rparr>) A R \<Longrightarrow> A p = Some k \<Longrightarrow> i < k \<Longrightarrow> heap_ok c (s\<lparr>mem := m(W (p + i) := v)\<rparr>) A R"
  using write_spec [of c "s\<lparr>mem := m\<rparr>" A R p k i v] by simp

lemma fill_spec:
  assumes "heap_ok c s A R" and "A q = Some k" and "n \<le> k"
  shows "heap_ok c (s\<lparr>mem := fold (\<lambda>i m. m(W q + of_nat i := v)) [0..<n] (mem s)\<rparr>) A R"
  using assms(3)
proof (induction n)
  case (Suc n)
  have "fold (\<lambda>i m. m(W q + of_nat i := v)) [0..<Suc n] (mem s) =
      (fold (\<lambda>i m. m(W q + of_nat i := v)) [0..<n] (mem s))(W (q + n) := v)"
    by (simp only: upt_Suc zero_le if_True fold_append fold_simps comp_apply W_def of_nat_add)
  then show ?case using write_mem [OF Suc.IH assms(2), of n v] Suc.prems by (simp only: Suc_leD Suc_le_lessD)
qed (simp add: assms(1))

lemma memzero_block:
  assumes "heap_ok c s A R" and "A q = Some k" and "unat n \<le> k"
  defines "s' \<equiv> s\<lparr>mem := memzero (mem s) (W q) n\<rparr>"
  shows "heap_ok c s' A R" and "i < unat n \<Longrightarrow> mem s' (W (q + i)) = 0"
    and "A r = Some j \<Longrightarrow> r \<noteq> q \<Longrightarrow> i < j \<Longrightarrow> mem s' (W (r + i)) = mem s (W (r + i))"
proof -
  show "heap_ok c s' A R" unfolding s'_def memzero_def by (rule fill_spec [OF assms(1-3)])
  show "i < unat n \<Longrightarrow> mem s' (W (q + i)) = 0"
    using memset_inside [of i n "mem s" "W q" 0] by (simp add: s'_def memzero_memset W_def)
  assume r: "A r = Some j" "r \<noteq> q" "i < j"
  have "W (r + i) \<notin> span (W q) (unat n)"
    unfolding W_def
  proof (rule of_nat_notin_span)
    show "r + i < q \<or> q + unat n \<le> r + i"
      using heap_disjoint [OF assms(1,2) r(1)] heap_disjoint [OF assms(1) r(1) assms(2)] r(2,3) assms(3)
      by (cases "q < r") auto
  qed (use heap_block(4) [OF assms(1) r(1)] heap_block(4) [OF assms(1,2)] r(3) assms(3) in auto)
  then show "mem s' (W (r + i)) = mem s (W (r + i))"
    using memset_outside [of "W (r + i)" "W q" n "mem s" 0] by (simp add: s'_def memzero_memset)
qed

subsection \<open>Initialisation\<close>

lemma create_with_pool_spec:
  assumes c: "0 < c" "c mod 8 = 0" and n: "6536 + 40 \<le> n" "n < 2 ^ 32" "c + n < 2 ^ 64"
  shows "\<exists>t R. tlsf_create_with_pool m (W c) (W n) = Inr (Some t) \<and> heap_ok c t Map.empty R \<and> R \<subseteq> {c..<c + n} \<and>
    (\<forall>y. y < 2 ^ 64 \<longrightarrow> y \<notin> {c..<c + n} \<longrightarrow> mem t (W y) = m (W y))"
proof -
  obtain s where s: "tlsf_create m (W c) = Some s" "heap_ok c s Map.empty {}" and k0: "kept c Map.empty {} m (mem s)"
    using create_spec [OF c, of m] n by auto
  let ?p = "c + 6536" and ?n = "n - 6536" and ?k = "pool_size (n - 6536)"
  have k: "24 \<le> ?k" "?k < 2 ^ 32" "?p + 16 + ?k \<le> c + n" using n by (auto simp: pool_size_def)
  have "?p mod 8 = 0" using c(2) by presburger
  moreover have "16 \<le> ?n" "?n < 2 ^ 64" using n by auto
  ultimately obtain t where t: "tlsf_add_pool s (W ?p) (W ?n) = Inr (W ?p, t)"
      "heap_ok c t Map.empty ({} \<union> {?p..<?p + 16 + ?k})"
    and k1: "kept c Map.empty ({} \<union> {?p..<?p + 16 + ?k}) (mem s) (mem t)"
    using add_pool_spec [OF s(2), of ?p ?n ?k] c n k by auto
  have "W c + tlsf_size = W ?p" "W n - tlsf_size = W ?n"
    using n by (simp_all add: W_def tlsf_size_def of_nat_diff)
  then have "tlsf_create_with_pool m (W c) (W n) = Inr (Some t)"
    using s(1) t(1) by (simp add: tlsf_create_with_pool_def)
  moreover have "mem t (W y) = m (W y)" if y: "y < 2 ^ 64" "y \<notin> {c..<c + n}" for y
    using k0 k1 y k n unfolding kept_def by auto
  ultimately show ?thesis using t(2) k by (intro exI [of _ t] exI [of _ "{?p..<?p + 16 + ?k}"]) auto
qed

subsection \<open>Properties\<close>

text \<open>if the physical memory manager has the pages, \<open>heap_init\<close> builds an empty kernel heap in them
  and writes nothing outside them.\<close>

lemma heap_init_correct:
  assumes "pmm_alloc ub s 30 = Inr (f, s1)" and "f + hhdm = W c" and "0 < c" and "c mod 8 = 0" and "c + 122880 < 2 ^ 64"
  shows "\<exists>h' s'. heap_init ub hhdm h s = Inr (h', s') \<and> kheap_ok h' Map.empty \<and> pmem s' = kmem h' \<and>
    bytes_allocated h' = bytes_allocated h \<and>
    (\<forall>y. y < 2 ^ 64 \<longrightarrow> y \<notin> {c..<c + 122880} \<longrightarrow> pmem s' (W y) = pmem s1 (W y))"
proof -
  obtain t R where t: "tlsf_create_with_pool (pmem s1) (W c) (W 122880) = Inr (Some t)" "heap_ok c t Map.empty R"
    "\<forall>y. y < 2 ^ 64 \<longrightarrow> y \<notin> {c..<c + 122880} \<longrightarrow> mem t (W y) = pmem s1 (W y)"
    using create_with_pool_spec [OF assms(3,4), of 122880 "pmem s1"] assms(5) by auto
  have "HEAP_SIZE_PAGES * 4096 = W 122880" by (simp add: HEAP_SIZE_PAGES_def W_def)
  then have "heap_init ub hhdm h s = Inr (h\<lparr>tlsf_ctx := Some t\<rparr>, s1\<lparr>pmem := mem t\<rparr>)"
    using assms(1,2) t(1) by (simp add: heap_init_def vmm_alloc_pages_def HEAP_SIZE_PAGES_def)
  then show ?thesis using t(2,3) by (auto simp: kheap_ok_def kmem_def)
qed

text \<open>on an initialised heap \<open>kmalloc\<close> always returns; the null pointer leaves all allocations and
  the memory as they were, any other result is a new block that is large enough and shares no byte
  with another. Releasing it with \<open>kfree\<close> restores the allocations, and the contents of all other
  blocks survive both calls.\<close>

lemma kmalloc_kfree_correct:
  assumes "kheap_ok h A"
  shows "\<exists>p h'. kmalloc h n = Inr (p, h') \<and>
    (p = 0 \<and> kheap_ok h' A \<and> kmem h' = kmem h \<or>
     (\<exists>q k h''. p = W q \<and> A q = None \<and> kheap_ok h' (A(q \<mapsto> k)) \<and> (unat n + 7 < 2 ^ 64 \<longrightarrow> unat n \<le> k) \<and>
        (\<forall>r j. A r = Some j \<longrightarrow> {q..<q + k} \<inter> {r..<r + j} = {}) \<and>
        kfree h' p = Inr h'' \<and> kheap_ok h'' A \<and>
        (\<forall>r j i. A r = Some j \<longrightarrow> i < j \<longrightarrow> kmem h' (W (r + i)) = kmem h (W (r + i)) \<and> kmem h'' (W (r + i)) = kmem h (W (r + i)))))"
proof -
  obtain p h' where p: "kmalloc h n = Inr (p, h')" and
    cases: "p = 0 \<and> kheap_ok h' A \<and> kmem h' = kmem h \<or>
     (\<exists>q k. p = W q \<and> p \<noteq> 0 \<and> A q = None \<and> kheap_ok h' (A(q \<mapsto> k)) \<and> (unat n + 7 < 2 ^ 64 \<longrightarrow> unat n \<le> k) \<and>
        (\<forall>r j i. A r = Some j \<longrightarrow> i < j \<longrightarrow> kmem h' (W (r + i)) = kmem h (W (r + i))))"
    using kh.alloc_law [OF assms, of n] by blast
  from cases show ?thesis
  proof (elim disjE exE conjE)
    fix q k
    assume q: "p = W q" "p \<noteq> 0" "A q = None" "kheap_ok h' (A(q \<mapsto> k))" "unat n + 7 < 2 ^ 64 \<longrightarrow> unat n \<le> k"
      and old: "\<forall>r j i. A r = Some j \<longrightarrow> i < j \<longrightarrow> kmem h' (W (r + i)) = kmem h (W (r + i))"
    have "{q..<q + k} \<inter> {r..<r + j} = {}" if "A r = Some j" for r j
    proof -
      have "r \<noteq> q" using that q(3) by auto
      then show ?thesis using kh.disjoint_law [OF q(4), of q k r j] that by simp
    qed
    then show ?thesis using p q old kh.alloc_release [OF assms p q(2)] by blast
  qed (use p in blast)
qed

definition demo_kheap :: kheap where
  "demo_kheap = \<lparr>tlsf_ctx = Some demo_heap, bytes_allocated = 0\<rparr>"

lemma demo_kheap_ok: "kheap_ok demo_kheap Map.empty"
  by (rule kheap_okI [OF _ demo_ok]) (simp add: demo_kheap_def)

lemma kcalloc_in:
  assumes "kheap_in U h A" and "unat (sz * nmemb) + 7 < 2 ^ 64"
  shows "(\<exists>h'. kmalloc h (sz * nmemb) = Inr (0, h') \<and>
      kcalloc h nmemb sz = (if sz * nmemb = 0 then Inr (0, h') else Inl Null_Deref)) \<or>
    (\<exists>q k h'. kcalloc h nmemb sz = Inr (W q, h') \<and> A q = None \<and> kheap_in U h' (A(q \<mapsto> k)) \<and> unat (sz * nmemb) \<le> k \<and>
      (\<forall>i < unat (sz * nmemb). kmem h' (W (q + i)) = 0) \<and> kframe U A h h')"
proof -
  let ?n = "sz * nmemb"
  obtain p h1 where p: "kmalloc h ?n = Inr (p, h1)" and fr: "kframe U A h h1" and
    cases: "p = 0 \<and> kheap_in U h1 A \<or>
     (\<exists>q k. p = W q \<and> p \<noteq> 0 \<and> A q = None \<and> kheap_in U h1 (A(q \<mapsto> k)) \<and> (unat ?n + 7 < 2 ^ 64 \<longrightarrow> unat ?n \<le> k))"
    using kmalloc_in [OF assms(1), of ?n] by blast
  from cases show ?thesis
  proof (elim disjE exE conjE)
    assume z: "p = 0"
    have "memzero m 0 0 = m" for m by (simp add: memzero_def)
    then have "h1\<lparr>tlsf_ctx := map_option (\<lambda>t. t\<lparr>mem := memzero (mem t) 0 0\<rparr>) (tlsf_ctx h1)\<rparr> = h1"
      by (simp add: option.map_ident)
    then show ?thesis using p z by (simp add: kcalloc_def)
  next
    fix q k
    assume q: "p = W q" "p \<noteq> 0" "A q = None" "kheap_in U h1 (A(q \<mapsto> k))" "unat ?n + 7 < 2 ^ 64 \<longrightarrow> unat ?n \<le> k"
    obtain t c R where t: "tlsf_ctx h1 = Some t" "heap_ok c t (A(q \<mapsto> k)) R" and U: "\<forall>x \<in> U. unat x \<notin> R \<and> (unat x < c \<or> c + 6536 \<le> unat x)"
      using q(4) by (auto simp: kheap_in_def)
    let ?t = "t\<lparr>mem := memzero (mem t) (W q) ?n\<rparr>"
    have n: "unat ?n \<le> k" using q(5) assms(2) by simp
    have qk: "(A(q \<mapsto> k)) q = Some k" by simp
    note z = memzero_block [OF t(2) qk n]
    let ?h = "h1\<lparr>tlsf_ctx := Some ?t\<rparr>"
    have m: "kmem ?h = mem ?t" "kmem h1 = mem t" using t(1) by (simp_all add: kmem_def)
    have "kframe U A h1 ?h"
      unfolding kframe_def m
    proof (intro conjI allI impI ballI)
      fix r j i assume r: "A r = Some j" "i < j"
      then have "r \<noteq> q" using q(3) by auto
      then show "mem ?t (W (r + i)) = mem t (W (r + i))" using r by (intro z(3) [of r j i]) simp_all
    next
      fix x assume "x \<in> U"
      then have "unat x \<notin> {q..<q + k}" using U alloc_region [OF t(2) qk] by blast
      then have "x \<notin> span (W q) (unat ?n)" using heap_block(4) [OF t(2) qk] n unsigned_less [of x, where ?'a = nat]
        by (intro of_nat_notin_span [of "unat x" q "unat ?n", simplified, folded W_def]) auto
      then show "mem ?t x = mem t x" by (simp add: memzero_memset memset_outside)
    qed
    moreover have "kcalloc h nmemb sz = Inr (W q, ?h)" using p q(1,2) t(1) by (simp add: kcalloc_def)
    moreover have "kheap_in U ?h (A(q \<mapsto> k))" by (rule kheap_inI [OF _ z(1) U]) simp
    moreover have "\<forall>i < unat ?n. kmem ?h (W (q + i)) = 0" unfolding m using z(2) by blast
    ultimately show ?thesis using q(3) n kframe_trans [OF fr] by blast
  qed
qed

lemma kcalloc_result:
  assumes "kheap_ok h A" and "unat (sz * nmemb) + 7 < 2 ^ 64"
  shows "(\<exists>h'. kmalloc h (sz * nmemb) = Inr (0, h') \<and>
      kcalloc h nmemb sz = (if sz * nmemb = 0 then Inr (0, h') else Inl Null_Deref)) \<or>
    (\<exists>q k h'. kcalloc h nmemb sz = Inr (W q, h') \<and> A q = None \<and> kheap_ok h' (A(q \<mapsto> k)) \<and> unat (sz * nmemb) \<le> k \<and>
      (\<forall>i < unat (sz * nmemb). kmem h' (W (q + i)) = 0) \<and>
      (\<forall>r j i. A r = Some j \<longrightarrow> i < j \<longrightarrow> kmem h' (W (r + i)) = kmem h (W (r + i))))"
  using kcalloc_in [OF assms(1) [unfolded kheap_in_empty] assms(2)] unfolding kheap_in_empty kframe_def by blast



end
