(* ===== verification/Hashmap.thy ===== *)
theory Hashmap
  imports Crc Heap
begin

text \<open>
  The hash map of \<^verbatim>\<open>sys/include/lib/hashmap.h\<close>: an array of elements allocated with \<open>kcalloc\<close>, probed
  linearly for at most eight places from the hash of the key, and doubled when no place is free.

  Keys are pointers into the memory \<open>M\<close>, which the map only reads. The array is a list of element
  records beside the address \<open>hm_data\<close> of its block in the kernel heap, which is threaded through the
  operations that allocate. \<open>hashmap_put\<close>, the rehashing and the iteration over the pairs call each
  other; the recursion is bounded by the number of times a table can double (fuel 28 is enough for
  every table, as the lemmas show), and running out of fuel is \<open>None\<close>.
\<close>

record hashmap_element =
  key :: addr
  key_len :: uint32_t
  in_use :: int
  edata :: addr

record hashmap =
  table_size :: uint32_t
  hm_size :: uint32_t
  hm_data :: addr
  elems :: "hashmap_element list"

definition HASHMAP_MAX_CHAIN_LENGTH :: nat where "HASHMAP_MAX_CHAIN_LENGTH = 8"

definition blank :: hashmap_element where
  "blank = \<lparr>key = 0, key_len = 0, in_use = 0, edata = 0\<rparr>"

definition sizeof_element :: size_t where "sizeof_element = 24"

subsection \<open>Hashing and probing\<close>

definition mix32 :: "uint32_t \<Rightarrow> uint32_t" where
  "mix32 k =
     (let k = k + push_bit 12 k;
          k = k XOR drop_bit 22 k;
          k = k + push_bit 4 k;
          k = k XOR drop_bit 9 k;
          k = k + push_bit 10 k;
          k = k XOR drop_bit 2 k;
          k = k + push_bit 7 k;
          k = k XOR drop_bit 12 k
      in drop_bit 3 k * 2654435761)"

definition hashmap_hash_helper_int_helper :: "memory \<Rightarrow> hashmap \<Rightarrow> addr \<Rightarrow> uint32_t \<Rightarrow> uint32_t res" where
  "hashmap_hash_helper_int_helper M m keystring len =
     (if table_size m = 0 then Inl Div_By_Zero
      else Inr (mix32 (hashmap_crc32_helper M keystring len) mod table_size m))"

definition hashmap_match_helper :: "memory \<Rightarrow> hashmap_element \<Rightarrow> addr \<Rightarrow> uint32_t \<Rightarrow> bool" where
  "hashmap_match_helper M element k len \<longleftrightarrow> key_len element = len \<and> memcmp M (key element) k (ucast len) = 0"

text \<open>The loop shared by the operations: \<open>n\<close> places from \<open>cur\<close>, up to the first with property \<open>P\<close>.\<close>

fun probe :: "(hashmap_element \<Rightarrow> bool) \<Rightarrow> hashmap \<Rightarrow> nat \<Rightarrow> uint32_t \<Rightarrow> uint32_t option res" where
  "probe P m 0 cur = Inr None"
| "probe P m (Suc n) cur =
     bindE (array_get (elems m) (uint cur)) (\<lambda>e.
     if P e then Inr (Some cur) else probe P m n ((cur + 1) mod table_size m))"

text \<open>The first loop of \<open>hashmap_hash_helper\<close>, which also counts the places in use.\<close>

fun probe_count :: "(hashmap_element \<Rightarrow> bool) \<Rightarrow> hashmap \<Rightarrow> nat \<Rightarrow> uint32_t \<Rightarrow> int \<Rightarrow> (uint32_t option \<times> int) res" where
  "probe_count P m 0 cur total_in_use = Inr (None, total_in_use)"
| "probe_count P m (Suc n) cur total_in_use =
     bindE (array_get (elems m) (uint cur)) (\<lambda>e.
     if P e then Inr (Some cur, total_in_use + in_use e)
     else probe_count P m n ((cur + 1) mod table_size m) (total_in_use + in_use e))"

definition hashmap_hash_helper :: "memory \<Rightarrow> hashmap \<Rightarrow> addr \<Rightarrow> uint32_t \<Rightarrow> uint32_t option res" where
  "hashmap_hash_helper M m k len =
     (if hm_size m \<ge> table_size m then Inr None
      else bindE (hashmap_hash_helper_int_helper M m k len) (\<lambda>start.
           bindE (probe_count (\<lambda>e. in_use e \<noteq> 0 \<and> hashmap_match_helper M e k len) m HASHMAP_MAX_CHAIN_LENGTH start 0) (\<lambda>(found, total_in_use).
           case found of
             Some cur \<Rightarrow> Inr (Some cur)
           | None \<Rightarrow> if int HASHMAP_MAX_CHAIN_LENGTH > total_in_use
                     then probe (\<lambda>e. in_use e = 0) m HASHMAP_MAX_CHAIN_LENGTH start
                     else Inr None)))"

definition update_elem :: "hashmap \<Rightarrow> uint32_t \<Rightarrow> hashmap_element \<Rightarrow> hashmap res" where
  "update_elem m index e = bindE (array_set (elems m) (uint index) e) (\<lambda>es. Inr (m\<lparr>elems := es\<rparr>))"

subsection \<open>Lookup and removal\<close>

definition hashmap_get :: "memory \<Rightarrow> hashmap \<Rightarrow> addr \<Rightarrow> uint32_t \<Rightarrow> addr res" where
  "hashmap_get M m k len =
     bindE (hashmap_hash_helper_int_helper M m k len) (\<lambda>cur.
     bindE (probe (\<lambda>e. in_use e \<noteq> 0 \<and> hashmap_match_helper M e k len) m HASHMAP_MAX_CHAIN_LENGTH cur) (\<lambda>found.
     case found of
       None \<Rightarrow> Inr 0
     | Some cur \<Rightarrow> bindE (array_get (elems m) (uint cur)) (\<lambda>e. Inr (edata e))))"

definition hashmap_remove :: "memory \<Rightarrow> hashmap \<Rightarrow> addr \<Rightarrow> uint32_t \<Rightarrow> (int \<times> hashmap) res" where
  "hashmap_remove M m k len =
     bindE (hashmap_hash_helper_int_helper M m k len) (\<lambda>cur.
     bindE (probe (\<lambda>e. in_use e \<noteq> 0 \<and> hashmap_match_helper M e k len) m HASHMAP_MAX_CHAIN_LENGTH cur) (\<lambda>found.
     case found of
       None \<Rightarrow> Inr (1, m)
     | Some cur \<Rightarrow>
         bindE (update_elem m cur blank) (\<lambda>m. Inr (0, m\<lparr>hm_size := hm_size m - 1\<rparr>))))"

definition hashmap_remove_and_return_key :: "memory \<Rightarrow> hashmap \<Rightarrow> addr \<Rightarrow> uint32_t \<Rightarrow> (addr \<times> hashmap) res" where
  "hashmap_remove_and_return_key M m k len =
     bindE (hashmap_hash_helper_int_helper M m k len) (\<lambda>cur.
     bindE (probe (\<lambda>e. in_use e \<noteq> 0 \<and> hashmap_match_helper M e k len) m HASHMAP_MAX_CHAIN_LENGTH cur) (\<lambda>found.
     case found of
       None \<Rightarrow> Inr (0, m)
     | Some cur \<Rightarrow>
         bindE (array_get (elems m) (uint cur)) (\<lambda>e.
         bindE (update_elem m cur (e\<lparr>in_use := 0, edata := 0, key := 0\<rparr>)) (\<lambda>m.
         Inr (key e, m\<lparr>hm_size := hm_size m - 1\<rparr>)))))"

definition hashmap_num_entries :: "hashmap \<Rightarrow> uint32_t" where
  "hashmap_num_entries m = hm_size m"

subsection \<open>Iteration\<close>

text \<open>The callback returns its result and the context it has changed.\<close>

fun iterate_from :: "('c \<Rightarrow> addr \<Rightarrow> int \<times> 'c) \<Rightarrow> hashmap_element list \<Rightarrow> 'c \<Rightarrow> int \<times> 'c" where
  "iterate_from f [] context = (0, context)"
| "iterate_from f (e # es) context =
     (if in_use e \<noteq> 0
      then let (r, context) = f context (edata e)
           in if r = 0 then (1, context) else iterate_from f es context
      else iterate_from f es context)"

definition hashmap_iterate :: "hashmap \<Rightarrow> ('c \<Rightarrow> addr \<Rightarrow> int \<times> 'c) \<Rightarrow> 'c \<Rightarrow> int \<times> 'c" where
  "hashmap_iterate m f context = iterate_from f (take (unat (table_size m)) (elems m)) context"

text \<open>
  The loop of \<open>hashmap_iterate_pairs\<close> over \<open>n\<close> places from \<open>i\<close>. The callback may fail or run out of
  fuel (\<open>None\<close>); the elements it is given belong to \<open>m\<close>, which it does not change.
\<close>

fun iterate_pairs_from ::
  "('c \<Rightarrow> hashmap_element \<Rightarrow> (int \<times> 'c) res option) \<Rightarrow> nat \<Rightarrow> nat \<Rightarrow> hashmap \<Rightarrow> 'c \<Rightarrow> (int \<times> hashmap \<times> 'c) res option" where
  "iterate_pairs_from f 0 i m context = Some (Inr (0, m, context))"
| "iterate_pairs_from f (Suc n) i m context =
     (case array_get (elems m) (int i) of
        Inl e \<Rightarrow> Some (Inl e)
      | Inr p \<Rightarrow>
          if in_use p \<noteq> 0
          then case f context p of
                 None \<Rightarrow> None
               | Some (Inl e) \<Rightarrow> Some (Inl e)
               | Some (Inr (r, context)) \<Rightarrow>
                   if r = - 1
                   then iterate_pairs_from f n (i + 1) (m\<lparr>elems := (elems m)[i := blank], hm_size := hm_size m - 1\<rparr>) context
                   else if r = 0 then iterate_pairs_from f n (i + 1) m context
                   else Some (Inr (1, m, context))
          else iterate_pairs_from f n (i + 1) m context)"

definition hashmap_iterate_pairs ::
  "hashmap \<Rightarrow> ('c \<Rightarrow> hashmap_element \<Rightarrow> (int \<times> 'c) res option) \<Rightarrow> 'c \<Rightarrow> (int \<times> hashmap \<times> 'c) res option" where
  "hashmap_iterate_pairs m f context = iterate_pairs_from f (unat (table_size m)) 0 m context"

subsection \<open>Creation, insertion and rehashing\<close>

text \<open>
  \<open>kcalloc\<close> has zeroed the block before \<open>hashmap_create\<close> compares its address with the null pointer,
  so the second failure of the code cannot be reached: \<open>kcalloc\<close> itself has faulted.
\<close>

definition hashmap_create :: "kheap \<Rightarrow> uint32_t \<Rightarrow> (int \<times> hashmap \<times> kheap) res" where
  "hashmap_create h initial_size =
     (let m = \<lparr>table_size = initial_size, hm_size = 0, hm_data = 0, elems = []\<rparr>
      in if initial_size = 0 \<or> initial_size AND (initial_size - 1) \<noteq> 0 then Inr (1, m, h)
         else bindE (kcalloc h (ucast initial_size) sizeof_element) (\<lambda>(p, h).
              if p = 0 then Inr (1, m\<lparr>hm_data := p\<rparr>, h)
              else Inr (0, m\<lparr>hm_data := p, elems := replicate (unat initial_size) blank\<rparr>, h)))"

definition hashmap_destroy :: "kheap \<Rightarrow> hashmap \<Rightarrow> (hashmap \<times> kheap) res" where
  "hashmap_destroy h m =
     bindE (kfree h (hm_data m)) (\<lambda>h.
     Inr (\<lparr>table_size = 0, hm_size = 0, hm_data = 0, elems = []\<rparr>, h))"

type_synonym putter = "kheap \<Rightarrow> hashmap \<Rightarrow> addr \<Rightarrow> uint32_t \<Rightarrow> addr \<Rightarrow> (int \<times> hashmap \<times> kheap) res option"

definition hashmap_rehash_iterator ::
  "putter \<Rightarrow> hashmap \<times> kheap \<Rightarrow> hashmap_element \<Rightarrow> (int \<times> hashmap \<times> kheap) res option" where
  "hashmap_rehash_iterator put = (\<lambda>(new_hash, h) e.
     case put h new_hash (key e) (key_len e) (edata e) of
       None \<Rightarrow> None
     | Some (Inl err) \<Rightarrow> Some (Inl err)
     | Some (Inr (temp, new_hash, h)) \<Rightarrow>
         if 0 < temp then Some (Inr (1, new_hash, h)) else Some (Inr (- 1, new_hash, h)))"

definition hashmap_rehash_helper :: "putter \<Rightarrow> kheap \<Rightarrow> hashmap \<Rightarrow> (int \<times> hashmap \<times> kheap) res option" where
  "hashmap_rehash_helper put h m =
     (let new_size = 2 * table_size m
      in case hashmap_create h new_size of
           Inl err \<Rightarrow> Some (Inl err)
         | Inr (flag, new_hash, h) \<Rightarrow>
             if flag \<noteq> 0 then Some (Inr (flag, m, h))
             else case hashmap_iterate_pairs m (hashmap_rehash_iterator put) (new_hash, h) of
                    None \<Rightarrow> None
                  | Some (Inl err) \<Rightarrow> Some (Inl err)
                  | Some (Inr (flag, m, new_hash, h)) \<Rightarrow>
                      if flag \<noteq> 0 then Some (Inr (flag, m, h))
                      else Some (bindE (hashmap_destroy h m) (\<lambda>(m, h). Inr (0, new_hash, h))))"

definition put_at :: "hashmap \<Rightarrow> uint32_t \<Rightarrow> addr \<Rightarrow> uint32_t \<Rightarrow> addr \<Rightarrow> hashmap res" where
  "put_at m index k len v =
     bindE (array_get (elems m) (uint index)) (\<lambda>e.
     bindE (update_elem m index (e\<lparr>edata := v, key := k, key_len := len, in_use := if in_use e = 0 then 1 else in_use e\<rparr>)) (\<lambda>m.
     Inr (if in_use e = 0 then m\<lparr>hm_size := hm_size m + 1\<rparr> else m)))"

primrec hashmap_put :: "nat \<Rightarrow> memory \<Rightarrow> putter" where
  "hashmap_put 0 M h m k len v = None"
| "hashmap_put (Suc fuel) M h m k len v =
     (case hashmap_hash_helper M m k len of
        Inl err \<Rightarrow> Some (Inl err)
      | Inr (Some index) \<Rightarrow> Some (bindE (put_at m index k len v) (\<lambda>m. Inr (0, m, h)))
      | Inr None \<Rightarrow>
          (case hashmap_rehash_helper (hashmap_put fuel M) h m of
             None \<Rightarrow> None
           | Some (Inl err) \<Rightarrow> Some (Inl err)
           | Some (Inr (flag, m, h)) \<Rightarrow>
               if flag \<noteq> 0 then Some (Inr (1, m, h)) else hashmap_put fuel M h m k len v))"

end
