(* ===== verification/Tailq.thy ===== *)
theory Tailq
  imports Libkern
begin

text \<open>
  The tail queues of \<^verbatim>\<open>sys/include/sys/queue.h\<close>, on the byte memory.

  A queue head is 16 bytes at \<open>head\<close>: the pointer \<open>first\<close> and the pointer-to-pointer \<open>last\<close>. An
  element \<open>elm\<close> holds 16 bytes at offset \<open>field\<close>: \<open>next\<close> and the pointer-to-pointer \<open>prev\<close>. Both kinds
  of 16 bytes are called cells below; \<open>last\<close> and \<open>prev\<close> point to cells, which is what makes
  \<open>TAILQ_LAST\<close> and \<open>TAILQ_PREV\<close> work.

  \<open>tailq m head field xs\<close> says that the queue at \<open>head\<close> holds the elements \<open>xs\<close>. The locale
  \<open>linked_queue\<close> is what the users of a queue rely on, with the lemmas on cyclic traversal that the
  scheduler needs.
\<close>

subsection \<open>Macros\<close>

definition TAILQ_FIRST :: "memory \<Rightarrow> addr \<Rightarrow> addr" where
  "TAILQ_FIRST m head = load64 m head"

definition TAILQ_NEXT :: "memory \<Rightarrow> addr \<Rightarrow> size_t \<Rightarrow> addr" where
  "TAILQ_NEXT m elm field = load64 m (elm + field)"

definition TAILQ_LAST :: "memory \<Rightarrow> addr \<Rightarrow> addr" where
  "TAILQ_LAST m head = load64 m (load64 m (load64 m (head + 8) + 8))"

definition TAILQ_PREV :: "memory \<Rightarrow> addr \<Rightarrow> size_t \<Rightarrow> addr" where
  "TAILQ_PREV m elm field = load64 m (load64 m (load64 m (elm + field + 8) + 8))"

definition TAILQ_EMPTY :: "memory \<Rightarrow> addr \<Rightarrow> bool" where
  "TAILQ_EMPTY m head \<longleftrightarrow> TAILQ_FIRST m head = 0"

definition TAILQ_INIT :: "memory \<Rightarrow> addr \<Rightarrow> memory" where
  "TAILQ_INIT m head = (let m = store64 m head 0 in store64 m (head + 8) head)"

definition TAILQ_INSERT_HEAD :: "memory \<Rightarrow> addr \<Rightarrow> addr \<Rightarrow> size_t \<Rightarrow> memory" where
  "TAILQ_INSERT_HEAD m head elm field =
     (let m = store64 m (elm + field) (load64 m head);
          m = (if load64 m (elm + field) \<noteq> 0
               then store64 m (load64 m head + field + 8) (elm + field)
               else store64 m (head + 8) (elm + field));
          m = store64 m head elm
      in store64 m (elm + field + 8) head)"

definition TAILQ_INSERT_TAIL :: "memory \<Rightarrow> addr \<Rightarrow> addr \<Rightarrow> size_t \<Rightarrow> memory" where
  "TAILQ_INSERT_TAIL m head elm field =
     (let m = store64 m (elm + field) 0;
          m = store64 m (elm + field + 8) (load64 m (head + 8));
          m = store64 m (load64 m (head + 8)) elm
      in store64 m (head + 8) (elm + field))"

text \<open>The elements that a loop over the queue visits, whose body leaves the links alone; the loop may not
  end when the links form a cycle.\<close>

partial_function (option) foreach_from :: "memory \<Rightarrow> size_t \<Rightarrow> addr \<Rightarrow> addr list option" where
  "foreach_from m field var =
     (if var = 0 then Some []
      else Option.bind (foreach_from m field (TAILQ_NEXT m var field)) (\<lambda>vs. Some (var # vs)))"

definition TAILQ_FOREACH_SAFE :: "memory \<Rightarrow> addr \<Rightarrow> size_t \<Rightarrow> addr list option" where
  "TAILQ_FOREACH_SAFE m head field = foreach_from m field (TAILQ_FIRST m head)"

partial_function (option) reverse_from :: "memory \<Rightarrow> size_t \<Rightarrow> addr \<Rightarrow> addr list option" where
  "reverse_from m field var =
     (if var = 0 then Some []
      else Option.bind (reverse_from m field (TAILQ_PREV m var field)) (\<lambda>vs. Some (var # vs)))"

definition TAILQ_FOREACH_REVERSE :: "memory \<Rightarrow> addr \<Rightarrow> size_t \<Rightarrow> addr list option" where
  "TAILQ_FOREACH_REVERSE m head field = reverse_from m field (TAILQ_LAST m head)"

subsection \<open>The list a queue holds\<close>

definition cells :: "addr \<Rightarrow> size_t \<Rightarrow> addr list \<Rightarrow> addr list" where
  "cells c f xs = c # map (\<lambda>x. x + f) xs"

definition end_cell :: "addr \<Rightarrow> size_t \<Rightarrow> addr list \<Rightarrow> addr" where
  "end_cell c f xs = last (cells c f xs)"

definition cells_apart :: "addr list \<Rightarrow> bool" where
  "cells_apart cs \<longleftrightarrow> sorted_wrt (\<lambda>c d. span c 16 \<inter> span d 16 = {}) cs"

primrec seg :: "memory \<Rightarrow> size_t \<Rightarrow> addr \<Rightarrow> addr list \<Rightarrow> bool" where
  "seg m f c [] \<longleftrightarrow> True"
| "seg m f c (x # xs) \<longleftrightarrow> load64 m c = x \<and> x \<noteq> 0 \<and> load64 m (x + f + 8) = c \<and> seg m f (x + f) xs"

definition tailq :: "memory \<Rightarrow> addr \<Rightarrow> size_t \<Rightarrow> addr list \<Rightarrow> bool" where
  "tailq m head f xs \<longleftrightarrow> cells_apart (cells head f xs) \<and> seg m f head xs \<and>
     load64 m (end_cell head f xs) = 0 \<and> load64 m (head + 8) = end_cell head f xs"

lemma end_cell_simps [simp]:
  "end_cell c f [] = c"
  "end_cell c f (x # xs) = end_cell (x + f) f xs"
  "end_cell c f (xs @ [y]) = y + f"
  by (simp_all add: end_cell_def cells_def)

lemma end_cell_append: "end_cell c f (xs @ ys) = end_cell (end_cell c f xs) f ys"
  by (induction xs arbitrary: c) simp_all

lemma seg_append: "seg m f c (xs @ ys) \<longleftrightarrow> seg m f c xs \<and> seg m f (end_cell c f xs) ys"
  by (induction xs arbitrary: c) auto

lemma cells_simps [simp]: "cells c f [] = [c]" "cells c f (x # xs) = c # cells (x + f) f xs"
  by (simp_all add: cells_def)

lemma end_cell_in: "end_cell c f xs \<in> set (cells c f xs)"
  unfolding end_cell_def by (rule last_in_set) (simp add: cells_def)

subsection \<open>Frames\<close>

lemma span_sub:
  assumes "i + j \<le> n"
  shows "span (a + of_nat i) j \<subseteq> span a n"
proof
  fix x
  assume "x \<in> span (a + of_nat i) j"
  then obtain k where "k < j" "x = a + of_nat i + of_nat k" by (auto simp: span_def)
  then have "i + k < n" "x = a + of_nat (i + k)" using assms by (simp_all add: algebra_simps)
  then show "x \<in> span a n" unfolding span_def by blast
qed

lemma span_offsets:
  assumes "i + j \<le> i'" and "i' + j' \<le> 2 ^ 64"
  shows "span (a + of_nat i) j \<inter> span (a + of_nat i') j' = {}"
proof -
  have False if "k < j" "k' < j'" "a + of_nat i + of_nat k = a + of_nat i' + of_nat k'" for k k'
  proof -
    have "(of_nat (i + k) :: addr) = of_nat (i' + k')" using that(3) by (simp add: algebra_simps)
    moreover have "i + k < 2 ^ 64" "i' + k' < 2 ^ 64" using assms that by linarith+
    ultimately have "i + k = i' + k'" by (simp only: of_nat_addr_eq_iff)
    then show False using assms that by linarith
  qed
  then show ?thesis by (auto simp: span_def)
qed

lemma load64_store64_other': "span b 8 \<inter> span a 8 = {} \<Longrightarrow> load64 (store64 m b v) a = load64 m a"
  by (rule load64_store64_other) (simp add: Int_commute)

lemmas load_stores = load64_store64_same load64_store64_other load64_store64_other'

text \<open>The two words of a cell.\<close>

lemma cell_words: "span c 8 \<subseteq> span c 16" "span (c + 8) 8 \<subseteq> span c 16" "span c 8 \<inter> span (c + 8) 8 = {}"
  using span_sub [of 0 8 16 c] span_sub [of 8 8 16 c] span_offsets [of 0 8 8 8 c] by simp_all

definition next_words :: "addr \<Rightarrow> size_t \<Rightarrow> addr list \<Rightarrow> addr set" where
  "next_words c f xs = (\<Union>d \<in> set (butlast (cells c f xs)). span d 8)"

definition prev_words :: "size_t \<Rightarrow> addr list \<Rightarrow> addr set" where
  "prev_words f xs = (\<Union>x \<in> set xs. span (x + f + 8) 8)"

lemma seg_cong:
  assumes "seg m f c xs" and "\<And>a. a \<in> next_words c f xs \<union> prev_words f xs \<Longrightarrow> m' a = m a"
  shows "seg m' f c xs"
  using assms
proof (induction xs arbitrary: c)
  case (Cons x xs)
  have "load64 m' c = load64 m c" "load64 m' (x + f + 8) = load64 m (x + f + 8)"
    by (rule load64_cong, rule Cons.prems(2), auto simp: next_words_def prev_words_def cells_def)+
  moreover have "seg m' f (x + f) xs"
    by (rule Cons.IH) (use Cons.prems in \<open>auto simp: next_words_def prev_words_def cells_def\<close>)
  ultimately show ?case using Cons.prems(1) by simp
qed simp

lemma cells_apartD:
  assumes "cells_apart cs" and "c \<in> set cs" and "d \<in> set cs" and "c \<noteq> d"
  shows "span c 16 \<inter> span d 16 = {}"
  using assms unfolding cells_apart_def by (induction cs) (auto simp: Int_commute)

lemma in_span_self: "c \<in> span c 16"
proof -
  have "c = c + of_nat 0" by simp
  then show ?thesis unfolding span_def by (intro CollectI exI [of _ 0]) simp
qed

lemma cells_apart_distinct: "cells_apart cs \<Longrightarrow> distinct cs"
  unfolding cells_apart_def
proof (induction cs)
  case (Cons c cs)
  then show ?case using in_span_self [of c] by auto
qed simp

lemma butlast_not_end:
  assumes "cells_apart (cells c f xs)" and "d \<in> set (butlast (cells c f xs))"
  shows "d \<noteq> end_cell c f xs"
proof -
  have "cells c f xs = butlast (cells c f xs) @ [end_cell c f xs]" by (simp add: end_cell_def cells_def)
  then show ?thesis using cells_apart_distinct [OF assms(1)] assms(2) by (metis disjoint_insert(1) distinct_append insert_iff list.set(2) mk_disjoint_insert)
qed

lemma head_not_elem:
  assumes "cells_apart (cells c f xs)" and "x \<in> set xs"
  shows "x + f \<noteq> c"
  using cells_apart_distinct [OF assms(1)] assms(2) by (auto simp: cells_def)

lemma elem_cell: "x \<in> set xs \<Longrightarrow> x + f \<in> set (cells c f xs)"
  by (simp add: cells_def)

lemma head_cell: "c \<in> set (cells c f xs)"
  by (simp add: cells_def)

text \<open>Words of different cells of a queue, and the two kinds of words of the same cell, do not overlap.\<close>

lemma next_next:
  assumes "cells_apart cs" and "c \<in> set cs" and "d \<in> set cs" and "c \<noteq> d"
  shows "span c 8 \<inter> span d 8 = {}" "span c 8 \<inter> span (d + 8) 8 = {}" "span (c + 8) 8 \<inter> span (d + 8) 8 = {}"
  using cells_apartD [OF assms] cell_words [of c] cell_words [of d] by blast+

lemma next_prev:
  assumes "cells_apart cs" and "c \<in> set cs" and "d \<in> set cs"
  shows "span c 8 \<inter> span (d + 8) 8 = {}"
  using next_next [OF assms] cell_words(3) [of c] by (cases "c = d") auto

subsection \<open>Insertion\<close>

definition outside :: "addr \<Rightarrow> addr list \<Rightarrow> bool" where
  "outside c cs \<longleftrightarrow> (\<forall>d \<in> set cs. span d 16 \<inter> span c 16 = {})"

lemma outsideD:
  assumes "outside e cs" and "c \<in> set cs"
  shows "span c 8 \<inter> span e 8 = {}" "span c 8 \<inter> span (e + 8) 8 = {}" "span (c + 8) 8 \<inter> span e 8 = {}"
    "span (c + 8) 8 \<inter> span (e + 8) 8 = {}"
  using assms cell_words [of c] cell_words [of e] unfolding outside_def by blast+

lemma insert_tail_eq:
  assumes "tailq m head f xs" and "outside (e + f) (cells head f xs)"
  shows "TAILQ_INSERT_TAIL m head e f =
    store64 (store64 (store64 (store64 m (e + f) 0) (e + f + 8) (end_cell head f xs)) (end_cell head f xs) e) (head + 8) (e + f)"
proof -
  have "load64 (store64 m (e + f) 0) (head + 8) = end_cell head f xs"
    using assms(1) outsideD(3) [OF assms(2) head_cell] by (simp add: load64_store64_other tailq_def)
  moreover from this have "load64 (store64 (store64 m (e + f) 0) (e + f + 8) v) (head + 8) = end_cell head f xs" for v
    using outsideD(4) [OF assms(2) head_cell] by (simp add: load64_store64_other)
  ultimately show ?thesis by (simp add: TAILQ_INSERT_TAIL_def Let_def)
qed

lemma insert_tail_frame:
  assumes "tailq m head f xs" and "outside (e + f) (cells head f xs)"
    and "a \<notin> span (e + f) 16" and "a \<notin> span (end_cell head f xs) 8" and "a \<notin> span (head + 8) 8"
  shows "TAILQ_INSERT_TAIL m head e f a = m a"
proof -
  have "a \<notin> span (e + f) 8" "a \<notin> span (e + f + 8) 8" using assms(3) cell_words [of "e + f"] by blast+
  then show ?thesis unfolding insert_tail_eq [OF assms(1,2)] using assms(4,5) by (simp only: store64_notin simp_thms)
qed

lemma insert_tail:
  assumes q: "tailq m head f xs" and out: "outside (e + f) (cells head f xs)" and "e \<noteq> 0"
  shows "tailq (TAILQ_INSERT_TAIL m head e f) head f (xs @ [e])"
proof -
  let ?L = "end_cell head f xs" and ?m = "TAILQ_INSERT_TAIL m head e f"
  have ap: "cells_apart (cells head f xs)" and s: "seg m f head xs" using q by (simp_all add: tailq_def)
  have "cells head f (xs @ [e]) = cells head f xs @ [e + f]" by (simp add: cells_def)
  then have "cells_apart (cells head f (xs @ [e]))"
    using ap out unfolding cells_apart_def outside_def by (simp add: sorted_wrt_append)
  moreover have "seg ?m f head xs"
  proof (rule seg_cong [OF s])
    fix a
    assume "a \<in> next_words head f xs \<union> prev_words f xs"
    then consider d where "d \<in> set (butlast (cells head f xs))" "a \<in> span d 8"
      | x where "x \<in> set xs" "a \<in> span (x + f + 8) 8" unfolding next_words_def prev_words_def by blast
    then show "?m a = m a"
    proof cases
      case 1
      then have d: "d \<in> set (cells head f xs)" by (meson in_set_butlastD)
      have "span d 8 \<inter> span ?L 8 = {}" by (rule next_next(1) [OF ap d end_cell_in butlast_not_end [OF ap 1(1)]])
      moreover have "span d 8 \<inter> span (head + 8) 8 = {}" by (rule next_prev [OF ap d head_cell])
      moreover have "span d 16 \<inter> span (e + f) 16 = {}" using out d unfolding outside_def by blast
      ultimately show ?thesis using 1(2) cell_words(1) [of d] by (intro insert_tail_frame [OF q out]) blast+
    next
      case 2
      note x = elem_cell [OF 2(1), of f head]
      have "span ?L 8 \<inter> span (x + f + 8) 8 = {}" by (rule next_prev [OF ap end_cell_in x])
      moreover have "span (x + f + 8) 8 \<inter> span (head + 8) 8 = {}"
        by (rule next_next(3) [OF ap x head_cell head_not_elem [OF ap 2(1)]])
      moreover have "span (x + f) 16 \<inter> span (e + f) 16 = {}" using out x unfolding outside_def by blast
      ultimately show ?thesis using 2(2) cell_words(2) [of "x + f"] by (intro insert_tail_frame [OF q out]) blast+
    qed
  qed
  moreover have "load64 ?m (head + 8) = e + f" unfolding insert_tail_eq [OF q out] by (rule load64_store64_same)
  moreover have "load64 ?m ?L = e"
    unfolding insert_tail_eq [OF q out] using next_prev [OF ap end_cell_in head_cell] by (simp only: load_stores)
  moreover have "load64 ?m (e + f + 8) = ?L"
    unfolding insert_tail_eq [OF q out]
    using outsideD(2) [OF out end_cell_in] outsideD(4) [OF out head_cell]
    by (simp only: load_stores)
  moreover have "load64 ?m (e + f) = 0"
    unfolding insert_tail_eq [OF q out]
    using outsideD(1) [OF out end_cell_in] outsideD(3) [OF out head_cell] cell_words(3) [of "e + f"]
    by (simp only: load_stores)
  ultimately show ?thesis using assms(3) by (simp add: tailq_def seg_append)
qed

lemma insert_head_eq:
  assumes "tailq m head f xs" and "outside (e + f) (cells head f xs)"
  shows "TAILQ_INSERT_HEAD m head e f =
    store64 (store64 (store64 (store64 m (e + f) (case xs of [] \<Rightarrow> 0 | x # _ \<Rightarrow> x))
      (case xs of [] \<Rightarrow> head + 8 | x # _ \<Rightarrow> x + f + 8) (e + f)) head e) (e + f + 8) head"
proof -
  have h: "load64 m head = (case xs of [] \<Rightarrow> 0 | x # _ \<Rightarrow> x)" "xs \<noteq> [] \<Longrightarrow> hd xs \<noteq> 0"
    using assms(1) by (cases xs; simp add: tailq_def)+
  have "load64 (store64 m (e + f) v) head = load64 m head" for v
    using outsideD(1) [OF assms(2) head_cell] by (rule load64_store64_other)
  then show ?thesis unfolding TAILQ_INSERT_HEAD_def Let_def using h by (cases xs) simp_all
qed

lemma insert_head_apart:
  assumes "cells_apart (cells head f xs)" and "outside (e + f) (cells head f xs)"
  shows "cells_apart (cells head f (e # xs))"
  using assms unfolding cells_apart_def outside_def cells_def by (auto simp: Int_commute)

lemma insert_head_Nil:
  assumes q: "tailq m head f []" and out: "outside (e + f) [head]" and "e \<noteq> 0"
  shows "tailq (TAILQ_INSERT_HEAD m head e f) head f [e]"
proof -
  let ?m = "TAILQ_INSERT_HEAD m head e f"
  have eq: "?m = store64 (store64 (store64 (store64 m (e + f) 0) (head + 8) (e + f)) head e) (e + f + 8) head"
    using insert_head_eq [OF q] out by simp
  note o = outsideD [OF out, of head, simplified] and w = cell_words(3) [of "e + f"] cell_words(3) [of head]
  have "load64 ?m head = e" "load64 ?m (head + 8) = e + f" "load64 ?m (e + f) = 0" "load64 ?m (e + f + 8) = head"
    unfolding eq using o w by (simp_all only: load_stores)
  moreover have "cells_apart (cells head f [e])" using insert_head_apart [of head f "[]" e] q out by (simp add: tailq_def)
  ultimately show ?thesis using assms(3) by (simp add: tailq_def)
qed

text \<open>A queue that is not empty: the old first element is \<open>x\<close>.\<close>

lemma insert_head_frame:
  assumes "tailq m head f (x # xs)" and "outside (e + f) (cells head f (x # xs))"
    and "a \<notin> span (e + f) 16" and "a \<notin> span (x + f + 8) 8" and "a \<notin> span head 8"
  shows "TAILQ_INSERT_HEAD m head e f a = m a"
proof -
  have "a \<notin> span (e + f) 8" "a \<notin> span (e + f + 8) 8" using assms(3) cell_words [of "e + f"] by blast+
  then show ?thesis unfolding insert_head_eq [OF assms(1,2)] list.case using assms(4,5) by (simp only: store64_notin simp_thms)
qed

text \<open>The words that the insertion leaves alone: the \<open>next\<close> words of the elements, all \<open>prev\<close> words but the
  one of the old first element.\<close>

lemma insert_head_keeps_next:
  assumes q: "tailq m head f (x # xs)" and out: "outside (e + f) (cells head f (x # xs))"
    and d: "d \<in> set (cells (x + f) f xs)" and a: "a \<in> span d 8"
  shows "TAILQ_INSERT_HEAD m head e f a = m a"
proof -
  have ap: "cells_apart (cells head f (x # xs))" using q by (simp add: tailq_def)
  have d': "d \<in> set (cells head f (x # xs))" "d \<noteq> head" using d cells_apart_distinct [OF ap] by auto
  have x: "x + f \<in> set (cells head f (x # xs))" by (simp add: cells_def)
  have "span d 8 \<inter> span (x + f + 8) 8 = {}" by (rule next_prev [OF ap d'(1) x])
  moreover have "span d 8 \<inter> span head 8 = {}" by (rule next_next(1) [OF ap d'(1) head_cell d'(2)])
  moreover have "span d 16 \<inter> span (e + f) 16 = {}" using out d'(1) unfolding outside_def by blast
  ultimately show ?thesis using a cell_words(1) [of d] by (intro insert_head_frame [OF q out]) blast+
qed

lemma insert_head_keeps_prev:
  assumes q: "tailq m head f (x # xs)" and out: "outside (e + f) (cells head f (x # xs))"
    and c: "c \<in> set (cells head f (x # xs))" "c \<noteq> x + f" and a: "a \<in> span (c + 8) 8"
  shows "TAILQ_INSERT_HEAD m head e f a = m a"
proof -
  have ap: "cells_apart (cells head f (x # xs))" using q by (simp add: tailq_def)
  have x: "x + f \<in> set (cells head f (x # xs))" by (simp add: cells_def)
  have "span (c + 8) 8 \<inter> span (x + f + 8) 8 = {}" by (rule next_next(3) [OF ap c(1) x c(2)])
  moreover have "span head 8 \<inter> span (c + 8) 8 = {}" by (rule next_prev [OF ap head_cell c(1)])
  moreover have "span c 16 \<inter> span (e + f) 16 = {}" using out c(1) unfolding outside_def by blast
  ultimately show ?thesis using a cell_words(2) [of c] by (intro insert_head_frame [OF q out]) blast+
qed

lemma insert_head_Cons:
  assumes q: "tailq m head f (x # xs)" and out: "outside (e + f) (cells head f (x # xs))" and "e \<noteq> 0"
  shows "tailq (TAILQ_INSERT_HEAD m head e f) head f (e # x # xs)"
proof -
  let ?m = "TAILQ_INSERT_HEAD m head e f" and ?L = "end_cell (x + f) f xs" and ?c = "x + f"
  have ap: "cells_apart (cells head f (x # xs))" and s: "seg m f ?c xs" "x \<noteq> 0" using q by (simp_all add: tailq_def)
  have di: "head \<noteq> ?c" "y \<in> set xs \<Longrightarrow> y + f \<noteq> ?c" for y using cells_apart_distinct [OF ap] by (auto simp: cells_def)
  have cs: "?c \<in> set (cells head f (x # xs))" by simp (simp add: cells_def)
  note eq = insert_head_eq [OF q out, unfolded list.case]
  note oh = outsideD [OF out head_cell] and oc = outsideD [OF out cs]
  have "seg ?m f ?c xs"
  proof (rule seg_cong [OF s(1)])
    fix a
    assume "a \<in> next_words ?c f xs \<union> prev_words f xs"
    then consider d where "d \<in> set (cells ?c f xs)" "a \<in> span d 8" | y where "y \<in> set xs" "a \<in> span (y + f + 8) 8"
      unfolding next_words_def prev_words_def by (blast dest: in_set_butlastD)
    then show "?m a = m a"
    proof cases
      case (2 y)
      then show ?thesis using di(2) by (intro insert_head_keeps_prev [OF q out elem_cell, of y]) simp_all
    qed (rule insert_head_keeps_next [OF q out])
  qed
  moreover have "load64 ?m ?L = load64 m ?L"
    by (rule load64_cong, rule insert_head_keeps_next [OF q out end_cell_in])
  moreover have "load64 ?m (head + 8) = load64 m (head + 8)"
    by (rule load64_cong, rule insert_head_keeps_prev [OF q out head_cell di(1)])
  moreover have "load64 ?m head = e" unfolding eq using oh(2) by (simp only: load64_store64_other load64_store64_same)
  moreover have "load64 ?m (e + f + 8) = head" unfolding eq by (rule load64_store64_same)
  moreover have "load64 ?m (?c + 8) = e + f" unfolding eq using oc(4) next_prev [OF ap head_cell cs] by (simp only: load_stores)
  moreover have "load64 ?m (e + f) = x" unfolding eq using oh(1) oc(3) cell_words(3) [of "e + f"] by (simp only: load_stores)
  ultimately show ?thesis using q insert_head_apart [OF ap out] s(2) assms(3) by (simp add: tailq_def)
qed

lemma insert_head:
  assumes "tailq m head f xs" and "outside (e + f) (cells head f xs)" and "e \<noteq> 0"
  shows "tailq (TAILQ_INSERT_HEAD m head e f) head f (e # xs)"
  using insert_head_Nil insert_head_Cons assms by (cases xs) simp_all

text \<open>A queue depends on the bytes of its cells only.\<close>

lemma tailq_cong:
  assumes "tailq m h f xs" and "\<And>c x. c \<in> set (cells h f xs) \<Longrightarrow> x \<in> span c 16 \<Longrightarrow> m' x = m x"
  shows "tailq m' h f xs"
proof -
  have w: "m' x = m x" if "c \<in> set (cells h f xs)" "x \<in> span c 8 \<or> x \<in> span (c + 8) 8" for c x
    using assms(2) [OF that(1)] that(2) cell_words [of c] by blast
  have "seg m' f h xs"
  proof (rule seg_cong)
    show "seg m f h xs" using assms(1) by (simp add: tailq_def)
    fix a
    assume "a \<in> next_words h f xs \<union> prev_words f xs"
    then consider d where "d \<in> set (cells h f xs)" "a \<in> span d 8" | x where "x \<in> set xs" "a \<in> span (x + f + 8) 8"
      unfolding next_words_def prev_words_def by (blast dest: in_set_butlastD)
    then show "m' a = m a" by cases (use w elem_cell [of _ xs f h] in blast)+
  qed
  moreover have "load64 m' (end_cell h f xs) = load64 m (end_cell h f xs)" "load64 m' (h + 8) = load64 m (h + 8)"
    by (rule load64_cong, use w [OF end_cell_in] w [OF head_cell] in blast)+
  ultimately show ?thesis using assms(1) by (simp add: tailq_def)
qed

subsection \<open>Access\<close>

lemma seg_nth:
  "seg m f c xs \<Longrightarrow> i < length xs \<Longrightarrow>
     load64 m (cells c f xs ! i) = xs ! i \<and> load64 m (xs ! i + f + 8) = cells c f xs ! i \<and> xs ! i \<noteq> 0"
proof (induction xs arbitrary: c i)
  case (Cons x xs)
  then show ?case by (cases i) (simp, force)
qed simp

lemma cells_nth: "i < length xs \<Longrightarrow> cells c f xs ! Suc i = xs ! i + f"
  by (simp add: cells_def)

lemma cells_length: "cells c f xs ! length xs = end_cell c f xs"
  by (simp add: cells_def end_cell_def last_conv_nth nth_Cons split: nat.split)

text \<open>The words of cell \<open>i\<close>, where cell 0 is the head: the next element, and the cell before it, which for
  the head is the last cell.\<close>

lemma cell_links:
  assumes "tailq m head f xs" and "i \<le> length xs"
  shows "load64 m (cells head f xs ! i) = (if i < length xs then xs ! i else 0)"
    and "load64 m (cells head f xs ! i + 8) = cells head f xs ! (if i = 0 then length xs else i - 1)"
proof -
  have s: "seg m f head xs" and e: "load64 m (end_cell head f xs) = 0" "load64 m (head + 8) = end_cell head f xs"
    using assms(1) by (simp_all add: tailq_def)
  show "load64 m (cells head f xs ! i) = (if i < length xs then xs ! i else 0)"
    using assms(2) e(1) seg_nth [OF s, of i] cells_length [of head f xs] by (cases "i = length xs") auto
  show "load64 m (cells head f xs ! i + 8) = cells head f xs ! (if i = 0 then length xs else i - 1)"
  proof (cases i)
    case 0
    then show ?thesis using e(2) cells_length [of head f xs] by (simp add: cells_def)
  next
    case (Suc j)
    then show ?thesis using assms(2) seg_nth [OF s, of j] cells_nth [of j xs head f] by simp
  qed
qed

lemma tailq_nonzero: "tailq m head f xs \<Longrightarrow> x \<in> set xs \<Longrightarrow> x \<noteq> 0"
  using seg_nth unfolding tailq_def in_set_conv_nth by blast

lemma tailq_distinct:
  assumes "tailq m head f xs"
  shows "distinct xs"
proof -
  have "distinct (map (\<lambda>x. x + f) xs)"
    using cells_apart_distinct [of "cells head f xs"] assms by (simp add: tailq_def cells_def)
  then show ?thesis by (rule distinct_map [THEN iffD1, THEN conjunct1])
qed

lemma tailq_first:
  assumes "tailq m head f xs"
  shows "TAILQ_FIRST m head = (if xs = [] then 0 else xs ! 0)"
  using cell_links(1) [OF assms, of 0] by (simp add: TAILQ_FIRST_def cells_def)

lemma tailq_next:
  assumes "tailq m head f xs" and "i < length xs"
  shows "TAILQ_NEXT m (xs ! i) f = (if Suc i < length xs then xs ! Suc i else 0)"
  using cell_links(1) [OF assms(1), of "Suc i"] assms(2) cells_nth [OF assms(2), of head f] by (simp add: TAILQ_NEXT_def)

lemma tailq_last:
  assumes "tailq m head f xs"
  shows "TAILQ_LAST m head = (if xs = [] then 0 else xs ! (length xs - 1))"
proof -
  let ?n = "length xs" and ?j = "if length xs = 0 then length xs else length xs - 1"
  have "load64 m (head + 8) = cells head f xs ! ?n" using cell_links(2) [OF assms, of 0] by (simp add: cells_def)
  moreover have "load64 m (cells head f xs ! ?n + 8) = cells head f xs ! ?j" by (rule cell_links(2) [OF assms]) simp
  moreover have "load64 m (cells head f xs ! ?j) = (if ?j < ?n then xs ! ?j else 0)" by (rule cell_links(1) [OF assms]) simp
  ultimately show ?thesis by (simp add: TAILQ_LAST_def)
qed

lemma tailq_prev:
  assumes "tailq m head f xs" and "i < length xs"
  shows "TAILQ_PREV m (xs ! i) f = (if i = 0 then 0 else xs ! (i - 1))"
proof -
  let ?j = "if i = 0 then length xs else i - 1"
  have "load64 m (xs ! i + f + 8) = cells head f xs ! i"
    using cell_links(2) [OF assms(1), of "Suc i"] assms(2) cells_nth [OF assms(2), of head f] by simp
  moreover have "load64 m (cells head f xs ! i + 8) = cells head f xs ! ?j"
    by (rule cell_links(2) [OF assms(1)]) (use assms(2) in simp)
  moreover have "load64 m (cells head f xs ! ?j) = (if ?j < length xs then xs ! ?j else 0)"
    by (rule cell_links(1) [OF assms(1)]) (use assms(2) in auto)
  moreover have "?j < length xs \<longleftrightarrow> i \<noteq> 0" using assms(2) by auto
  ultimately show ?thesis by (simp add: TAILQ_PREV_def)
qed

lemma foreach_nth:
  assumes "tailq m head f xs" and "i \<le> length xs"
  shows "foreach_from m f (if i < length xs then xs ! i else 0) = Some (drop i xs)"
  using assms(2)
proof (induction "length xs - i" arbitrary: i)
  case 0
  then show ?case by (subst foreach_from.simps) simp
next
  case (Suc n)
  then have i: "i < length xs" by simp
  have "foreach_from m f (if Suc i < length xs then xs ! Suc i else 0) = Some (drop (Suc i) xs)"
    using Suc by (intro Suc.hyps(1)) simp_all
  moreover have "xs ! i \<noteq> 0" using tailq_nonzero [OF assms(1)] i by simp
  ultimately show ?case
    using i tailq_next [OF assms(1) i] by (subst foreach_from.simps) (simp add: Cons_nth_drop_Suc)
qed

lemma reverse_nth:
  assumes "tailq m head f xs" and "i \<le> length xs"
  shows "reverse_from m f (if i = 0 then 0 else xs ! (i - 1)) = Some (rev (take i xs))"
  using assms(2)
proof (induction i)
  case 0
  then show ?case by (subst reverse_from.simps) simp
next
  case (Suc i)
  then have "xs ! i \<noteq> 0" using tailq_nonzero [OF assms(1)] by simp
  then show ?case
    using Suc tailq_prev [OF assms(1), of i] by (subst reverse_from.simps) (simp add: take_Suc_conv_app_nth)
qed

subsection \<open>What the users of a queue rely on\<close>

text \<open>
  \<open>holds m xs\<close>: the queue holds \<open>xs\<close> in the state \<open>m\<close>; the null pointer \<open>0\<close> is not an element. A round
  robin over the queue goes from an element to the next and from the last to the first.
\<close>

locale linked_queue =
  fixes holds :: "'m \<Rightarrow> 'a::zero list \<Rightarrow> bool"
    and front :: "'m \<Rightarrow> 'a"
    and succ :: "'m \<Rightarrow> 'a \<Rightarrow> 'a"
  assumes front_law: "holds m xs \<Longrightarrow> front m = (if xs = [] then 0 else xs ! 0)"
    and succ_law: "holds m xs \<Longrightarrow> i < length xs \<Longrightarrow> succ m (xs ! i) = (if Suc i < length xs then xs ! Suc i else 0)"
    and elem_law: "holds m xs \<Longrightarrow> x \<in> set xs \<Longrightarrow> x \<noteq> 0"
    and distinct_law: "holds m xs \<Longrightarrow> distinct xs"
begin

lemma cyclic_step:
  assumes "holds m xs" and "i < length xs"
  shows "(if succ m (xs ! i) = 0 then front m else succ m (xs ! i)) = xs ! (Suc i mod length xs)"
proof (cases "Suc i < length xs")
  case True
  then have "xs ! Suc i \<noteq> 0" using elem_law [OF assms(1)] by simp
  then show ?thesis using True succ_law [OF assms] by simp
next
  case False
  then have "Suc i = length xs" using assms(2) by simp
  then show ?thesis using succ_law [OF assms] front_law [OF assms(1)] assms(2) by auto
qed

lemma cyclic_walk:
  assumes "holds m xs" and "i < length xs"
  shows "((\<lambda>x. if succ m x = 0 then front m else succ m x) ^^ k) (xs ! i) = xs ! ((i + k) mod length xs)"
proof (induction k)
  case (Suc k)
  have "(i + k) mod length xs < length xs" using assms(2) by (cases "length xs") simp_all
  from cyclic_step [OF assms(1) this] Suc show ?case by (simp only: funpow.simps comp_apply mod_Suc_eq add_Suc_right)
qed (use assms(2) in simp)

end

interpretation tq: linked_queue "\<lambda>m. tailq m head f" "\<lambda>m. TAILQ_FIRST m head" "\<lambda>m x. TAILQ_NEXT m x f" for head f
  by unfold_locales (use tailq_first tailq_next tailq_nonzero tailq_distinct in blast)+

subsection \<open>Properties\<close>

text \<open>C31: \<open>TAILQ_INIT\<close> makes an empty queue, \<open>TAILQ_INSERT_TAIL\<close> appends and \<open>TAILQ_INSERT_HEAD\<close> prepends an
  element that is not in the queue, and the forward and backward loops over the queue end and visit
  its elements in order and in reverse order; \<open>TAILQ_FIRST\<close>, \<open>TAILQ_LAST\<close> and \<open>TAILQ_EMPTY\<close> agree.\<close>

theorem tailq_correct:
  "tailq (TAILQ_INIT m0 h) h f [] \<and>
   (tailq m h f xs \<and> outside (e + f) (cells h f xs) \<and> e \<noteq> 0 \<longrightarrow>
     tailq (TAILQ_INSERT_TAIL m h e f) h f (xs @ [e]) \<and> tailq (TAILQ_INSERT_HEAD m h e f) h f (e # xs)) \<and>
   (tailq m h f xs \<longrightarrow>
     TAILQ_FOREACH_SAFE m h f = Some xs \<and> TAILQ_FOREACH_REVERSE m h f = Some (rev xs) \<and>
     (TAILQ_EMPTY m h \<longleftrightarrow> xs = []) \<and> (xs \<noteq> [] \<longrightarrow> TAILQ_FIRST m h = hd xs \<and> TAILQ_LAST m h = last xs))"
proof (intro conjI impI)
  show "tailq (TAILQ_INIT m0 h) h f []"
    using cell_words(3) [of h] by (simp add: tailq_def TAILQ_INIT_def Let_def load64_store64_other cells_apart_def)
next
  assume q: "tailq m h f xs"
  show "TAILQ_FOREACH_SAFE m h f = Some xs"
    using foreach_nth [OF q, of 0] tailq_first [OF q] by (cases xs) (simp_all add: TAILQ_FOREACH_SAFE_def)
  show "TAILQ_FOREACH_REVERSE m h f = Some (rev xs)"
    using reverse_nth [OF q, of "length xs"] tailq_last [OF q] by (cases xs) (simp_all add: TAILQ_FOREACH_REVERSE_def)
  show "TAILQ_EMPTY m h \<longleftrightarrow> xs = []"
    using tailq_first [OF q] tailq_nonzero [OF q] by (auto simp: TAILQ_EMPTY_def)
  show "xs \<noteq> [] \<Longrightarrow> TAILQ_FIRST m h = hd xs" using tailq_first [OF q] by (simp add: hd_conv_nth)
  show "xs \<noteq> [] \<Longrightarrow> TAILQ_LAST m h = last xs" using tailq_last [OF q] by (simp add: last_conv_nth)
qed (simp_all add: insert_tail insert_head)

theorem tailq_correct_witness:
  "\<exists>m. tailq m 0x1000 200 [0x2000] \<and> TAILQ_FOREACH_SAFE m 0x1000 200 = Some [0x2000]"
proof -
  let ?m = "TAILQ_INIT (\<lambda>_. 0) 0x1000"
  have "span 0x1000 16 \<inter> span 0x20C8 16 = {}"
    using span_disjoint_nat [of "0x1000" 16 "0x20C8" 16] by simp
  then have "outside (0x2000 + 200) (cells 0x1000 200 [])" by (simp add: outside_def)
  then have "tailq (TAILQ_INSERT_TAIL ?m 0x1000 0x2000 200) 0x1000 200 [0x2000]"
    using tailq_correct [of "\<lambda>_. 0" "0x1000" 200 ?m "[]" "0x2000"] by simp
  then show ?thesis using tailq_correct [of "\<lambda>_. 0" "0x1000" 200 "TAILQ_INSERT_TAIL ?m 0x1000 0x2000 200" "[0x2000]" 0] by blast
qed

end
