(* ===== verification/Mutex.thy ===== *)
theory Mutex
  imports Libkern
begin

text \<open>
  The spin lock of \<^verbatim>\<open>sys/sync/mutex.c\<close>, twice.

  \<^item> On the memory of one core: \<open>mutex_acquire\<close> is the loop around \<open>__atomic_test_and_set\<close>, which does
    not return while the lock is taken (\<open>None\<close> if nobody else can release it).
  \<^item> As a transition system of any number of cores that take and release one lock, where each
    attempt of the loop and each release is one atomic step, as the two builtins are. Its reachable
    states never have two holders.
\<close>

subsection \<open>The code\<close>

definition atomic_test_and_set :: "uint8_t \<Rightarrow> bool \<times> uint8_t" where
  "atomic_test_and_set l = (l \<noteq> 0, 1)"

definition atomic_clear :: "uint8_t \<Rightarrow> uint8_t" where
  "atomic_clear l = 0"

partial_function (option) mutex_acquire :: "memory \<Rightarrow> addr \<Rightarrow> memory option" where
  "mutex_acquire m l =
     (let (was_set, v) = atomic_test_and_set (m l); m = m(l := v)
      in if was_set then mutex_acquire m l else Some m)"

definition mutex_release :: "memory \<Rightarrow> addr \<Rightarrow> memory" where
  "mutex_release m l = m(l := atomic_clear (m l))"

subsection \<open>One core\<close>

lemma acquire_free [simp]: "m l = 0 \<Longrightarrow> mutex_acquire m l = Some (m(l := 1))"
  by (subst mutex_acquire.simps) (simp add: atomic_test_and_set_def)

lemma acquire_Some:
  assumes "mutex_acquire m l = Some m'"
  shows "m l = 0 \<and> m' = m(l := 1)"
proof (rule mutex_acquire.raw_induct [OF _ assms])
  fix f :: "memory \<Rightarrow> addr \<Rightarrow> memory option" and m l m'
  assume ih: "\<And>m l m'. f m l = Some m' \<Longrightarrow> m l = 0 \<and> m' = m(l := 1)"
    and eq: "(let (was_set, v) = atomic_test_and_set (m l); m = m(l := v) in if was_set then f m l else Some m) = Some m'"
  show "m l = 0 \<and> m' = m(l := 1)"
  proof (cases "m l = 0")
    case False
    then have "f (m(l := 1)) l = Some m'" using eq by (simp add: atomic_test_and_set_def)
    from ih [OF this] show ?thesis by simp
  qed (use eq in \<open>simp add: atomic_test_and_set_def\<close>)
qed

lemma acquire_taken [simp]: "m l \<noteq> 0 \<Longrightarrow> mutex_acquire m l = None"
  using acquire_Some [of m l] by (cases "mutex_acquire m l") auto

lemma release_acquired [simp]: "m l = 0 \<Longrightarrow> mutex_release (m(l := 1)) l = m"
  by (auto simp: mutex_release_def atomic_clear_def)

subsection \<open>Many cores\<close>

datatype place = Outside | Spinning | Holding

record mutex_sys =
  lockv :: uint8_t
  at :: "nat \<Rightarrow> place"

inductive mutex_step :: "nat \<Rightarrow> mutex_sys \<Rightarrow> mutex_sys \<Rightarrow> bool" where
  call: "at s i = Outside \<Longrightarrow> mutex_step i s (s\<lparr>at := (at s)(i := Spinning)\<rparr>)"
| attempt: "at s i = Spinning \<Longrightarrow> atomic_test_and_set (lockv s) = (was_set, v) \<Longrightarrow>
     mutex_step i s (s\<lparr>lockv := v, at := (at s)(i := if was_set then Spinning else Holding)\<rparr>)"
| release: "at s i = Holding \<Longrightarrow>
     mutex_step i s (s\<lparr>lockv := atomic_clear (lockv s), at := (at s)(i := Outside)\<rparr>)"

inductive mutex_reach :: "mutex_sys \<Rightarrow> bool" where
  init: "mutex_reach \<lparr>lockv = 0, at = \<lambda>_. Outside\<rparr>"
| step: "mutex_reach s \<Longrightarrow> mutex_step i s s' \<Longrightarrow> mutex_reach s'"

inductive_cases mutex_stepE: "mutex_step i s s'"

definition mutex_inv :: "mutex_sys \<Rightarrow> bool" where
  "mutex_inv s \<longleftrightarrow> (lockv s = 0 \<longleftrightarrow> (\<forall>i. at s i \<noteq> Holding)) \<and> (\<forall>i j. at s i = Holding \<longrightarrow> at s j = Holding \<longrightarrow> i = j)"

lemma mutex_inv_step: "mutex_step i s s' \<Longrightarrow> mutex_inv s \<Longrightarrow> mutex_inv s'"
proof (induction rule: mutex_step.induct)
  case (call s i)
  have "((at s)(i := Spinning)) j = Holding \<longleftrightarrow> at s j = Holding" for j using call(1) by auto
  then show ?case using call(2) unfolding mutex_inv_def by simp
next
  case (attempt s i was_set v)
  then have v: "v = 1" "was_set \<longleftrightarrow> lockv s \<noteq> 0" by (simp_all add: atomic_test_and_set_def)
  show ?case
  proof (cases was_set)
    case True
    then obtain k where k: "at s k = Holding" using attempt.prems v unfolding mutex_inv_def by blast
    then have "k \<noteq> i" using attempt.hyps(1) by auto
    then show ?thesis using attempt.prems True v k unfolding mutex_inv_def by (auto split: if_splits)
  next
    case False
    then have "\<forall>k. at s k \<noteq> Holding" using attempt.prems v unfolding mutex_inv_def by blast
    then show ?thesis using False v unfolding mutex_inv_def by (auto split: if_splits)
  qed
next
  case (release s i)
  then have "at s j \<noteq> Holding" if "j \<noteq> i" for j using that unfolding mutex_inv_def by blast
  then show ?case unfolding mutex_inv_def by (auto simp: atomic_clear_def)
qed

lemma mutex_reach_inv: "mutex_reach s \<Longrightarrow> mutex_inv s"
proof (induction rule: mutex_reach.induct)
  case init
  then show ?case by (simp add: mutex_inv_def)
next
  case (step s i s')
  then show ?case by (blast intro: mutex_inv_step)
qed

subsection \<open>Properties\<close>

text \<open>C30: whatever the interleaving of the cores, at most one of them is between \<open>mutex_acquire\<close> and
  \<open>mutex_release\<close>; the lock is free exactly when none is, and then the next attempt of any spinning core
  takes it.\<close>

theorem mutex_exclusion:
  assumes "mutex_reach s"
  shows "(\<forall>i j. at s i = Holding \<and> at s j = Holding \<longrightarrow> i = j) \<and>
    (lockv s = 0 \<longleftrightarrow> (\<forall>i. at s i \<noteq> Holding)) \<and>
    ((\<forall>i. at s i \<noteq> Holding) \<longrightarrow> (\<forall>i s'. at s i = Spinning \<longrightarrow> mutex_step i s s' \<longrightarrow> at s' i = Holding))"
proof -
  note inv = mutex_reach_inv [OF assms, unfolded mutex_inv_def]
  have "at s' i = Holding" if "lockv s = 0" "at s i = Spinning" "mutex_step i s s'" for i s'
    using that by (auto elim: mutex_stepE simp: atomic_test_and_set_def)
  then show ?thesis using inv by blast
qed

lemma mutex_demo: "mutex_reach \<lparr>lockv = 1, at = (\<lambda>_. Outside)(3 := Holding)\<rparr>"
proof -
  let ?s0 = "\<lparr>lockv = 0, at = \<lambda>_. Outside\<rparr>" and ?s1 = "\<lparr>lockv = 0, at = (\<lambda>_. Outside)(3 := Spinning)\<rparr>"
  have "mutex_step 3 ?s0 (?s0\<lparr>at := (at ?s0)(3 := Spinning)\<rparr>)" by (rule call) simp
  then have "mutex_step 3 ?s0 ?s1" by simp
  with init have r: "mutex_reach ?s1" by (rule step)
  have "mutex_step 3 ?s1 (?s1\<lparr>lockv := 1, at := (at ?s1)(3 := if False then Spinning else Holding)\<rparr>)"
    by (rule attempt) (simp_all add: atomic_test_and_set_def)
  then have "mutex_step 3 ?s1 \<lparr>lockv = 1, at = (\<lambda>_. Outside)(3 := Holding)\<rparr>" by simp
  with r show ?thesis by (rule step)
qed

theorem mutex_exclusion_witness: "\<exists>!i. at \<lparr>lockv = 1, at = (\<lambda>_. Outside)(3 := Holding)\<rparr> i = Holding"
proof (rule ex1I)
  show "at \<lparr>lockv = 1, at = (\<lambda>_. Outside)(3 := Holding)\<rparr> 3 = Holding" by simp
  then show "i = 3" if "at \<lparr>lockv = 1, at = (\<lambda>_. Outside)(3 := Holding)\<rparr> i = Holding" for i
    using mutex_exclusion [OF mutex_demo] that by blast
qed

end
