(* ===== verification/Machine.thy ===== *)
theory Machine
  imports Hashmap Tailq Mutex
begin

text \<open>
  The machine the kernel runs on and the kernel's global state.

  The hardware is a parameter \<open>H\<close> of the model: how a device state of any type \<open>'d\<close> answers a read of a
  memory-mapped register or an I/O port and how a write changes it. Nothing is assumed of it here;
  a theorem that needs the documented behaviour of a device says so.

  \<open>kernel\<close> holds the memory, the device state and the static variables of the C files. The heap and
  the memory managers of the other theories carry the memory they work on; \<open>heap_call\<close> and \<open>vmm_call\<close>
  run them on the memory of the machine. A result of type \<open>'a run\<close> is \<open>None\<close> if the code never returns,
  otherwise a fault or a value.
\<close>

subsection \<open>Hardware\<close>

record 'd hardware =
  mmio_read32 :: "'d \<Rightarrow> addr \<Rightarrow> uint32_t \<times> 'd"
  mmio_write32 :: "'d \<Rightarrow> addr \<Rightarrow> uint32_t \<Rightarrow> 'd"
  mmio_read64 :: "'d \<Rightarrow> addr \<Rightarrow> uint64_t \<times> 'd"
  mmio_write64 :: "'d \<Rightarrow> addr \<Rightarrow> uint64_t \<Rightarrow> 'd"
  port_in8 :: "'d \<Rightarrow> uint16_t \<Rightarrow> uint8_t \<times> 'd"
  port_out8 :: "'d \<Rightarrow> uint16_t \<Rightarrow> uint8_t \<Rightarrow> 'd"
  port_in16 :: "'d \<Rightarrow> uint16_t \<Rightarrow> uint16_t \<times> 'd"
  port_out16 :: "'d \<Rightarrow> uint16_t \<Rightarrow> uint16_t \<Rightarrow> 'd"
  port_in32 :: "'d \<Rightarrow> uint16_t \<Rightarrow> uint32_t \<times> 'd"
  port_out32 :: "'d \<Rightarrow> uint16_t \<Rightarrow> uint32_t \<Rightarrow> 'd"

text \<open>The port instructions of \<^verbatim>\<open>sys/amd64/io.c\<close>.\<close>

definition amd64_inb :: "'d hardware \<Rightarrow> 'd \<Rightarrow> uint16_t \<Rightarrow> uint8_t \<times> 'd" where
  "amd64_inb H d port = port_in8 H d port"

definition amd64_outb :: "'d hardware \<Rightarrow> 'd \<Rightarrow> uint16_t \<Rightarrow> uint8_t \<Rightarrow> 'd" where
  "amd64_outb H d port data = port_out8 H d port data"

definition amd64_outw :: "'d hardware \<Rightarrow> 'd \<Rightarrow> uint16_t \<Rightarrow> uint16_t \<Rightarrow> 'd" where
  "amd64_outw H d port data = port_out16 H d port data"

definition amd64_inw :: "'d hardware \<Rightarrow> 'd \<Rightarrow> uint16_t \<Rightarrow> uint16_t \<times> 'd" where
  "amd64_inw H d port = port_in16 H d port"

definition amd64_outl :: "'d hardware \<Rightarrow> 'd \<Rightarrow> uint16_t \<Rightarrow> uint32_t \<Rightarrow> 'd" where
  "amd64_outl H d port data = port_out32 H d port data"

definition amd64_inl :: "'d hardware \<Rightarrow> 'd \<Rightarrow> uint16_t \<Rightarrow> uint32_t \<times> 'd" where
  "amd64_inl H d port = port_in32 H d port"

definition amd64_io_wait :: "'d hardware \<Rightarrow> 'd \<Rightarrow> 'd" where
  "amd64_io_wait H d = port_out8 H d 0x80 0"

subsection \<open>Results that may not come\<close>

type_synonym 'a run = "'a res option"

definition bindR :: "'a run \<Rightarrow> ('a \<Rightarrow> 'b run) \<Rightarrow> 'b run" where
  "bindR r f = (case r of None \<Rightarrow> None | Some (Inl e) \<Rightarrow> Some (Inl e) | Some (Inr x) \<Rightarrow> f x)"

abbreviation ret :: "'a \<Rightarrow> 'a run" where
  "ret x \<equiv> Some (Inr x)"

lemma bindR_simps [simp, res_simps]:
  "bindR None f = None" "bindR (Some (Inl e)) f = Some (Inl e)" "bindR (Some (Inr x)) f = f x"
  by (simp_all add: bindR_def)

lemma bindR_ret: "bindR r f = ret y \<longleftrightarrow> (\<exists>x. r = ret x \<and> f x = ret y)"
  by (auto simp: bindR_def split: option.splits sum.splits)

subsection \<open>The kernel's state\<close>

record idt_gate_descriptor =
  isr_low16 :: uint16_t
  gate_cs :: uint16_t
  ist :: "2 word"
  gate_zero :: "4 word"
  gate_attr :: "4 word"
  gate_zero1 :: "1 word"
  gate_dpl :: "2 word"
  gate_p :: "1 word"
  isr_mid16 :: uint16_t
  isr_high32 :: uint32_t
  gate_reserved :: uint32_t

text \<open>The framebuffer the boot loader reports (\<^verbatim>\<open>sys/include/limine.h\<close>) and the static variables of
  \<^verbatim>\<open>sys/tty/console.c\<close> and \<^verbatim>\<open>sys/libkern/string.c\<close>.\<close>

record limine_framebuffer =
  fb_address :: addr
  fb_width :: uint64_t
  fb_height :: uint64_t
  fb_pitch :: uint64_t

record console =
  cur_x :: size_t
  cur_y :: size_t
  framebuffer :: "limine_framebuffer option"
  hex_string :: "uint8_t list"
  dec_string :: "uint8_t list"

text \<open>What the boot loader reports about the cores.\<close>

record limine_smp_info =
  info_lapic_id :: uint32_t
  extra_argument :: uint64_t
  goto_address :: addr

record limine_smp_response =
  bsp_lapic_id :: uint32_t
  cpu_count :: uint64_t
  cpus :: "limine_smp_info list"

text \<open>Nodes of the file system (\<^verbatim>\<open>sys/include/sys/vnode.h\<close>). The name of a node and its
  lock are in memory, in the block of the node.\<close>

datatype vtype = VNON | VREG | VDIR | VBLK | VCHR | VBAD

datatype vstate = VSTATE_UNINIT | VSTATE_CONSTRUCTED | VSTATE_DESTROYING | VSTATE_DEAD

record vnode =
  v_type :: vtype
  v_state :: vstate
  v_flags :: uint8_t
  v_mkdir :: addr
  children :: hashmap
  n_children :: size_t

text \<open>The static variables of \<^verbatim>\<open>sys/dev/net/rtl8139.c\<close>.\<close>

record rtl8139 =
  nic_dev :: addr
  iobase :: uint32_t
  rxbuf :: addr
  txbufs :: "uint8_t list"
  next_txbuf :: size_t
  rxbuf_offset :: uint64_t
  packet_buf :: addr
  mac_addr :: "uint8_t list"

text \<open>The locks are given by the addresses of their bytes. The last fields of the table registers are what
  the \<^verbatim>\<open>lgdt\<close>, \<^verbatim>\<open>ltr\<close> and \<^verbatim>\<open>lidt\<close> instructions of the running core have loaded.\<close>

record 'd kernel =
  ram :: memory
  hw :: 'd
  heap :: kheap
  vm :: vmm
  idt :: "idt_gate_descriptor list"
  vector :: uint8_t
  g_lapic_mmio_base :: addr
  g_ioapic_mmio_base :: addr
  rsdt :: addr
  rsdt_entry_count :: size_t
  madt :: addr
  timer_vector :: uint8_t
  goto_vector :: uint8_t
  hpet_base :: addr
  hpet_period :: uint64_t
  smp_resp :: "limine_smp_response option"
  g_corelist :: addr
  current_core_idx :: size_t
  pid_bitmap :: addr
  pid_bitmap_bytes :: size_t
  this_core_lock :: addr
  sleep_lock :: addr
  trap_lock :: addr
  goto_vec_lock :: addr
  con :: console
  rsdp :: addr
  hpet :: addr
  smp_req :: "limine_smp_response option"
  ap_lock :: addr
  core_idx :: size_t
  g_gdt :: addr
  bsp_tss :: addr
  fs_root :: addr
  vnodes :: "addr \<Rightarrow> vnode option"
  nic :: rtl8139
  gdtr_limit :: uint16_t
  gdtr_base :: addr
  task_register :: uint16_t
  idt_loaded :: bool

subsection \<open>Calls into the memory managers\<close>

definition with_ram :: "kheap \<Rightarrow> memory \<Rightarrow> kheap" where
  "with_ram h m = h\<lparr>tlsf_ctx := map_option (\<lambda>t. t\<lparr>mem := m\<rparr>) (tlsf_ctx h)\<rparr>"

definition put_heap :: "'d kernel \<Rightarrow> kheap \<Rightarrow> 'd kernel" where
  "put_heap s h = s\<lparr>heap := h, ram := (case tlsf_ctx h of None \<Rightarrow> ram s | Some t \<Rightarrow> mem t)\<rparr>"

definition heap_call :: "(kheap \<Rightarrow> (addr \<times> kheap) res) \<Rightarrow> 'd kernel \<Rightarrow> (addr \<times> 'd kernel) res" where
  "heap_call f s = bindE (f (with_ram (heap s) (ram s))) (\<lambda>(p, h). Inr (p, put_heap s h))"

definition vmm_call :: "(vmm \<Rightarrow> (addr \<times> vmm) res) \<Rightarrow> 'd kernel \<Rightarrow> (addr \<times> 'd kernel) res" where
  "vmm_call f s =
     bindE (f (vm s\<lparr>pm := pm (vm s)\<lparr>pmem := ram s\<rparr>\<rparr>)) (\<lambda>(p, v). Inr (p, s\<lparr>vm := v, ram := pmem (pm v)\<rparr>))"

definition lock_acquire :: "'d kernel \<Rightarrow> addr \<Rightarrow> 'd kernel run" where
  "lock_acquire s l = (case mutex_acquire (ram s) l of None \<Rightarrow> None | Some m \<Rightarrow> ret (s\<lparr>ram := m\<rparr>))"

definition lock_release :: "'d kernel \<Rightarrow> addr \<Rightarrow> 'd kernel" where
  "lock_release s l = s\<lparr>ram := mutex_release (ram s) l\<rparr>"

lemma lock_acquire_simps [simp]:
  "ram s l = 0 \<Longrightarrow> lock_acquire s l = ret (s\<lparr>ram := (ram s)(l := 1)\<rparr>)"
  "ram s l \<noteq> 0 \<Longrightarrow> lock_acquire s l = None"
  by (simp_all add: lock_acquire_def)

definition heap_holds :: "'d kernel \<Rightarrow> (nat \<Rightarrow> nat option) \<Rightarrow> bool" where
  "heap_holds s A \<longleftrightarrow> kheap_ok (with_ram (heap s) (ram s)) A"

lemma with_ram_kmem: "kheap_ok h A \<Longrightarrow> with_ram h (kmem h) = h"
  by (auto simp: with_ram_def kheap_ok_def kmem_def)

lemma put_heap_holds:
  assumes "kheap_ok h A"
  shows "heap_holds (put_heap s h) A" "ram (put_heap s h) = kmem h"
proof -
  obtain t where t: "tlsf_ctx h = Some t" using assms by (auto simp: kheap_ok_def)
  then show "ram (put_heap s h) = kmem h" by (simp add: put_heap_def kmem_def)
  have "with_ram h (mem t) = h" using with_ram_kmem [OF assms] t by (simp add: kmem_def)
  then show "heap_holds (put_heap s h) A" using assms t by (simp add: heap_holds_def put_heap_def)
qed

text \<open>What \<open>kmalloc\<close> means for the kernel: a new block, all other blocks as they were.\<close>

lemma kmalloc_call:
  assumes "heap_holds s A"
  shows "\<exists>p s'. heap_call (\<lambda>h. kmalloc h n) s = Inr (p, s') \<and>
     (\<exists>h. s' = put_heap s h) \<and>
     (p = 0 \<and> heap_holds s' A \<and> ram s' = ram s \<or>
      (\<exists>q k. p = W q \<and> p \<noteq> 0 \<and> A q = None \<and> heap_holds s' (A(q \<mapsto> k)) \<and> (unat n + 7 < 2 ^ 64 \<longrightarrow> unat n \<le> k) \<and>
         (\<forall>r j i. A r = Some j \<longrightarrow> i < j \<longrightarrow> ram s' (W (r + i)) = ram s (W (r + i)))))"
proof -
  let ?h = "with_ram (heap s) (ram s)"
  have ok: "kheap_ok ?h A" using assms by (simp add: heap_holds_def)
  have m: "kmem ?h = ram s" using ok by (auto simp: kheap_ok_def kmem_def with_ram_def)
  from kh.alloc_law [OF ok, of n] m obtain p h' where p: "kmalloc ?h n = Inr (p, h')" and
    cases: "p = 0 \<and> kheap_ok h' A \<and> kmem h' = ram s \<or>
     (\<exists>q k. p = W q \<and> p \<noteq> 0 \<and> A q = None \<and> kheap_ok h' (A(q \<mapsto> k)) \<and> (unat n + 7 < 2 ^ 64 \<longrightarrow> unat n \<le> k) \<and>
        (\<forall>r j i. A r = Some j \<longrightarrow> i < j \<longrightarrow> kmem h' (W (r + i)) = ram s (W (r + i))))" by auto
  have call: "heap_call (\<lambda>h. kmalloc h n) s = Inr (p, put_heap s h')" by (simp add: heap_call_def p)
  show ?thesis
  proof (intro exI conjI)
    show "heap_call (\<lambda>h. kmalloc h n) s = Inr (p, put_heap s h')" by (rule call)
    show "p = 0 \<and> heap_holds (put_heap s h') A \<and> ram (put_heap s h') = ram s \<or>
      (\<exists>q k. p = W q \<and> p \<noteq> 0 \<and> A q = None \<and> heap_holds (put_heap s h') (A(q \<mapsto> k)) \<and> (unat n + 7 < 2 ^ 64 \<longrightarrow> unat n \<le> k) \<and>
         (\<forall>r j i. A r = Some j \<longrightarrow> i < j \<longrightarrow> ram (put_heap s h') (W (r + i)) = ram s (W (r + i))))"
      using cases
    proof (elim disjE exE conjE)
      assume "p = 0" "kheap_ok h' A" "kmem h' = ram s"
      then show ?thesis using put_heap_holds [of h' A s] by simp
    next
      fix q k
      assume q: "p = W q" "p \<noteq> 0" "A q = None" "kheap_ok h' (A(q \<mapsto> k))" "unat n + 7 < 2 ^ 64 \<longrightarrow> unat n \<le> k"
        "\<forall>r j i. A r = Some j \<longrightarrow> i < j \<longrightarrow> kmem h' (W (r + i)) = ram s (W (r + i))"
      then show ?thesis unfolding put_heap_holds(2) [OF q(4)] using put_heap_holds(1) [OF q(4)] by blast
    qed
  qed (rule refl)
qed

text \<open>What \<open>kfree\<close> means for the kernel.\<close>

lemma kfree_call:
  assumes "heap_holds s (A(q \<mapsto> k))" and "A q = None"
  shows "\<exists>s'. heap_call (\<lambda>h. bindE (kfree h (W q)) (\<lambda>h. Inr (0, h))) s = Inr (0, s') \<and> (\<exists>h. s' = put_heap s h) \<and> heap_holds s' A \<and>
    (\<forall>r j i. A r = Some j \<longrightarrow> i < j \<longrightarrow> ram s' (W (r + i)) = ram s (W (r + i)))"
proof -
  let ?h = "with_ram (heap s) (ram s)"
  have ok: "kheap_ok ?h (A(q \<mapsto> k))" using assms by (simp add: heap_holds_def)
  have m: "kmem ?h = ram s" using ok by (auto simp: kheap_ok_def kmem_def with_ram_def)
  have "(A(q \<mapsto> k)) q = Some k" "(A(q \<mapsto> k))(q := None) = A" using assms(2) by auto
  with kh.release_law [OF ok, of q k] obtain h' where h': "kfree ?h (W q) = Inr h'" "kheap_ok h' A"
    "\<forall>r j i. (A(q \<mapsto> k)) r = Some j \<longrightarrow> r \<noteq> q \<longrightarrow> i < j \<longrightarrow> kmem h' (W (r + i)) = kmem ?h (W (r + i))" by auto
  have "kmem h' (W (r + i)) = ram s (W (r + i))" if "A r = Some j" "i < j" for r j i
    using h'(3) that assms(2) unfolding m by (cases "r = q") auto
  moreover have "heap_call (\<lambda>h. bindE (kfree h (W q)) (\<lambda>h. Inr (0, h))) s = Inr (0, put_heap s h')" by (simp add: heap_call_def h'(1))
  ultimately show ?thesis using put_heap_holds [OF h'(2), of s] by auto
qed

lemma kfree_null:
  assumes "heap_holds s A"
  shows "\<exists>s'. heap_call (\<lambda>h. bindE (kfree h 0) (\<lambda>h. Inr (0, h))) s = Inr (0, s') \<and> (\<exists>h. s' = put_heap s h) \<and> heap_holds s' A \<and> ram s' = ram s"
proof -
  let ?h = "with_ram (heap s) (ram s)"
  have ok: "kheap_ok ?h A" using assms by (simp add: heap_holds_def)
  have m: "kmem ?h = ram s" using ok by (auto simp: kheap_ok_def kmem_def with_ram_def)
  have "kfree ?h 0 = Inr ?h" using ok by (auto simp: kheap_ok_def kfree_def tlsf_free_def with_ram_def)
  then have "heap_call (\<lambda>h. bindE (kfree h 0) (\<lambda>h. Inr (0, h))) s = Inr (0, put_heap s ?h)" by (simp add: heap_call_def)
  then show ?thesis using put_heap_holds [OF ok, of s] m by auto
qed

lemma put_heap_other [simp]: "hw (put_heap s h) = hw s"
  by (simp add: put_heap_def)

lemma heap_holds_hw [simp]: "heap_holds (s\<lparr>hw := d\<rparr>) A \<longleftrightarrow> heap_holds s A"
  by (simp add: heap_holds_def)

text \<open>Writes inside one block of the heap.\<close>

lemma block_write:
  assumes "heap_ok c s A R" and "A q = Some k" and "\<And>x. x \<notin> span (W q) k \<Longrightarrow> m x = mem s x"
  shows "heap_ok c (s\<lparr>mem := m\<rparr>) A R"
proof -
  define f where "f n = (\<lambda>x. if x \<in> span (W q) n then m x else mem s x)" for n
  have "heap_ok c (s\<lparr>mem := f n\<rparr>) A R" if "n \<le> k" for n
    using that
  proof (induction n)
    case 0
    then show ?case using assms(1) by (simp add: f_def)
  next
    case (Suc n)
    have "span (W q) (Suc n) = insert (W (q + n)) (span (W q) n)"
      by (auto simp: span_def W_def less_Suc_eq)
    then have eq: "f (Suc n) = (f n)(W (q + n) := m (W (q + n)))" by (auto simp: f_def)
    have "heap_ok c (s\<lparr>mem := f n\<rparr>) A R" "n < k" using Suc by simp_all
    then show ?case unfolding eq using assms(2) by (intro write_mem)
  qed
  moreover have "f k = m" using assms(3) by (auto simp: f_def)
  ultimately show ?thesis by blast
qed

lemma heap_holds_write:
  assumes "heap_holds s A" and "A q = Some k" and "\<And>x. x \<notin> span (W q) k \<Longrightarrow> m x = ram s x"
  shows "heap_holds (s\<lparr>ram := m\<rparr>) A"
proof -
  obtain t c R where t: "tlsf_ctx (heap s) = Some t" "heap_ok c (t\<lparr>mem := ram s\<rparr>) A R"
    using assms(1) by (auto simp: heap_holds_def kheap_ok_def with_ram_def)
  have "heap_ok c (t\<lparr>mem := ram s\<rparr>\<lparr>mem := m\<rparr>) A R" by (rule block_write [OF t(2) assms(2)]) (simp add: assms(3))
  then show ?thesis using t(1) by (auto simp: heap_holds_def kheap_ok_def with_ram_def)
qed

lemma holds_block:
  assumes "heap_holds s A" and "A q = Some k"
  shows "0 < q" "q + k < 2 ^ 64"
proof -
  obtain t c R where "heap_ok c t A R" using assms(1) by (auto simp: heap_holds_def kheap_ok_def)
  from heap_block [OF this assms(2)] show "0 < q" "q + k < 2 ^ 64" by auto
qed

lemma holds_outside:
  assumes "heap_holds s A" and "A q = Some k" and "A r = Some j" and "r \<noteq> q" and "i < j" and "n \<le> k"
  shows "W (r + i) \<notin> span (W q) n"
proof -
  have "{q..<q + k} \<inter> {r..<r + j} = {}" using kh.disjoint_law [of _ A q k r j] assms(1-4) unfolding heap_holds_def by auto
  then have "r + i \<notin> {q..<q + k}" using assms(5) by auto
  then show ?thesis unfolding W_def using holds_block [OF assms(1,2)] holds_block [OF assms(1,3)] assms(5,6)
    by (intro of_nat_notin_span) auto
qed

text \<open>Accesses to different fields of one object.\<close>

lemma span_num:
  assumes "numeral i + m \<le> (numeral j :: nat) \<or> numeral j + n \<le> (numeral i :: nat)"
    and "numeral i + m \<le> (2 ^ 64 :: nat)" and "numeral j + n \<le> (2 ^ 64 :: nat)"
  shows "span (a + numeral i) m \<inter> span (a + numeral j) n = {}"
  using assms span_offsets [of "numeral i" m "numeral j" n a] span_offsets [of "numeral j" n "numeral i" m a]
  by (auto simp: Int_commute)

lemma span_base:
  assumes "m \<le> (numeral j :: nat)" and "numeral j + n \<le> (2 ^ 64 :: nat)"
  shows "span a m \<inter> span (a + numeral j) n = {}" "span (a + numeral j) n \<inter> span a m = {}"
  using assms span_offsets [of 0 m "numeral j" n a] by (auto simp: Int_commute)

lemma load_memzero_other: "span a n \<inter> span b (unat k) = {} \<Longrightarrow> load_le n (memzero m b k) a = load_le n m a"
  by (rule load_le_cong) (simp add: memzero_memset memset_outside disjoint_iff)

lemmas field_access = load_store_same load_store_other load_memzero_other span_num span_base take_bit_word_eq_self

lemma span_single: "span a (Suc 0) = {a}"
  by (auto simp: span_Suc)

lemma byte_outside_nat:
  assumes "i < j \<or> j + n \<le> i" and "i < 2 ^ 64" and "j + n \<le> (2 ^ 64 :: nat)"
  shows "a + of_nat i \<notin> span (a + of_nat j) n"
proof -
  have "span (a + of_nat i) (Suc 0) \<inter> span (a + of_nat j) n = {}"
    using assms span_offsets [of i "Suc 0" j n a] span_offsets [of j n i "Suc 0" a] by (auto simp: Int_commute)
  then show ?thesis by (simp add: span_single)
qed

lemma byte_outside:
  "numeral i < (numeral j :: nat) \<or> numeral j + n \<le> (numeral i :: nat) \<Longrightarrow> numeral i < (2 ^ 64 :: nat) \<Longrightarrow> numeral j + n \<le> (2 ^ 64 :: nat) \<Longrightarrow>
     a + numeral i \<notin> span (a + numeral j) n"
  "n \<le> (numeral i :: nat) \<Longrightarrow> numeral i < (2 ^ 64 :: nat) \<Longrightarrow> n \<le> 2 ^ 64 \<Longrightarrow> a + numeral i \<notin> span a n"
proof -
  have z: "a + of_nat 0 = a" by simp
  show "a + numeral i \<notin> span (a + numeral j) n"
    if "numeral i < (numeral j :: nat) \<or> numeral j + n \<le> (numeral i :: nat)" "numeral i < (2 ^ 64 :: nat)" "numeral j + n \<le> (2 ^ 64 :: nat)"
    using byte_outside_nat [OF that, of a] unfolding of_nat_numeral .
  show "a + numeral i \<notin> span a n" if "n \<le> (numeral i :: nat)" "numeral i < (2 ^ 64 :: nat)" "n \<le> 2 ^ 64"
    using byte_outside_nat [of "numeral i" 0 n a] that unfolding z by (simp only: of_nat_numeral add_0_left simp_thms)
qed

lemma load_upd: "x \<notin> span a n \<Longrightarrow> load_le n (m(x := v)) a = load_le n m a"
  by (rule load_le_cong) auto

lemmas byte_access = field_access byte_outside load_upd store_le_notin

subsection \<open>A machine to try the code on\<close>

text \<open>One device: a counter that advances with every read of a 64-bit register; all other registers and
  ports read as 0.\<close>

definition demo_hw :: "uint64_t hardware" where
  "demo_hw = \<lparr>mmio_read32 = \<lambda>d a. (0, d), mmio_write32 = \<lambda>d a v. d, mmio_read64 = \<lambda>d a. (d, d + 1), mmio_write64 = \<lambda>d a v. d,
     port_in8 = \<lambda>d a. (0, d), port_out8 = \<lambda>d a v. d, port_in16 = \<lambda>d a. (0, d), port_out16 = \<lambda>d a v. d,
     port_in32 = \<lambda>d a. (0, d), port_out32 = \<lambda>d a v. d\<rparr>"

definition demo_machine :: "'d \<Rightarrow> memory \<Rightarrow> 'd kernel" where
  "demo_machine d m = \<lparr>ram = m, hw = d, heap = demo_kheap, vm = \<lparr>pm = demo_pmm 0, cr3 = 0, tlb = \<lambda>_. None, old_pml4 = 0\<rparr>,
     idt = [], vector = 0x81, g_lapic_mmio_base = 0, g_ioapic_mmio_base = 0, rsdt = 0, rsdt_entry_count = 0, madt = 0,
     timer_vector = 0x82, goto_vector = 0x81, hpet_base = 0, hpet_period = 100,
     smp_resp = Some \<lparr>bsp_lapic_id = 0, cpu_count = 1, cpus = [\<lparr>info_lapic_id = 0, extra_argument = 0, goto_address = 0\<rparr>]\<rparr>, g_corelist = 0x1000,
     current_core_idx = 0, pid_bitmap = 0, pid_bitmap_bytes = 1, this_core_lock = 0x10, sleep_lock = 0x11, trap_lock = 0x12,
     goto_vec_lock = 0x13,
     con = \<lparr>cur_x = 0, cur_y = 0, framebuffer = Some \<lparr>fb_address = 0x80000000, fb_width = 640, fb_height = 480, fb_pitch = 2560\<rparr>,
       hex_string = replicate 80 0, dec_string = replicate 80 0\<rparr>,
     rsdp = 0, hpet = 0, smp_req = None, ap_lock = 0x14, core_idx = 0, g_gdt = 0x2000, bsp_tss = 0, fs_root = 0,
     vnodes = Map.empty,
     nic = \<lparr>nic_dev = 0, iobase = 0, rxbuf = 0, txbufs = [0, 0, 0, 0], next_txbuf = 0, rxbuf_offset = 0, packet_buf = 0,
       mac_addr = replicate 6 0\<rparr>,
     gdtr_limit = 0, gdtr_base = 0, task_register = 0, idt_loaded = False\<rparr>"

lemma machine_holds: "heap_holds (demo_machine d (mem demo_heap)) Map.empty"
proof -
  have "with_ram demo_kheap (mem demo_heap) = demo_kheap" by (simp add: with_ram_def demo_kheap_def)
  then show ?thesis using demo_kheap_ok by (simp add: heap_holds_def demo_machine_def)
qed

end
