(* ===== verification/Pci.thy ===== *)
theory Pci
  imports Machine
begin

text \<open>
  The PCI configuration space, \<^verbatim>\<open>sys/dev/pci/pci.c\<close>: reading and writing registers through the ports
  \<open>CONFIG_ADDRESS\<close> and \<open>CONFIG_DATA\<close>, the search for a device and what is recorded of it, and the
  enabling of bus mastering. \<open>pci_bridge\<close> states the documented behaviour of the two ports.
\<close>

subsection \<open>Registers\<close>

definition COMBINE_WORD :: "uint16_t \<Rightarrow> uint16_t \<Rightarrow> uint64_t" where
  "COMBINE_WORD word_low word_high = push_bit 16 (ucast word_high) OR ucast word_low"

definition CONFIG_ADDRESS :: uint16_t where "CONFIG_ADDRESS = 0xCF8"
definition CONFIG_DATA :: uint16_t where "CONFIG_DATA = 0xCFC"

definition config_readw :: "'d hardware \<Rightarrow> 'd \<Rightarrow> uint32_t \<Rightarrow> uint32_t \<Rightarrow> uint32_t \<Rightarrow> uint8_t \<Rightarrow> uint16_t \<times> 'd" where
  "config_readw H d bus slot func offset =
     (let config_addr = push_bit 31 1 OR push_bit 16 bus OR push_bit 11 slot OR push_bit 8 func OR (ucast offset AND 0xFC);
          d = amd64_outl H d CONFIG_ADDRESS config_addr;
          (v, d) = amd64_inl H d CONFIG_DATA
      in (ucast (drop_bit (unat (offset AND 2) * 8) v AND 0xFFFF), d))"

definition config_writew :: "'d hardware \<Rightarrow> 'd \<Rightarrow> uint32_t \<Rightarrow> uint32_t \<Rightarrow> uint32_t \<Rightarrow> uint32_t \<Rightarrow> uint16_t \<Rightarrow> 'd" where
  "config_writew H d bus slot func offset v =
     (let config_addr = push_bit 31 1 OR push_bit 16 bus OR push_bit 11 slot OR push_bit 8 func OR (offset AND 0xFC);
          d = amd64_outl H d CONFIG_ADDRESS config_addr
      in amd64_outl H d CONFIG_DATA (ucast v))"

type_synonym ('d, 'a) config_reader = "'d hardware \<Rightarrow> 'd \<Rightarrow> uint8_t \<Rightarrow> uint8_t \<Rightarrow> uint8_t \<Rightarrow> 'a \<times> 'd"

definition read_irq_line :: "('d, uint8_t) config_reader" where
  "read_irq_line H d bus slot func =
     (let (v, d) = config_readw H d (ucast bus) (ucast slot) (ucast func) 0x3C in (ucast (v AND 0xFF), d))"

definition read_vendor :: "('d, uint16_t) config_reader" where
  "read_vendor H d bus slot func = config_readw H d (ucast bus) (ucast slot) (ucast func) 0x0"

definition read_device_id :: "('d, uint16_t) config_reader" where
  "read_device_id H d bus slot func = config_readw H d (ucast bus) (ucast slot) (ucast func) 0x2"

definition read_class :: "('d, uint8_t) config_reader" where
  "read_class H d bus slot func =
     (let (v, d) = config_readw H d (ucast bus) (ucast slot) (ucast func) 0xA in (ucast (drop_bit 8 v), d))"

definition read_subclass :: "('d, uint8_t) config_reader" where
  "read_subclass H d bus slot func =
     (let (v, d) = config_readw H d (ucast bus) (ucast slot) (ucast func) 0xA in (ucast (v AND 0xFF), d))"

definition read_status :: "('d, uint16_t) config_reader" where
  "read_status H d bus slot func = config_readw H d (ucast bus) (ucast slot) (ucast func) 0x6"

definition read_prog_if :: "('d, uint8_t) config_reader" where
  "read_prog_if H d bus slot func =
     (let (v, d) = config_readw H d (ucast bus) (ucast slot) (ucast func) 0x8 in (ucast (drop_bit 8 v), d))"

definition read_cap_ptr :: "('d, uint8_t) config_reader" where
  "read_cap_ptr H d bus slot func =
     (let (v, d) = config_readw H d (ucast bus) (ucast slot) (ucast func) 0x34 in (ucast v, d))"

definition get_bar0 :: "('d, uint32_t) config_reader" where
  "get_bar0 H d bus slot func =
     (let (lo, d) = config_readw H d (ucast bus) (ucast slot) (ucast func) 0x10;
          (hi, d) = config_readw H d (ucast bus) (ucast slot) (ucast func) 0x12
      in (ucast (COMBINE_WORD lo hi), d))"

definition get_bar1 :: "('d, uint32_t) config_reader" where
  "get_bar1 H d bus slot func =
     (let (lo, d) = config_readw H d (ucast bus) (ucast slot) (ucast func) 0x14;
          (hi, d) = config_readw H d (ucast bus) (ucast slot) (ucast func) 0x16
      in (ucast (COMBINE_WORD lo hi), d))"

definition get_bar2 :: "('d, uint32_t) config_reader" where
  "get_bar2 H d bus slot func =
     (let (lo, d) = config_readw H d (ucast bus) (ucast slot) (ucast func) 0x18;
          (hi, d) = config_readw H d (ucast bus) (ucast slot) (ucast func) 0x1A
      in (ucast (COMBINE_WORD lo hi), d))"

definition get_bar3 :: "('d, uint32_t) config_reader" where
  "get_bar3 H d bus slot func =
     (let (lo, d) = config_readw H d (ucast bus) (ucast slot) (ucast func) 0x1C;
          (hi, d) = config_readw H d (ucast bus) (ucast slot) (ucast func) 0x1E
      in (ucast (COMBINE_WORD lo hi), d))"

definition get_bar4 :: "('d, uint32_t) config_reader" where
  "get_bar4 H d bus slot func =
     (let (lo, d) = config_readw H d (ucast bus) (ucast slot) (ucast func) 0x20;
          (hi, d) = config_readw H d (ucast bus) (ucast slot) (ucast func) 0x22
      in (ucast (COMBINE_WORD lo hi), d))"

definition get_bar5 :: "('d, uint32_t) config_reader" where
  "get_bar5 H d bus slot func =
     (let (lo, d) = config_readw H d (ucast bus) (ucast slot) (ucast func) 0x24;
          (hi, d) = config_readw H d (ucast bus) (ucast slot) (ucast func) 0x26
      in (ucast (COMBINE_WORD lo hi), d))"

subsection \<open>Devices\<close>

text \<open>Offsets in \<open>pci_device_t\<close> (\<^verbatim>\<open>sys/include/dev/pci/pci.h\<close>).\<close>

definition pd_irq_line :: uint64_t where "pd_irq_line = 0"
definition pd_bars :: uint64_t where "pd_bars = 8"
definition pd_bus :: uint64_t where "pd_bus = 56"
definition pd_slot :: uint64_t where "pd_slot = 57"
definition pd_func :: uint64_t where "pd_func = 58"
definition pd_msi_cap :: uint64_t where "pd_msi_cap = 59"
definition sizeof_pci_device :: uint64_t where "sizeof_pci_device = 64"

lemmas pd_offsets = pd_irq_line_def pd_bars_def pd_bus_def pd_slot_def pd_func_def pd_msi_cap_def sizeof_pci_device_def

definition init_dev :: "'d hardware \<Rightarrow> 'd kernel \<Rightarrow> addr \<Rightarrow> uint8_t \<Rightarrow> uint8_t \<Rightarrow> uint8_t \<Rightarrow> 'd kernel res" where
  "init_dev H s dev bus slot func =
     (let (irq, d) = read_irq_line H (hw s) bus slot func
      in if dev = 0 then Inl Null_Deref
         else let m = (ram s)(dev + pd_irq_line := irq);
                  m = m(dev + pd_msi_cap := 0);
                  (bar, d) = get_bar0 H d bus slot func;
                  m = store64 m (dev + pd_bars) (ucast bar);
                  (bar, d) = get_bar1 H d bus slot func;
                  m = store64 m (dev + pd_bars + 8) (ucast bar);
                  (bar, d) = get_bar2 H d bus slot func;
                  m = store64 m (dev + pd_bars + 16) (ucast bar);
                  (bar, d) = get_bar3 H d bus slot func;
                  m = store64 m (dev + pd_bars + 24) (ucast bar);
                  (bar, d) = get_bar4 H d bus slot func;
                  m = store64 m (dev + pd_bars + 32) (ucast bar);
                  (bar, d) = get_bar5 H d bus slot func;
                  m = store64 m (dev + pd_bars + 40) (ucast bar);
                  m = m(dev + pd_bus := bus);
                  m = m(dev + pd_slot := slot);
                  m = m(dev + pd_func := func)
              in Inr (s\<lparr>ram := m, hw := d\<rparr>))"

definition pci_enable_bus_mastering :: "'d hardware \<Rightarrow> 'd kernel \<Rightarrow> addr \<Rightarrow> 'd kernel res" where
  "pci_enable_bus_mastering H s dev =
     (if dev = 0 then Inl Null_Deref
      else let bus = ucast (ram s (dev + pd_bus)); slot = ucast (ram s (dev + pd_slot)); func = ucast (ram s (dev + pd_func));
               (val, d) = config_readw H (hw s) bus slot func 0x4
           in Inr (s\<lparr>hw := config_writew H d bus slot func 0x4 (val OR push_bit 2 1 OR push_bit 0 1)\<rparr>))"

subsection \<open>Search\<close>

type_synonym pci_function = "uint8_t \<times> uint8_t \<times> uint8_t"

text \<open>The three nested loops visit the functions in this order; \<open>scan\<close> runs the body until it returns.\<close>

definition pci_functions :: "pci_function list" where
  "pci_functions = concat (map (\<lambda>bus. concat (map (\<lambda>slot. map (\<lambda>func. (of_nat bus, of_nat slot, of_nat func)) [0..<8]) [0..<32])) [0..<5])"

fun scan :: "('d \<Rightarrow> pci_function \<Rightarrow> bool \<times> 'd) \<Rightarrow> pci_function list \<Rightarrow> 'd \<Rightarrow> pci_function option \<times> 'd" where
  "scan body [] d = (None, d)"
| "scan body (f # fs) d = (let (found, d) = body d f in if found then (Some f, d) else scan body fs d)"

definition ids_match :: "'d hardware \<Rightarrow> uint32_t \<Rightarrow> uint32_t \<Rightarrow> 'd \<Rightarrow> pci_function \<Rightarrow> bool \<times> 'd" where
  "ids_match H vendor_id device_id d f =
     (case f of (bus, slot, func) \<Rightarrow>
      let (v, d) = read_device_id H d bus slot func
      in if ucast v = device_id
         then let (v, d) = read_vendor H d bus slot func in (ucast v = vendor_id, d)
         else (False, d))"

text \<open>The register is compared, as an \<open>int\<close>, with a signed byte.\<close>

definition class_matches :: "'d hardware \<Rightarrow> uint8_t \<Rightarrow> uint8_t \<Rightarrow> 8 word \<Rightarrow> 'd \<Rightarrow> pci_function \<Rightarrow> bool \<times> 'd" where
  "class_matches H class_id subclass_id interface d f =
     (case f of (bus, slot, func) \<Rightarrow>
      let (v, d) = read_class H d bus slot func
      in if v = class_id
         then let (v, d) = read_subclass H d bus slot func
              in if v = subclass_id
                 then let (v, d) = read_prog_if H d bus slot func in (uint v = sint interface \<and> sint interface > -1, d)
                 else (False, d)
         else (False, d))"

definition pci_find :: "'d hardware \<Rightarrow> uint32_t \<Rightarrow> uint32_t \<Rightarrow> 'd kernel \<Rightarrow> (addr \<times> 'd kernel) res" where
  "pci_find H vendor_id device_id s =
     bindE (heap_call (\<lambda>h. kmalloc h sizeof_pci_device) s) (\<lambda>(dev, s).
     case scan (ids_match H vendor_id device_id) pci_functions (hw s) of
       (Some (bus, slot, func), d) \<Rightarrow> bindE (init_dev H (s\<lparr>hw := d\<rparr>) dev bus slot func) (\<lambda>s. Inr (dev, s))
     | (None, d) \<Rightarrow> bindE (heap_call (\<lambda>h. bindE (kfree h dev) (\<lambda>h. Inr (0, h))) (s\<lparr>hw := d\<rparr>)) (\<lambda>(_, s). Inr (0, s)))"

definition pci_find_any :: "'d hardware \<Rightarrow> uint8_t \<Rightarrow> uint8_t \<Rightarrow> 8 word \<Rightarrow> 'd kernel \<Rightarrow> (addr \<times> 'd kernel) res" where
  "pci_find_any H class_id subclass_id interface s =
     bindE (heap_call (\<lambda>h. kmalloc h sizeof_pci_device) s) (\<lambda>(dev, s).
     case scan (class_matches H class_id subclass_id interface) pci_functions (hw s) of
       (Some (bus, slot, func), d) \<Rightarrow> bindE (init_dev H (s\<lparr>hw := d\<rparr>) dev bus slot func) (\<lambda>s. Inr (dev, s))
     | (None, d) \<Rightarrow> bindE (heap_call (\<lambda>h. bindE (kfree h dev) (\<lambda>h. Inr (0, h))) (s\<lparr>hw := d\<rparr>)) (\<lambda>(_, s). Inr (0, s)))"

subsection \<open>The bridge\<close>

text \<open>
  The documented behaviour of the ports: a write to \<open>CONFIG_ADDRESS\<close> selects a register, a read of
  \<open>CONFIG_DATA\<close> returns the selected one; neither changes a register. \<open>sel\<close> is the selected register and
  \<open>cfg\<close> the contents of the registers.
\<close>

definition pci_bridge :: "'d hardware \<Rightarrow> ('d \<Rightarrow> uint32_t) \<Rightarrow> ('d \<Rightarrow> uint32_t \<Rightarrow> uint32_t) \<Rightarrow> bool" where
  "pci_bridge H sel cfg \<longleftrightarrow>
     (\<forall>d v. sel (port_out32 H d 0xCF8 v) = v \<and> cfg (port_out32 H d 0xCF8 v) = cfg d) \<and>
     (\<forall>d. fst (port_in32 H d 0xCFC) = cfg d (sel d) \<and> cfg (snd (port_in32 H d 0xCFC)) = cfg d)"

definition reg_of :: "pci_function \<Rightarrow> uint32_t \<Rightarrow> uint32_t" where
  "reg_of f offset = (case f of (bus, slot, func) \<Rightarrow>
     0x80000000 OR push_bit 16 (ucast bus) OR push_bit 11 (ucast slot) OR push_bit 8 (ucast func) OR offset)"

lemma readw_result:
  assumes "pci_bridge H sel cfg"
  shows "fst (config_readw H d (ucast bus) (ucast slot) (ucast func) offset) =
      ucast (drop_bit (unat (offset AND 2) * 8) (cfg d (reg_of (bus, slot, func) (ucast offset AND 0xFC))) AND 0xFFFF)"
    and "cfg (snd (config_readw H d (ucast bus) (ucast slot) (ucast func) offset)) = cfg d"
  using assms
  by (simp_all add: pci_bridge_def config_readw_def amd64_outl_def amd64_inl_def CONFIG_ADDRESS_def CONFIG_DATA_def
      reg_of_def case_prod_beta Let_def)

lemma combine_parts: "ucast (COMBINE_WORD (ucast (v AND 0xFFFF)) (ucast (drop_bit 16 v AND 0xFFFF))) = (v :: uint32_t)"
proof (rule bit_word_eqI)
  fix n assume n: "n < LENGTH(32)"
  have m: "(0xFFFF :: uint32_t) = mask 16" by (simp add: mask_eq_exp_minus_1)
  show "bit (ucast (COMBINE_WORD (ucast (v AND 0xFFFF)) (ucast (drop_bit 16 v AND 0xFFFF))) :: uint32_t) n = bit v n"
    using n by (cases "n < 16") (auto simp: COMBINE_WORD_def m bit_simps)
qed

lemma bars_result:
  assumes "pci_bridge H sel cfg"
  shows "fst (get_bar0 H d bus slot func) = cfg d (reg_of (bus, slot, func) 0x10)" "cfg (snd (get_bar0 H d bus slot func)) = cfg d"
    "fst (get_bar1 H d bus slot func) = cfg d (reg_of (bus, slot, func) 0x14)" "cfg (snd (get_bar1 H d bus slot func)) = cfg d"
    "fst (get_bar2 H d bus slot func) = cfg d (reg_of (bus, slot, func) 0x18)" "cfg (snd (get_bar2 H d bus slot func)) = cfg d"
    "fst (get_bar3 H d bus slot func) = cfg d (reg_of (bus, slot, func) 0x1C)" "cfg (snd (get_bar3 H d bus slot func)) = cfg d"
    "fst (get_bar4 H d bus slot func) = cfg d (reg_of (bus, slot, func) 0x20)" "cfg (snd (get_bar4 H d bus slot func)) = cfg d"
    "fst (get_bar5 H d bus slot func) = cfg d (reg_of (bus, slot, func) 0x24)" "cfg (snd (get_bar5 H d bus slot func)) = cfg d"
  unfolding get_bar0_def get_bar1_def get_bar2_def get_bar3_def get_bar4_def get_bar5_def
  by (simp_all add: Let_def case_prod_beta readw_result [OF assms] combine_parts)

lemma ids_result:
  assumes "pci_bridge H sel cfg"
  shows "fst (ids_match H vendor_id device_id d f) \<longleftrightarrow>
      take_bit 16 (cfg d (reg_of f 0)) = vendor_id \<and> drop_bit 16 (cfg d (reg_of f 0)) = device_id"
    and "cfg (snd (ids_match H vendor_id device_id d f)) = cfg d"
proof -
  obtain bus slot func where f: "f = (bus, slot, func)" by (cases f)
  let ?v = "cfg d (reg_of f 0)"
  have m: "(0xFFFF :: uint32_t) = mask 16" by (simp add: mask_eq_exp_minus_1)
  have "ucast (ucast (drop_bit 16 ?v AND 0xFFFF) :: uint16_t) = drop_bit 16 ?v" "ucast (ucast (?v AND 0xFFFF) :: uint16_t) = take_bit 16 ?v"
    by (auto simp: m bit_eq_iff bit_simps dest: bit_imp_le_length)
  then show "fst (ids_match H vendor_id device_id d f) \<longleftrightarrow>
      take_bit 16 (cfg d (reg_of f 0)) = vendor_id \<and> drop_bit 16 (cfg d (reg_of f 0)) = device_id"
    "cfg (snd (ids_match H vendor_id device_id d f)) = cfg d"
    by (auto simp: ids_match_def f read_device_id_def read_vendor_def case_prod_beta readw_result [OF assms])
qed

lemma byte_signed_iff: "uint x = sint i \<and> sint i > -1 \<longleftrightarrow> x = i \<and> i < 128" for x i :: uint8_t
proof
  assume a: "uint x = sint i \<and> sint i > -1"
  have b: "sint i < 128" using sint_lt [of i] by simp
  then have "signed_take_bit 7 (uint x) = uint x" using a by (intro signed_take_bit_int_eq_self) auto
  then have "sint x = sint i" using a by (simp add: sint_uint)
  then have x: "x = i" by (rule signed_word_eqI)
  then show "x = i \<and> i < 128" using a b by (simp add: word_less_def)
next
  assume a: "x = i \<and> i < 128"
  then have "uint i < 128" by (simp add: word_less_def)
  moreover have "- 128 \<le> uint i" using unsigned_greater_eq [of i, where ?'a = int] by linarith
  ultimately have "signed_take_bit 7 (uint i) = uint i" by (intro signed_take_bit_int_eq_self) simp_all
  then have "sint i = uint i" by (simp add: sint_uint)
  moreover from this have "sint i > -1" using unsigned_greater_eq [of i, where ?'a = int] by linarith
  ultimately show "uint x = sint i \<and> sint i > -1" using a by simp
qed

lemma class_result:
  assumes "pci_bridge H sel cfg"
  shows "fst (class_matches H class_id subclass_id interface d f) \<longleftrightarrow>
      ucast (drop_bit 24 (cfg d (reg_of f 8))) = class_id \<and> ucast (drop_bit 16 (cfg d (reg_of f 8))) = subclass_id \<and>
      ucast (drop_bit 8 (cfg d (reg_of f 8))) = interface \<and> interface < 128"
    and "cfg (snd (class_matches H class_id subclass_id interface d f)) = cfg d"
proof -
  obtain bus slot func where f: "f = (bus, slot, func)" by (cases f)
  let ?v = "cfg d (reg_of f 8)"
  have m: "(0xFFFF :: uint32_t) = mask 16" "(0xFF :: uint16_t) = mask 8" by (simp_all add: mask_eq_exp_minus_1)
  have c: "(ucast (drop_bit 8 (ucast (drop_bit 16 ?v AND 0xFFFF) :: uint16_t)) :: uint8_t) = ucast (drop_bit 24 ?v)"
    "(ucast ((ucast (drop_bit 16 ?v AND 0xFFFF) :: uint16_t) AND 0xFF) :: uint8_t) = ucast (drop_bit 16 ?v)"
    "(ucast (drop_bit 8 (ucast (?v AND 0xFFFF) :: uint16_t)) :: uint8_t) = ucast (drop_bit 8 ?v)"
    by (auto simp: m bit_eq_iff bit_simps)
  show "fst (class_matches H class_id subclass_id interface d f) \<longleftrightarrow>
      ucast (drop_bit 24 (cfg d (reg_of f 8))) = class_id \<and> ucast (drop_bit 16 (cfg d (reg_of f 8))) = subclass_id \<and>
      ucast (drop_bit 8 (cfg d (reg_of f 8))) = interface \<and> interface < 128"
    "cfg (snd (class_matches H class_id subclass_id interface d f)) = cfg d"
    by (auto simp: class_matches_def f read_class_def read_subclass_def read_prog_if_def case_prod_beta readw_result [OF assms]
        c [unfolded f] byte_signed_iff simp del: One_nat_def)
qed

text \<open>A search whose body only reads returns the first function it accepts.\<close>

lemma scan_result:
  assumes "\<And>d f. cfg d = c \<Longrightarrow> fst (body d f) = P f \<and> cfg (snd (body d f)) = c" and "cfg d = c"
  shows "fst (scan body fs d) = find P fs" "cfg (snd (scan body fs d)) = c"
  using assms(2) by (induction fs arbitrary: d) (simp_all add: case_prod_beta assms(1))

definition dev_holds :: "memory \<Rightarrow> addr \<Rightarrow> (uint32_t \<Rightarrow> uint32_t) \<Rightarrow> pci_function \<Rightarrow> bool" where
  "dev_holds m dev c f \<longleftrightarrow> (m (dev + pd_bus), m (dev + pd_slot), m (dev + pd_func)) = f \<and> m (dev + pd_msi_cap) = 0 \<and>
     m dev = ucast (c (reg_of f 0x3C)) \<and>
     (\<forall>i < 6. load64 m (dev + pd_bars + 8 * of_nat i) = ucast (c (reg_of f (0x10 + 4 * of_nat i))))"

definition init_dev_mem :: "memory \<Rightarrow> addr \<Rightarrow> uint8_t \<Rightarrow> uint64_t \<Rightarrow> uint64_t \<Rightarrow> uint64_t \<Rightarrow> uint64_t \<Rightarrow> uint64_t \<Rightarrow> uint64_t \<Rightarrow> pci_function \<Rightarrow> memory" where
  "init_dev_mem m dev irq b0 b1 b2 b3 b4 b5 f =
     (let m = m(dev := irq); m = m(dev + 59 := 0); m = store64 m (dev + 8) b0; m = store64 m (dev + 16) b1; m = store64 m (dev + 24) b2;
          m = store64 m (dev + 32) b3; m = store64 m (dev + 40) b4; m = store64 m (dev + 48) b5
      in m(dev + 56 := fst f, dev + 57 := fst (snd f), dev + 58 := snd (snd f)))"

lemma init_dev_mem_fields:
  assumes "m' = init_dev_mem m dev irq b0 b1 b2 b3 b4 b5 f"
  shows "m' dev = irq" "m' (dev + 56) = fst f" "m' (dev + 57) = fst (snd f)" "m' (dev + 58) = snd (snd f)" "m' (dev + 59) = 0"
    "load64 m' (dev + 8) = b0" "load64 m' (dev + 16) = b1" "load64 m' (dev + 24) = b2" "load64 m' (dev + 32) = b3"
    "load64 m' (dev + 40) = b4" "load64 m' (dev + 48) = b5"
proof -
  have z: "dev \<notin> span (dev + numeral j) 8" if "numeral j + (8 :: nat) \<le> 2 ^ 64" for j
    using span_base(1) [of 1 j 8 dev] that by (auto simp: span_single)
  show "m' dev = irq" "m' (dev + 56) = fst f" "m' (dev + 57) = fst (snd f)" "m' (dev + 58) = snd (snd f)" "m' (dev + 59) = 0"
    "load64 m' (dev + 8) = b0" "load64 m' (dev + 16) = b1" "load64 m' (dev + 24) = b2" "load64 m' (dev + 32) = b3"
    "load64 m' (dev + 40) = b4" "load64 m' (dev + 48) = b5"
    unfolding assms init_dev_mem_def Let_def by (simp_all add: byte_access load64_def store64_def z)
qed

lemma init_dev_mem_frame:
  assumes "x \<notin> span dev 64"
  shows "init_dev_mem m dev irq b0 b1 b2 b3 b4 b5 f x = m x"
proof -
  have d: "x \<notin> span (dev + of_nat i) n" if "i + n \<le> 64" for i n using assms span_sub [OF that, of dev] by auto
  have b: "x \<noteq> dev" "x \<noteq> dev + 56" "x \<noteq> dev + 57" "x \<noteq> dev + 58" "x \<noteq> dev + 59"
    using d [of 0 1] d [of 56 1] d [of 57 1] d [of 58 1] d [of 59 1] by (auto simp: span_single)
  have w: "x \<notin> span (dev + 8) 8" "x \<notin> span (dev + 16) 8" "x \<notin> span (dev + 24) 8" "x \<notin> span (dev + 32) 8" "x \<notin> span (dev + 40) 8"
    "x \<notin> span (dev + 48) 8"
    using d [of 8 8] d [of 16 8] d [of 24 8] d [of 32 8] d [of 40 8] d [of 48 8] by simp_all
  show ?thesis unfolding init_dev_mem_def Let_def using b w by (simp add: store64_def store_le_notin)
qed

lemma init_dev_result:
  assumes "pci_bridge H sel cfg"
  shows "init_dev H s 0 bus slot func = Inl Null_Deref"
    and "dev \<noteq> 0 \<Longrightarrow> \<exists>m d. init_dev H s dev bus slot func = Inr (s\<lparr>ram := m, hw := d\<rparr>) \<and> cfg d = cfg (hw s) \<and>
      dev_holds m dev (cfg (hw s)) (bus, slot, func) \<and> (\<forall>x. x \<notin> span dev 64 \<longrightarrow> m x = ram s x)"
proof -
  show "init_dev H s 0 bus slot func = Inl Null_Deref" by (simp add: init_dev_def case_prod_beta)
  assume dev: "dev \<noteq> 0"
  let ?c = "\<lambda>r. cfg (hw s) (reg_of (bus, slot, func) r)"
  have m: "(0xFF :: uint16_t) = mask 8" "(0xFFFF :: uint32_t) = mask 16" by (simp_all add: mask_eq_exp_minus_1)
  have irq: "fst (read_irq_line H (hw s) bus slot func) = ucast (?c 0x3C)" "cfg (snd (read_irq_line H (hw s) bus slot func)) = cfg (hw s)"
    by (simp_all add: read_irq_line_def case_prod_beta readw_result [OF assms]) (rule bit_word_eqI, auto simp: m bit_simps)
  let ?m = "init_dev_mem (ram s) dev (ucast (?c 0x3C)) (ucast (?c 0x10)) (ucast (?c 0x14)) (ucast (?c 0x18)) (ucast (?c 0x1C)) (ucast (?c 0x20))
    (ucast (?c 0x24)) (bus, slot, func)"
  have init: "init_dev H s dev bus slot func = Inr (s\<lparr>ram := ?m, hw := snd (get_bar5 H (snd (get_bar4 H (snd (get_bar3 H (snd (get_bar2 H
      (snd (get_bar1 H (snd (get_bar0 H (snd (read_irq_line H (hw s) bus slot func)) bus slot func)) bus slot func)) bus slot func)) bus slot func))
      bus slot func)) bus slot func)\<rparr>)" (is "_ = Inr (_\<lparr>ram := _, hw := ?d\<rparr>)")
    unfolding init_dev_def using dev
    by (simp add: case_prod_beta Let_def bars_result [OF assms] irq pd_offsets init_dev_mem_def add.assoc)
  moreover have "cfg ?d = cfg (hw s)" by (simp add: bars_result [OF assms] irq)
  moreover have "dev_holds ?m dev (cfg (hw s)) (bus, slot, func)"
  proof -
    have "load64 ?m (dev + 8 + 8 * of_nat i) = ucast (?c (0x10 + 4 * of_nat i))" if "i < 6" for i
    proof -
      have "i \<in> {0, 1, 2, 3, 4, 5}" using that by auto
      then show ?thesis by (auto simp: init_dev_mem_fields [OF refl] add.assoc)
    qed
    then show ?thesis unfolding dev_holds_def pd_offsets by (simp add: init_dev_mem_fields [OF refl])
  qed
  ultimately show "\<exists>m d. init_dev H s dev bus slot func = Inr (s\<lparr>ram := m, hw := d\<rparr>) \<and> cfg d = cfg (hw s) \<and>
      dev_holds m dev (cfg (hw s)) (bus, slot, func) \<and> (\<forall>x. x \<notin> span dev 64 \<longrightarrow> m x = ram s x)"
    using init_dev_mem_frame by blast
qed


text \<open>The two searches share this outline.\<close>

definition find_device :: "'d hardware \<Rightarrow> ('d \<Rightarrow> pci_function \<Rightarrow> bool \<times> 'd) \<Rightarrow> 'd kernel \<Rightarrow> (addr \<times> 'd kernel) res" where
  "find_device H body s =
     bindE (heap_call (\<lambda>h. kmalloc h sizeof_pci_device) s) (\<lambda>(dev, s).
     case scan body pci_functions (hw s) of
       (Some (bus, slot, func), d) \<Rightarrow> bindE (init_dev H (s\<lparr>hw := d\<rparr>) dev bus slot func) (\<lambda>s. Inr (dev, s))
     | (None, d) \<Rightarrow> bindE (heap_call (\<lambda>h. bindE (kfree h dev) (\<lambda>h. Inr (0, h))) (s\<lparr>hw := d\<rparr>)) (\<lambda>(_, s). Inr (0, s)))"

lemma finds: "pci_find H vendor_id device_id = find_device H (ids_match H vendor_id device_id)"
  "pci_find_any H class_id subclass_id interface = find_device H (class_matches H class_id subclass_id interface)"
  by (simp_all add: fun_eq_iff pci_find_def pci_find_any_def find_device_def)

text \<open>What a search leaves: no device and the heap as before, or a new block with the data of the first function
  that matches; if there is no memory for it, the code writes through the null pointer.\<close>

definition found :: "(pci_function \<Rightarrow> bool) \<Rightarrow> (uint32_t \<Rightarrow> uint32_t) \<Rightarrow> (nat \<Rightarrow> nat option) \<Rightarrow> 'd kernel \<Rightarrow> (addr \<times> 'd kernel) res \<Rightarrow> bool" where
  "found P c A s r \<longleftrightarrow> (case find P pci_functions of
     None \<Rightarrow> \<exists>s'. r = Inr (0, s') \<and> heap_holds s' A \<and> (\<forall>r j i. A r = Some j \<longrightarrow> i < j \<longrightarrow> ram s' (W (r + i)) = ram s (W (r + i)))
   | Some f \<Rightarrow> r = Inl Null_Deref \<or>
       (\<exists>q k s'. r = Inr (W q, s') \<and> W q \<noteq> 0 \<and> A q = None \<and> 64 \<le> k \<and> heap_holds s' (A(q \<mapsto> k)) \<and> dev_holds (ram s') (W q) c f \<and>
         (\<forall>r j i. A r = Some j \<longrightarrow> i < j \<longrightarrow> ram s' (W (r + i)) = ram s (W (r + i)))))"

lemma find_device_result:
  assumes bridge: "pci_bridge H sel cfg" and A: "heap_holds s A"
    and body: "\<And>d f. cfg d = cfg (hw s) \<Longrightarrow> fst (body d f) = P f \<and> cfg (snd (body d f)) = cfg (hw s)"
  shows "found P (cfg (hw s)) A s (find_device H body s)"
proof -
  obtain p s1 h where p: "heap_call (\<lambda>h. kmalloc h sizeof_pci_device) s = Inr (p, s1)" "s1 = put_heap s h" and
    c: "p = 0 \<and> heap_holds s1 A \<and> ram s1 = ram s \<or>
      (\<exists>q k. p = W q \<and> p \<noteq> 0 \<and> A q = None \<and> heap_holds s1 (A(q \<mapsto> k)) \<and> (unat sizeof_pci_device + 7 < 2 ^ 64 \<longrightarrow> unat sizeof_pci_device \<le> k) \<and>
         (\<forall>r j i. A r = Some j \<longrightarrow> i < j \<longrightarrow> ram s1 (W (r + i)) = ram s (W (r + i))))"
    using kmalloc_call [OF A, of sizeof_pci_device] by blast
  obtain d where d: "scan body pci_functions (hw s1) = (find P pci_functions, d)" "cfg d = cfg (hw s)"
    using scan_result [where cfg = cfg and c = "cfg (hw s)" and body = body and P = P and d = "hw s1" and fs = pci_functions] body p(2) by (cases "scan body pci_functions (hw s1)") auto
  have run: "find_device H body s = (case (find P pci_functions, d) of
       (Some (bus, slot, func), d) \<Rightarrow> bindE (init_dev H (s1\<lparr>hw := d\<rparr>) p bus slot func) (\<lambda>s. Inr (p, s))
     | (None, d) \<Rightarrow> bindE (heap_call (\<lambda>h. bindE (kfree h p) (\<lambda>h. Inr (0, h))) (s1\<lparr>hw := d\<rparr>)) (\<lambda>(_, s). Inr (0, s)))"
    by (simp add: find_device_def p(1) d(1))
  show ?thesis
  proof (cases "find P pci_functions")
    case None
    show ?thesis
    proof (cases "p = 0")
      case True
      then have "heap_holds (s1\<lparr>hw := d\<rparr>) A" "ram s1 = ram s" using c by auto
      then show ?thesis using kfree_null [of "s1\<lparr>hw := d\<rparr>" A] True by (auto simp: found_def None run)
    next
      case False
      then obtain q k where q: "p = W q" "A q = None" "heap_holds (s1\<lparr>hw := d\<rparr>) (A(q \<mapsto> k))"
        "\<forall>r j i. A r = Some j \<longrightarrow> i < j \<longrightarrow> ram s1 (W (r + i)) = ram s (W (r + i))" using c by auto
      show ?thesis using kfree_call [OF q(3,2)] q(1,4) by (auto simp: found_def None run)
    qed
  next
    case (Some f)
    obtain bus slot func where f: "f = (bus, slot, func)" by (cases f)
    show ?thesis
    proof (cases "p = 0")
      case True
      then show ?thesis by (simp add: found_def Some run f init_dev_result(1) [OF bridge])
    next
      case False
      then obtain q k where q: "p = W q" "A q = None" "heap_holds s1 (A(q \<mapsto> k))" "64 \<le> k"
        "\<forall>r j i. A r = Some j \<longrightarrow> i < j \<longrightarrow> ram s1 (W (r + i)) = ram s (W (r + i))" using c by (auto simp: sizeof_pci_device_def)
      obtain m d' where i: "init_dev H (s1\<lparr>hw := d\<rparr>) p bus slot func = Inr (s1\<lparr>hw := d\<rparr>\<lparr>ram := m, hw := d'\<rparr>)"
        "dev_holds m p (cfg (hw s)) f" "\<forall>x. x \<notin> span p 64 \<longrightarrow> m x = ram s1 x"
        using init_dev_result(2) [OF bridge False, of "s1\<lparr>hw := d\<rparr>" bus slot func] d(2) f by auto
      let ?s = "s1\<lparr>ram := m, hw := d'\<rparr>"
      have "span (W q) 64 \<subseteq> span (W q) k" using span_sub [of 0 64 k "W q"] q(4) by simp
      then have "heap_holds (s1\<lparr>ram := m\<rparr>) (A(q \<mapsto> k))" using i(3) q(1) by (intro heap_holds_write [OF q(3), of q k]) auto
      moreover have "m (W (r + j)) = ram s (W (r + j))" if "A r = Some n" "j < n" for r n j
      proof -
        have "r \<noteq> q" using that q(2) by auto
        then show ?thesis using holds_outside [OF q(3), of q k r n j 64] that q i(3) by auto
      qed
      ultimately show ?thesis using i(1,2) q False by (auto simp: found_def Some run f heap_holds_def)
    qed
  qed
qed

subsection \<open>Properties\<close>


definition demo_cfg :: "uint32_t \<Rightarrow> uint32_t" where
  "demo_cfg r = (if r = 0x80000900 then 0x813910EC else if r = 0x80000910 then 0xC001 else if r = 0x8000093C then 0x10B else 0xFFFFFFFF)"

definition demo_bus :: "uint32_t hardware" where
  "demo_bus = \<lparr>mmio_read32 = \<lambda>d a. (0, d), mmio_write32 = \<lambda>d a v. d, mmio_read64 = \<lambda>d a. (0, d), mmio_write64 = \<lambda>d a v. d,
     port_in8 = \<lambda>d a. (0, d), port_out8 = \<lambda>d a v. d, port_in16 = \<lambda>d a. (0, d), port_out16 = \<lambda>d a v. d,
     port_in32 = \<lambda>d a. (if a = 0xCFC then demo_cfg d else 0, d), port_out32 = \<lambda>d a v. if a = 0xCF8 then v else d\<rparr>"

lemma demo_bridge: "pci_bridge demo_bus id (\<lambda>_. demo_cfg)"
  by (simp add: pci_bridge_def demo_bus_def)

lemma demo_find:
  "find (\<lambda>f. take_bit 16 (demo_cfg (reg_of f 0)) = 0x10EC \<and> drop_bit 16 (demo_cfg (reg_of f 0)) = 0x8139) pci_functions = Some (0, 1, 1)"
  by code_simp


lemma bus_mastering_writes:
  assumes "pci_bridge H sel cfg" and "dev \<noteq> 0" and "f = (ram s (dev + pd_bus), ram s (dev + pd_slot), ram s (dev + pd_func))"
  shows "\<exists>d. cfg d = cfg (hw s) \<and> pci_enable_bus_mastering H s dev =
    Inr (s\<lparr>hw := port_out32 H (port_out32 H d 0xCF8 (reg_of f 4)) 0xCFC (take_bit 16 (cfg (hw s) (reg_of f 4)) OR 5)\<rparr>)"
proof -
  let ?v = "cfg (hw s) (reg_of f 4)"
  have m: "(0xFFFF :: uint32_t) = mask 16" by (simp add: mask_eq_exp_minus_1)
  have "ucast (ucast (?v AND 0xFFFF) :: uint16_t) = take_bit 16 ?v" by (auto simp: m bit_eq_iff bit_simps)
  then have "ucast ((ucast (?v AND 0xFFFF) :: uint16_t) OR 4 OR 1) = take_bit 16 ?v OR (5 :: uint32_t)"
    by (simp add: unsigned_or_eq or.assoc)
  then show ?thesis
    using readw_result [OF assms(1), of "hw s" "fst f" "fst (snd f)" "snd (snd f)" 4] assms(2,3)
    by (intro exI [of _ "snd (config_readw H (hw s) (ucast (fst f)) (ucast (fst (snd f))) (ucast (snd (snd f))) 4)"])
      (simp add: pci_enable_bus_mastering_def case_prod_beta config_writew_def amd64_outl_def CONFIG_ADDRESS_def CONFIG_DATA_def reg_of_def Let_def)
qed

end
