(* ===== verification/Cores.thy ===== *)
theory Cores
  imports Machine
begin

text \<open>
  The per-core hardware and its users: the HPET (\<^verbatim>\<open>sys/dev/timer/hpet.c\<close>), the local APIC
  (\<^verbatim>\<open>sys/amd64/lapic.c\<close>), the search for the descriptor of the running core (\<open>this_core\<close> of
  \<^verbatim>\<open>sys/amd64/smp.c\<close>) and the flags of a core (\<^verbatim>\<open>sys/amd64/cpu.c\<close>).
\<close>

subsection \<open>Register accesses\<close>

definition LAPIC_ID :: uint64_t where "LAPIC_ID = 0x20"
definition LAPIC_EOI :: uint64_t where "LAPIC_EOI = 0xb0"
definition LAPIC_LDR :: uint64_t where "LAPIC_LDR = 0xd0"
definition LAPIC_SVR :: uint64_t where "LAPIC_SVR = 0xf0"
definition LAPIC_TIMER :: uint64_t where "LAPIC_TIMER = 0x320"
definition LAPIC_TICR :: uint64_t where "LAPIC_TICR = 0x380"
definition LAPIC_TCCR :: uint64_t where "LAPIC_TCCR = 0x390"
definition LAPIC_TDCR :: uint64_t where "LAPIC_TDCR = 0x3e0"

definition write_mmio :: "'d hardware \<Rightarrow> addr \<Rightarrow> 'd kernel \<Rightarrow> uint64_t \<Rightarrow> uint32_t \<Rightarrow> 'd kernel" where
  "write_mmio H hhdm s reg v =
     (let base = g_lapic_mmio_base s + hhdm in s\<lparr>hw := mmio_write32 H (hw s) (base + reg) v\<rparr>)"

definition read_mmio :: "'d hardware \<Rightarrow> addr \<Rightarrow> 'd kernel \<Rightarrow> uint64_t \<Rightarrow> uint32_t \<times> 'd kernel" where
  "read_mmio H hhdm s reg =
     (let base = g_lapic_mmio_base s + hhdm; (v, d) = mmio_read32 H (hw s) (base + reg) in (v, s\<lparr>hw := d\<rparr>))"

definition lapic_send_eoi :: "'d hardware \<Rightarrow> addr \<Rightarrow> 'd kernel \<Rightarrow> 'd kernel" where
  "lapic_send_eoi H hhdm s = write_mmio H hhdm s LAPIC_EOI 0"

definition lapic_get_timer_vector :: "'d kernel \<Rightarrow> uint8_t" where
  "lapic_get_timer_vector s = timer_vector s"

definition lapic_get_goto_vector :: "'d kernel \<Rightarrow> uint8_t" where
  "lapic_get_goto_vector s = goto_vector s"

definition lapic_read_id :: "'d hardware \<Rightarrow> addr \<Rightarrow> 'd kernel \<Rightarrow> uint32_t \<times> 'd kernel" where
  "lapic_read_id H hhdm s = (let (v, s) = read_mmio H hhdm s LAPIC_ID in (drop_bit 24 v, s))"

text \<open>The body of \<open>lapic_send_ipi\<close> is empty.\<close>

definition lapic_send_ipi :: "'d kernel \<Rightarrow> uint8_t \<Rightarrow> uint8_t \<Rightarrow> uint8_t \<Rightarrow> 'd kernel" where
  "lapic_send_ipi s lapic_id vec shorthand = s"

subsection \<open>The running core\<close>

text \<open>Offsets in \<open>cpu_core_t\<close> of \<^verbatim>\<open>sys/include/sched/sched.h\<close>.\<close>

definition core_lapic_freq :: uint64_t where "core_lapic_freq = 0"
definition core_lapic_id :: uint64_t where "core_lapic_id = 8"
definition core_flags :: uint64_t where "core_flags = 12"
definition core_lock :: uint64_t where "core_lock = 14"
definition core_processq_head :: uint64_t where "core_processq_head = 40"
definition core_running_process :: uint64_t where "core_running_process = 56"
definition sizeof_core :: uint64_t where "sizeof_core = 64"

lemmas core_offsets = core_lapic_freq_def core_lapic_id_def core_flags_def core_lock_def
  core_processq_head_def core_running_process_def sizeof_core_def

fun core_from :: "'d hardware \<Rightarrow> addr \<Rightarrow> nat \<Rightarrow> size_t \<Rightarrow> 'd kernel \<Rightarrow> addr \<times> 'd kernel" where
  "core_from H hhdm 0 i s = (0, s)"
| "core_from H hhdm (Suc n) i s =
     (let (ident, s) = lapic_read_id H hhdm s;
          core = g_corelist s + i * sizeof_core
      in if load32 (ram s) (core + core_lapic_id) = ident then (core, s)
         else core_from H hhdm n (i + 1) s)"

definition this_core :: "'d hardware \<Rightarrow> addr \<Rightarrow> 'd kernel \<Rightarrow> (addr \<times> 'd kernel) run" where
  "this_core H hhdm s =
     bindR (lock_acquire s (this_core_lock s)) (\<lambda>s.
     case smp_resp s of
       None \<Rightarrow> Some (Inl Null_Deref)
     | Some r \<Rightarrow> let (core, s) = core_from H hhdm (unat (cpu_count r)) 0 s
                in ret (core, lock_release s (this_core_lock s)))"

definition smp_get_core_count :: "'d kernel \<Rightarrow> size_t res" where
  "smp_get_core_count s = (case smp_resp s of None \<Rightarrow> Inl Null_Deref | Some r \<Rightarrow> Inr (cpu_count r))"

subsection \<open>HPET\<close>

definition HPET_REG_CAP :: uint64_t where "HPET_REG_CAP = 0x0"
definition HPET_REG_CONF :: uint64_t where "HPET_REG_CONF = 0x10"
definition HPET_REG_COUNTER :: uint64_t where "HPET_REG_COUNTER = 0xF0"

definition hpet_read :: "'d hardware \<Rightarrow> addr \<Rightarrow> 'd \<Rightarrow> uint64_t \<Rightarrow> uint64_t \<times> 'd" where
  "hpet_read H base d reg = mmio_read64 H d (base + reg)"

definition hpet_write :: "'d hardware \<Rightarrow> addr \<Rightarrow> 'd \<Rightarrow> uint64_t \<Rightarrow> uint64_t \<Rightarrow> 'd" where
  "hpet_write H base d reg v = mmio_write64 H d (base + reg) v"

partial_function (option) hpet_wait :: "'d hardware \<Rightarrow> addr \<Rightarrow> uint64_t \<Rightarrow> 'd \<Rightarrow> 'd option" where
  "hpet_wait H base goal d =
     (let (now, d) = hpet_read H base d HPET_REG_COUNTER
      in if now < goal then hpet_wait H base goal d else Some d)"

definition hpet_sleep :: "'d hardware \<Rightarrow> 'd kernel \<Rightarrow> uint64_t \<Rightarrow> 'd kernel run" where
  "hpet_sleep H s ms =
     bindR (lock_acquire s (sleep_lock s)) (\<lambda>s.
     if hpet_period s = 0 then Some (Inl Div_By_Zero)
     else let (now, d) = hpet_read H (hpet_base s) (hw s) HPET_REG_COUNTER;
              goal = now + ms * (1000000000000 div hpet_period s)
          in case hpet_wait H (hpet_base s) goal d of
               None \<Rightarrow> None
             | Some d \<Rightarrow> ret (lock_release (s\<lparr>hw := d\<rparr>) (sleep_lock s)))"

subsection \<open>The APIC timer\<close>

definition lapic_timer_calibrate :: "'d hardware \<Rightarrow> addr \<Rightarrow> 'd kernel \<Rightarrow> 'd kernel run" where
  "lapic_timer_calibrate H hhdm s =
     (let s = write_mmio H hhdm s LAPIC_TDCR 0x3;
          s = write_mmio H hhdm s LAPIC_TIMER (0xFF OR push_bit 16 1);
          s = write_mmio H hhdm s LAPIC_TICR (- 1)
      in bindR (hpet_sleep H s 10) (\<lambda>s.
         bindR (this_core H hhdm s) (\<lambda>(core, s).
         if core = 0 then Some (Inl Null_Deref)
         else let (now, s) = read_mmio H hhdm s LAPIC_TCCR;
                  freq = ucast (- 1 - now) div (10 :: uint64_t);
                  s = s\<lparr>ram := store64 (ram s) (core + core_lapic_freq) freq\<rparr>;
                  s = write_mmio H hhdm s LAPIC_TICR 0
              in ret (write_mmio H hhdm s LAPIC_TICR (push_bit 16 1)))))"

definition lapic_timer_oneshot :: "'d hardware \<Rightarrow> addr \<Rightarrow> 'd kernel \<Rightarrow> uint64_t \<Rightarrow> 'd kernel run" where
  "lapic_timer_oneshot H hhdm s ms =
     (let s = write_mmio H hhdm s LAPIC_TICR 0;
          s = write_mmio H hhdm s LAPIC_TIMER (push_bit 16 1);
          s = write_mmio H hhdm s LAPIC_TIMER (ucast (timer_vector s));
          s = write_mmio H hhdm s LAPIC_TDCR 3
      in bindR (this_core H hhdm s) (\<lambda>(core, s).
         if core = 0 then Some (Inl Null_Deref)
         else ret (write_mmio H hhdm s LAPIC_TICR (ucast (load64 (ram s) (core + core_lapic_freq) * ms)))))"

subsection \<open>Core flags\<close>

definition P_EXEC_CRITICAL :: uint16_t where "P_EXEC_CRITICAL = push_bit 0 1"
definition P_IRQ :: uint16_t where "P_IRQ = push_bit 1 1"

definition store16 :: "memory \<Rightarrow> addr \<Rightarrow> uint16_t \<Rightarrow> memory" where
  "store16 m a v = store_le 2 m a v"

text \<open>The two functions that change the flags of the running core do so under the lock of the core.\<close>

definition core_update_flags :: "'d hardware \<Rightarrow> addr \<Rightarrow> (uint16_t \<Rightarrow> uint16_t) \<Rightarrow> 'd kernel \<Rightarrow> 'd kernel run" where
  "core_update_flags H hhdm f s =
     bindR (this_core H hhdm s) (\<lambda>(core, s).
     if core = 0 then Some (Inl Null_Deref)
     else bindR (lock_acquire s (core + core_lock)) (\<lambda>s.
          let s = s\<lparr>ram := store16 (ram s) (core + core_flags) (f (load16 (ram s) (core + core_flags)))\<rparr>
          in ret (lock_release s (core + core_lock))))"

definition core_set_flags :: "'d hardware \<Rightarrow> addr \<Rightarrow> 'd kernel \<Rightarrow> uint16_t \<Rightarrow> 'd kernel run" where
  "core_set_flags H hhdm s flags = core_update_flags H hhdm (\<lambda>old. old OR flags) s"

definition core_clear_flags :: "'d hardware \<Rightarrow> addr \<Rightarrow> 'd kernel \<Rightarrow> uint16_t \<Rightarrow> 'd kernel run" where
  "core_clear_flags H hhdm s flags = core_update_flags H hhdm (\<lambda>old. old AND NOT flags) s"

definition irq_enter :: "'d hardware \<Rightarrow> addr \<Rightarrow> 'd kernel \<Rightarrow> 'd kernel run" where
  "irq_enter H hhdm s = core_set_flags H hhdm s P_IRQ"

definition irq_exit :: "'d hardware \<Rightarrow> addr \<Rightarrow> 'd kernel \<Rightarrow> 'd kernel run" where
  "irq_exit H hhdm s = core_clear_flags H hhdm s P_IRQ"

definition critical_enter :: "'d hardware \<Rightarrow> addr \<Rightarrow> 'd kernel \<Rightarrow> 'd kernel run" where
  "critical_enter H hhdm s = core_set_flags H hhdm s P_EXEC_CRITICAL"

definition critical_exit :: "'d hardware \<Rightarrow> addr \<Rightarrow> 'd kernel \<Rightarrow> 'd kernel run" where
  "critical_exit H hhdm s = core_clear_flags H hhdm s P_EXEC_CRITICAL"

subsection \<open>Finding the running core\<close>

definition core_at :: "'d kernel \<Rightarrow> nat \<Rightarrow> addr" where
  "core_at s k = g_corelist s + of_nat (k * 64)"

text \<open>
  The code runs on core \<open>k\<close>: the identification register of the local APIC reads as the number in the
  descriptor of that core, which no earlier descriptor has; the lock of the search is free.
\<close>

definition on_core :: "'d hardware \<Rightarrow> addr \<Rightarrow> 'd kernel \<Rightarrow> nat \<Rightarrow> bool" where
  "on_core H hhdm s k \<longleftrightarrow>
     ram s (this_core_lock s) = 0 \<and> (\<exists>r. smp_resp s = Some r \<and> k < unat (cpu_count r)) \<and> k * 64 + 64 \<le> 2 ^ 64 \<and> core_at s k \<noteq> 0 \<and>
     (\<forall>j \<le> k. this_core_lock s \<notin> span (core_at s j) 64) \<and>
     (\<forall>d. drop_bit 24 (fst (mmio_read32 H d (g_lapic_mmio_base s + hhdm + LAPIC_ID))) = load32 (ram s) (core_at s k + core_lapic_id)) \<and>
     (\<forall>j < k. load32 (ram s) (core_at s j + core_lapic_id) \<noteq> load32 (ram s) (core_at s k + core_lapic_id))"

lemma lapic_read_id_on:
  "lapic_read_id H hhdm s = (drop_bit 24 (fst (mmio_read32 H (hw s) (g_lapic_mmio_base s + hhdm + LAPIC_ID))),
     s\<lparr>hw := snd (mmio_read32 H (hw s) (g_lapic_mmio_base s + hhdm + LAPIC_ID))\<rparr>)"
  by (simp add: lapic_read_id_def read_mmio_def Let_def case_prod_beta)

lemma core_from_on:
  assumes "\<forall>d. drop_bit 24 (fst (mmio_read32 H d (g_lapic_mmio_base s + hhdm + LAPIC_ID))) = load32 (ram s) (core_at s k + core_lapic_id)"
    and "\<forall>j < k. load32 (ram s) (core_at s j + core_lapic_id) \<noteq> load32 (ram s) (core_at s k + core_lapic_id)"
    and "i \<le> k" and "k < i + n"
  shows "\<exists>d. core_from H hhdm n (of_nat i) s = (core_at s k, s\<lparr>hw := d\<rparr>)"
  using assms
proof (induction n arbitrary: i s)
  case (Suc n)
  let ?d = "snd (mmio_read32 H (hw s) (g_lapic_mmio_base s + hhdm + LAPIC_ID))"
  have c: "g_corelist s + of_nat i * sizeof_core = core_at s i" by (simp add: core_at_def sizeof_core_def)
  show ?case
  proof (cases "i = k")
    case True
    then show ?thesis using Suc.prems(1) c
      by (intro exI [of _ ?d]) (simp add: lapic_read_id_on Let_def)
  next
    case False
    then have ne: "load32 (ram s) (core_at s i + core_lapic_id) \<noteq> load32 (ram s) (core_at s k + core_lapic_id)"
      and i: "Suc i \<le> k" "k < Suc i + n" using Suc.prems by auto
    have "\<exists>d. core_from H hhdm n (of_nat (Suc i)) (s\<lparr>hw := ?d\<rparr>) = (core_at (s\<lparr>hw := ?d\<rparr>) k, s\<lparr>hw := ?d\<rparr>\<lparr>hw := d\<rparr>)"
      by (rule Suc.IH) (use Suc.prems(1,2) i in \<open>simp_all add: core_at_def\<close>)
    then show ?thesis using ne c Suc.prems(1)
      by (simp add: lapic_read_id_on Let_def core_at_def add.commute)
  qed
qed simp

lemma this_core_on:
  assumes "on_core H hhdm s k"
  shows "\<exists>d. this_core H hhdm s = ret (core_at s k, s\<lparr>hw := d\<rparr>)"
proof -
  let ?l = "this_core_lock s"
  let ?s = "s\<lparr>ram := (ram s)(?l := 1)\<rparr>"
  obtain r where n: "smp_resp s = Some r" "k < unat (cpu_count r)" using assms by (auto simp: on_core_def)
  have free: "ram s ?l = 0" using assms by (simp add: on_core_def)
  have same: "load32 (ram ?s) (core_at s j + core_lapic_id) = load32 (ram s) (core_at s j + core_lapic_id)" if "j \<le> k" for j
    unfolding load32_def
  proof (rule load_le_cong)
    fix x
    assume "x \<in> span (core_at s j + core_lapic_id) 4"
    then have "x \<in> span (core_at s j) 64" using span_sub [of 8 4 64 "core_at s j"] by (auto simp: core_lapic_id_def)
    then show "ram ?s x = ram s x" using assms that by (auto simp: on_core_def)
  qed
  have "\<exists>d. core_from H hhdm (unat (cpu_count r)) (of_nat 0) ?s = (core_at ?s k, ?s\<lparr>hw := d\<rparr>)"
    by (rule core_from_on) (use assms n same in \<open>auto simp: on_core_def core_at_def\<close>)
  then obtain d where d: "core_from H hhdm (unat (cpu_count r)) 0 ?s = (core_at s k, ?s\<lparr>hw := d\<rparr>)"
    by (auto simp: core_at_def)
  have "(ram s)(?l := 0) = ram s" using free by auto
  then have "this_core H hhdm s = ret (core_at s k, s\<lparr>hw := d\<rparr>)"
    using free n(1) d by (simp add: this_core_def lock_release_def mutex_release_def atomic_clear_def)
  then show ?thesis by blast
qed

text \<open>Nothing of this depends on the device state.\<close>

lemma on_core_hw [simp]: "on_core H hhdm (s\<lparr>hw := d\<rparr>) k = on_core H hhdm s k"
  by (simp add: on_core_def core_at_def)

lemma core_at_simps [simp]: "core_at (s\<lparr>hw := d\<rparr>) k = core_at s k" "core_at (s\<lparr>ram := m\<rparr>) k = core_at s k"
  by (simp_all add: core_at_def)

lemma write_mmio_simps [simp]:
  "write_mmio H hhdm s reg v = s\<lparr>hw := mmio_write32 H (hw s) (g_lapic_mmio_base s + hhdm + reg) v\<rparr>"
  by (simp add: write_mmio_def)

lemma core_spans:
  assumes "j < k" and "k * 64 + 64 \<le> 2 ^ 64"
  shows "span (core_at s j) 64 \<inter> span (core_at s k) 64 = {}"
  unfolding core_at_def by (rule span_offsets) (use assms in auto)

text \<open>A change of memory that leaves the numbers of the cores and the lock alone.\<close>

lemma on_core_ram:
  assumes "on_core H hhdm s k" and "m (this_core_lock s) = 0"
    and "\<And>j x. j \<le> k \<Longrightarrow> x \<in> span (core_at s j + core_lapic_id) 4 \<Longrightarrow> m x = ram s x"
  shows "on_core H hhdm (s\<lparr>ram := m\<rparr>) k"
proof -
  have "load32 m (core_at s j + core_lapic_id) = load32 (ram s) (core_at s j + core_lapic_id)" if "j \<le> k" for j
    unfolding load32_def by (rule load_le_cong) (use assms(3) that in blast)
  then show ?thesis using assms(1,2) by (simp add: on_core_def)
qed

lemma on_core_freq:
  assumes "on_core H hhdm s k"
  shows "on_core H hhdm (s\<lparr>ram := store64 (ram s) (core_at s k) v\<rparr>) k"
proof (rule on_core_ram [OF assms])
  have w: "span (core_at s k) 8 \<subseteq> span (core_at s k) 64" using span_sub [of 0 8 64 "core_at s k"] by simp
  have "this_core_lock s \<notin> span (core_at s k) 64" "ram s (this_core_lock s) = 0" using assms by (simp_all add: on_core_def)
  then show "store64 (ram s) (core_at s k) v (this_core_lock s) = 0" using w by (subst store64_notin) auto
  fix j x
  assume j: "j \<le> k" and x: "x \<in> span (core_at s j + core_lapic_id) 4"
  have "x \<notin> span (core_at s k) 8"
  proof (cases "j = k")
    case True
    then show ?thesis using x span_offsets [of 0 8 8 4 "core_at s k"] by (auto simp: core_lapic_id_def)
  next
    case False
    then have "span (core_at s j) 64 \<inter> span (core_at s k) 64 = {}" using j assms by (intro core_spans) (simp_all add: on_core_def)
    then show ?thesis using x w span_sub [of 8 4 64 "core_at s j"] by (auto simp: core_lapic_id_def)
  qed
  then show "store64 (ram s) (core_at s k) v x = ram s x" by (rule store64_notin)
qed

subsection \<open>Sleeping\<close>

text \<open>The value the counter of the HPET shows next, and the device after that read.\<close>

definition hpet_now :: "'d hardware \<Rightarrow> addr \<Rightarrow> 'd \<Rightarrow> uint64_t" where
  "hpet_now H base d = fst (hpet_read H base d HPET_REG_COUNTER)"

definition hpet_next :: "'d hardware \<Rightarrow> addr \<Rightarrow> 'd \<Rightarrow> 'd" where
  "hpet_next H base d = snd (hpet_read H base d HPET_REG_COUNTER)"

text \<open>The counter keeps counting: a reader that polls it sees every value reached.\<close>

definition hpet_counts :: "'d hardware \<Rightarrow> addr \<Rightarrow> bool" where
  "hpet_counts H base \<longleftrightarrow> (\<forall>d goal. \<exists>n. goal \<le> hpet_now H base ((hpet_next H base ^^ n) d))"

lemma hpet_wait_step:
  "hpet_wait H base goal d =
     (if hpet_now H base d < goal then hpet_wait H base goal (hpet_next H base d) else Some (hpet_next H base d))"
  by (subst hpet_wait.simps) (simp add: hpet_now_def hpet_next_def case_prod_beta)

lemma hpet_wait_ends:
  assumes "goal \<le> hpet_now H base ((hpet_next H base ^^ n) d)"
  shows "\<exists>k \<le> n. hpet_wait H base goal d = Some ((hpet_next H base ^^ Suc k) d) \<and>
    goal \<le> hpet_now H base ((hpet_next H base ^^ k) d) \<and> (\<forall>i < k. hpet_now H base ((hpet_next H base ^^ i) d) < goal)"
  using assms
proof (induction n arbitrary: d)
  case 0
  then show ?case by (subst hpet_wait_step) (simp add: leD)
next
  case (Suc n)
  show ?case
  proof (cases "hpet_now H base d < goal")
    case True
    have "goal \<le> hpet_now H base ((hpet_next H base ^^ n) (hpet_next H base d))"
      using Suc.prems by (simp only: funpow_Suc_right comp_apply)
    from Suc.IH [OF this] obtain k where k: "k \<le> n"
      "hpet_wait H base goal (hpet_next H base d) = Some ((hpet_next H base ^^ Suc (Suc k)) d)"
      "goal \<le> hpet_now H base ((hpet_next H base ^^ Suc k) d)"
      "\<forall>i < k. hpet_now H base ((hpet_next H base ^^ Suc i) d) < goal"
      by (auto simp only: funpow_Suc_right comp_apply)
    have "hpet_now H base ((hpet_next H base ^^ i) d) < goal" if "i < Suc k" for i
      using k(4) True that by (cases i) auto
    then show ?thesis using k(1-3) True hpet_wait_step [of H base goal d] by (intro exI [of _ "Suc k"]) simp
  next
    case False
    then show ?thesis using hpet_wait_step [of H base goal d] by (intro exI [of _ 0]) auto
  qed
qed

lemma hpet_sleep_result:
  assumes "ram s (sleep_lock s) = 0" and "hpet_period s \<noteq> 0" and "hpet_counts H (hpet_base s)"
  defines "look \<equiv> hpet_now H (hpet_base s)" and "tick \<equiv> hpet_next H (hpet_base s)"
  shows "\<exists>k. hpet_sleep H s ms = ret (s\<lparr>hw := (tick ^^ Suc (Suc k)) (hw s)\<rparr>) \<and>
    look (hw s) + ms * (1000000000000 div hpet_period s) \<le> look ((tick ^^ Suc k) (hw s)) \<and>
    (\<forall>i < k. look ((tick ^^ Suc i) (hw s)) < look (hw s) + ms * (1000000000000 div hpet_period s))"
proof -
  let ?l = "sleep_lock s" and ?goal = "look (hw s) + ms * (1000000000000 div hpet_period s)"
  have l: "((ram s)(?l := 1))(?l := 0) = ram s" using assms(1) by auto
  obtain n where "?goal \<le> look ((tick ^^ n) (tick (hw s)))" using assms(3) unfolding hpet_counts_def look_def tick_def by blast
  from hpet_wait_ends [OF this [unfolded look_def tick_def]] obtain k where
    k: "hpet_wait H (hpet_base s) ?goal (tick (hw s)) = Some ((tick ^^ Suc k) (tick (hw s)))"
      "?goal \<le> look ((tick ^^ k) (tick (hw s)))" "\<forall>i < k. look ((tick ^^ i) (tick (hw s))) < ?goal"
    unfolding look_def tick_def by blast
  have "hpet_sleep H s ms = ret (s\<lparr>hw := (tick ^^ Suc k) (tick (hw s))\<rparr>)"
    using assms(1,2) k(1) l
    by (simp add: hpet_sleep_def lock_release_def mutex_release_def atomic_clear_def case_prod_beta Let_def
        look_def tick_def hpet_now_def hpet_next_def)
  then show ?thesis unfolding funpow_swap1 [of tick] funpow.simps comp_apply using k(2,3)
    by (intro exI [of _ k]) (simp add: funpow_swap1)
qed

subsection \<open>The timer of the running core\<close>

definition timer_ready :: "'d hardware \<Rightarrow> addr \<Rightarrow> 'd kernel \<Rightarrow> nat \<Rightarrow> bool" where
  "timer_ready H hhdm s k \<longleftrightarrow> on_core H hhdm s k \<and> ram s (sleep_lock s) = 0 \<and> hpet_period s \<noteq> 0 \<and> hpet_counts H (hpet_base s)"

lemma calibrate_result:
  assumes "timer_ready H hhdm s k"
  shows "\<exists>d now. lapic_timer_calibrate H hhdm s =
    ret (s\<lparr>ram := store64 (ram s) (core_at s k) (ucast (- 1 - now :: uint32_t) div 10), hw := d\<rparr>)"
proof -
  let ?b = "g_lapic_mmio_base s + hhdm"
  obtain d1 where 1: "hpet_sleep H (s\<lparr>hw := mmio_write32 H (mmio_write32 H (mmio_write32 H (hw s) (?b + LAPIC_TDCR) 3)
      (?b + LAPIC_TIMER) (0xFF OR push_bit 16 1)) (?b + LAPIC_TICR) (- 1)\<rparr>) 10 = ret (s\<lparr>hw := d1\<rparr>)"
    using hpet_sleep_result [of "s\<lparr>hw := _\<rparr>" H 10] assms unfolding timer_ready_def by (auto simp del: funpow.simps)
  have oc: "on_core H hhdm (s\<lparr>hw := d1\<rparr>) k" "core_at s k \<noteq> 0" using assms by (auto simp: timer_ready_def on_core_def core_at_def)
  then obtain d2 where 2: "this_core H hhdm (s\<lparr>hw := d1\<rparr>) = ret (core_at s k, s\<lparr>hw := d2\<rparr>)"
    using this_core_on [OF oc(1)] by auto
  show ?thesis
    using 1 2 oc(2) by (simp add: lapic_timer_calibrate_def Let_def read_mmio_def case_prod_beta core_lapic_freq_def) blast
qed

lemma oneshot_result:
  assumes "on_core H hhdm s k"
  shows "\<exists>d. lapic_timer_oneshot H hhdm s ms = ret (s\<lparr>hw := d\<rparr>)"
proof -
  have "core_at s k \<noteq> 0" using assms by (simp add: on_core_def)
  moreover obtain d where "this_core H hhdm (s\<lparr>hw := d0\<rparr>) = ret (core_at s k, s\<lparr>hw := d d0\<rparr>)" for d0
    using this_core_on [of H hhdm "s\<lparr>hw := _\<rparr>" k] assms by (simp add: choice_iff [symmetric]) metis
  ultimately show ?thesis by (simp add: lapic_timer_oneshot_def Let_def) blast
qed

subsection \<open>Flags under the lock of the core\<close>

lemma store_le_upd: "l \<notin> span a n \<Longrightarrow> store_le n (m(l := v)) a w = (store_le n m a w)(l := v)"
proof (induction n arbitrary: a w)
  case (Suc n)
  then show ?case by (auto simp: span_Suc fun_upd_twist)
qed simp

lemma update_flags_result:
  assumes "on_core H hhdm s k"
  defines "core \<equiv> core_at s k"
  shows "ram s (core + core_lock) \<noteq> 0 \<Longrightarrow> core_update_flags H hhdm f s = None"
    and "ram s (core + core_lock) = 0 \<Longrightarrow> \<exists>d. core_update_flags H hhdm f s =
      ret (s\<lparr>hw := d, ram := store16 (ram s) (core + core_flags) (f (load16 (ram s) (core + core_flags)))\<rparr>)"
proof -
  obtain d where d: "this_core H hhdm s = ret (core, s\<lparr>hw := d\<rparr>)" using this_core_on [OF assms(1)] unfolding core_def by blast
  have nz: "core \<noteq> 0" using assms(1) by (simp add: on_core_def core_def)
  show "ram s (core + core_lock) \<noteq> 0 \<Longrightarrow> core_update_flags H hhdm f s = None"
    using d nz by (simp add: core_update_flags_def)
  assume free: "ram s (core + core_lock) = 0"
  have out: "core + core_lock \<notin> span (core + core_flags) 2"
    using span_offsets [of 12 2 14 1 core] by (auto simp: core_offsets span_Suc)
  have l: "load16 ((ram s)(core + core_lock := 1)) (core + core_flags) = load16 (ram s) (core + core_flags)"
    unfolding load16_def by (rule load_le_cong) (use out in auto)
  have "(store16 (ram s) (core + core_flags) v)(core + core_lock := 0) = store16 (ram s) (core + core_flags) v" for v
    unfolding store16_def by (rule fun_upd_idem) (simp only: store_le_notin [OF out] free)
  then show "\<exists>d. core_update_flags H hhdm f s =
      ret (s\<lparr>hw := d, ram := store16 (ram s) (core + core_flags) (f (load16 (ram s) (core + core_flags)))\<rparr>)"
    using d nz free l out
    by (simp add: core_update_flags_def lock_release_def mutex_release_def atomic_clear_def Let_def store16_def store_le_upd) blast
qed

lemma load16_store16_same [simp]: "load16 (store16 m a v) a = v"
  by (simp add: load16_def store16_def load_store_same take_bit_word_eq_self)

lemma store16_notin: "x \<notin> span a 2 \<Longrightarrow> store16 m a v x = m x"
  by (simp add: store16_def store_le_notin)

subsection \<open>A machine to try the code on\<close>

definition demo_kernel :: "memory \<Rightarrow> uint64_t kernel" where
  "demo_kernel m = demo_machine 0 m"

lemma demo_hpet_counts: "hpet_counts demo_hw base"
  unfolding hpet_counts_def
proof (intro allI)
  fix d goal :: uint64_t
  have "(hpet_next demo_hw base ^^ n) d = d + of_nat n" for n
    by (induction n) (simp_all add: hpet_next_def hpet_read_def demo_hw_def)
  then have "hpet_now demo_hw base ((hpet_next demo_hw base ^^ unat (- 1 - d)) d) = - 1"
    by (simp add: hpet_now_def hpet_read_def demo_hw_def)
  then show "\<exists>n. goal \<le> hpet_now demo_hw base ((hpet_next demo_hw base ^^ n) d)"
    by (intro exI [of _ "unat (- 1 - d)"]) simp
qed

lemma demo_on_core:
  assumes "m 0x10 = 0" and "load32 m 0x1008 = 0"
  shows "on_core demo_hw hhdm (demo_kernel m) 0"
proof -
  have "(0x10 :: addr) \<notin> span 0x1000 64" using of_nat_notin_span [of "0x10" "0x1000" 64] by simp
  then show ?thesis using assms by (simp add: on_core_def demo_kernel_def demo_machine_def core_at_def demo_hw_def core_lapic_id_def)
qed

subsection \<open>Properties\<close>



text \<open>on a core whose number the core list has, \<open>irq_enter\<close> and \<open>critical_enter\<close> set their flag of that
  core and \<open>irq_exit\<close> and \<open>critical_exit\<close> clear it, changing no other byte of memory and leaving all
  locks as they were; if the lock of the core is taken, for instance because the interrupt came while
  the same core was changing its flags, none of them returns.\<close>

lemma core_flags_correct:
  assumes "on_core H hhdm s k"
  shows "(ram s (core_at s k + core_lock) \<noteq> 0 \<longrightarrow>
      irq_enter H hhdm s = None \<and> irq_exit H hhdm s = None \<and> critical_enter H hhdm s = None \<and> critical_exit H hhdm s = None) \<and>
    (ram s (core_at s k + core_lock) = 0 \<longrightarrow>
      (\<forall>(op, f) \<in> {(irq_enter, \<lambda>x. x OR P_IRQ), (irq_exit, \<lambda>x. x AND NOT P_IRQ),
          (critical_enter, \<lambda>x. x OR P_EXEC_CRITICAL), (critical_exit, \<lambda>x. x AND NOT P_EXEC_CRITICAL)}.
        \<exists>s'. op H hhdm s = ret s' \<and>
          load16 (ram s') (core_at s k + core_flags) = f (load16 (ram s) (core_at s k + core_flags)) \<and>
          (\<forall>x. x \<notin> span (core_at s k + core_flags) 2 \<longrightarrow> ram s' x = ram s x)))"
proof -
  note r = update_flags_result [OF assms]
  have "\<exists>s'. core_update_flags H hhdm f s = ret s' \<and>
      load16 (ram s') (core_at s k + core_flags) = f (load16 (ram s) (core_at s k + core_flags)) \<and>
      (\<forall>x. x \<notin> span (core_at s k + core_flags) 2 \<longrightarrow> ram s' x = ram s x)"
    if "ram s (core_at s k + core_lock) = 0" for f
    using r(2) [OF that, of f] by (auto simp: store16_notin)
  then show ?thesis using r(1)
    by (auto simp: irq_enter_def irq_exit_def critical_enter_def critical_exit_def core_set_flags_def core_clear_flags_def)
qed

end
