(* ===== verification/Format.thy ===== *)
theory Format
  imports Libkern
begin

text \<open>
  The number formatting of \<^verbatim>\<open>sys/libkern/string.c\<close>: \<open>hex2str\<close> and \<open>dec2str\<close>, which write the digits
  of a number into a static buffer of 80 bytes from the last to the first and then reverse it. The
  buffer is a list of bytes and every access is checked against its bounds; the index \<open>i\<close>, a
  \<open>uint8_t\<close> that never exceeds 23, is a natural number.
\<close>

definition ch :: "char \<Rightarrow> uint8_t" where
  "ch c = of_nat (of_char c)"

definition ascii_numbers :: "uint8_t list" where
  "ascii_numbers = map ch ''0123456789ABCDEF''"

text \<open>The loop that reverses the buffer between \<open>j\<close> and \<open>i\<close>.\<close>

function swap_ends :: "uint8_t list \<Rightarrow> nat \<Rightarrow> nat \<Rightarrow> uint8_t list res" where
  "swap_ends buf j i =
     (if j < i
      then bindE (array_get buf (int j)) (\<lambda>temp.
           bindE (array_get buf (int i)) (\<lambda>c.
           bindE (array_set buf (int j) c) (\<lambda>buf.
           bindE (array_set buf (int i) temp) (\<lambda>buf.
           swap_ends buf (j + 1) (i - 1)))))
      else Inr buf)"
  by pat_completeness auto
termination
  by (relation "measure (\<lambda>(buf, j, i). i - j)") auto

declare swap_ends.simps [simp del]

lemma hex_shift_less: "(x :: uint64_t) \<noteq> 0 \<Longrightarrow> unat (drop_bit 4 x) < unat x"
proof -
  assume "x \<noteq> 0"
  then have "0 < unat x" by (simp add: unat_gt_0)
  moreover have "unat (drop_bit 4 x) = unat x div 16" by (simp add: drop_bit_eq_div unat_div)
  ultimately show ?thesis by simp
qed

function hex_digits :: "uint8_t list \<Rightarrow> nat \<Rightarrow> uint64_t \<Rightarrow> (uint8_t list \<times> nat) res" where
  "hex_digits buf i hex_num =
     (if hex_num > 0
      then let nibble = (ucast hex_num :: uint8_t) AND 0x0F
           in bindE (array_get ascii_numbers (int (unat nibble))) (\<lambda>nibble.
              bindE (array_set buf (int i) nibble) (\<lambda>buf.
              hex_digits buf (i + 1) (drop_bit 4 hex_num)))
      else Inr (buf, i))"
  by pat_completeness auto
termination
  by (relation "measure (\<lambda>(buf, i, hex_num). unat hex_num)") (auto simp: hex_shift_less word_greater_zero_iff)

declare hex_digits.simps [simp del]

definition hex2str :: "uint8_t list \<Rightarrow> uint64_t \<Rightarrow> uint8_t list res" where
  "hex2str hex_string hex_num =
     bindE (if hex_num = 0
            then bindE (array_set hex_string 0 (ch (CHR ''0''))) (\<lambda>s.
                 bindE (array_set s 1 0) (\<lambda>s. Inr (s, 1)))
            else Inr (hex_string, 0)) (\<lambda>(s, i).
     let pad = hex_num < 0x10
     in bindE (hex_digits s i hex_num) (\<lambda>(s, i).
        bindE (if pad then bindE (array_set s (int i) (ch (CHR ''0''))) (\<lambda>s. Inr (s, i + 1)) else Inr (s, i)) (\<lambda>(s, i).
        bindE (array_set s (int i) (ch (CHR ''x''))) (\<lambda>s.
        bindE (array_set s (int (i + 1)) (ch (CHR ''0''))) (\<lambda>s.
        bindE (array_set s (int (i + 2)) 0) (\<lambda>s.
        swap_ends s 0 (i + 1)))))))"

function dec_digits :: "uint8_t list \<Rightarrow> nat \<Rightarrow> size_t \<Rightarrow> (uint8_t list \<times> nat) res" where
  "dec_digits buf i number =
     (if number > 0
      then bindE (array_set buf (int i) (ucast (number mod 10) + ch (CHR ''0''))) (\<lambda>buf.
           dec_digits buf (i + 1) (number div 10))
      else Inr (buf, i))"
  by pat_completeness auto
termination
  by (relation "measure (\<lambda>(buf, i, number). unat number)") (auto simp: unat_div word_less_nat_alt)

declare dec_digits.simps [simp del]

text \<open>The test \<open>number < 0\<close> compares an unsigned number and never holds.\<close>

definition dec2str :: "uint8_t list \<Rightarrow> size_t \<Rightarrow> uint8_t list res" where
  "dec2str dec_string number =
     bindE (if number = 0 then bindE (array_set dec_string 0 (ch (CHR ''0''))) (\<lambda>s. Inr (s, 1, False, number))
            else if number < 0 then Inr (dec_string, 0, True, - number)
            else Inr (dec_string, 0, False, number)) (\<lambda>(s, i, negative, number).
     bindE (dec_digits s i number) (\<lambda>(s, i).
     bindE (if negative then bindE (array_set s (int i) (ch (CHR ''-''))) (\<lambda>s. Inr (s, i + 1)) else Inr (s, i)) (\<lambda>(s, i).
     bindE (array_set s (int i) 0) (\<lambda>s.
     swap_ends s 0 (i - 1)))))"

subsection \<open>Digits of a number\<close>

fun digits :: "nat \<Rightarrow> nat \<Rightarrow> nat list" where
  "digits b n = (if n = 0 \<or> b < 2 then [] else n mod b # digits b (n div b))"

declare digits.simps [simp del]

definition from_digits :: "nat \<Rightarrow> nat list \<Rightarrow> nat" where
  "from_digits b = foldl (\<lambda>v d. v * b + d) 0"

definition digit_char :: "nat \<Rightarrow> uint8_t" where
  "digit_char d = ascii_numbers ! d"

lemma digits_0 [simp]: "digits b 0 = []"
  by (simp add: digits.simps)

lemma digits_length: "n < b ^ k \<Longrightarrow> length (digits b n) \<le> k"
proof (induction k arbitrary: n)
  case 0
  then show ?case by simp
next
  case (Suc k)
  then have "n div b < b ^ k" by (simp add: less_mult_imp_div_less mult.commute)
  with Suc.IH show ?case by (subst digits.simps) simp
qed

lemma digits_less: "d \<in> set (digits b n) \<Longrightarrow> d < b"
  by (induction b n rule: digits.induct) (subst (asm) (2) digits.simps, auto split: if_splits)

lemma from_digits_digits: "2 \<le> b \<Longrightarrow> from_digits b (rev (digits b n)) = n"
proof (induction b n rule: digits.induct)
  case (1 b n)
  show ?case
  proof (cases "n = 0")
    case False
    with 1 have "from_digits b (rev (digits b (n div b))) = n div b" by simp
    with False 1(2) show ?thesis by (subst digits.simps) (simp add: from_digits_def)
  qed (simp add: from_digits_def)
qed

lemma digits_nonempty: "0 < n \<Longrightarrow> 2 \<le> b \<Longrightarrow> digits b n \<noteq> []"
  by (subst digits.simps) simp

subsection \<open>Writing and reversing\<close>

lemma array_set_app: "array_set (xs @ y # ys) (int (length xs)) v = Inr (xs @ v # ys)"
  by (simp add: array_set_def)

lemma array_get_app: "array_get (xs @ y # ys) (int (length xs)) = Inr y"
  by (simp add: array_get_def)

lemma swap_ends_rev: "mid \<noteq> [] \<Longrightarrow> swap_ends (xs @ mid @ ys) (length xs) (length xs + length mid - 1) = Inr (xs @ rev mid @ ys)"
proof (induction "length mid" arbitrary: xs mid ys rule: less_induct)
  case less
  obtain a m where mid: "mid = a # m" using less.prems by (cases mid) auto
  show ?case
  proof (cases m rule: rev_cases)
    case Nil
    then show ?thesis by (subst swap_ends.simps) (simp add: mid)
  next
    case (snoc z b)
    let ?buf = "xs @ (a # z @ [b]) @ ys"
    have g: "array_get ?buf (int (length xs)) = Inr a" "array_get ?buf (int (length xs + length z + 1)) = Inr b"
      using array_get_app [of xs a "z @ b # ys"] array_get_app [of "xs @ a # z" b ys] by simp_all
    have s1: "array_set ?buf (int (length xs)) b = Inr ((xs @ b # z) @ b # ys)"
      using array_set_app [of xs a "z @ b # ys" b] by simp
    have s2: "array_set ((xs @ b # z) @ b # ys) (int (length xs + length z + 1)) a = Inr ((xs @ b # z) @ a # ys)"
      using array_set_app [of "xs @ b # z" b ys a] by simp
    have "swap_ends ?buf (length xs) (length xs + length z + 1) =
        swap_ends ((xs @ b # z) @ a # ys) (length xs + 1) (length xs + length z)"
      using g s1 s2 by (subst swap_ends.simps) simp
    also have "\<dots> = Inr (xs @ (b # rev z @ [a]) @ ys)"
    proof (cases z)
      case Nil
      then show ?thesis by (subst swap_ends.simps) simp
    next
      case (Cons c y)
      then show ?thesis using less.hyps [of z "xs @ [b]" "a # ys"] by (simp add: mid snoc)
    qed
    finally show ?thesis by (simp add: mid snoc)
  qed
qed

lemma nibble_char:
  "array_get ascii_numbers (int (unat ((ucast (x :: uint64_t) :: uint8_t) AND 0x0F))) = Inr (digit_char (unat x mod 16))"
proof -
  have "(ucast x :: uint8_t) AND 0x0F = take_bit 4 (ucast x)" by (simp add: take_bit_eq_mask mask_eq_exp_minus_1)
  also have "unat \<dots> = unat x mod 16"
    by (simp add: take_bit_eq_mod unat_mod unsigned_ucast_eq mod_mod_cancel)
  finally have "unat ((ucast x :: uint8_t) AND 0x0F) = unat x mod 16" .
  then show ?thesis by (simp add: array_get_def digit_char_def ascii_numbers_def)
qed

lemma hex_digits_eq:
  assumes "length ys = length (digits 16 (unat x))"
  shows "hex_digits (xs @ ys @ zs) (length xs) x = Inr (xs @ map digit_char (digits 16 (unat x)) @ zs, length xs + length ys)"
  using assms
proof (induction "unat x" arbitrary: x xs ys rule: less_induct)
  case less
  show ?case
  proof (cases "x = 0")
    case True
    with less.prems show ?thesis by (subst hex_digits.simps) simp
  next
    case False
    have d: "unat (drop_bit 4 x) = unat x div 16" by (simp add: drop_bit_eq_div unat_div)
    have ds: "digits 16 (unat x) = unat x mod 16 # digits 16 (unat x div 16)"
      using False by (subst digits.simps) (simp add: unat_eq_0)
    obtain y ys' where ys: "ys = y # ys'" "length ys' = length (digits 16 (unat x div 16))"
      using less.prems ds by (cases ys) auto
    have "hex_digits ((xs @ [digit_char (unat x mod 16)]) @ ys' @ zs) (length (xs @ [digit_char (unat x mod 16)])) (drop_bit 4 x) =
        Inr ((xs @ [digit_char (unat x mod 16)]) @ map digit_char (digits 16 (unat x div 16)) @ zs, Suc (length xs) + length ys')"
      using less.hyps [OF hex_shift_less [OF False], of ys' "xs @ [digit_char (unat x mod 16)]"] ys(2) by (simp add: d)
    then show ?thesis
      using False array_set_app [of xs y "ys' @ zs" "digit_char (unat x mod 16)"] nibble_char [of x]
      by (subst hex_digits.simps) (simp add: ys(1) ds word_greater_zero_iff)
  qed
qed

lemma dec_char: "ucast ((x :: size_t) mod 10) + ch (CHR ''0'') = digit_char (unat x mod 10)"
proof -
  have c: "ucast y + ch (CHR ''0'') = digit_char (unat y)" if "unat (y :: size_t) < 10" for y
  proof -
    have "y \<in> {0, 1, 2, 3, 4, 5, 6, 7, 8, 9}" using that by (auto simp: word_unat_eq_iff)
    then show ?thesis by (auto simp: digit_char_def ascii_numbers_def ch_def)
  qed
  have "unat (x mod 10) = unat x mod 10" by (simp add: unat_mod)
  then show ?thesis using c [of "x mod 10"] by simp
qed

lemma dec_digits_eq:
  assumes "length ys = length (digits 10 (unat x))"
  shows "dec_digits (xs @ ys @ zs) (length xs) x = Inr (xs @ map digit_char (digits 10 (unat x)) @ zs, length xs + length ys)"
  using assms
proof (induction "unat x" arbitrary: x xs ys rule: less_induct)
  case less
  show ?case
  proof (cases "x = 0")
    case True
    with less.prems show ?thesis by (subst dec_digits.simps) simp
  next
    case False
    have d: "unat (x div 10) = unat x div 10" by (simp add: unat_div)
    have nz: "0 < unat x" using False by (simp add: unat_gt_0)
    have ds: "digits 10 (unat x) = unat x mod 10 # digits 10 (unat x div 10)"
      using nz by (subst digits.simps) simp
    obtain y ys' where ys: "ys = y # ys'" "length ys' = length (digits 10 (unat x div 10))"
      using less.prems ds by (cases ys) auto
    have "dec_digits ((xs @ [digit_char (unat x mod 10)]) @ ys' @ zs) (length (xs @ [digit_char (unat x mod 10)])) (x div 10) =
        Inr ((xs @ [digit_char (unat x mod 10)]) @ map digit_char (digits 10 (unat x div 10)) @ zs, Suc (length xs) + length ys')"
      using less.hyps [of "x div 10" ys' "xs @ [digit_char (unat x mod 10)]"] ys(2) nz by (simp add: d)
    then show ?thesis
      using False array_set_app [of xs y "ys' @ zs" "digit_char (unat x mod 10)"]
      by (subst dec_digits.simps) (simp add: dec_char ys(1) ds word_greater_zero_iff)
  qed
qed

subsection \<open>The strings\<close>

definition dec_text :: "nat \<Rightarrow> uint8_t list" where
  "dec_text n = (if n = 0 then [digit_char 0] else map digit_char (rev (digits 10 n)))"

definition hex_text :: "nat \<Rightarrow> uint8_t list" where
  "hex_text n = [digit_char 0, ch (CHR ''x'')] @ (if n < 16 then [digit_char 0] else []) @
     (if n = 0 then [digit_char 0] else map digit_char (rev (digits 16 n)))"

lemma zero_char: "ch (CHR ''0'') = digit_char 0"
  by (simp add: digit_char_def ascii_numbers_def)

lemma unat_less_dec: "length (digits 10 (unat (x :: size_t))) \<le> 20"
proof (rule digits_length)
  have "unat x < 2 ^ 64" by (rule unat_less_64)
  also have "(2 :: nat) ^ 64 \<le> 10 ^ 20" by simp
  finally show "unat x < 10 ^ 20" .
qed

lemma unat_less_hex: "length (digits 16 (unat (x :: uint64_t))) \<le> 16"
proof (rule digits_length)
  have "unat x < 2 ^ 64" by (rule unat_less_64)
  also have "(2 :: nat) ^ 64 = 16 ^ 16" by simp
  finally show "unat x < 16 ^ 16" .
qed

text \<open>A buffer that is long enough, cut at \<open>n\<close>.\<close>

lemma split_buf:
  assumes "n < length buf"
  obtains ys y zs where "buf = ys @ y # zs" and "length ys = n"
  using assms that [of "take n buf" "buf ! n" "drop (Suc n) buf"] by (simp add: id_take_nth_drop)

lemma dec2str_eq:
  assumes "length buf = 80"
  shows "\<exists>zs. dec2str buf x = Inr (dec_text (unat x) @ 0 # zs) \<and> length (dec_text (unat x) @ 0 # zs) = 80"
proof (cases "x = 0")
  case True
  obtain a b zs where "buf = a # b # zs" using assms by (auto simp: length_Suc_conv numeral_eq_Suc)
  moreover have "swap_ends (digit_char 0 # 0 # zs) 0 0 = Inr (digit_char 0 # 0 # zs)" for zs
    by (subst swap_ends.simps) simp
  ultimately show ?thesis
    using True assms by (simp add: dec2str_def array_set_def dec_digits.simps zero_char dec_text_def)
next
  case False
  let ?ds = "map digit_char (digits 10 (unat x))"
  obtain ys y zs where buf: "buf = ys @ y # zs" "length ys = length (digits 10 (unat x))"
    using split_buf [of "length (digits 10 (unat x))" buf] unat_less_dec [of x] assms by auto
  have ne: "?ds \<noteq> []" using False digits_nonempty [of "unat x" 10] by (simp add: unat_gt_0)
  have "dec_digits buf 0 x = Inr (?ds @ y # zs, length ys)"
    using dec_digits_eq [of ys x "[]" "y # zs"] buf by simp
  moreover have "array_set (?ds @ y # zs) (int (length ys)) 0 = Inr (?ds @ 0 # zs)"
    using array_set_app [of ?ds y zs 0] buf(2) by simp
  moreover have "swap_ends (?ds @ 0 # zs) 0 (length ys - 1) = Inr (rev ?ds @ 0 # zs)"
    using swap_ends_rev [OF ne, of "[]" "0 # zs"] buf(2) by simp
  moreover have "dec_text (unat x) = rev ?ds" using False by (simp add: dec_text_def rev_map unat_eq_0)
  ultimately show ?thesis using False assms buf by (intro exI [of _ zs]) (simp add: dec2str_def)
qed

lemma hex_tail:
  "bindE (if pad then bindE (array_set (ds @ a # b # c # d # zs) (int (length ds)) z) (\<lambda>s. Inr (s, length ds + 1))
          else Inr (ds @ a # b # c # d # zs, length ds)) (\<lambda>(s, i).
   bindE (array_set s (int i) x) (\<lambda>s.
   bindE (array_set s (int (i + 1)) z) (\<lambda>s.
   bindE (array_set s (int (i + 2)) 0) (\<lambda>s.
   swap_ends s 0 (i + 1))))) =
   Inr ([z, x] @ (if pad then [z] else []) @ rev ds @ 0 # (if pad then zs else d # zs))"
proof (cases pad)
  case True
  have "swap_ends (ds @ z # x # z # 0 # zs) 0 (length ds + 1 + 1) = Inr (z # x # z # rev ds @ 0 # zs)"
    using swap_ends_rev [of "ds @ [z, x, z]" "[]" "0 # zs"] by simp
  then show ?thesis
    using True array_set_app [of ds a "b # c # d # zs" z] array_set_app [of "ds @ [z]" b "c # d # zs" x]
      array_set_app [of "ds @ [z, x]" c "d # zs" z] array_set_app [of "ds @ [z, x, z]" d zs 0]
    by (simp add: add.commute)
next
  case False
  have "swap_ends (ds @ x # z # 0 # d # zs) 0 (length ds + 1) = Inr (z # x # rev ds @ 0 # d # zs)"
    using swap_ends_rev [of "ds @ [x, z]" "[]" "0 # d # zs"] by simp
  then show ?thesis
    using False array_set_app [of ds a "b # c # d # zs" x] array_set_app [of "ds @ [x]" b "c # d # zs" z]
      array_set_app [of "ds @ [x, z]" c "d # zs" 0]
    by (simp add: add.commute)
qed

lemma split_buf4:
  fixes buf :: "uint8_t list"
  assumes "n + 4 \<le> length buf"
  obtains ys a b c d zs where "buf = ys @ a # b # c # d # zs" and "length ys = n"
proof -
  have "\<exists>a b c d zs. xs = a # b # c # d # zs" if "4 \<le> length xs" for xs :: "uint8_t list"
    using that by (auto simp: numeral_eq_Suc Suc_le_length_iff)
  moreover have "4 \<le> length (drop n buf)" using assms by simp
  ultimately obtain a b c d zs where "drop n buf = a # b # c # d # zs" by blast
  then have "buf = take n buf @ a # b # c # d # zs" by (metis append_take_drop_id)
  then show thesis by (rule that) (use assms in simp)
qed

lemma hex2str_eq:
  assumes "length buf = 80"
  shows "\<exists>zs. hex2str buf x = Inr (hex_text (unat x) @ 0 # zs) \<and> length (hex_text (unat x) @ 0 # zs) = 80"
proof (cases "x = 0")
  case True
  obtain ys a b c d zs where b: "buf = ys @ a # b # c # d # zs" "length ys = 1"
    by (rule split_buf4 [of 1 buf]) (use assms in auto)
  obtain y where "ys = [y]" using b(2) by (cases ys) auto
  then have "buf = [y] @ a # b # c # d # zs" using b(1) by simp
  moreover have "hex_digits s i 0 = Inr (s, i)" for s i by (subst hex_digits.simps) simp
  ultimately show ?thesis
    using True assms hex_tail [of True "[digit_char 0]" 0 b c d zs "digit_char 0" "ch (CHR ''x'')"]
    by (simp add: hex2str_def array_set_def zero_char hex_text_def)
next
  case False
  let ?ds = "map digit_char (digits 16 (unat x))"
  obtain ys a b c d zs where buf: "buf = ys @ a # b # c # d # zs" "length ys = length ?ds"
    by (rule split_buf4 [of "length ?ds" buf]) (use unat_less_hex [of x] assms in auto)
  have "hex_digits buf 0 x = Inr (?ds @ a # b # c # d # zs, length ?ds)"
    using hex_digits_eq [of ys x "[]" "a # b # c # d # zs"] buf by simp
  moreover have "x < 0x10 \<longleftrightarrow> unat x < 16" by (simp add: word_less_nat_alt)
  moreover have "hex_text (unat x) = [digit_char 0, ch (CHR ''x'')] @ (if unat x < 16 then [digit_char 0] else []) @ rev ?ds"
    using False by (simp add: hex_text_def rev_map unat_eq_0)
  moreover note hex_tail [of "unat x < 16" ?ds a b c d zs "digit_char 0" "ch (CHR ''x'')"]
  ultimately show ?thesis
    using False assms buf
    by (intro exI [of _ "if unat x < 16 then zs else d # zs"]) (auto simp: hex2str_def zero_char Let_def)
qed

text \<open>Reading a string back: the value of a digit, and of a run of digits.\<close>

definition char_digit :: "uint8_t \<Rightarrow> nat" where
  "char_digit c = (if c < 0x41 then unat (c - 0x30) else unat (c - 0x41) + 10)"

definition read_number :: "nat \<Rightarrow> uint8_t list \<Rightarrow> nat" where
  "read_number b cs = from_digits b (map char_digit cs)"

lemma char_digit_char: "d < 16 \<Longrightarrow> char_digit (digit_char d) = d \<and> digit_char d \<noteq> 0"
proof -
  assume "d < 16"
  then have "d \<in> {0, 1, 2, 3, 4, 5, 6, 7, 8, 9, 10, 11, 12, 13, 14, 15}" unfolding insert_iff empty_iff by presburger
  then show ?thesis by (auto simp: char_digit_def digit_char_def ascii_numbers_def ch_def)
qed

lemma read_digits:
  assumes "2 \<le> b" "b \<le> 16"
  shows "read_number b (map digit_char (rev (digits b n))) = n" and "0 \<notin> set (map digit_char (digits b n))"
proof -
  have "map (char_digit \<circ> digit_char) (digits b n) = digits b n"
    by (rule map_idI) (use digits_less [of _ b n] assms(2) char_digit_char in fastforce)
  then have "map (char_digit \<circ> digit_char) (rev (digits b n)) = rev (digits b n)" by (metis rev_map)
  then show "read_number b (map digit_char (rev (digits b n))) = n"
    using from_digits_digits [OF assms(1), of n] by (simp add: read_number_def)
  show "0 \<notin> set (map digit_char (digits b n))"
    using digits_less [of _ b n] assms(2) char_digit_char by fastforce
qed

subsection \<open>Properties\<close>

text \<open>\<open>dec2str\<close> stays inside its buffer, terminates the string, and the string reads back as the
  number: formatting loses nothing for any \<open>size_t\<close>.\<close>

lemma dec2str_roundtrip:
  assumes "length buf = 80"
  shows "\<exists>cs zs. dec2str buf x = Inr (cs @ 0 # zs) \<and> length (cs @ 0 # zs) = 80 \<and> 0 \<notin> set cs \<and>
    0 < length cs \<and> length cs \<le> 20 \<and> read_number 10 cs = unat x"
proof -
  obtain zs where zs: "dec2str buf x = Inr (dec_text (unat x) @ 0 # zs)" "length (dec_text (unat x) @ 0 # zs) = 80"
    using dec2str_eq [OF assms] by blast
  have "0 \<notin> set (dec_text (unat x)) \<and> 0 < length (dec_text (unat x)) \<and> length (dec_text (unat x)) \<le> 20 \<and>
      read_number 10 (dec_text (unat x)) = unat x"
    using read_digits [of 10 "unat x"] unat_less_dec [of x] char_digit_char [of 0] digits_nonempty [of "unat x" 10]
    by (auto simp: dec_text_def read_number_def from_digits_def)
  with zs show ?thesis by blast
qed

text \<open>\<open>hex2str\<close> stays inside its buffer and produces a terminated string that starts with \<open>0x\<close>, has at
  least two digits and reads back as the number.\<close>

lemma hex2str_roundtrip:
  assumes "length buf = 80"
  shows "\<exists>cs zs. hex2str buf x = Inr (ch (CHR ''0'') # ch (CHR ''x'') # cs @ 0 # zs) \<and> length (cs @ 0 # zs) = 78 \<and>
    0 \<notin> set cs \<and> 2 \<le> length cs \<and> length cs \<le> 16 \<and> read_number 16 cs = unat x"
proof -
  let ?cs = "(if unat x < 16 then [digit_char 0] else []) @
     (if unat x = 0 then [digit_char 0] else map digit_char (rev (digits 16 (unat x))))"
  obtain zs where zs: "hex2str buf x = Inr (hex_text (unat x) @ 0 # zs)" "length (hex_text (unat x) @ 0 # zs) = 80"
    using hex2str_eq [OF assms] by blast
  have t: "hex_text (unat x) = ch (CHR ''0'') # ch (CHR ''x'') # ?cs" by (simp add: hex_text_def zero_char)
  have pad: "read_number 16 (digit_char 0 # cs) = read_number 16 cs" for cs
    using char_digit_char [of 0] by (simp add: read_number_def from_digits_def)
  have one: "length (digits 16 (unat x)) = 1" if "0 < unat x" "unat x < 16"
    using that by (simp add: digits.simps [of 16 "unat x"])
  have two: "2 \<le> length (digits 16 (unat x))" if "\<not> unat x < 16"
    using that digits_nonempty [of "unat x div 16" 16] div_greater_zero_iff [of "unat x" 16]
    by (cases "digits 16 (unat x div 16)") (auto simp: digits.simps [of 16 "unat x"])
  have "0 \<notin> set ?cs \<and> 2 \<le> length ?cs \<and> length ?cs \<le> 16 \<and> read_number 16 ?cs = unat x"
    using read_digits [of 16 "unat x"] unat_less_hex [of x] char_digit_char [of 0] one two
    by (auto simp: pad)
  then show ?thesis using zs unfolding t by (intro exI [of _ ?cs] exI [of _ zs]) simp
qed

end
