(* ===== verification/Console.thy ===== *)
theory Console
  imports Machine Format
begin

text \<open>
  The console: the framebuffer (\<^verbatim>\<open>sys/dev/video/fb.c\<close>), the font (\<^verbatim>\<open>sys/tty/font.c\<close>) and \<open>printk\<close>
  (\<^verbatim>\<open>sys/tty/console.c\<close>). The pixels of the framebuffer belong to the hardware; a pixel is written as a
  32-bit word at its address. Strings are given by their characters before the terminating zero.
\<close>

subsection \<open>Counting loops that may fail\<close>

fun loopE :: "('i \<Rightarrow> 's \<Rightarrow> 's res) \<Rightarrow> 'i list \<Rightarrow> 's \<Rightarrow> 's res" where
  "loopE f [] s = Inr s"
| "loopE f (i # is) s = bindE (f i s) (loopE f is)"

lemma loopE_total: "(\<And>i s. i \<in> set is \<Longrightarrow> f i s = Inr (g i s)) \<Longrightarrow> loopE f is s = Inr (fold g is s)"
  by (induction "is" arbitrary: s) simp_all

subsection \<open>The framebuffer\<close>

definition framebuffer_get_index :: "limine_framebuffer \<Rightarrow> uint32_t \<Rightarrow> uint32_t \<Rightarrow> uint32_t" where
  "framebuffer_get_index fb x y = ucast (ucast x + ucast y * (fb_pitch fb div 4))"

definition framebuffer_get_height :: "limine_framebuffer \<Rightarrow> uint32_t" where
  "framebuffer_get_height fb = ucast (fb_height fb)"

definition framebuffer_get_width :: "limine_framebuffer \<Rightarrow> uint32_t" where
  "framebuffer_get_width fb = ucast (fb_width fb)"

definition framebuffer_get_pitch :: "limine_framebuffer \<Rightarrow> uint32_t" where
  "framebuffer_get_pitch fb = ucast (fb_pitch fb)"

definition framebuffer_get_ptr :: "limine_framebuffer \<Rightarrow> addr" where
  "framebuffer_get_ptr fb = fb_address fb"

definition with_fb :: "'d kernel \<Rightarrow> (limine_framebuffer \<Rightarrow> 'a res) \<Rightarrow> 'a res" where
  "with_fb s f = (case framebuffer (con s) of None \<Rightarrow> Inl Null_Deref | Some fb \<Rightarrow> f fb)"

definition framebuffer_putpix :: "'d hardware \<Rightarrow> 'd kernel \<Rightarrow> uint32_t \<Rightarrow> uint32_t \<Rightarrow> uint32_t \<Rightarrow> 'd kernel res" where
  "framebuffer_putpix H s x y color =
     with_fb s (\<lambda>fb.
     let ptr = fb_address fb
     in Inr (s\<lparr>hw := mmio_write32 H (hw s) (ptr + 4 * ucast (framebuffer_get_index fb x y)) color\<rparr>))"

definition framebuffer_clear :: "'d hardware \<Rightarrow> 'd kernel \<Rightarrow> uint32_t \<Rightarrow> 'd kernel res" where
  "framebuffer_clear H s color =
     with_fb s (\<lambda>fb.
     Inr (s\<lparr>hw := fold (\<lambda>i d. mmio_write32 H d (fb_address fb + 4 * of_nat i) color)
       [0..<unat (fb_width fb * fb_height fb)] (hw s)\<rparr>))"

text \<open>The framebuffers of the response of the boot loader are a parameter.\<close>

definition fb_init :: "limine_framebuffer list \<Rightarrow> 'd kernel \<Rightarrow> 'd kernel res" where
  "fb_init framebuffers s = bindE (array_get framebuffers 0) (\<lambda>fb. Inr (s\<lparr>con := con s\<lparr>framebuffer := Some fb\<rparr>\<rparr>))"

subsection \<open>Characters\<close>

definition FONT_WIDTH :: nat where "FONT_WIDTH = 9"
definition FONT_HEIGHT :: nat where "FONT_HEIGHT = 16"
definition DEFAULT_BG :: uint64_t where "DEFAULT_BG = 0x000000"
definition DEFAULT_FG :: uint64_t where "DEFAULT_FG = 0x899499"

definition MAKE_FG_BG :: "uint64_t \<Rightarrow> uint64_t \<Rightarrow> uint64_t" where
  "MAKE_FG_BG fg bg = push_bit 32 fg OR bg"

definition EXTRACT_FG :: "uint64_t \<Rightarrow> uint64_t" where
  "EXTRACT_FG color = drop_bit 32 color"

definition EXTRACT_BG :: "uint64_t \<Rightarrow> uint64_t" where
  "EXTRACT_BG color = color AND 0xFFFFFFFF"

definition DEFAULT_FONT_DATA :: "uint16_t list" where
  "DEFAULT_FONT_DATA =
  [
   0, 0, 0, 0, 0, 0, 0, 0, 0,
   0, 0, 62, 13311, 13311, 62, 0, 0, 0,
   0, 7, 7, 0, 0, 7, 7, 0, 0,
   288, 8190, 8190, 288, 288, 8190, 8190, 288, 0,
   1592, 3644, 2148, 16383, 16383, 2436, 3868, 1816, 0,
   12318, 7219, 1822, 448, 112, 7708, 13063, 7681, 0,
   7966, 12723, 8417, 8417, 12723, 7966, 6912, 12672, 0,
   0, 0, 0, 11, 7, 0, 0, 0, 0,
   0, 0, 2032, 16382, 30735, 16385, 0, 0, 0,
   0, 0, 16385, 30735, 16382, 2032, 0, 0, 0,
   128, 672, 992, 448, 448, 992, 672, 128, 0,
   128, 128, 128, 992, 992, 128, 128, 128, 0,
   0, 0, 0, 45056, 28672, 0, 0, 0, 0,
   128, 128, 128, 128, 128, 128, 128, 128, 0,
   0, 0, 0, 12288, 12288, 0, 0, 0, 0,
   12288, 15360, 3840, 960, 240, 60, 15, 3, 0,
   4092, 8190, 13827, 8577, 8289, 12315, 8190, 4092, 0,
   8196, 8196, 8198, 16383, 16383, 8192, 8192, 8192, 0,
   14348, 15374, 9731, 8961, 8577, 8387, 8318, 8252, 0,
   3084, 7182, 12355, 8257, 8257, 12355, 8190, 4028, 0,
   3840, 4064, 2300, 2079, 16259, 16256, 2048, 2048, 0,
   3135, 7231, 12321, 8225, 8225, 12385, 8129, 3969, 0,
   4064, 8184, 12380, 8262, 8259, 12481, 8065, 3841, 0,
   1, 1, 1, 15361, 16257, 1009, 127, 15, 0,
   3868, 8126, 12515, 8257, 8257, 12515, 8126, 3868, 0,
   8252, 8318, 8387, 12417, 6273, 3715, 2046, 508, 0,
   0, 0, 0, 12384, 12384, 0, 0, 0, 0,
   0, 0, 0, 45152, 28768, 0, 0, 0, 0,
   128, 448, 864, 1584, 3096, 6156, 4100, 0, 0,
   288, 288, 288, 288, 288, 288, 288, 288, 0,
   4100, 6156, 3096, 1584, 864, 448, 128, 0, 0,
   6, 7, 3, 13057, 13249, 243, 63, 30, 0,
   4092, 8190, 12291, 8673, 9201, 8721, 8467, 13310, 5116,
   16380, 16382, 259, 257, 257, 259, 16382, 16380, 0,
   16383, 16383, 8257, 8257, 8257, 12515, 8126, 3868, 0,
   4092, 8190, 12291, 8193, 8193, 12291, 7182, 3084, 0,
   16383, 16383, 8193, 8193, 8193, 14343, 8190, 2040, 0,
   16383, 16383, 8257, 8257, 8257, 8257, 8257, 8193, 0,
   16383, 16383, 129, 129, 129, 129, 129, 1, 0,
   4092, 8190, 12291, 8193, 8321, 12419, 8078, 3980, 0,
   16383, 16383, 64, 64, 64, 64, 16383, 16383, 0,
   8193, 8193, 8193, 16383, 16383, 8193, 8193, 8193, 0,
   3072, 7168, 12288, 8192, 8192, 12288, 8191, 4095, 0,
   16383, 16383, 192, 480, 1848, 3612, 15375, 12291, 0,
   16383, 16383, 8192, 8192, 8192, 8192, 8192, 8192, 0,
   16383, 16383, 120, 960, 960, 120, 16383, 16383, 0,
   16383, 16383, 28, 112, 448, 1792, 16383, 16383, 0,
   4092, 8190, 12291, 8193, 8193, 12291, 8190, 4092, 0,
   16383, 16383, 129, 129, 129, 195, 126, 60, 0,
   4092, 8190, 12291, 8193, 24577, 61443, 40958, 4092, 0,
   16383, 16383, 129, 129, 385, 8131, 15998, 8252, 0,
   3132, 7294, 12387, 8417, 8641, 12675, 8078, 3852, 0,
   1, 1, 1, 16383, 16383, 1, 1, 1, 0,
   4095, 8191, 12288, 8192, 8192, 12288, 8191, 4095, 0,
   63, 511, 4032, 15360, 15360, 4032, 511, 63, 0,
   511, 16383, 15872, 448, 448, 15872, 16383, 511, 0,
   15375, 16191, 1008, 192, 192, 1008, 16191, 15375, 0,
   63, 255, 448, 16256, 16256, 448, 255, 63, 0,
   14337, 15873, 10113, 8641, 8289, 8249, 8223, 8199, 0,
   0, 0, 16383, 16383, 8193, 8193, 0, 0, 0,
   3, 15, 60, 240, 960, 3840, 15360, 12288, 0,
   0, 0, 8193, 8193, 16383, 16383, 0, 0, 0,
   4, 4, 6, 3, 3, 6, 6, 4, 0,
   32768, 32768, 32768, 32768, 32768, 32768, 32768, 32768, 32768,
   0, 0, 0, 7, 11, 0, 0, 0, 0,
   7680, 16192, 8480, 8480, 8480, 4384, 16352, 16320, 0,
   16383, 16383, 4160, 8224, 8224, 12384, 8128, 3968, 0,
   3968, 8128, 12384, 8224, 8224, 8224, 12384, 4160, 0,
   3968, 8128, 12384, 8224, 8224, 4160, 16383, 16383, 0,
   3968, 8128, 12896, 8736, 8736, 8800, 13248, 4992, 0,
   32, 32, 16382, 16383, 33, 33, 35, 2, 0,
   18304, 20416, 55392, 36896, 36896, 51264, 32736, 16352, 0,
   16383, 16383, 64, 32, 32, 96, 16320, 16256, 0,
   0, 8224, 8224, 16355, 16355, 8192, 8192, 0, 0,
   0, 16384, 49184, 32800, 65507, 32739, 0, 0, 0,
   16383, 16383, 1536, 1792, 3456, 6336, 12384, 8224, 0,
   0, 8193, 8193, 16383, 16383, 8192, 8192, 0, 0,
   16352, 16352, 96, 8128, 8128, 96, 16352, 16320, 0,
   16352, 16352, 64, 32, 32, 96, 16320, 16256, 0,
   3968, 8128, 12384, 8224, 8224, 12384, 8128, 3968, 0,
   65504, 65504, 4160, 8224, 8224, 12384, 8128, 3968, 0,
   3968, 8128, 8224, 8224, 8224, 4160, 65504, 65504, 0,
   16352, 16352, 192, 64, 96, 96, 96, 64, 0,
   4288, 12768, 8480, 8992, 9760, 9248, 15456, 6208, 0,
   0, 32, 32, 8190, 16382, 8224, 8224, 0, 0,
   8160, 16352, 8192, 8192, 8192, 4096, 16352, 16352, 0,
   992, 2016, 7168, 12288, 12288, 7168, 2016, 992, 0,
   2016, 16352, 14336, 1984, 1984, 14336, 16352, 2016, 0,
   12384, 15840, 3456, 1792, 1792, 3456, 15840, 12384, 0,
   33760, 36832, 56320, 28672, 12288, 7168, 4064, 992, 0,
   12320, 14368, 11296, 9760, 8992, 8608, 8416, 8288, 0,
   0, 0, 128, 16382, 32639, 16385, 16385, 0, 0,
   0, 0, 0, 65407, 65407, 0, 0, 0, 0,
   0, 16385, 16385, 32639, 16382, 128, 0, 0, 0,
   2, 2, 1, 1, 2, 2, 1, 1, 0
  ]"

text \<open>\<open>c\<close> is a signed character: the index of a character below a blank is far outside the font.\<close>

definition putch :: "'d hardware \<Rightarrow> 'd kernel \<Rightarrow> uint32_t \<Rightarrow> uint32_t \<Rightarrow> uint8_t \<Rightarrow> uint32_t \<Rightarrow> uint32_t \<Rightarrow> 'd kernel res" where
  "putch H s x y c bg fg =
     (let c = c - 32
      in loopE (\<lambda>cx. loopE (\<lambda>cy s.
           bindE (array_get DEFAULT_FONT_DATA (uint (scast c * of_nat FONT_WIDTH + of_nat cx :: uint64_t))) (\<lambda>data.
           let col = drop_bit cy data AND 1
           in framebuffer_putpix H s (x + of_nat cx) (y + of_nat cy) (if col \<noteq> 0 then fg else bg)))
           [0..<FONT_HEIGHT]) [0..<FONT_WIDTH] s)"

definition move_cursor :: "'d kernel \<Rightarrow> uint32_t \<Rightarrow> uint32_t \<Rightarrow> 'd kernel" where
  "move_cursor s x y = s\<lparr>con := con s\<lparr>cur_x := ucast x, cur_y := ucast y\<rparr>\<rparr>"

definition newline :: "'d hardware \<Rightarrow> 'd kernel \<Rightarrow> 'd kernel res" where
  "newline H s =
     with_fb s (\<lambda>fb.
     if cur_y (con s) \<ge> ucast (framebuffer_get_height fb - 5)
     then bindE (framebuffer_clear H s (ucast DEFAULT_BG)) (\<lambda>s. Inr (move_cursor s 0 0))
     else Inr (move_cursor s 0 (ucast (cur_y (con s) + of_nat (FONT_HEIGHT + 4)))))"

fun putstr :: "'d hardware \<Rightarrow> 'd kernel \<Rightarrow> uint8_t list \<Rightarrow> uint64_t \<Rightarrow> 'd kernel res" where
  "putstr H s [] color = Inr s"
| "putstr H s (c # cs) color =
     (if c = 10 then bindE (newline H s) (\<lambda>s. putstr H s cs color)
      else bindE (putch H s (ucast (cur_x (con s))) (ucast (cur_y (con s))) c (ucast (EXTRACT_BG color)) (ucast (EXTRACT_FG color))) (\<lambda>s.
           putstr H (move_cursor s (ucast (cur_x (con s) + of_nat FONT_WIDTH)) (ucast (cur_y (con s)))) cs color))"

subsection \<open>Formatted output\<close>

text \<open>The arguments after the format: strings and numbers. Fetching one that is not there, or of the
  other kind, is undefined; so is going on behind the end of a format that ends in an escape.\<close>

datatype va = Str "uint8_t list" | Num uint64_t

definition c_str :: "uint8_t list \<Rightarrow> uint8_t list" where
  "c_str buf = takeWhile (\<lambda>c. c \<noteq> 0) buf"

definition print_arg :: "'d hardware \<Rightarrow> uint8_t \<Rightarrow> va list \<Rightarrow> uint64_t \<Rightarrow> 'd kernel \<Rightarrow> (va list \<times> 'd kernel) res" where
  "print_arg H f args color s =
     (if f = ch (CHR ''s'')
      then (case args of Str str # args \<Rightarrow> bindE (putstr H s (c_str str) color) (\<lambda>s. Inr (args, s)) | _ \<Rightarrow> Inl Out_Of_Bounds)
      else if f = ch (CHR ''d'') \<or> f = ch (CHR ''u'') \<or> f = ch (CHR ''l'')
      then (case args of
              Num n # args \<Rightarrow>
                bindE (dec2str (dec_string (con s)) n) (\<lambda>buf.
                bindE (putstr H (s\<lparr>con := con s\<lparr>dec_string := buf\<rparr>\<rparr>) (c_str buf) color) (\<lambda>s. Inr (args, s)))
            | _ \<Rightarrow> Inl Out_Of_Bounds)
      else if f = ch (CHR ''x'') \<or> f = ch (CHR ''p'') \<or> f = ch (CHR ''X'')
      then (case args of
              Num n # args \<Rightarrow>
                bindE (hex2str (hex_string (con s)) n) (\<lambda>buf.
                bindE (putstr H (s\<lparr>con := con s\<lparr>hex_string := buf\<rparr>\<rparr>)
                  (c_str (if f = ch (CHR ''X'') then drop 2 buf else buf)) color) (\<lambda>s. Inr (args, s)))
            | _ \<Rightarrow> Inl Out_Of_Bounds)
      else if f = ch (CHR ''c'')
      then (case args of Num n # args \<Rightarrow> bindE (putstr H s (c_str [ucast n]) color) (\<lambda>s. Inr (args, s)) | _ \<Rightarrow> Inl Out_Of_Bounds)
      else Inr (args, s))"

definition escape :: "uint8_t \<Rightarrow> uint64_t \<Rightarrow> uint64_t" where
  "escape f color =
     (if f = ch (CHR ''0'') then MAKE_FG_BG DEFAULT_FG DEFAULT_BG
      else if f = ch (CHR ''1'') then MAKE_FG_BG 0xB2BEB5 DEFAULT_BG
      else if f = ch (CHR ''2'') then MAKE_FG_BG 0xFF0000 DEFAULT_BG
      else if f = ch (CHR ''3'') then MAKE_FG_BG 0x00CED1 DEFAULT_BG
      else if f = ch (CHR ''4'') then MAKE_FG_BG 0x9370DB DEFAULT_BG
      else color)"

fun printk_from :: "'d hardware \<Rightarrow> uint8_t list \<Rightarrow> va list \<Rightarrow> uint64_t \<Rightarrow> 'd kernel \<Rightarrow> 'd kernel res" where
  "printk_from H [] args color s = Inr s"
| "printk_from H (c # cs) args color s =
     (if c = ch (CHR ''%'')
      then (case cs of [] \<Rightarrow> Inl Out_Of_Bounds
            | f # cs \<Rightarrow> bindE (print_arg H f args color s) (\<lambda>(args, s). printk_from H cs args color s))
      else if c = 0x1B
      then (case cs of [] \<Rightarrow> Inl Out_Of_Bounds | f # cs \<Rightarrow> printk_from H cs args (escape f color) s)
      else bindE (putstr H s [c] color) (\<lambda>s. printk_from H cs args color s))"

definition printk :: "'d hardware \<Rightarrow> 'd kernel \<Rightarrow> uint8_t list \<Rightarrow> va list \<Rightarrow> 'd kernel res" where
  "printk H s fmt args = printk_from H fmt args (MAKE_FG_BG DEFAULT_FG DEFAULT_BG) s"

definition KERN_INFO :: "uint8_t list" where
  "KERN_INFO = 0x1B # map ch ''1[ '' @ 0x1B # map ch ''3INFO'' @ 0x1B # map ch ''1 ]'' @ 0x1B # map ch ''0 ''"

definition KERN_PANIC :: "uint8_t list" where
  "KERN_PANIC = 0x1B # map ch ''1[ '' @ 0x1B # map ch ''2PANIC'' @ 0x1B # map ch ''1 ]'' @ 0x1B # map ch ''0 ''"

definition KERN_DEBUG :: "uint8_t list" where
  "KERN_DEBUG = 0x1B # map ch ''1[ '' @ 0x1B # map ch ''4DEBUG'' @ 0x1B # map ch ''1 ]'' @ 0x1B # map ch ''0 ''"

subsection \<open>Drawing characters\<close>

text \<open>The pixels of a character, and what the console does with a character of a colour: from the device
  and the position of the cursor to the device and the position afterwards.\<close>

definition printable :: "uint8_t \<Rightarrow> bool" where
  "printable c \<longleftrightarrow> 32 \<le> c \<and> c \<le> 126"

definition glyph :: "uint8_t \<Rightarrow> nat \<Rightarrow> nat \<Rightarrow> bool" where
  "glyph c i j \<longleftrightarrow> bit (DEFAULT_FONT_DATA ! ((unat c - 32) * 9 + i)) j"

definition pixel_at :: "limine_framebuffer \<Rightarrow> uint32_t \<Rightarrow> uint32_t \<Rightarrow> addr" where
  "pixel_at fb x y = fb_address fb + 4 * ucast (framebuffer_get_index fb x y)"

definition draw_glyph ::
  "'d hardware \<Rightarrow> limine_framebuffer \<Rightarrow> uint32_t \<Rightarrow> uint32_t \<Rightarrow> uint8_t \<Rightarrow> uint32_t \<Rightarrow> uint32_t \<Rightarrow> 'd \<Rightarrow> 'd" where
  "draw_glyph H fb x y c bg fg =
     fold (\<lambda>i. fold (\<lambda>j d. mmio_write32 H d (pixel_at fb (x + of_nat i) (y + of_nat j)) (if glyph c i j then fg else bg))
       [0..<16]) [0..<9]"

definition clear_all :: "'d hardware \<Rightarrow> limine_framebuffer \<Rightarrow> 'd \<Rightarrow> 'd" where
  "clear_all H fb = fold (\<lambda>i d. mmio_write32 H d (fb_address fb + 4 * of_nat i) 0) [0..<unat (fb_width fb * fb_height fb)]"

fun type_char :: "'d hardware \<Rightarrow> limine_framebuffer \<Rightarrow> uint8_t \<times> uint64_t \<Rightarrow> 'd \<times> size_t \<times> size_t \<Rightarrow> 'd \<times> size_t \<times> size_t" where
  "type_char H fb (c, color) (d, x, y) =
     (if c = 10
      then if ucast (framebuffer_get_height fb - 5) \<le> y then (clear_all H fb d, 0, 0)
           else (d, 0, ucast (ucast (y + 20) :: uint32_t))
      else (draw_glyph H fb (ucast x) (ucast y) c (ucast (EXTRACT_BG color)) (ucast (EXTRACT_FG color)) d,
            ucast (ucast (x + 9) :: uint32_t), ucast (ucast y :: uint32_t)))"

definition typed :: "'d hardware \<Rightarrow> limine_framebuffer \<Rightarrow> (uint8_t \<times> uint64_t) list \<Rightarrow> 'd kernel \<Rightarrow> 'd kernel" where
  "typed H fb tx s =
     (let (d, x, y) = fold (type_char H fb) tx (hw s, cur_x (con s), cur_y (con s))
      in s\<lparr>hw := d, con := con s\<lparr>cur_x := x, cur_y := y\<rparr>\<rparr>)"

lemma typed_con [simp]:
  "framebuffer (con (typed H fb tx s)) = framebuffer (con s)" "hex_string (con (typed H fb tx s)) = hex_string (con s)"
  "dec_string (con (typed H fb tx s)) = dec_string (con s)"
  by (simp_all add: typed_def case_prod_beta)

lemma typed_Nil [simp]: "typed H fb [] s = s"
  by (simp add: typed_def)

lemma typed_append: "typed H fb (xs @ ys) s = typed H fb ys (typed H fb xs s)"
  by (simp add: typed_def case_prod_beta)

lemma font_length: "length DEFAULT_FONT_DATA = 855"
  by (simp add: DEFAULT_FONT_DATA_def)

lemma font_access:
  assumes "printable c" and "i < 9"
  shows "array_get DEFAULT_FONT_DATA (uint (scast (c - 32) * of_nat FONT_WIDTH + of_nat i :: uint64_t)) =
    Inr (DEFAULT_FONT_DATA ! ((unat c - 32) * 9 + i))"
proof -
  have c: "32 \<le> unat c" "unat c \<le> 126" using assms(1) by (simp_all add: printable_def word_le_nat_alt)
  have d: "unat (c - 32) = unat c - 32" using assms(1) by (simp add: printable_def unat_sub)
  have u: "uint c \<le> 126" using assms(1) by (simp add: printable_def word_le_def)
  have len8: "LENGTH(8) = Suc 7" by simp
  have uint_int: "uint w = int (unat w)" for w :: "'a :: len word" by simp
  have "uint (c - 32) = int (unat c - 32)" using d by (simp only: uint_int)
  then have "sint (c - 32) = int (unat c - 32)" unfolding sint_uint using c
u
    by (simp only: len8 diff_Suc_1) (rule signed_take_bit_int_eq_self, simp_all)
  then have "scast (c - 32) = (of_nat (unat c - 32) :: uint64_t)" using of_int_sint [of "c - 32"] by (metis of_int_of_nat_eq)
  then have idx: "scast (c - 32) * of_nat FONT_WIDTH + of_nat i = (of_nat ((unat c - 32) * 9 + i) :: uint64_t)"
    by (simp add: FONT_WIDTH_def)
  have n: "(unat c - 32) * 9 + i < 855" using c assms(2) by simp
  then have "uint (of_nat ((unat c - 32) * 9 + i) :: uint64_t) = int ((unat c - 32) * 9 + i)"
    unfolding uint_int by (subst unat_of_nat_64) simp_all
  then show ?thesis using n nat_int [of "(unat c - 32) * 9 + i"]
    by (simp only: idx array_get_def font_length) (simp del: nat_int of_nat_add of_nat_mult)
qed

lemma loopE_hw:
  assumes "\<And>i d. i \<in> set is \<Longrightarrow> f i (s\<lparr>hw := d\<rparr>) = Inr (s\<lparr>hw := g i d\<rparr>)"
  shows "loopE f is (s\<lparr>hw := d\<rparr>) = Inr (s\<lparr>hw := fold g is d\<rparr>)"
  using assms by (induction "is" arbitrary: d) simp_all

lemma putch_result:
  assumes "framebuffer (con s) = Some fb" and "printable c"
  shows "putch H s x y c bg fg = Inr (s\<lparr>hw := draw_glyph H fb x y c bg fg (hw s)\<rparr>)"
proof -
  let ?body = "\<lambda>cx cy s. bindE (array_get DEFAULT_FONT_DATA (uint (scast (c - 32) * of_nat FONT_WIDTH + of_nat cx :: uint64_t))) (\<lambda>data.
           let col = drop_bit cy data AND 1
           in framebuffer_putpix H s (x + of_nat cx) (y + of_nat cy) (if col \<noteq> 0 then fg else bg))"
  have body: "?body i j (s\<lparr>hw := d\<rparr>) = Inr (s\<lparr>hw := mmio_write32 H d (pixel_at fb (x + of_nat i) (y + of_nat j)) (if glyph c i j then fg else bg)\<rparr>)"
    if "i < 9" for i j d
    using that assms
    by (simp add: font_access framebuffer_putpix_def with_fb_def pixel_at_def glyph_def and_one_eq odd_iff_mod_2_eq_one bit_iff_odd_drop_bit)
  have "loopE (\<lambda>cx. loopE (?body cx) [0..<FONT_HEIGHT]) [0..<FONT_WIDTH] (s\<lparr>hw := hw s\<rparr>) =
     Inr (s\<lparr>hw := draw_glyph H fb x y c bg fg (hw s)\<rparr>)"
    unfolding draw_glyph_def FONT_HEIGHT_def FONT_WIDTH_def
    by (intro loopE_hw) (use body [unfolded FONT_WIDTH_def] in auto)
  then show ?thesis by (simp add: putch_def Let_def)
qed

lemma newline_result:
  assumes "framebuffer (con s) = Some fb"
  shows "newline H s = Inr (typed H fb [(10, color)] s)"
proof -
  have h: "of_nat (FONT_HEIGHT + 4) = (20 :: size_t)" "ucast DEFAULT_BG = (0 :: uint32_t)" "ucast (0 :: uint32_t) = (0 :: size_t)"
    by (simp_all add: FONT_HEIGHT_def DEFAULT_BG_def)
  show ?thesis
    by (cases "ucast (framebuffer_get_height fb - 5) \<le> cur_y (con s)")
      (simp_all only: newline_def with_fb_def assms option.case framebuffer_clear_def typed_def move_cursor_def h
        type_char.simps fold_simps clear_all_def bindE_def sum.case Let_def prod.case if_True if_False refl kernel.simps console.simps, simp_all)
qed

lemma putstr_result:
  assumes "framebuffer (con s) = Some fb" and "\<And>c. c \<in> set cs \<Longrightarrow> c = 10 \<or> printable c"
  shows "putstr H s cs color = Inr (typed H fb (map (\<lambda>c. (c, color)) cs) s)"
  using assms
proof (induction cs arbitrary: s)
  case (Cons c cs)
  have rest: "putstr H (typed H fb [(c, color)] s) cs color = Inr (typed H fb (map (\<lambda>c. (c, color)) cs) (typed H fb [(c, color)] s))"
    by (rule Cons.IH) (use Cons.prems in simp_all)
  show ?case
  proof (cases "c = 10")
    case True
    then have "putstr H s (c # cs) color = putstr H (typed H fb [(c, color)] s) cs color"
      using newline_result [OF Cons.prems(1), of H color] by (simp only: putstr.simps bindE_def sum.case) simp
    then show ?thesis using rest typed_append [of H fb "[(c, color)]" "map (\<lambda>c. (c, color)) cs"] by simp
  next
    case False
    then have "printable c" using Cons.prems(2) [of c] by simp
    have w: "of_nat FONT_WIDTH = (9 :: size_t)" by (simp add: FONT_WIDTH_def)
    have "putstr H s (c # cs) color = putstr H (typed H fb [(c, color)] s) cs color"
      using False putch_result [OF Cons.prems(1) \<open>printable c\<close>]
      by (simp only: putstr.simps bindE_def sum.case move_cursor_def typed_def w type_char.simps fold_simps Let_def prod.case if_False) simp
    then show ?thesis using rest typed_append [of H fb "[(c, color)]" "map (\<lambda>c. (c, color)) cs"] by simp
  qed
qed simp

subsection \<open>The text of a format\<close>

definition arg_text :: "uint8_t \<Rightarrow> va list \<Rightarrow> (uint8_t list \<times> va list) option" where
  "arg_text f args =
     (if f = ch (CHR ''s'') then case args of Str str # args \<Rightarrow> Some (c_str str, args) | _ \<Rightarrow> None
      else if f = ch (CHR ''d'') \<or> f = ch (CHR ''u'') \<or> f = ch (CHR ''l'')
      then case args of Num n # args \<Rightarrow> Some (dec_text (unat n), args) | _ \<Rightarrow> None
      else if f = ch (CHR ''x'') \<or> f = ch (CHR ''p'')
      then case args of Num n # args \<Rightarrow> Some (hex_text (unat n), args) | _ \<Rightarrow> None
      else if f = ch (CHR ''X'') then case args of Num n # args \<Rightarrow> Some (drop 2 (hex_text (unat n)), args) | _ \<Rightarrow> None
      else if f = ch (CHR ''c'') then case args of Num n # args \<Rightarrow> Some (c_str [ucast n], args) | _ \<Rightarrow> None
      else Some ([], args))"

text \<open>The characters a format and its arguments stand for, each with its colour; \<open>None\<close> if an argument is
  missing or the format ends in an escape.\<close>

fun render :: "uint8_t list \<Rightarrow> va list \<Rightarrow> uint64_t \<Rightarrow> (uint8_t \<times> uint64_t) list option" where
  "render [] args color = Some []"
| "render (c # cs) args color =
     (if c = ch (CHR ''%'')
      then (case cs of [] \<Rightarrow> None
            | f # cs \<Rightarrow>
                (case arg_text f args of None \<Rightarrow> None
                 | Some (tx, args) \<Rightarrow> map_option ((@) (map (\<lambda>c. (c, color)) tx)) (render cs args color)))
      else if c = 0x1B then (case cs of [] \<Rightarrow> None | f # cs \<Rightarrow> render cs args (escape f color))
      else map_option (Cons (c, color)) (render cs args color))"

definition con_ok :: "limine_framebuffer \<Rightarrow> 'd kernel \<Rightarrow> bool" where
  "con_ok fb s \<longleftrightarrow> framebuffer (con s) = Some fb \<and> length (hex_string (con s)) = 80 \<and> length (dec_string (con s)) = 80"

lemma c_str_append [simp]: "0 \<notin> set xs \<Longrightarrow> c_str (xs @ 0 # zs) = xs"
  unfolding c_str_def by (induction xs) auto

lemma digit_chars: "0 \<notin> set (map digit_char (rev (digits b n)))" if "b \<le> 16"
  using that char_digit_char digits_less [of _ b n] by fastforce

lemma texts_nonzero: "0 \<notin> set (dec_text n)" "0 \<notin> set (hex_text n)" "0 \<notin> set (drop 2 (hex_text n))"
proof -
  show "0 \<notin> set (dec_text n)" using digit_chars [of 10 n] char_digit_char [of 0] by (auto simp: dec_text_def)
  show h: "0 \<notin> set (hex_text n)" using digit_chars [of 16 n] char_digit_char [of 0] by (auto simp: hex_text_def ch_def)
  show "0 \<notin> set (drop 2 (hex_text n))" using h set_drop_subset by fast
qed

lemma print_arg_cases:
  assumes "con_ok fb s" and "arg_text f args = Some (tx, args')"
  obtains "print_arg H f args color s = bindE (putstr H s tx color) (\<lambda>s. Inr (args', s))"
  | ds where "print_arg H f args color s = bindE (putstr H (s\<lparr>con := con s\<lparr>dec_string := ds\<rparr>\<rparr>) tx color) (\<lambda>s. Inr (args', s))" "length ds = 80"
  | hs where "print_arg H f args color s = bindE (putstr H (s\<lparr>con := con s\<lparr>hex_string := hs\<rparr>\<rparr>) tx color) (\<lambda>s. Inr (args', s))" "length hs = 80"
proof -
  note plain = that(1) and dec = that(2) and hex = that(3)
  have ok: "length (hex_string (con s)) = 80" "length (dec_string (con s)) = 80" using assms(1) by (simp_all add: con_ok_def)
  let ?d = "f = ch (CHR ''d'') \<or> f = ch (CHR ''u'') \<or> f = ch (CHR ''l'')" and ?x = "f = ch (CHR ''x'') \<or> f = ch (CHR ''p'') \<or> f = ch (CHR ''X'')"
  show ?thesis
  proof (cases "?d \<or> ?x")
    case False
    then show ?thesis using assms(2) by (intro plain) (auto simp: print_arg_def arg_text_def split: if_splits list.splits va.splits)
  next
    case True
    then obtain n where n: "args = Num n # args'" using assms(2)
      by (auto simp: arg_text_def ch_def split: list.splits va.splits)
    show ?thesis
    proof (cases ?d)
      case True
      then have "tx = dec_text (unat n)" using assms(2) n by (auto simp: arg_text_def ch_def)
      moreover obtain zs where zs: "dec2str (dec_string (con s)) n = Inr (dec_text (unat n) @ 0 # zs)" "length (dec_text (unat n) @ 0 # zs) = 80"
        using dec2str_eq [OF ok(2)] by blast
      moreover have "f \<noteq> ch (CHR ''s'')" using True by (auto simp: ch_def)
      ultimately show ?thesis using True n by (intro dec [of "dec_text (unat n) @ 0 # zs"]) (simp_all add: print_arg_def texts_nonzero)
    next
      case False
      then have x: ?x "f \<noteq> ch (CHR ''s'')" using True by (auto simp: ch_def)
      obtain zs where zs: "hex2str (hex_string (con s)) n = Inr (hex_text (unat n) @ 0 # zs)" "length (hex_text (unat n) @ 0 # zs) = 80"
        using hex2str_eq [OF ok(1)] by blast
      have "2 \<le> length (hex_text (unat n))" by (simp add: hex_text_def)
      then have dr: "drop 2 (hex_text (unat n) @ 0 # zs) = drop 2 (hex_text (unat n)) @ 0 # zs" by simp
      have "tx = (if f = ch (CHR ''X'') then drop 2 (hex_text (unat n)) else hex_text (unat n))"
        using x False assms(2) n by (auto simp: arg_text_def ch_def)
      then have "c_str (if f = ch (CHR ''X'') then drop 2 (hex_text (unat n) @ 0 # zs) else hex_text (unat n) @ 0 # zs) = tx"
        using dr c_str_append [OF texts_nonzero(2)] c_str_append [OF texts_nonzero(3)] by simp
      then show ?thesis using x False zs n by (intro hex [of "hex_text (unat n) @ 0 # zs"]) (simp_all add: print_arg_def)
    qed
  qed
qed

lemma print_arg_result:
  assumes "con_ok fb s" and "arg_text f args = Some (tx, args')" and "\<And>c. c \<in> set tx \<Longrightarrow> c = 10 \<or> printable c"
  shows "\<exists>hs ds. length hs = 80 \<and> length ds = 80 \<and> print_arg H f args color s =
    Inr (args', typed H fb (map (\<lambda>c. (c, color)) tx) (s\<lparr>con := con s\<lparr>hex_string := hs, dec_string := ds\<rparr>\<rparr>))"
proof -
  have ok: "framebuffer (con s) = Some fb" "length (hex_string (con s)) = 80" "length (dec_string (con s)) = 80"
    using assms(1) by (simp_all add: con_ok_def)
  have h1: "s\<lparr>con := con s\<lparr>hex_string := hs\<rparr>\<rparr> = s\<lparr>con := con s\<lparr>hex_string := hs, dec_string := dec_string (con s)\<rparr>\<rparr>"
    and d1: "s\<lparr>con := con s\<lparr>dec_string := ds\<rparr>\<rparr> = s\<lparr>con := con s\<lparr>hex_string := hex_string (con s), dec_string := ds\<rparr>\<rparr>" for hs ds
    by simp_all
  have same: "s = s\<lparr>con := con s\<lparr>hex_string := hex_string (con s), dec_string := dec_string (con s)\<rparr>\<rparr>" by simp
  have put: "putstr H (s\<lparr>con := con s\<lparr>hex_string := hs, dec_string := ds\<rparr>\<rparr>) tx color =
      Inr (typed H fb (map (\<lambda>c. (c, color)) tx) (s\<lparr>con := con s\<lparr>hex_string := hs, dec_string := ds\<rparr>\<rparr>))" for hs ds
    by (rule putstr_result) (use ok assms(3) in simp_all)
  note put' = put [where hs = "hex_string (con s)" and ds = "dec_string (con s)", folded same]
  show ?thesis
    using assms(1,2)
  proof (cases rule: print_arg_cases [where H = H and color = color])
    case 1
    then show ?thesis using put' ok same
      by - (rule exI [of _ "hex_string (con s)"], rule exI [of _ "dec_string (con s)"], simp)
  next
    case (2 ds)
    then show ?thesis using put [where hs = "hex_string (con s)"] ok unfolding d1
      by - (rule exI [of _ "hex_string (con s)"], rule exI [of _ ds], simp)
  next
    case (3 hs)
    then show ?thesis using put [where ds = "dec_string (con s)"] ok unfolding h1
      by - (rule exI [of _ hs], rule exI [of _ "dec_string (con s)"], simp)
  qed
qed

definition with_bufs :: "uint8_t list \<Rightarrow> uint8_t list \<Rightarrow> 'd kernel \<Rightarrow> 'd kernel" where
  "with_bufs hs ds s = s\<lparr>con := con s\<lparr>hex_string := hs, dec_string := ds\<rparr>\<rparr>"

lemma typed_bufs: "typed H fb tx (with_bufs hs ds s) = with_bufs hs ds (typed H fb tx s)"
  by (simp add: typed_def with_bufs_def case_prod_beta)

lemma with_bufs_twice: "with_bufs hs ds (with_bufs hs' ds' s) = with_bufs hs ds s"
  by (simp add: with_bufs_def)

lemma with_bufs_same: "with_bufs (hex_string (con s)) (dec_string (con s)) s = s"
  by (simp add: with_bufs_def)

lemma con_ok_steps:
  "con_ok fb s \<Longrightarrow> con_ok fb (typed H fb tx s)"
  "con_ok fb s \<Longrightarrow> length hs = 80 \<Longrightarrow> length ds = 80 \<Longrightarrow> con_ok fb (with_bufs hs ds s)"
  by (simp_all add: con_ok_def with_bufs_def)

lemma printk_from_result:
  assumes "con_ok fb s" and "render fmt args color = Some tx" and "\<And>c co. (c, co) \<in> set tx \<Longrightarrow> c = 10 \<or> printable c"
  shows "\<exists>hs ds. length hs = 80 \<and> length ds = 80 \<and> printk_from H fmt args color s = Inr (with_bufs hs ds (typed H fb tx s))"
  using assms
proof (induction fmt arbitrary: args color tx s rule: measure_induct_rule [where f = length])
  case (less fmt)
  have IH: "\<exists>hs ds. length hs = 80 \<and> length ds = 80 \<and>
      printk_from H cs args' co (with_bufs hs' ds' (typed H fb t s)) = Inr (with_bufs hs ds (typed H fb (t @ t') s))"
    if "length cs < length fmt" "render cs args' co = Some t'" "set t' \<subseteq> set tx" "length hs' = 80" "length ds' = 80"
    for cs args' co t' t hs' ds'
  proof -
    have "con_ok fb (with_bufs hs' ds' (typed H fb t s))" using less(2) that(4,5) con_ok_steps by blast
    moreover have "c = 10 \<or> printable c" if "(c, co) \<in> set t'" for c co using less(4) that \<open>set t' \<subseteq> set tx\<close> by blast
    ultimately show ?thesis using less.IH [OF that(1) _ that(2), of "with_bufs hs' ds' (typed H fb t s)"]
      by (simp add: typed_append typed_bufs with_bufs_twice)
  qed
  show ?case
  proof (cases fmt)
    case Nil
    then show ?thesis using less(2,3) with_bufs_same [of s] 
      by - (rule exI [of _ "hex_string (con s)"], rule exI [of _ "dec_string (con s)"], simp add: con_ok_def)
  next
    case (Cons c cs)
    consider (arg) f cs' where "c = ch (CHR ''%'')" "cs = f # cs'" | (esc) f cs' where "c = 0x1B" "c \<noteq> ch (CHR ''%'')" "cs = f # cs'"
      | (char) "c \<noteq> ch (CHR ''%'')" "c \<noteq> 0x1B"
      using less(3) Cons by (auto split: if_splits list.splits)
    then show ?thesis
    proof cases
      case arg
      then obtain at args' t' where a: "arg_text f args = Some (at, args')" "render cs' args' color = Some t'"
        "tx = map (\<lambda>c. (c, color)) at @ t'"
        using less(3) Cons by (auto split: option.splits)
      have "c = 10 \<or> printable c" if "c \<in> set at" for c using less(4) [of c color] that by (auto simp: a(3))
      from print_arg_result [OF less(2) a(1) this, of H color] obtain hs ds where
        b: "length hs = 80" "length ds = 80" "print_arg H f args color s = Inr (args', typed H fb (map (\<lambda>c. (c, color)) at) (with_bufs hs ds s))"
        unfolding with_bufs_def by blast
      have "length cs' < length fmt" "set t' \<subseteq> set tx" by (simp_all add: Cons arg a(3))
      from IH [OF this(1) a(2) this(2) b(1,2), of "map (\<lambda>c. (c, color)) at"] show ?thesis
        using arg b(3) by (simp add: Cons typed_bufs a(3))
    next
      case esc
      then have "render cs' args (escape f color) = Some tx" "length cs' < length fmt" using less(3) Cons by simp_all
      from IH [OF this(2,1) _ , of "hex_string (con s)" "dec_string (con s)" "[]"] show ?thesis
        using esc less(2) by (simp add: Cons with_bufs_same con_ok_def)
    next
      case char
      then obtain t' where a: "render cs args color = Some t'" "tx = (c, color) # t'"
        using less(3) Cons by auto
      have "c = 10 \<or> printable c" using less(4) [of c color] by (simp add: a(2))
      then have p: "putstr H s [c] color = Inr (typed H fb [(c, color)] s)"
        using putstr_result [of s fb "[c]" H color] less(2) by (auto simp: con_ok_def)
      have "length cs < length fmt" "set t' \<subseteq> set tx" by (auto simp: Cons a(2))
      from IH [OF this(1) a(1) this(2), of "hex_string (con s)" "dec_string (con s)" "[(c, color)]"] show ?thesis
        using char less(2) p with_bufs_same [of "typed H fb [(c, color)] s"]
        by (simp del: putstr.simps add: Cons con_ok_def a(2))
    qed
  qed
qed

text \<open>Formats the kernel uses: the conversions have their arguments and all characters are in the font. Printing
  with such a format changes the device and the console only.\<close>

fun fmt_ok :: "uint8_t list \<Rightarrow> va list \<Rightarrow> bool" where
  "fmt_ok [] args = True"
| "fmt_ok (c # cs) args =
     (if c = ch (CHR ''%'')
      then (case cs of [] \<Rightarrow> False
            | f # cs \<Rightarrow>
                (if f = ch (CHR ''s'')
                 then (case args of Str x # args \<Rightarrow> (\<forall>c \<in> set x. c = 10 \<or> printable c) \<and> fmt_ok cs args | _ \<Rightarrow> False)
                 else f \<in> set (map ch ''dulxpX'') \<and> (case args of Num n # args \<Rightarrow> fmt_ok cs args | _ \<Rightarrow> False)))
      else if c = 0x1B then (case cs of [] \<Rightarrow> False | f # cs \<Rightarrow> fmt_ok cs args)
      else (c = 10 \<or> printable c) \<and> fmt_ok cs args)"

definition says :: "limine_framebuffer \<Rightarrow> 'd kernel \<Rightarrow> 'd kernel \<Rightarrow> bool" where
  "says fb s s' \<longleftrightarrow> con_ok fb s' \<and> (\<exists>d c. s' = s\<lparr>hw := d, con := c\<rparr>)"

lemma digit_printable: "d < 16 \<Longrightarrow> printable (digit_char d)"
proof -
  assume "d < 16"
  then have "d \<in> {0, 1, 2, 3, 4, 5, 6, 7, 8, 9, 10, 11, 12, 13, 14, 15}" unfolding insert_iff empty_iff by presburger
  then show ?thesis by (auto simp: digit_char_def ascii_numbers_def ch_def printable_def)
qed

lemma texts_printable: "c \<in> set (dec_text n) \<Longrightarrow> printable c" "c \<in> set (hex_text n) \<Longrightarrow> printable c"
  "c \<in> set (drop 2 (hex_text n)) \<Longrightarrow> printable c"
proof -
  have d: "c \<in> set (map digit_char (rev (digits b n))) \<Longrightarrow> b \<le> 16 \<Longrightarrow> printable c" for b
    using digits_less [of _ b n] digit_printable by fastforce
  have x: "printable (ch (CHR ''x''))" by (simp add: printable_def ch_def)
  show "c \<in> set (dec_text n) \<Longrightarrow> printable c"
    using d [of 10] digit_printable [of 0] by (auto simp: dec_text_def split: if_splits)
  show h: "c \<in> set (hex_text n) \<Longrightarrow> printable c"
    using d [of 16] digit_printable [of 0] x by (auto simp: hex_text_def split: if_splits)
  show "c \<in> set (drop 2 (hex_text n)) \<Longrightarrow> printable c" using h in_set_dropD by fast
qed

lemma c_str_subset: "c \<in> set (c_str x) \<Longrightarrow> c \<in> set x"
  by (auto simp: c_str_def dest: set_takeWhileD)

lemma fmt_ok_render:
  assumes "fmt_ok fmt args"
  shows "\<exists>tx. render fmt args color = Some tx \<and> (\<forall>(c, co) \<in> set tx. c = 10 \<or> printable c)"
  using assms
proof (induction fmt args arbitrary: color rule: fmt_ok.induct)
  case (2 c cs args)
  show ?case
  proof (cases "c = ch (CHR ''%'')")
    case True
    then obtain f cs' where f: "cs = f # cs'" using 2(5) by (auto split: list.splits)
    show ?thesis
    proof (cases "f = ch (CHR ''s'')")
      case s: True
      then obtain x args' where x: "args = Str x # args'" "\<forall>c \<in> set x. c = 10 \<or> printable c" "fmt_ok cs' args'"
        using 2(5) True f by (auto split: list.splits va.splits)
      from 2(1) [OF True f s x(1) refl x(3), of color] obtain t' where
        "render cs' args' color = Some t'" "\<forall>(c, co) \<in> set t'. c = 10 \<or> printable c" by blast
      then show ?thesis using True f s x(1,2) c_str_subset [of _ x] by (auto simp: arg_text_def)
    next
      case False
      then obtain n args' where x: "args = Num n # args'" "f \<in> set (map ch ''dulxpX'')" "fmt_ok cs' args'"
        using 2(5) True f by (auto split: list.splits va.splits)
      then obtain tx where "arg_text f args = Some (tx, args')" "\<forall>c \<in> set tx. printable c"
        using texts_printable by (auto simp: arg_text_def ch_def)
      moreover from 2(2) [OF True f False x(1) refl x(3), of color] obtain t' where
        "render cs' args' color = Some t'" "\<forall>(c, co) \<in> set t'. c = 10 \<or> printable c" by blast
      ultimately show ?thesis using True f by auto
    qed
  next
    case False
    show ?thesis
    proof (cases "c = 0x1B")
      case True
      then obtain f cs' where "cs = f # cs'" "fmt_ok cs' args" using 2(5) False by (auto split: list.splits)
      then show ?thesis using 2(3) [OF False True] False True by simp
    next
      case esc: False
      then have "c = 10 \<or> printable c" "fmt_ok cs args" using 2(5) False by auto
      then show ?thesis using 2(4) [OF False esc, of color] False esc by auto
    qed
  qed
qed simp

lemma printk_says:
  assumes "con_ok fb s" and "fmt_ok fmt args"
  shows "\<exists>s'. printk H s fmt args = Inr s' \<and> says fb s s'"
proof -
  obtain tx where tx: "render fmt args (MAKE_FG_BG DEFAULT_FG DEFAULT_BG) = Some tx" "\<forall>(c, co) \<in> set tx. c = 10 \<or> printable c"
    using fmt_ok_render [OF assms(2)] by blast
  obtain hs ds where r: "length hs = 80" "length ds = 80"
    "printk_from H fmt args (MAKE_FG_BG DEFAULT_FG DEFAULT_BG) s = Inr (with_bufs hs ds (typed H fb tx s))"
    using printk_from_result [OF assms(1) tx(1), of H] tx(2) by blast
  moreover have "says fb s (with_bufs hs ds (typed H fb tx s))"
    unfolding says_def using con_ok_steps(2) [OF con_ok_steps(1) [OF assms(1)] r(1,2)]
    by (simp add: with_bufs_def typed_def case_prod_beta) (intro exI, rule refl)
  ultimately show ?thesis by (simp add: printk_def)
qed

lemma says_trans: "says fb s s' \<Longrightarrow> says fb s' s'' \<Longrightarrow> says fb s s''"
proof -
  assume "says fb s s'" "says fb s' s''"
  then obtain d c d' c' where "s' = s\<lparr>hw := d, con := c\<rparr>" "s'' = s'\<lparr>hw := d', con := c'\<rparr>" "con_ok fb s''"
    unfolding says_def by blast
  then have "s'' = s\<lparr>hw := d', con := c'\<rparr>" "con_ok fb s''" by simp_all
  then show "says fb s s''" unfolding says_def by blast
qed

lemma info_ok: "fmt_ok (KERN_INFO @ fmt) args = fmt_ok fmt args" "fmt_ok (KERN_PANIC @ fmt) args = fmt_ok fmt args"
  by (simp_all add: KERN_INFO_def KERN_PANIC_def ch_def printable_def)

subsection \<open>Pixels\<close>

text \<open>What a framebuffer shows: a pixel that has been written keeps its colour until it is written again.\<close>

definition display :: "'d hardware \<Rightarrow> ('d \<Rightarrow> addr \<Rightarrow> uint32_t) \<Rightarrow> bool" where
  "display H shown \<longleftrightarrow> (\<forall>d a v. shown (mmio_write32 H d a v) = (shown d)(a := v))"

text \<open>A framebuffer whose rows do not overlap and whose pixels can be counted with 32 bits.\<close>

definition fb_ok :: "limine_framebuffer \<Rightarrow> bool" where
  "fb_ok fb \<longleftrightarrow> 4 * unat (fb_width fb) \<le> unat (fb_pitch fb) \<and> unat (fb_height fb) * (unat (fb_pitch fb) div 4) < 2 ^ 32"

definition on_screen :: "limine_framebuffer \<Rightarrow> nat \<Rightarrow> nat \<Rightarrow> bool" where
  "on_screen fb x y \<longleftrightarrow> x < unat (fb_width fb) \<and> y < unat (fb_height fb)"

abbreviation pixel :: "limine_framebuffer \<Rightarrow> nat \<Rightarrow> nat \<Rightarrow> addr" where
  "pixel fb x y \<equiv> pixel_at fb (of_nat x) (of_nat y)"

lemma unat32_less: "unat (i :: uint32_t) < 2 ^ 32"
  using unsigned_less [of i, where ?'a = nat] by simp

lemma unat_ucast_up: "unat (ucast (i :: uint32_t) :: uint64_t) = unat i"
  using unat32_less [of i] by (simp add: unsigned_ucast_eq take_bit_nat_eq_self)

lemma index_on_screen:
  assumes "fb_ok fb" and "on_screen fb x y"
  shows "unat (framebuffer_get_index fb (of_nat x) (of_nat y)) = x + y * (unat (fb_pitch fb) div 4)"
proof -
  let ?p = "unat (fb_pitch fb) div 4" and ?h = "unat (fb_height fb)"
  have x: "x < ?p" "y < ?h" "?h * ?p < 2 ^ 32" using assms unfolding fb_ok_def on_screen_def by linarith+
  have "x + y * ?p < Suc y * ?p" using x(1) by simp
  also have "\<dots> \<le> ?h * ?p" using x(2) by (intro mult_right_mono) simp_all
  finally have n: "x + y * ?p < 2 ^ 32" using x(3) by simp
  moreover have "y \<le> y * ?p" using x(1) by simp
  ultimately have small: "x < 2 ^ 32" "y < 2 ^ 32" by linarith+
  have u: "(ucast (of_nat k :: uint32_t) :: uint64_t) = of_nat k" if "k < 2 ^ 32" for k
    using that by (simp add: word_unat_eq_iff unat_ucast_up unat_of_nat)
  have "unat (fb_pitch fb div 4) = ?p" by (simp add: unat_div)
  then have "fb_pitch fb div 4 = of_nat ?p" by (simp only: word_unat_eq_iff) (metis of_nat_unat ucast_id)
  then have eq: "(ucast (of_nat x :: uint32_t) + ucast (of_nat y :: uint32_t) * (fb_pitch fb div 4) :: uint64_t) = of_nat (x + y * ?p)"
    using u [OF small(1)] u [OF small(2)] by simp
  have m: "unat (of_nat (x + y * ?p) :: uint64_t) = x + y * ?p" using n by (intro unat_of_nat_64) simp
  show ?thesis unfolding framebuffer_get_index_def eq unsigned_ucast_eq unsigned_take_bit_eq m
    using n by (intro take_bit_nat_eq_self) simp
qed

lemma pixel_inj:
  assumes "fb_ok fb" and "on_screen fb x y" and "on_screen fb x' y'"
  shows "pixel fb x y = pixel fb x' y' \<longleftrightarrow> x = x' \<and> y = y'"
proof
  let ?p = "unat (fb_pitch fb) div 4" and ?i = "\<lambda>x y. framebuffer_get_index fb (of_nat x) (of_nat y)"
  have p: "x < ?p" "x' < ?p" using assms unfolding fb_ok_def on_screen_def by linarith+
  assume "pixel fb x y = pixel fb x' y'"
  then have "4 * ucast (?i x y) = (4 * ucast (?i x' y') :: uint64_t)" by (simp add: pixel_at_def)
  then have "unat (4 * ucast (?i x y) :: uint64_t) = unat (4 * ucast (?i x' y') :: uint64_t)" by simp
  moreover have "unat (4 * ucast i :: uint64_t) = 4 * unat i" for i :: uint32_t
    using unat32_less [of i] by (simp add: unat_word_ariths unat_ucast_up)
  ultimately have "x + y * ?p = x' + y' * ?p" using index_on_screen [OF assms(1)] assms(2,3) by simp
  then have "(x + y * ?p) mod ?p = (x' + y' * ?p) mod ?p" "(x + y * ?p) div ?p = (x' + y' * ?p) div ?p" by simp_all
  then show "x = x' \<and> y = y'" using p by simp
qed simp

lemma fold_product: "fold (\<lambda>i. fold (f i) js) is = fold (\<lambda>(i, j). f i j) (List.product is js)"
  by (induction "is") (simp_all add: fold_map comp_def fun_eq_iff)

lemma shown_writes:
  assumes "display H shown"
  shows "b \<notin> a ` set ks \<Longrightarrow> shown (fold (\<lambda>k d. mmio_write32 H d (a k) (v k)) ks d) b = shown d b"
    and "inj_on a (set ks) \<Longrightarrow> k \<in> set ks \<Longrightarrow> shown (fold (\<lambda>k d. mmio_write32 H d (a k) (v k)) ks d) (a k) = v k"
proof -
  have w: "shown (mmio_write32 H d a v) = (shown d)(a := v)" for d a v using assms by (simp add: display_def)
  show out: "shown (fold (\<lambda>k d. mmio_write32 H d (a k) (v k)) ks d) b = shown d b" if "b \<notin> a ` set ks" for ks b d
    using that by (induction ks arbitrary: d) (auto simp: w)
  show "shown (fold (\<lambda>k d. mmio_write32 H d (a k) (v k)) ks d) (a k) = v k" if "inj_on a (set ks)" "k \<in> set ks"
    using that
  proof (induction ks arbitrary: d)
    case (Cons k' ks)
    show ?case
    proof (cases "k \<in> set ks")
      case True
      then show ?thesis using Cons by simp
    next
      case False
      then have "k = k'" "a k \<notin> a ` set ks" using Cons.prems by auto
      then show ?thesis using out [of "a k" ks] by (simp add: w)
    qed
  qed simp
qed

subsection \<open>Trying it out\<close>

definition demo_screen :: limine_framebuffer where
  "demo_screen = \<lparr>fb_address = 0x80000000, fb_width = 640, fb_height = 480, fb_pitch = 2560\<rparr>"

text \<open>A machine whose only device is a framebuffer.\<close>

definition store_hw :: "(addr \<Rightarrow> uint32_t) hardware" where
  "store_hw = \<lparr>mmio_read32 = \<lambda>d a. (d a, d), mmio_write32 = \<lambda>d a v. d(a := v), mmio_read64 = \<lambda>d a. (0, d), mmio_write64 = \<lambda>d a v. d,
     port_in8 = \<lambda>d a. (0, d), port_out8 = \<lambda>d a v. d, port_in16 = \<lambda>d a. (0, d), port_out16 = \<lambda>d a v. d,
     port_in32 = \<lambda>d a. (0, d), port_out32 = \<lambda>d a v. d\<rparr>"

subsection \<open>Properties\<close>

text \<open>C39: \<open>printk\<close> of a well-formed format with its arguments never leaves the font or the number buffers and
  draws exactly the text the format stands for: characters as they are, strings, decimal and
  hexadecimal numbers in place of their conversions, each in the colour selected last. Beyond the
  device and the cursor only the two number buffers change.\<close>

theorem printk_correct:
  assumes "con_ok fb s" and "render fmt args (MAKE_FG_BG DEFAULT_FG DEFAULT_BG) = Some tx"
    and "\<And>c color. (c, color) \<in> set tx \<Longrightarrow> c = 10 \<or> printable c"
  shows "\<exists>hs ds. length hs = 80 \<and> length ds = 80 \<and> printk H s fmt args = Inr (with_bufs hs ds (typed H fb tx s))"
  unfolding printk_def by (rule printk_from_result [OF assms])

theorem printk_correct_witness:
  "\<exists>hs ds. printk demo_hw (demo_machine 0 (\<lambda>_. 0)) (map ch ''A%d'') [Num 4] =
     Inr (with_bufs hs ds (typed demo_hw demo_screen
       [(65, MAKE_FG_BG DEFAULT_FG DEFAULT_BG), (52, MAKE_FG_BG DEFAULT_FG DEFAULT_BG)] (demo_machine 0 (\<lambda>_. 0))))"
proof -
  have "con_ok demo_screen (demo_machine 0 (\<lambda>_. 0) :: uint64_t kernel)"
    by (simp add: con_ok_def demo_machine_def demo_screen_def)
  moreover have "render (map ch ''A%d'') [Num 4] color = Some [(65, color), (52, color)]" for color
    by (simp add: arg_text_def ch_def dec_text_def digits.simps digit_char_def ascii_numbers_def)
  moreover have "printable 65" "printable 52" by (simp_all add: printable_def)
  ultimately show ?thesis
    using printk_correct [of demo_screen "demo_machine 0 (\<lambda>_. 0)" "map ch ''A%d''" "[Num 4]" _ demo_hw] by fastforce
qed

text \<open>On a display that shows what was last written, \<open>putch\<close> draws the character of the font in the 9 by 16
  pixels from its position, in the two colours, and changes no other pixel of the screen.\<close>

lemma putch_correct:
  assumes "display H shown" and "framebuffer (con s) = Some fb" and "fb_ok fb" and "printable c"
    and "x + 9 \<le> unat (fb_width fb)" and "y + 16 \<le> unat (fb_height fb)" and "on_screen fb x' y'"
  shows "\<exists>d. putch H s (of_nat x) (of_nat y) c bg fg = Inr (s\<lparr>hw := d\<rparr>) \<and>
    shown d (pixel fb x' y') =
      (if x \<le> x' \<and> x' < x + 9 \<and> y \<le> y' \<and> y' < y + 16 then if glyph c (x' - x) (y' - y) then fg else bg
       else shown (hw s) (pixel fb x' y'))"
proof -
  let ?ks = "List.product [0..<9] [0..<16 :: nat]" and ?a = "\<lambda>(i, j). pixel fb (x + i) (y + j)"
    and ?v = "\<lambda>(i, j). if glyph c i j then fg else bg"
  let ?d = "draw_glyph H fb (of_nat x) (of_nat y) c bg fg (hw s)"
  have d: "?d = fold (\<lambda>k d. mmio_write32 H d (?a k) (?v k)) ?ks (hw s)"
    unfolding draw_glyph_def fold_product by (simp add: case_prod_unfold)
  have scr: "on_screen fb (x + i) (y + j)" if "i < 9" "j < 16" for i j using assms(5,6) that by (simp add: on_screen_def)
  have inj: "inj_on ?a (set ?ks)" using pixel_inj [OF assms(3)] scr by (auto simp: inj_on_def simp del: of_nat_add)
  have "shown ?d (pixel fb x' y') =
      (if x \<le> x' \<and> x' < x + 9 \<and> y \<le> y' \<and> y' < y + 16 then if glyph c (x' - x) (y' - y) then fg else bg
       else shown (hw s) (pixel fb x' y'))"
  proof (cases "x \<le> x' \<and> x' < x + 9 \<and> y \<le> y' \<and> y' < y + 16")
    case True
    then have "(x' - x, y' - y) \<in> set ?ks" by auto
    from shown_writes(2) [OF assms(1) inj this, of ?v "hw s"] show ?thesis using True by (simp add: d)
  next
    case False
    then have "pixel fb x' y' \<noteq> pixel fb (x + i) (y + j)" if "i < 9" "j < 16" for i j
      using pixel_inj [OF assms(3,7) scr [OF that]] that by linarith
    then have "pixel fb x' y' \<notin> ?a ` set ?ks" unfolding image_iff by (simp del: of_nat_add add: case_prod_beta)
    from shown_writes(1) [OF assms(1) this, of ?v "hw s"] show ?thesis using False by (simp only: d if_False)
  qed
  then show ?thesis using putch_result [OF assms(2,4), of H "of_nat x" "of_nat y" bg fg] by blast
qed

end
