(* ===== verification/Acpi.thy ===== *)
theory Acpi
  imports Cores Console
begin

text \<open>
  The ACPI tables (\<^verbatim>\<open>sys/acpi/acpi.c\<close>, \<^verbatim>\<open>sys/include/acpi/def.h\<close>) and the HPET that is found with them
  (\<open>hpet_init\<close> of \<^verbatim>\<open>sys/dev/timer/hpet.c\<close>). The tables are read from memory at the offsets of their packed
  structures. The loops over the entries of the MADT advance by the length an entry gives of itself,
  so they need not end; they are partial functions. Names of tables are addresses of strings.
\<close>

subsection \<open>Layout\<close>

definition rsdp_rsdtaddr :: uint64_t where "rsdp_rsdtaddr = 16"
definition acpi_signature :: uint64_t where "acpi_signature = 0"
definition acpi_length :: uint64_t where "acpi_length = 4"
definition sizeof_acpi_header :: uint64_t where "sizeof_acpi_header = 36"
definition rsdt_tables :: uint64_t where "rsdt_tables = 36"
definition madt_lapic_addr :: uint64_t where "madt_lapic_addr = 36"
definition sizeof_madt :: uint64_t where "sizeof_madt = 44"
definition apic_type :: uint64_t where "apic_type = 0"
definition apic_length :: uint64_t where "apic_length = 1"
definition io_apic_addr :: uint64_t where "io_apic_addr = 4"
definition override_source :: uint64_t where "override_source = 3"
definition override_interrupt :: uint64_t where "override_interrupt = 4"
definition hpet_base_base :: uint64_t where "hpet_base_base = 44"

lemmas acpi_offsets = rsdp_rsdtaddr_def acpi_signature_def acpi_length_def sizeof_acpi_header_def rsdt_tables_def
  madt_lapic_addr_def sizeof_madt_def apic_type_def apic_length_def io_apic_addr_def override_source_def
  override_interrupt_def hpet_base_base_def

definition APIC_TYPE_IO_APIC :: uint8_t where "APIC_TYPE_IO_APIC = 1"
definition APIC_TYPE_INTERRUPT_OVERRIDE :: uint8_t where "APIC_TYPE_INTERRUPT_OVERRIDE = 2"

subsection \<open>Operations\<close>

partial_function (option) parse_madt_from :: "'d hardware \<Rightarrow> addr \<Rightarrow> addr \<Rightarrow> 'd kernel \<Rightarrow> 'd kernel run" where
  "parse_madt_from H cur stop s =
     (if cur < stop
      then case (if ram s (cur + apic_type) = APIC_TYPE_IO_APIC
                 then let s = s\<lparr>g_ioapic_mmio_base := ucast (load32 (ram s) (cur + io_apic_addr))\<rparr>
                      in printk H s (KERN_INFO @ map ch ''IOAPIC: MMIO base: %x'' @ [10]) [Num (g_ioapic_mmio_base s)]
                 else Inr s) of
             Inl e \<Rightarrow> Some (Inl e)
           | Inr s \<Rightarrow> parse_madt_from H (cur + ucast (ram s (cur + apic_length))) stop s
      else ret s)"

definition parse_madt :: "'d hardware \<Rightarrow> 'd kernel \<Rightarrow> 'd kernel run" where
  "parse_madt H s =
     (let s = s\<lparr>g_lapic_mmio_base := ucast (load32 (ram s) (madt s + madt_lapic_addr))\<rparr>
      in parse_madt_from H (madt s + sizeof_madt) (madt s + ucast (load32 (ram s) (madt s + acpi_length))) s)"

definition do_checksum :: "memory \<Rightarrow> addr \<Rightarrow> bool" where
  "do_checksum m header =
     (let sum = fold (\<lambda>i sum. sum + m (header + of_nat i)) [0..<unat (load32 m (header + acpi_length))] (0 :: uint8_t)
      in unat sum mod 0x100 = 0)"

text \<open>The loop of \<open>acpi_query\<close> over the \<open>n\<close> tables from the \<open>i\<close>-th; the length of \<open>query\<close> is computed in each
  iteration.\<close>

fun acpi_query_from :: "addr \<Rightarrow> 'd kernel \<Rightarrow> addr \<Rightarrow> nat \<Rightarrow> size_t \<Rightarrow> addr option" where
  "acpi_query_from hhdm s query 0 i = Some 0"
| "acpi_query_from hhdm s query (Suc n) i =
     (let current = ucast (load32 (ram s) (rsdt s + rsdt_tables + 4 * i)) + hhdm
      in case strlen (ram s) query of
           None \<Rightarrow> None
         | Some len \<Rightarrow>
             if memcmp (ram s) (current + acpi_signature) query len = 0
             then Some (if do_checksum (ram s) current then current else 0)
             else acpi_query_from hhdm s query n (i + 1))"

definition acpi_query :: "addr \<Rightarrow> 'd kernel \<Rightarrow> addr \<Rightarrow> addr option" where
  "acpi_query hhdm s query = acpi_query_from hhdm s query (unat (rsdt_entry_count s)) 0"

partial_function (option) remap_from :: "memory \<Rightarrow> addr \<Rightarrow> addr \<Rightarrow> uint8_t \<Rightarrow> uint16_t option" where
  "remap_from m cur stop irq =
     (if cur < stop
      then if m (cur + apic_type) = APIC_TYPE_INTERRUPT_OVERRIDE \<and> m (cur + override_source) = irq
           then Some (ucast (load32 m (cur + override_interrupt)))
           else remap_from m (cur + ucast (m (cur + apic_length))) stop irq
      else Some (ucast irq))"

definition acpi_remap_irq :: "'d kernel \<Rightarrow> uint8_t \<Rightarrow> uint16_t option" where
  "acpi_remap_irq s irq =
     remap_from (ram s) (madt s + sizeof_madt) (madt s + ucast (load32 (ram s) (madt s + acpi_length))) irq"

text \<open>\<open>apic_name\<close> is the address of the string \<^verbatim>\<open>APIC\<close>.\<close>

definition acpi_init :: "'d hardware \<Rightarrow> addr \<Rightarrow> addr \<Rightarrow> 'd kernel \<Rightarrow> 'd kernel run" where
  "acpi_init H hhdm apic_name s =
     (if rsdp s = 0 then Some (Inl Null_Deref)
      else let s = s\<lparr>rsdt := ucast (load32 (ram s) (rsdp s + rsdp_rsdtaddr)) + hhdm\<rparr>;
               s = s\<lparr>rsdt_entry_count := (ucast (load32 (ram s) (rsdt s + acpi_length)) - sizeof_acpi_header) div 4\<rparr>
           in case acpi_query hhdm s apic_name of
                None \<Rightarrow> None
              | Some p \<Rightarrow>
                  bindR (Some (assertE (p \<noteq> 0))) (\<lambda>_. parse_madt H (s\<lparr>madt := p\<rparr>)))"

text \<open>Interrupts are still disabled when \<open>hpet_init\<close> runs, so its \<^verbatim>\<open>hlt\<close> does not return. \<open>hpet_name\<close> is the
  address of the string \<^verbatim>\<open>HPET\<close>.\<close>

definition hpet_init :: "'d hardware \<Rightarrow> addr \<Rightarrow> addr \<Rightarrow> 'd kernel \<Rightarrow> 'd kernel run" where
  "hpet_init H hhdm hpet_name s =
     (case acpi_query hhdm s hpet_name of
        None \<Rightarrow> None
      | Some p \<Rightarrow>
          let s = s\<lparr>hpet := p\<rparr>
          in if hpet s = 0
             then bindR (Some (printk H s (KERN_PANIC @ map ch ''Failed to query for HPET with ACPI..'' @ [10]) [])) (\<lambda>s. None)
             else let s = s\<lparr>hpet_base := load64 (ram s) (hpet s + hpet_base_base) + hhdm\<rparr>;
                      (cap, d) = hpet_read H (hpet_base s) (hw s) HPET_REG_CAP;
                      reg_count = ucast ((drop_bit 8 cap AND 0x1F) + 1) :: uint32_t;
                      (cap', d') = hpet_read H (hpet_base s) d HPET_REG_CAP;
                      s = s\<lparr>hw := if reg_count < 2 then d else d'\<rparr>
                  in if reg_count < 2 \<or> drop_bit 32 cap' = 0
                     then bindR (Some (printk H s (KERN_PANIC @ map ch ''HPET does not support required capabilities!'' @ [10]) [])) (\<lambda>s. None)
                     else let (cap, d) = hpet_read H (hpet_base s) (hw s) HPET_REG_CAP;
                              s = s\<lparr>hpet_period := drop_bit 32 cap\<rparr>;
                              d = hpet_write H (hpet_base s) d HPET_REG_COUNTER 0;
                              (conf, d) = hpet_read H (hpet_base s) d HPET_REG_CONF;
                              d = hpet_write H (hpet_base s) d HPET_REG_CONF (conf OR push_bit 0 1);
                              s = s\<lparr>hw := d\<rparr>
                          in bindR (Some (printk H s (KERN_INFO @ map ch (''Queried '' @ [CHR 0x22] @ ''HPET'' @ [CHR 0x22] @ '' in ACPI tables.. done'') @ [10]) [])) (\<lambda>s.
                             Some (printk H s (KERN_INFO @ map ch ''HPET_PERIOD=%x, HPET_REG_COUNT=%x'' @ [10])
                               [Num (hpet_period s), Num (ucast reg_count)])))"

subsection \<open>Entries of the MADT\<close>

text \<open>An entry is the list of its bytes: the type, the length, the contents.\<close>

definition entry_ok :: "uint8_t list \<Rightarrow> bool" where
  "entry_ok e \<longleftrightarrow> 2 \<le> length e \<and> length e < 256 \<and> e ! 1 = of_nat (length e) \<and>
     (e ! 0 = APIC_TYPE_IO_APIC \<or> e ! 0 = APIC_TYPE_INTERRUPT_OVERRIDE \<longrightarrow> 8 \<le> length e)"

definition entry_word :: "uint8_t list \<Rightarrow> nat \<Rightarrow> uint32_t" where
  "entry_word e i = load32 (\<lambda>a. e ! unat a) (of_nat i)"

definition entries_at :: "memory \<Rightarrow> addr \<Rightarrow> uint8_t list list \<Rightarrow> bool" where
  "entries_at m cur es \<longleftrightarrow> (\<forall>e \<in> set es. entry_ok e) \<and> bytes_at m cur (length (concat es)) = concat es \<and>
     unat cur + length (concat es) < 2 ^ 64"

definition madt_holds :: "memory \<Rightarrow> addr \<Rightarrow> uint8_t list list \<Rightarrow> bool" where
  "madt_holds m a es \<longleftrightarrow> entries_at m (a + sizeof_madt) es \<and>
     ucast (load32 m (a + acpi_length)) = sizeof_madt + of_nat (length (concat es))"

lemma bytes_at_append: "bytes_at m a (i + j) = bytes_at m a i @ bytes_at m (a + of_nat i) j"
  by (rule nth_equalityI) (auto simp: bytes_at_def nth_append add.assoc simp flip: of_nat_add)

lemma bytes_at_drop: "bytes_at m a (i + j) = xs \<Longrightarrow> bytes_at m (a + of_nat i) j = drop i xs"
proof -
  assume "bytes_at m a (i + j) = xs"
  moreover have "length (bytes_at m a i) = i" by (simp add: bytes_at_def)
  ultimately show ?thesis unfolding bytes_at_append by auto
qed

lemma load_le_shift:
  assumes "\<And>i. i < n \<Longrightarrow> m (a + of_nat i) = m' (b + of_nat i)"
  shows "load_le n m a = load_le n m' b"
  using assms
proof (induction n arbitrary: a b)
  case (Suc n)
  have "m (a + 1 + of_nat i) = m' (b + 1 + of_nat i)" if "i < n" for i
    using Suc.prems [of "Suc i"] that by (simp add: algebra_simps)
  from Suc.IH [OF this] show ?case using Suc.prems [of 0] by simp
qed simp

lemma entries_step:
  assumes "entries_at m cur (e # es)"
  shows "i < length e \<Longrightarrow> m (cur + of_nat i) = e ! i" and "entries_at m (cur + of_nat (length e)) es"
    and "cur < cur + of_nat (length (concat (e # es)))" and "(ucast (m (cur + apic_length)) :: addr) = of_nat (length e)"
    and "i + 4 \<le> length e \<Longrightarrow> load32 m (cur + of_nat i) = entry_word e i"
proof -
  have e: "entry_ok e" "bytes_at m cur (length e + length (concat es)) = e @ concat es"
    "unat cur + length e + length (concat es) < 2 ^ 64" "\<forall>e \<in> set es. entry_ok e"
    using assms by (simp_all add: entries_at_def)
  have b: "bytes_at m cur (length e) = e" "bytes_at m (cur + of_nat (length e)) (length (concat es)) = concat es"
    using e(2) unfolding bytes_at_append by (simp_all add: bytes_at_def append_eq_append_conv)
  show at: "m (cur + of_nat i) = e ! i" if "i < length e" for i
    using arg_cong [OF b(1), of "\<lambda>xs. xs ! i"] that by (simp add: bytes_at_def)
  have u: "unat (cur + of_nat k) = unat cur + k" if "k \<le> length e + length (concat es)" for k
    using e(3) that by (subst unat_plus_simple [THEN iffD1]) (simp_all add: unat_of_nat_64 word_le_nat_alt unat_word_ariths)
  show "entries_at m (cur + of_nat (length e)) es" using b(2) e(3,4) u [of "length e"] by (simp add: entries_at_def)
  show "cur < cur + of_nat (length (concat (e # es)))"
    using u [of "length (concat (e # es))"] e(1) by (simp only: word_less_nat_alt) (auto simp: entry_ok_def)
  have "m (cur + apic_length) = of_nat (length e)" using at [of 1] e(1) by (simp add: apic_length_def entry_ok_def)
  then show "ucast (m (cur + apic_length)) = (of_nat (length e) :: addr)"
    using e(1) by (simp add: word_unat_eq_iff entry_ok_def unsigned_ucast_eq take_bit_nat_eq_self unat_of_nat)
  show "load32 m (cur + of_nat i) = entry_word e i" if "i + 4 \<le> length e" for i
    unfolding entry_word_def load32_def
  proof (rule load_le_shift)
    fix j :: nat assume "j < 4"
    moreover have "unat (of_nat (i + j) :: addr) = i + j" using that \<open>j < 4\<close> e(1) by (intro unat_of_nat_64) (simp add: entry_ok_def)
    ultimately show "m (cur + of_nat i + of_nat j) = e ! unat (of_nat i + of_nat j :: addr)"
      using at [of "i + j"] that by (simp add: add.assoc)
  qed
qed

definition remap_entry :: "uint8_t list list \<Rightarrow> uint8_t \<Rightarrow> uint16_t" where
  "remap_entry es irq =
     (case find (\<lambda>e. e ! 0 = APIC_TYPE_INTERRUPT_OVERRIDE \<and> e ! 3 = irq) es of
        None \<Rightarrow> ucast irq | Some e \<Rightarrow> ucast (entry_word e 4))"

lemma remap_result:
  assumes "entries_at m cur es"
  shows "remap_from m cur (cur + of_nat (length (concat es))) irq = Some (remap_entry es irq)"
  using assms
proof (induction es arbitrary: cur)
  case Nil
  then show ?case by (subst remap_from.simps) (simp add: remap_entry_def)
next
  case (Cons e es)
  note st = entries_step [OF Cons.prems]
  have ok: "entry_ok e" using Cons.prems by (simp add: entries_at_def)
  have "e \<noteq> []" using ok by (auto simp: entry_ok_def)
  then have ty: "m (cur + apic_type) = e ! 0" using st(1) [of 0] by (simp add: apic_type_def)
  have sum: "cur + of_nat (length (concat (e # es))) = cur + of_nat (length e) + of_nat (length (concat es))" by simp
  show ?case
  proof (cases "e ! 0 = APIC_TYPE_INTERRUPT_OVERRIDE")
    case True
    then have "8 \<le> length e" using ok by (simp add: entry_ok_def)
    then have "m (cur + override_source) = e ! 3" "load32 m (cur + override_interrupt) = entry_word e 4"
      using st(1) [of 3] st(5) [of 4] by (simp_all add: acpi_offsets)
    then show ?thesis using st(3,4) ty True Cons.IH [OF st(2)]
      by (subst remap_from.simps) (simp only: sum, simp add: remap_entry_def)
  next
    case False
    then show ?thesis using st(3,4) ty Cons.IH [OF st(2)]
      by (subst remap_from.simps) (simp only: sum, simp add: remap_entry_def)
  qed
qed

lemma acpi_remap_irq_result:
  assumes "madt_holds (ram s) (madt s) es"
  shows "acpi_remap_irq s irq = Some (remap_entry es irq)"
  using remap_result [of "ram s" "madt s + sizeof_madt" es irq] assms by (simp add: acpi_remap_irq_def madt_holds_def add.assoc)

definition io_apic_of :: "uint8_t list list \<Rightarrow> addr \<Rightarrow> addr" where
  "io_apic_of es old = fold (\<lambda>e b. if e ! 0 = APIC_TYPE_IO_APIC then ucast (entry_word e 4) else b) es old"

lemma parse_result:
  assumes "entries_at (ram s) cur es" and "con_ok fb s"
  shows "\<exists>d c. parse_madt_from H cur (cur + of_nat (length (concat es))) s =
      ret (s\<lparr>hw := d, con := c, g_ioapic_mmio_base := io_apic_of es (g_ioapic_mmio_base s)\<rparr>) \<and>
    con_ok fb (s\<lparr>hw := d, con := c, g_ioapic_mmio_base := io_apic_of es (g_ioapic_mmio_base s)\<rparr>)"
  using assms
proof (induction es arbitrary: cur s)
  case Nil
  then show ?case by (subst parse_madt_from.simps) (rule exI [of _ "hw s"], rule exI [of _ "con s"], simp add: io_apic_of_def con_ok_def)
next
  case (Cons e es)
  note st = entries_step [OF Cons.prems(1)]
  have ok: "entry_ok e" using Cons.prems(1) by (simp add: entries_at_def)
  have "e \<noteq> []" using ok by (auto simp: entry_ok_def)
  then have ty: "ram s (cur + apic_type) = e ! 0" using st(1) [of 0] by (simp add: apic_type_def)
  have sum: "cur + of_nat (length (concat (e # es))) = cur + of_nat (length e) + of_nat (length (concat es))" by simp
  show ?case
  proof (cases "e ! 0 = APIC_TYPE_IO_APIC")
    case True
    then have w: "load32 (ram s) (cur + io_apic_addr) = entry_word e 4"
      using ok st(5) [of 4] by (simp add: acpi_offsets entry_ok_def)
    let ?b = "ucast (entry_word e 4) :: addr" and ?f = "KERN_INFO @ map ch ''IOAPIC: MMIO base: %x'' @ [10]"
    have "con_ok fb (s\<lparr>g_ioapic_mmio_base := ?b\<rparr>)" using Cons.prems(2) by (simp add: con_ok_def)
    moreover have "fmt_ok ?f [Num ?b]" unfolding info_ok by (simp add: ch_def printable_def)
    ultimately obtain s' where s': "printk H (s\<lparr>g_ioapic_mmio_base := ?b\<rparr>) ?f [Num ?b] = Inr s'" "says fb (s\<lparr>g_ioapic_mmio_base := ?b\<rparr>) s'"
      using printk_says by blast
    then obtain d c where d: "s' = s\<lparr>g_ioapic_mmio_base := ?b, hw := d, con := c\<rparr>" "con_ok fb s'" by (auto simp: says_def)
    have "entries_at (ram s') (cur + of_nat (length e)) es" using st(2) by (simp add: d(1))
    from Cons.IH [OF this d(2)] show ?thesis using st(3,4) ty True w s'(1)
      by (subst parse_madt_from.simps) (simp only: sum, simp add: d(1) io_apic_of_def)
  next
    case False
    then show ?thesis using st(3,4) ty Cons.IH [OF st(2) Cons.prems(2)]
      by (subst parse_madt_from.simps) (simp only: sum, simp add: io_apic_of_def)
  qed
qed

text \<open>An entry that gives its length as 0 stops the loop from advancing.\<close>

lemma remap_stuck:
  assumes "cur < stop" and "m (cur + apic_length) = 0" and "m (cur + apic_type) \<noteq> APIC_TYPE_INTERRUPT_OVERRIDE"
  shows "remap_from m cur stop irq = None"
proof -
  have no: "\<not> (m' = m \<and> cur' = cur \<and> stop' = stop)" if "remap_from m' cur' stop' irq' = Some v" for m' cur' stop' irq' v
  proof (rule remap_from.raw_induct [OF _ that])
    fix f m' cur' stop' irq' v
    assume ih: "\<And>m' cur' stop' irq' v. f m' cur' stop' irq' = Some v \<Longrightarrow> \<not> (m' = m \<and> cur' = cur \<and> stop' = stop)"
      and eq: "(if cur' < stop'
        then if m' (cur' + apic_type) = APIC_TYPE_INTERRUPT_OVERRIDE \<and> m' (cur' + override_source) = irq'
             then Some (ucast (load32 m' (cur' + override_interrupt)))
             else f m' (cur' + ucast (m' (cur' + apic_length))) stop' irq'
        else Some (ucast irq')) = Some v"
    show "\<not> (m' = m \<and> cur' = cur \<and> stop' = stop)"
    proof
      assume "m' = m \<and> cur' = cur \<and> stop' = stop"
      then have "f m cur stop irq' = Some v" using eq assms by simp
      from ih [OF this] show False by simp
    qed
  qed
  show ?thesis using no [of m cur stop irq] by (cases "remap_from m cur stop irq") simp_all
qed

subsection \<open>Finding a table\<close>

text \<open>The tables the RSDT lists.\<close>

definition tables :: "addr \<Rightarrow> 'd kernel \<Rightarrow> addr list" where
  "tables hhdm s = map (\<lambda>i. ucast (load32 (ram s) (rsdt s + rsdt_tables + 4 * of_nat i)) + hhdm) [0..<unat (rsdt_entry_count s)]"

definition table_bytes :: "memory \<Rightarrow> addr \<Rightarrow> uint8_t list" where
  "table_bytes m a = bytes_at m a (unat (load32 m (a + acpi_length)))"

lemma fold_sum: "fold (\<lambda>i sum. sum + f i) xs (a :: uint8_t) = a + sum_list (map f xs)"
  by (induction xs arbitrary: a) (simp_all add: algebra_simps)

lemma do_checksum_iff: "do_checksum m a \<longleftrightarrow> sum_list (table_bytes m a) = 0"
proof -
  have "unat x mod 0x100 = 0 \<longleftrightarrow> x = 0" for x :: uint8_t using unsigned_less [of x, where ?'a = nat] by (simp add: unat_eq_0)
  then show ?thesis by (simp add: do_checksum_def fold_sum table_bytes_def bytes_at_def)
qed

lemma acpi_query_result:
  assumes "cstring_at (ram s) query q"
  shows "acpi_query hhdm s query =
    Some (case find (\<lambda>a. bytes_at (ram s) a (length q) = q) (tables hhdm s) of
            None \<Rightarrow> 0 | Some a \<Rightarrow> if sum_list (table_bytes (ram s) a) = 0 then a else 0)"
proof -
  have q: "length q < 2 ^ 64" "bytes_at (ram s) query (length q) = q" using assms by (simp_all add: cstring_at_def)
  let ?t = "\<lambda>i. ucast (load32 (ram s) (rsdt s + rsdt_tables + 4 * of_nat i)) + hhdm"
  have "acpi_query_from hhdm s query n (of_nat i) =
     Some (case find (\<lambda>a. bytes_at (ram s) a (length q) = q) (map ?t [i..<i + n]) of
            None \<Rightarrow> 0 | Some a \<Rightarrow> if sum_list (table_bytes (ram s) a) = 0 then a else 0)" for n i
  proof (induction n arbitrary: i)
    case (Suc n)
    have up: "[i..<i + Suc n] = i # [Suc i..<Suc i + n]" by (simp add: upt_conv_Cons)
    have "memcmp (ram s) a query (of_nat (length q)) = 0 \<longleftrightarrow> bytes_at (ram s) a (length q) = q" for a
      using q by (simp add: memcmp_eq_0 unat_of_nat_64)
    then show ?case using Suc [of "Suc i"] strlen_eq [OF assms]
      unfolding up by (simp add: Let_def do_checksum_iff acpi_signature_def add.commute)
  qed simp
  from this [of "unat (rsdt_entry_count s)" 0] show ?thesis by (simp add: acpi_query_def tables_def)
qed

lemma hpet_init_result:
  assumes "con_ok fb s" and "acpi_query hhdm s hpet_name = Some p" and "p \<noteq> 0" and "base = load64 (ram s) (p + hpet_base_base) + hhdm"
    and "\<And>d. fst (hpet_read H base d HPET_REG_CAP) = cap" and "drop_bit 8 cap AND 0x1F \<noteq> 0" and "drop_bit 32 cap \<noteq> 0"
  shows "\<exists>d c. hpet_init H hhdm hpet_name s = ret (s\<lparr>hpet := p, hpet_base := base, hpet_period := drop_bit 32 cap, hw := d, con := c\<rparr>) \<and>
    con_ok fb (s\<lparr>con := c\<rparr>)"
proof -
  let ?r = "ucast ((drop_bit 8 cap AND 0x1F) + 1) :: uint32_t"
  have "unat (drop_bit 8 cap AND 0x1F) \<noteq> 0" using assms(6) by (simp add: unat_eq_0)
  moreover have small: "unat (drop_bit 8 cap AND 0x1F) < 32"
    using word_and_le1 [of "drop_bit 8 cap" "0x1F"] by (simp add: word_le_nat_alt)
  ultimately have big: "\<not> ?r < 2"
    by (simp add: word_less_nat_alt unsigned_ucast_eq take_bit_nat_eq_self unat_word_ariths)
  let ?f1 = "KERN_INFO @ map ch (''Queried '' @ [CHR 0x22] @ ''HPET'' @ [CHR 0x22] @ '' in ACPI tables.. done'') @ [10]"
    and ?f2 = "KERN_INFO @ map ch ''HPET_PERIOD=%x, HPET_REG_COUNT=%x'' @ [10]"
  define d1 where "d1 =
    (let d = snd (hpet_read H base (hw s) HPET_REG_CAP); d = snd (hpet_read H base d HPET_REG_CAP);
         d = snd (hpet_read H base d HPET_REG_CAP); d = hpet_write H base d HPET_REG_COUNTER 0;
         (conf, d) = hpet_read H base d HPET_REG_CONF in hpet_write H base d HPET_REG_CONF (conf OR push_bit 0 1))"
  let ?s1 = "s\<lparr>hpet := p, hpet_base := base, hpet_period := drop_bit 32 cap, hw := d1\<rparr>"
  have run: "hpet_init H hhdm hpet_name s =
      bindR (Some (printk H ?s1 ?f1 [])) (\<lambda>s. Some (printk H s ?f2 [Num (hpet_period s), Num (ucast ?r)]))"
    using assms(2-7) big unfolding hpet_init_def d1_def by (simp add: case_prod_beta Let_def)
  have f: "fmt_ok ?f1 []" "fmt_ok ?f2 [Num x, Num y]" for x y
    unfolding info_ok by (simp_all add: ch_def printable_def)
  have "con_ok fb ?s1" using assms(1) by (simp add: con_ok_def)
  from printk_says [OF this f(1)] obtain s2 where 2: "printk H ?s1 ?f1 [] = Inr s2" "says fb ?s1 s2" by blast
  then have "con_ok fb s2" by (simp add: says_def)
  from printk_says [OF this f(2)] obtain s3 where
    3: "printk H s2 ?f2 [Num (hpet_period s2), Num (ucast ?r)] = Inr s3" "says fb s2 s3" by blast
  from says_trans [OF 2(2) 3(2)] obtain d c where c: "s3 = ?s1\<lparr>hw := d, con := c\<rparr>" "con_ok fb s3" by (auto simp: says_def)
  have "hpet_init H hhdm hpet_name s = ret (s\<lparr>hpet := p, hpet_base := base, hpet_period := drop_bit 32 cap, hw := d, con := c\<rparr>)"
    using run 2(1) 3(1) c(1) by simp
  moreover have "con_ok fb (s\<lparr>con := c\<rparr>)" using c by (simp add: con_ok_def)
  ultimately show ?thesis by blast
qed

subsection \<open>Trying it out\<close>

text \<open>A memory with an RSDP at \<open>0x100\<close>, an RSDT at \<open>0x200\<close>, a MADT at \<open>0x300\<close> with one I/O APIC and one override,
  and the string \<^verbatim>\<open>APIC\<close> at \<open>0x400\<close>.\<close>

definition demo_entries :: "uint8_t list list" where
  "demo_entries = [[1, 12, 0, 0, 0, 0, 192, 254, 0, 0, 0, 0], [2, 10, 0, 0, 2, 0, 0, 0, 0, 0]]"

definition demo_madt :: "uint8_t list" where
  "demo_madt = map ch ''APIC'' @ [66, 0, 0, 0, 1, 233, 0, 0, 0, 0, 0, 0, 0, 0, 0, 0, 0, 0, 0, 0, 0, 0, 0, 0, 0, 0, 0, 0, 0, 0, 0, 0] @
     [0, 0, 0xE0, 0xFE, 0, 0, 0, 0] @ concat demo_entries"

definition demo_tables :: memory where
  "demo_tables a =
     (if a = 0x111 then 2 else if a = 0x204 then 40 else if a = 0x225 then 3
      else if 0x300 \<le> a \<and> a < 0x342 then demo_madt ! unat (a - 0x300)
      else if 0x400 \<le> a \<and> a < 0x404 then map ch ''APIC'' ! unat (a - 0x400) else 0)"

lemma demo_words: "load32 demo_tables 0x110 = 0x200" "load32 demo_tables 0x204 = 40"
  "load32 demo_tables 0x224 = 0x300" "load32 demo_tables 0x304 = 66"
  by (simp_all add: load_small demo_tables_def demo_madt_def)

lemma demo_name: "cstring_at demo_tables 0x400 (map ch ''APIC'')" "bytes_at demo_tables 0x300 (length (map ch ''APIC'')) = map ch ''APIC''"
  by (simp_all add: cstring_at_def bytes_at_def upt_rec demo_tables_def demo_madt_def ch_def)

lemma demo_bytes: "bytes_at demo_tables 0x300 66 = demo_madt"
  by (simp add: bytes_at_def upt_rec demo_tables_def demo_madt_def demo_entries_def ch_def)

lemma demo_madt_holds: "madt_holds demo_tables 0x300 demo_entries" "sum_list (table_bytes demo_tables 0x300) = 0"
proof -
  have n: "length (concat demo_entries) = 22" by (simp add: demo_entries_def)
  have "bytes_at demo_tables 0x300 (44 + 22) = demo_madt" using demo_bytes by simp
  then have "bytes_at demo_tables (0x300 + of_nat 44) 22 = drop 44 demo_madt" by (rule bytes_at_drop)
  also have "drop 44 demo_madt = concat demo_entries" by (simp add: demo_madt_def)
  finally have "bytes_at demo_tables 0x32C 22 = concat demo_entries" by simp
  moreover have "\<forall>e \<in> set demo_entries. entry_ok e"
    by (simp add: demo_entries_def entry_ok_def APIC_TYPE_IO_APIC_def APIC_TYPE_INTERRUPT_OVERRIDE_def)
  ultimately show "madt_holds demo_tables 0x300 demo_entries"
    by (simp add: madt_holds_def entries_at_def n acpi_offsets demo_words)
  show "sum_list (table_bytes demo_tables 0x300) = 0"
    by (simp add: table_bytes_def acpi_offsets demo_words demo_bytes) (simp add: demo_madt_def demo_entries_def ch_def)
qed

lemma acpi_init_result:
  assumes "rsdp s \<noteq> 0" and "con_ok fb s" and "cstring_at (ram s) name q"
    and "r = s\<lparr>rsdt := ucast (load32 (ram s) (rsdp s + 16)) + hhdm,
      rsdt_entry_count := (ucast (load32 (ram s) (ucast (load32 (ram s) (rsdp s + 16)) + hhdm + 4)) - 36) div 4\<rparr>"
    and "found = find (\<lambda>a. bytes_at (ram s) a (length q) = q) (tables hhdm r)"
  shows "found = None \<Longrightarrow> acpi_init H hhdm name s = Some (Inl Assert_Failed)"
    and "found = Some a \<Longrightarrow> sum_list (table_bytes (ram s) a) \<noteq> 0 \<Longrightarrow> acpi_init H hhdm name s = Some (Inl Assert_Failed)"
    and "found = Some a \<Longrightarrow> sum_list (table_bytes (ram s) a) = 0 \<Longrightarrow> a \<noteq> 0 \<Longrightarrow> madt_holds (ram s) a es \<Longrightarrow>
      \<exists>s'. acpi_init H hhdm name s = ret s' \<and> madt s' = a \<and> ram s' = ram s \<and> con_ok fb s' \<and> heap s' = heap s \<and> vm s' = vm s \<and>
        g_lapic_mmio_base s' = ucast (load32 (ram s) (a + 36)) \<and> g_ioapic_mmio_base s' = io_apic_of es (g_ioapic_mmio_base s) \<and>
        (\<forall>irq. acpi_remap_irq s' irq = Some (remap_entry es irq))"
proof -
  have q: "cstring_at (ram r) name q" using assms(3,4) by simp
  have init: "acpi_init H hhdm name s = (case acpi_query hhdm r name of None \<Rightarrow> None
      | Some p \<Rightarrow> bindR (Some (assertE (p \<noteq> 0))) (\<lambda>_. parse_madt H (r\<lparr>madt := p\<rparr>)))"
    using assms(1,4) by (simp add: acpi_init_def acpi_offsets Let_def cong: option.case_cong)
  note query = acpi_query_result [OF q, of hhdm]
  have ram: "ram r = ram s" using assms(4) by simp
  show "acpi_init H hhdm name s = Some (Inl Assert_Failed)" if "found = None"
    unfolding init query using that assms(5) by (simp add: ram assertE_def)
  show "acpi_init H hhdm name s = Some (Inl Assert_Failed)" if "found = Some a" "sum_list (table_bytes (ram s) a) \<noteq> 0"
    unfolding init query using that assms(5) by (simp add: ram assertE_def)
  assume a: "found = Some a" "sum_list (table_bytes (ram s) a) = 0" "a \<noteq> 0" "madt_holds (ram s) a es"
  let ?s = "r\<lparr>madt := a, g_lapic_mmio_base := ucast (load32 (ram s) (a + 36))\<rparr>"
  have run: "acpi_init H hhdm name s = parse_madt_from H (a + sizeof_madt) (a + sizeof_madt + of_nat (length (concat es))) ?s"
    unfolding init query using a assms(5) by (simp add: ram assertE_def parse_madt_def madt_holds_def acpi_offsets add.assoc)
  have "entries_at (ram ?s) (a + sizeof_madt) es" "con_ok fb ?s" using a(4) assms(2,4) by (simp_all add: ram madt_holds_def con_ok_def)
  from parse_result [OF this, of H] obtain d c where
    p: "acpi_init H hhdm name s = ret (?s\<lparr>hw := d, con := c, g_ioapic_mmio_base := io_apic_of es (g_ioapic_mmio_base ?s)\<rparr>)"
      "con_ok fb (?s\<lparr>hw := d, con := c, g_ioapic_mmio_base := io_apic_of es (g_ioapic_mmio_base ?s)\<rparr>)" unfolding run by blast
  show "\<exists>s'. acpi_init H hhdm name s = ret s' \<and> madt s' = a \<and> ram s' = ram s \<and> con_ok fb s' \<and> heap s' = heap s \<and> vm s' = vm s \<and>
        g_lapic_mmio_base s' = ucast (load32 (ram s) (a + 36)) \<and> g_ioapic_mmio_base s' = io_apic_of es (g_ioapic_mmio_base s) \<and>
        (\<forall>irq. acpi_remap_irq s' irq = Some (remap_entry es irq))"
    using p acpi_remap_irq_result [of "?s\<lparr>hw := d, con := c, g_ioapic_mmio_base := io_apic_of es (g_ioapic_mmio_base ?s)\<rparr>" es] a(4) assms(4)
    by (intro exI [of _ "?s\<lparr>hw := d, con := c, g_ioapic_mmio_base := io_apic_of es (g_ioapic_mmio_base ?s)\<rparr>"]) (simp add: ram)
qed

subsection \<open>Properties\<close>

text \<open>C32: \<open>acpi_init\<close> halts on a failed assertion if the first table with the signature is missing or its bytes do
  not sum to 0. Otherwise that table is the MADT; if its body is a sequence of entries, \<open>acpi_init\<close> returns,
  with the address of the local APIC from the table and that of the I/O APIC from its last I/O APIC
  entry, and from then on \<open>acpi_remap_irq\<close> maps an interrupt to the target of the first override for
  it (truncated to 16 bits), or to itself if there is none.\<close>

theorem acpi_init_correct:
  assumes "rsdp s \<noteq> 0" and "con_ok fb s" and "cstring_at (ram s) name q"
    and "r = s\<lparr>rsdt := ucast (load32 (ram s) (rsdp s + 16)) + hhdm,
      rsdt_entry_count := (ucast (load32 (ram s) (ucast (load32 (ram s) (rsdp s + 16)) + hhdm + 4)) - 36) div 4\<rparr>"
  shows "case find (\<lambda>a. bytes_at (ram s) a (length q) = q) (tables hhdm r) of
      None \<Rightarrow> acpi_init H hhdm name s = Some (Inl Assert_Failed)
    | Some a \<Rightarrow>
        (sum_list (table_bytes (ram s) a) \<noteq> 0 \<longrightarrow> acpi_init H hhdm name s = Some (Inl Assert_Failed)) \<and>
        (sum_list (table_bytes (ram s) a) = 0 \<and> a \<noteq> 0 \<and> madt_holds (ram s) a es \<longrightarrow>
          (\<exists>s'. acpi_init H hhdm name s = ret s' \<and> madt s' = a \<and> ram s' = ram s \<and> con_ok fb s' \<and>
            g_lapic_mmio_base s' = ucast (load32 (ram s) (a + 36)) \<and> g_ioapic_mmio_base s' = io_apic_of es (g_ioapic_mmio_base s) \<and>
            (\<forall>irq. acpi_remap_irq s' irq = Some (remap_entry es irq))))"
proof (cases "find (\<lambda>a. bytes_at (ram s) a (length q) = q) (tables hhdm r)")
  case None
  show ?thesis using acpi_init_result(1) [OF assms refl None] None by simp
next
  case (Some a)
  show ?thesis using acpi_init_result(2) [OF assms refl Some] acpi_init_result(3) [OF assms refl Some, where es = es and H = H] Some by auto
qed

theorem acpi_init_correct_witness:
  "\<exists>s'. acpi_init demo_hw 0 0x400 ((demo_machine 0 demo_tables)\<lparr>rsdp := 0x100\<rparr>) = ret s' \<and> g_ioapic_mmio_base s' = 0xFEC00000 \<and>
     acpi_remap_irq s' 0 = Some 2"
proof -
  let ?s = "(demo_machine 0 demo_tables :: uint64_t kernel)\<lparr>rsdp := 0x100\<rparr>"
  let ?r = "?s\<lparr>rsdt := 0x200, rsdt_entry_count := 1\<rparr>"
  have s: "ram ?s = demo_tables" "rsdp ?s \<noteq> 0" "con_ok demo_screen ?s" "g_ioapic_mmio_base ?s = 0" "rsdp ?s = 0x100"
    by (simp_all add: demo_machine_def con_ok_def demo_screen_def)
  have "tables 0 ?r = [0x300]" using s(1) by (simp add: tables_def acpi_offsets demo_words)
  then have f: "find (\<lambda>a. bytes_at (ram ?s) a (length (map ch ''APIC'')) = map ch ''APIC'') (tables 0 ?r) = Some 0x300"
    using demo_name(2) s(1) by simp
  have e: "io_apic_of demo_entries 0 = 0xFEC00000" "remap_entry demo_entries 0 = 2"
    by (simp_all add: io_apic_of_def remap_entry_def demo_entries_def entry_word_def load_small APIC_TYPE_IO_APIC_def APIC_TYPE_INTERRUPT_OVERRIDE_def)
  show ?thesis
    using acpi_init_correct [of ?s demo_screen "0x400" "map ch ''APIC''" ?r 0 demo_hw demo_entries]
      s demo_name(1) demo_madt_holds f e by (auto simp: demo_words)
qed

text \<open>If the HPET table is found and the capability register reports at least two comparators and a period other
  than 0, \<open>hpet_init\<close> returns with that period, so that \<open>hpet_sleep\<close> never divides by 0, and with the
  address of the registers from the table; beyond these only the device and the console change.\<close>

lemma hpet_init_correct:
  assumes "con_ok fb s" and "cstring_at (ram s) name q"
    and "find (\<lambda>a. bytes_at (ram s) a (length q) = q) (tables hhdm s) = Some p" and "sum_list (table_bytes (ram s) p) = 0" and "p \<noteq> 0"
    and "base = load64 (ram s) (p + 44) + hhdm" and "\<And>d. fst (hpet_read H base d HPET_REG_CAP) = cap"
    and "drop_bit 8 cap AND 0x1F \<noteq> 0" and "drop_bit 32 cap \<noteq> 0"
  shows "\<exists>d c. hpet_init H hhdm name s = ret (s\<lparr>hpet := p, hpet_base := base, hpet_period := drop_bit 32 cap, hw := d, con := c\<rparr>)"
proof -
  have "acpi_query hhdm s name = Some p" using acpi_query_result [OF assms(2), of hhdm] assms(3,4) by simp
  moreover have "base = load64 (ram s) (p + hpet_base_base) + hhdm" using assms(6) by (simp add: hpet_base_base_def)
  ultimately show ?thesis using hpet_init_result [OF assms(1) _ assms(5) _ assms(7,8,9)] by blast
qed

end
