(* ===== verification/Interrupts.thy ===== *)
theory Interrupts
  imports Acpi
begin

text \<open>
  Interrupts: the interrupt descriptor table (\<^verbatim>\<open>sys/amd64/idt.c\<close>, \<^verbatim>\<open>sys/include/amd64/idt.h\<close>), the registration
  of handlers (\<^verbatim>\<open>sys/amd64/interrupts.c\<close>), the I/O APIC (\<^verbatim>\<open>sys/amd64/ioapic.c\<close>), the exceptions
  (\<^verbatim>\<open>sys/amd64/exceptions.c\<close>), \<open>lapic_init\<close> of \<^verbatim>\<open>sys/amd64/lapic.c\<close> and \<open>__amd64_for_each_core\<close> of
  \<^verbatim>\<open>sys/amd64/cpu.c\<close>. Handlers are given by the addresses of their code.
\<close>

subsection \<open>The interrupt descriptor table\<close>

definition IDT_TRAP_GATE_FLAGS :: uint8_t where "IDT_TRAP_GATE_FLAGS = 0x8F"
definition IDT_INT_GATE_FLAGS :: uint8_t where "IDT_INT_GATE_FLAGS = 0x8E"
definition IDT_INT_GATE_USER :: uint8_t where "IDT_INT_GATE_USER = 0xEE"

text \<open>A bit field keeps the low bits of what is assigned to it.\<close>

definition idt_set_desc :: "'d kernel \<Rightarrow> uint8_t \<Rightarrow> addr \<Rightarrow> uint8_t \<Rightarrow> 'd kernel" where
  "idt_set_desc s vec isr flags =
     (let desc = \<lparr>isr_low16 = ucast (isr AND 0xFFFF), gate_cs = 0x28, ist = 0, gate_zero = 0, gate_attr = ucast flags,
            gate_zero1 = 0, gate_dpl = 3, gate_p = 1, isr_mid16 = ucast (drop_bit 16 isr AND 0xFFFF),
            isr_high32 = ucast (drop_bit 32 isr), gate_reserved = 0\<rparr>
      in s\<lparr>idt := (idt s)[unat vec := desc]\<rparr>)"

definition load_idt :: "'d kernel \<Rightarrow> 'd kernel" where
  "load_idt s = s\<lparr>idt_loaded := True\<rparr>"

subsection \<open>The I/O APIC\<close>

definition IOREGSEL :: uint64_t where "IOREGSEL = 0x00"
definition IOWIN :: uint64_t where "IOWIN = 0x10"
definition IOAPICVER :: uint8_t where "IOAPICVER = 0x01"
definition IOREDTBL :: uint8_t where "IOREDTBL = 0x10"

definition ioapic_read_mmio :: "'d hardware \<Rightarrow> addr \<Rightarrow> 'd kernel \<Rightarrow> uint8_t \<Rightarrow> uint32_t \<times> 'd kernel" where
  "ioapic_read_mmio H hhdm s reg =
     (let base = g_ioapic_mmio_base s + hhdm;
          d = mmio_write32 H (hw s) base (ucast reg);
          (v, d) = mmio_read32 H d (base + IOWIN)
      in (v, s\<lparr>hw := d\<rparr>))"

definition ioapic_write_mmio :: "'d hardware \<Rightarrow> addr \<Rightarrow> 'd kernel \<Rightarrow> uint8_t \<Rightarrow> uint32_t \<Rightarrow> 'd kernel" where
  "ioapic_write_mmio H hhdm s reg v =
     (let base = g_ioapic_mmio_base s + hhdm;
          d = mmio_write32 H (hw s) base (ucast reg)
      in s\<lparr>hw := mmio_write32 H d (base + IOWIN) v\<rparr>)"

definition ioapic_set_entry :: "'d hardware \<Rightarrow> addr \<Rightarrow> 'd kernel \<Rightarrow> uint8_t \<Rightarrow> uint64_t \<Rightarrow> 'd kernel" where
  "ioapic_set_entry H hhdm s index data =
     (let s = ioapic_write_mmio H hhdm s (IOREDTBL + index * 2) (ucast data)
      in ioapic_write_mmio H hhdm s (IOREDTBL + index * 2 + 1) (ucast (drop_bit 32 data)))"

definition ioapic_init :: "'d hardware \<Rightarrow> addr \<Rightarrow> 'd kernel \<Rightarrow> 'd kernel" where
  "ioapic_init H hhdm s =
     (let (ver, s) = ioapic_read_mmio H hhdm s IOAPICVER;
          max_redirection_entries = (drop_bit 16 ver AND 0xFF) + 1
      in fold (\<lambda>i s. ioapic_set_entry H hhdm s (of_nat i) (push_bit 16 1)) [0..<unat max_redirection_entries] s)"

subsection \<open>Registration\<close>

definition register_interrupt :: "'d kernel \<Rightarrow> uint8_t \<Rightarrow> addr \<Rightarrow> 'd kernel" where
  "register_interrupt s vec isr = idt_set_desc s vec isr IDT_INT_GATE_FLAGS"

definition register_exception :: "'d kernel \<Rightarrow> uint8_t \<Rightarrow> addr \<Rightarrow> 'd kernel" where
  "register_exception s vec isr = idt_set_desc s vec isr IDT_TRAP_GATE_FLAGS"

text \<open>The sum is computed as an \<open>int\<close>; the vector is its low byte, the entry of the I/O APIC the whole sum.\<close>

definition register_irq :: "'d hardware \<Rightarrow> addr \<Rightarrow> 'd kernel \<Rightarrow> uint8_t \<Rightarrow> addr \<Rightarrow> 'd kernel option" where
  "register_irq H hhdm s irq isr =
     (let s = register_interrupt s (0x20 + irq) isr
      in case acpi_remap_irq s irq of
           None \<Rightarrow> None
         | Some gsi \<Rightarrow> Some (ioapic_set_entry H hhdm s (ucast gsi) (0x20 + ucast irq)))"

definition alloc_int_vector :: "'d kernel \<Rightarrow> uint8_t \<times> 'd kernel" where
  "alloc_int_vector s = (if vector s \<ge> 255 then (0, s) else (vector s, s\<lparr>vector := vector s + 1\<rparr>))"

definition lapic_init :: "'d hardware \<Rightarrow> addr \<Rightarrow> addr \<Rightarrow> 'd kernel \<Rightarrow> 'd kernel" where
  "lapic_init H hhdm lapic_timer_isr s =
     (let s = (if goto_vector s = 0 \<and> timer_vector s = 0
               then let (v, s) = alloc_int_vector s;
                        s = s\<lparr>goto_vector := v\<rparr>;
                        (v, s) = alloc_int_vector s;
                        s = s\<lparr>timer_vector := v\<rparr>
                    in register_interrupt s (timer_vector s) lapic_timer_isr
               else s);
          s = write_mmio H hhdm s LAPIC_LDR 0x01000000
      in write_mmio H hhdm s LAPIC_SVR (push_bit 8 1 OR 0xFF))"

definition LAPIC_ALL_INCLUDING_SELF :: uint8_t where "LAPIC_ALL_INCLUDING_SELF = 0x2"

definition amd64_for_each_core :: "'d kernel \<Rightarrow> addr \<Rightarrow> 'd kernel run" where
  "amd64_for_each_core s kroutine =
     bindR (lock_acquire s (goto_vec_lock s)) (\<lambda>s.
     let vec = lapic_get_goto_vector s;
         s = register_interrupt s vec kroutine;
         s = lapic_send_ipi s 0 vec LAPIC_ALL_INCLUDING_SELF
     in ret (lock_release s (goto_vec_lock s)))"

subsection \<open>Exceptions\<close>

text \<open>\<open>abort\<close> disables interrupts and halts: it does not return.\<close>

definition abort :: "'d kernel \<Rightarrow> 'd kernel run" where
  "abort s = None"

definition fatal :: "'d hardware \<Rightarrow> string \<Rightarrow> 'd kernel \<Rightarrow> 'd kernel run" where
  "fatal H msg s = bindR (Some (printk H s (KERN_PANIC @ map ch msg @ [10]) [])) abort"

definition divide_error :: "'d hardware \<Rightarrow> 'd kernel \<Rightarrow> 'd kernel run" where
  "divide_error H s = fatal H ''Divide error.'' s"

definition debug_exception :: "'d hardware \<Rightarrow> 'd kernel \<Rightarrow> 'd kernel run" where
  "debug_exception H s = Some (printk H s (KERN_DEBUG @ map ch ''DEBUG EXCEPTION'' @ [10]) [])"

definition breakpoint :: "'d hardware \<Rightarrow> 'd kernel \<Rightarrow> 'd kernel run" where
  "breakpoint H s = ret s"

definition overflow :: "'d hardware \<Rightarrow> 'd kernel \<Rightarrow> 'd kernel run" where
  "overflow H s = ret s"

definition bound_range_exceeded :: "'d hardware \<Rightarrow> 'd kernel \<Rightarrow> 'd kernel run" where
  "bound_range_exceeded H s = fatal H ''Bound range exceeded.'' s"

definition invalid_opcode :: "'d hardware \<Rightarrow> 'd kernel \<Rightarrow> 'd kernel run" where
  "invalid_opcode H s = fatal H ''Invalid opcode.'' s"

definition device_not_available :: "'d hardware \<Rightarrow> 'd kernel \<Rightarrow> 'd kernel run" where
  "device_not_available H s = fatal H ''Device not available (no math coprocessor).'' s"

definition double_fault :: "'d hardware \<Rightarrow> 'd kernel \<Rightarrow> 'd kernel run" where
  "double_fault H s = fatal H ''Double fault.'' s"

definition invalid_tss :: "'d hardware \<Rightarrow> 'd kernel \<Rightarrow> 'd kernel run" where
  "invalid_tss H s = fatal H ''Invalid TSS.'' s"

definition segment_not_present :: "'d hardware \<Rightarrow> 'd kernel \<Rightarrow> 'd kernel run" where
  "segment_not_present H s = fatal H ''Segment not present'' s"

definition stack_segment_fault :: "'d hardware \<Rightarrow> 'd kernel \<Rightarrow> 'd kernel run" where
  "stack_segment_fault H s = fatal H ''Stack segment fault.'' s"

definition general_protection_fault :: "'d hardware \<Rightarrow> 'd kernel \<Rightarrow> 'd kernel run" where
  "general_protection_fault H s = fatal H ''General protection fault.'' s"

definition page_fault :: "'d hardware \<Rightarrow> 'd kernel \<Rightarrow> 'd kernel run" where
  "page_fault H s = fatal H ''Page fault.'' s"

text \<open>The vectors in the order of their registration; \<open>isrs\<close> gives the address of the handler of each.\<close>

definition exception_vectors :: "uint8_t list" where
  "exception_vectors = [0x0, 0x1, 0x3, 0x4, 0x5, 0x6, 0x7, 0x8, 0xA, 0xB, 0xC, 0xD, 0xE]"

definition init_exceptions :: "(uint8_t \<Rightarrow> addr) \<Rightarrow> 'd kernel \<Rightarrow> 'd kernel" where
  "init_exceptions isrs s = fold (\<lambda>vec s. register_exception s vec (isrs vec)) exception_vectors s"

subsection \<open>Gates\<close>

text \<open>What the processor makes of a gate: the address of the handler.\<close>

definition gate_handler :: "idt_gate_descriptor \<Rightarrow> addr" where
  "gate_handler g = ucast (isr_low16 g) OR push_bit 16 (ucast (isr_mid16 g)) OR push_bit 32 (ucast (isr_high32 g))"

lemma handler_parts:
  fixes a :: addr
  shows "ucast (ucast (a AND 0xFFFF) :: uint16_t) OR push_bit 16 (ucast (ucast (drop_bit 16 a AND 0xFFFF) :: uint16_t)) OR
    push_bit 32 (ucast (ucast (drop_bit 32 a) :: uint32_t)) = a"
proof (rule bit_word_eqI)
  fix n assume n: "n < LENGTH(64)"
  have m: "(0xFFFF :: addr) = mask 16" by (simp add: mask_eq_exp_minus_1)
  show "bit (ucast (ucast (a AND 0xFFFF) :: uint16_t) OR push_bit 16 (ucast (ucast (drop_bit 16 a AND 0xFFFF) :: uint16_t)) OR
    push_bit 32 (ucast (ucast (drop_bit 32 a) :: uint32_t)) :: addr) n = bit a n"
    using n by (cases "n < 16"; cases "n < 32") (auto simp: m bit_simps)
qed

lemma idt_set_desc_result:
  assumes "length (idt s) = 256"
  shows "gate_handler (idt (idt_set_desc s vec isr flags) ! unat vec) = isr"
    and "gate_p (idt (idt_set_desc s vec isr flags) ! unat vec) = 1"
    and "gate_dpl (idt (idt_set_desc s vec isr flags) ! unat vec) = 3"
    and "gate_attr (idt (idt_set_desc s vec isr flags) ! unat vec) = ucast flags"
    and "v \<noteq> unat vec \<Longrightarrow> idt (idt_set_desc s vec isr flags) ! v = idt s ! v"
    and "length (idt (idt_set_desc s vec isr flags)) = 256"
proof -
  have "unat vec < 256" using unsigned_less [of vec, where ?'a = nat] by simp
  then show "gate_handler (idt (idt_set_desc s vec isr flags) ! unat vec) = isr"
    "gate_p (idt (idt_set_desc s vec isr flags) ! unat vec) = 1"
    "gate_dpl (idt (idt_set_desc s vec isr flags) ! unat vec) = 3"
    "gate_attr (idt (idt_set_desc s vec isr flags) ! unat vec) = ucast flags"
    using assms handler_parts [of isr] by (simp_all add: idt_set_desc_def gate_handler_def)
qed (use assms in \<open>simp_all add: idt_set_desc_def\<close>)

lemma set_desc_other [simp]:
  "ram (idt_set_desc s v a f) = ram s" "madt (idt_set_desc s v a f) = madt s" "hw (idt_set_desc s v a f) = hw s"
  "g_ioapic_mmio_base (idt_set_desc s v a f) = g_ioapic_mmio_base s"
  by (simp_all add: idt_set_desc_def)

lemma register_all:
  assumes "length (idt s) = 256" and "s' = fold (\<lambda>vec s. register_exception s vec (isrs vec)) vs s"
  shows "length (idt s') = 256 \<and>
    (\<forall>v. if v \<in> set vs then gate_handler (idt s' ! unat v) = isrs v \<and> gate_p (idt s' ! unat v) = 1 \<and>
           gate_attr (idt s' ! unat v) = 0xF \<and> gate_dpl (idt s' ! unat v) = 3
         else idt s' ! unat v = idt s ! unat v)"
  using assms
proof (induction vs arbitrary: s)
  case (Cons v vs)
  let ?s = "register_exception s v (isrs v)"
  note r = idt_set_desc_result [OF Cons.prems(1), where vec = v and isr = "isrs v" and flags = IDT_TRAP_GATE_FLAGS, folded register_exception_def]
  have "s' = fold (\<lambda>vec s. register_exception s vec (isrs vec)) vs ?s" using Cons.prems(2) by simp
  moreover have "idt ?s ! unat w = idt s ! unat w" if "w \<noteq> v" for w using r(5) [of "unat w"] that by (simp add: word_unat_eq_iff)
  ultimately show ?case using Cons.IH [OF r(6)] r(1-4) by (auto simp: IDT_TRAP_GATE_FLAGS_def split: if_splits)
qed simp

subsection \<open>The chip\<close>

text \<open>
  The documented behaviour of the I/O APIC: a write to the first address selects a register, an access to
  the window reads or writes the selected one. The redirection table starts at register \<open>0x10\<close>. \<open>sel\<close>
  is the selected register and \<open>reg\<close> the contents of the registers.
\<close>

definition ioapic_chip :: "'d hardware \<Rightarrow> addr \<Rightarrow> ('d \<Rightarrow> uint32_t) \<Rightarrow> ('d \<Rightarrow> uint32_t \<Rightarrow> uint32_t) \<Rightarrow> bool" where
  "ioapic_chip H base sel reg \<longleftrightarrow>
     (\<forall>d v. sel (mmio_write32 H d base v) = v \<and> reg (mmio_write32 H d base v) = reg d) \<and>
     (\<forall>d v. 0x10 \<le> sel d \<longrightarrow> sel (mmio_write32 H d (base + 0x10) v) = sel d \<and> reg (mmio_write32 H d (base + 0x10) v) = (reg d)(sel d := v)) \<and>
     (\<forall>d. fst (mmio_read32 H d (base + 0x10)) = reg d (sel d) \<and> reg (snd (mmio_read32 H d (base + 0x10))) = reg d)"

lemma chip_write:
  assumes "ioapic_chip H (g_ioapic_mmio_base s + hhdm) sel reg" and "0x10 \<le> r"
  shows "reg (hw (ioapic_write_mmio H hhdm s r v)) = (reg (hw s))(ucast r := v)"
proof -
  have "unat r < 256" using unsigned_less [of r, where ?'a = nat] by simp
  then have "0x10 \<le> (ucast r :: uint32_t)" using assms(2) by (simp add: word_le_nat_alt unsigned_ucast_eq take_bit_nat_eq_self)
  then show ?thesis using assms(1) by (simp add: ioapic_write_mmio_def ioapic_chip_def IOWIN_def Let_def)
qed

definition entry_reg :: "nat \<Rightarrow> uint32_t" where
  "entry_reg i = of_nat (0x10 + 2 * i)"

lemma entry_regs:
  assumes "i < 120"
  shows "ucast (IOREDTBL + of_nat i * 2) = entry_reg i" "ucast (IOREDTBL + of_nat i * 2 + 1) = entry_reg i + 1"
    and "0x10 \<le> IOREDTBL + of_nat i * 2" "0x10 \<le> IOREDTBL + of_nat i * 2 + 1"
proof -
  have n: "IOREDTBL + of_nat i * 2 = of_nat (0x10 + 2 * i)" "IOREDTBL + of_nat i * 2 + 1 = of_nat (0x11 + 2 * i)"
    by (simp_all add: IOREDTBL_def algebra_simps)
  have u: "unat (of_nat k :: uint8_t) = k" if "k < 256" for k using that by (simp add: unat_of_nat)
  have c: "ucast (of_nat k :: uint8_t) = (of_nat k :: uint32_t)" if "k < 256" for k
    using u [OF that] that by (simp add: word_unat_eq_iff unsigned_ucast_eq take_bit_nat_eq_self unat_of_nat)
  show "ucast (IOREDTBL + of_nat i * 2) = entry_reg i" unfolding n(1) entry_reg_def by (rule c) (use assms in simp)
  have "ucast (IOREDTBL + of_nat i * 2 + 1) = (of_nat (0x11 + 2 * i) :: uint32_t)" unfolding n(2) by (rule c) (use assms in simp)
  then show "ucast (IOREDTBL + of_nat i * 2 + 1) = entry_reg i + 1" by (simp add: entry_reg_def algebra_simps)
  show "0x10 \<le> IOREDTBL + of_nat i * 2" "0x10 \<le> IOREDTBL + of_nat i * 2 + 1"
    unfolding n(2) unfolding n(1) word_le_nat_alt using u [of "0x10 + 2 * i"] u [of "0x11 + 2 * i"] assms by simp_all
qed

lemma set_entry_result:
  assumes "ioapic_chip H (g_ioapic_mmio_base s + hhdm) sel reg" and "i < 120"
  shows "reg (hw (ioapic_set_entry H hhdm s (of_nat i) data)) =
      (reg (hw s))(entry_reg i := ucast data, entry_reg i + 1 := ucast (drop_bit 32 data))"
    and "\<exists>d. ioapic_set_entry H hhdm s (of_nat i) data = s\<lparr>hw := d\<rparr>"
proof -
  let ?s = "ioapic_write_mmio H hhdm s (IOREDTBL + of_nat i * 2) (ucast data)"
  have "g_ioapic_mmio_base ?s = g_ioapic_mmio_base s" by (simp add: ioapic_write_mmio_def Let_def)
  then have chip: "ioapic_chip H (g_ioapic_mmio_base ?s + hhdm) sel reg" using assms(1) by simp
  note e = entry_regs [OF assms(2)]
  show "reg (hw (ioapic_set_entry H hhdm s (of_nat i) data)) =
      (reg (hw s))(entry_reg i := ucast data, entry_reg i + 1 := ucast (drop_bit 32 data))"
    using chip_write [OF chip e(4)] chip_write [OF assms(1) e(3)] by (simp add: ioapic_set_entry_def e(1,2))
  show "\<exists>d. ioapic_set_entry H hhdm s (of_nat i) data = s\<lparr>hw := d\<rparr>"
    by (simp add: ioapic_set_entry_def ioapic_write_mmio_def Let_def) blast
qed

lemma unat_entry_reg: "k < 120 \<Longrightarrow> unat (entry_reg k) = 0x10 + 2 * k"
proof -
  have "unat (of_nat k :: uint32_t) = k" if "k < 512" for k using that by (simp add: unat_of_nat)
  from this [of "0x10 + 2 * k"] show "k < 120 \<Longrightarrow> unat (entry_reg k) = 0x10 + 2 * k" by (simp add: entry_reg_def)
qed

lemma entry_reg_inj: "i < 120 \<Longrightarrow> j < 120 \<Longrightarrow> entry_reg i = entry_reg j \<longleftrightarrow> i = j" "i < 120 \<Longrightarrow> j < 120 \<Longrightarrow> entry_reg i \<noteq> entry_reg j + 1"
proof -
  have u: "unat (of_nat k :: uint32_t) = k" if "k < 512" for k using that by (simp add: unat_of_nat)
  assume ij: "i < 120" "j < 120"
  note e = unat_entry_reg
  have "entry_reg j + 1 = of_nat (0x11 + 2 * j)" by (simp add: entry_reg_def)
  then have o: "unat (entry_reg j + 1) = 0x11 + 2 * j" using u [of "0x11 + 2 * j"] ij by simp
  show "entry_reg i = entry_reg j \<longleftrightarrow> i = j" using e ij by (simp add: word_unat_eq_iff)
  have "unat (entry_reg i) \<noteq> unat (entry_reg j + 1)" unfolding e [OF ij(1)] o by presburger
  then show "entry_reg i \<noteq> entry_reg j + 1" by auto
qed

lemma mask_all:
  assumes "ioapic_chip H (g_ioapic_mmio_base s + hhdm) sel reg" and "n \<le> 120"
    and "s' = fold (\<lambda>i s. ioapic_set_entry H hhdm s (of_nat i) (push_bit 16 1)) [0..<n] s"
  shows "(\<exists>d. s' = s\<lparr>hw := d\<rparr>) \<and> (\<forall>i < n. reg (hw s') (entry_reg i) = 0x10000 \<and> reg (hw s') (entry_reg i + 1) = 0) \<and>
    (\<forall>r. (\<forall>i < n. r \<noteq> entry_reg i \<and> r \<noteq> entry_reg i + 1) \<longrightarrow> reg (hw s') r = reg (hw s) r)"
  using assms(2,3)
proof (induction n arbitrary: s')
  case 0
  then show ?case by (auto intro: exI [of _ "hw s"])
next
  case (Suc n)
  define t where "t = fold (\<lambda>i s. ioapic_set_entry H hhdm s (of_nat i) (push_bit 16 1)) [0..<n] s"
  have s': "s' = ioapic_set_entry H hhdm t (of_nat n) (push_bit 16 1)" using Suc.prems(2) by (simp add: t_def)
  have ih: "\<exists>d. t = s\<lparr>hw := d\<rparr>" "\<forall>i < n. reg (hw t) (entry_reg i) = 0x10000 \<and> reg (hw t) (entry_reg i + 1) = 0"
    "\<And>r. (\<forall>i < n. r \<noteq> entry_reg i \<and> r \<noteq> entry_reg i + 1) \<Longrightarrow> reg (hw t) r = reg (hw s) r"
    using Suc.IH [OF _ t_def] Suc.prems(1) by auto
  have chip: "ioapic_chip H (g_ioapic_mmio_base t + hhdm) sel reg" using assms(1) ih(1) by auto
  have n: "n < 120" using Suc.prems(1) by simp
  have r: "reg (hw s') = (reg (hw t))(entry_reg n := 0x10000, entry_reg n + 1 := 0)"
    using set_entry_result(1) [OF chip n, of "push_bit 16 1"] by (simp add: s')
  obtain d where "s' = t\<lparr>hw := d\<rparr>" using set_entry_result(2) [OF chip n] s' by blast
  then have "\<exists>d. s' = s\<lparr>hw := d\<rparr>" using ih(1) by auto
  moreover have "reg (hw s') (entry_reg i) = 0x10000 \<and> reg (hw s') (entry_reg i + 1) = 0" if "i < Suc n" for i
  proof (cases "i = n")
    case True
    then show ?thesis using r entry_reg_inj(2) [OF n n] by simp
  next
    case False
    then have "i < n" "i < 120" using that n by simp_all
    moreover have "entry_reg i + 1 \<noteq> entry_reg n" using entry_reg_inj(2) [OF n \<open>i < 120\<close>] by (rule not_sym)
    ultimately show ?thesis using r ih(2) False entry_reg_inj [OF _ n] by simp
  qed
  moreover have "reg (hw s') r' = reg (hw s) r'" if "\<forall>i < Suc n. r' \<noteq> entry_reg i \<and> r' \<noteq> entry_reg i + 1" for r'
    using r ih(3) that by simp
  ultimately show ?case by blast
qed

subsection \<open>Vectors\<close>

lemma alloc_int_vector_result:
  "vector s < 255 \<Longrightarrow> alloc_int_vector s = (vector s, s\<lparr>vector := vector s + 1\<rparr>)"
  "255 \<le> vector s \<Longrightarrow> alloc_int_vector s = (0, s)"
  by (auto simp: alloc_int_vector_def leD)

subsection \<open>Trying it out\<close>

text \<open>An I/O APIC at address 0: the selected register and the contents of the registers.\<close>

definition demo_chip :: "(uint32_t \<times> (uint32_t \<Rightarrow> uint32_t)) hardware" where
  "demo_chip = \<lparr>mmio_read32 = \<lambda>d a. (snd d (fst d), d),
     mmio_write32 = \<lambda>d a v. if a = 0 then (v, snd d) else if a = 0x10 then (fst d, (snd d)(fst d := v)) else d,
     mmio_read64 = \<lambda>d a. (0, d), mmio_write64 = \<lambda>d a v. d,
     port_in8 = \<lambda>d a. (0, d), port_out8 = \<lambda>d a v. d, port_in16 = \<lambda>d a. (0, d), port_out16 = \<lambda>d a v. d,
     port_in32 = \<lambda>d a. (0, d), port_out32 = \<lambda>d a v. d\<rparr>"

lemma demo_chip_ok: "ioapic_chip demo_chip 0 fst snd"
  by (simp add: ioapic_chip_def demo_chip_def)

definition demo_idt :: "idt_gate_descriptor list" where
  "demo_idt = replicate 256 \<lparr>isr_low16 = 0, gate_cs = 0, ist = 0, gate_zero = 0, gate_attr = 0, gate_zero1 = 0, gate_dpl = 0,
     gate_p = 0, isr_mid16 = 0, isr_high32 = 0, gate_reserved = 0\<rparr>"

subsection \<open>Properties\<close>



text \<open>\<open>ioapic_init\<close> masks every entry of the redirection table, as many as the version register says, and changes no
  other register of the chip; nothing but the device changes.\<close>

lemma ioapic_init_correct:
  assumes "ioapic_chip H (g_ioapic_mmio_base s + hhdm) sel reg" and "n = unat ((drop_bit 16 (reg (hw s) 1) AND 0xFF) + 1)" and "n \<le> 120"
  shows "\<exists>d. ioapic_init H hhdm s = s\<lparr>hw := d\<rparr> \<and>
    (\<forall>i < n. reg d (entry_reg i) = 0x10000 \<and> reg d (entry_reg i + 1) = 0) \<and>
    (\<forall>r. (\<forall>i < n. r \<noteq> entry_reg i \<and> r \<noteq> entry_reg i + 1) \<longrightarrow> reg d r = reg (hw s) r)"
proof -
  obtain v t where t: "ioapic_read_mmio H hhdm s IOAPICVER = (v, t)" by fastforce
  have v: "v = reg (hw s) 1" "reg (hw t) = reg (hw s)" "t = s\<lparr>hw := hw t\<rparr>" "g_ioapic_mmio_base t = g_ioapic_mmio_base s"
    using t assms(1) by (auto simp: ioapic_read_mmio_def ioapic_chip_def IOWIN_def IOAPICVER_def Let_def case_prod_beta)
  have chip: "ioapic_chip H (g_ioapic_mmio_base t + hhdm) sel reg" using assms(1) v(4) by simp
  have run: "ioapic_init H hhdm s = fold (\<lambda>i s. ioapic_set_entry H hhdm s (of_nat i) (push_bit 16 1)) [0..<n] t"
    by (simp add: ioapic_init_def t v(1) assms(2))
  from mask_all [OF chip assms(3) run] obtain d where d: "ioapic_init H hhdm s = t\<lparr>hw := d\<rparr>" by blast
  have "t\<lparr>hw := d\<rparr> = s\<lparr>hw := d\<rparr>" by (subst v(3)) simp
  then show ?thesis using mask_all [OF chip assms(3) run] d v(2) by (intro exI [of _ d]) simp
qed

text \<open>\<open>init_exceptions\<close> installs a present trap gate that leads to its handler for each of the thirteen exceptions and
  leaves all other gates alone. Every gate has the privilege level 3, whatever the flags say.\<close>

lemma init_exceptions_correct:
  assumes "length (idt s) = 256"
  shows "\<exists>gs. init_exceptions isrs s = s\<lparr>idt := gs\<rparr> \<and> length gs = 256 \<and>
    (\<forall>v. if v \<in> {0x0, 0x1, 0x3, 0x4, 0x5, 0x6, 0x7, 0x8, 0xA, 0xB, 0xC, 0xD, 0xE}
         then gate_handler (gs ! unat v) = isrs v \<and> gate_p (gs ! unat v) = 1 \<and> gate_attr (gs ! unat v) = 0xF \<and> gate_dpl (gs ! unat v) = 3
         else gs ! unat v = idt s ! unat v)"
proof -
  have "\<exists>gs. fold (\<lambda>vec s. register_exception s vec (isrs vec)) vs s = s\<lparr>idt := gs\<rparr>" for vs
  proof (induction vs arbitrary: s)
    case Nil
    show ?case by (rule exI [of _ "idt s"]) simp
  next
    case (Cons v vs)
    have "\<exists>gs. register_exception s v (isrs v) = s\<lparr>idt := gs\<rparr>" by (simp add: register_exception_def idt_set_desc_def) blast
    then obtain gs where 1: "register_exception s v (isrs v) = s\<lparr>idt := gs\<rparr>" by blast
    obtain gs' where "fold (\<lambda>vec s. register_exception s vec (isrs vec)) vs (s\<lparr>idt := gs\<rparr>) = s\<lparr>idt := gs\<rparr>\<lparr>idt := gs'\<rparr>" using Cons by blast
    then show ?case using 1 by (intro exI [of _ gs']) simp
  qed
  then obtain gs where gs: "init_exceptions isrs s = s\<lparr>idt := gs\<rparr>" unfolding init_exceptions_def by blast
  then have "s\<lparr>idt := gs\<rparr> = fold (\<lambda>vec s. register_exception s vec (isrs vec)) exception_vectors s" by (simp add: init_exceptions_def)
  note all = register_all [OF assms this]
  have i: "idt (s\<lparr>idt := gs\<rparr>) = gs" by simp
  have vs: "set exception_vectors = {0x0, 0x1, 0x3, 0x4, 0x5, 0x6, 0x7, 0x8, 0xA, 0xB, 0xC, 0xD, 0xE}" by (simp add: exception_vectors_def)
  show ?thesis using gs all unfolding i vs by blast
qed

text \<open>The first core that runs \<open>lapic_init\<close> gets two different vectors above the exceptions and the lines of the I/O APIC, and
  the gate of the timer; the other cores find them set and change only the registers of their own
  local APIC.\<close>

lemma lapic_init_result:
  assumes "length (idt s) = 256" and "vector s = 0x81"
  shows "goto_vector s = 0 \<and> timer_vector s = 0 \<Longrightarrow>
      goto_vector (lapic_init H hhdm isr s) = 0x81 \<and> timer_vector (lapic_init H hhdm isr s) = 0x82 \<and>
      gate_handler (idt (lapic_init H hhdm isr s) ! 0x82) = isr"
    and "goto_vector s \<noteq> 0 \<Longrightarrow> \<exists>d. lapic_init H hhdm isr s = s\<lparr>hw := d\<rparr>"
proof -
  show "goto_vector (lapic_init H hhdm isr s) = 0x81 \<and> timer_vector (lapic_init H hhdm isr s) = 0x82 \<and>
      gate_handler (idt (lapic_init H hhdm isr s) ! 0x82) = isr" if "goto_vector s = 0 \<and> timer_vector s = 0"
    using that assms handler_parts [of isr]
    by (simp add: lapic_init_def alloc_int_vector_def write_mmio_def Let_def register_interrupt_def idt_set_desc_def gate_handler_def)
  show "\<exists>d. lapic_init H hhdm isr s = s\<lparr>hw := d\<rparr>" if "goto_vector s \<noteq> 0"
    using that by (simp add: lapic_init_def write_mmio_def Let_def) blast
qed

text \<open>A fatal exception never returns; the others return.\<close>

lemma exceptions_return:
  assumes "con_ok fb s"
  shows "h \<in> {divide_error, bound_range_exceeded, invalid_opcode, device_not_available, double_fault, invalid_tss,
      segment_not_present, stack_segment_fault, general_protection_fault, page_fault} \<Longrightarrow> h H s = None"
    and "h \<in> {debug_exception, breakpoint, overflow} \<Longrightarrow> \<exists>s'. h H s = ret s' \<and> ram s' = ram s"
proof -
  have "fatal H msg s = None" if "fmt_ok (map ch msg @ [10]) []" for msg
    using printk_says [OF assms, of "KERN_PANIC @ map ch msg @ [10]" "[]" H] that by (auto simp: info_ok fatal_def abort_def)
  then show "h H s = None" if "h \<in> {divide_error, bound_range_exceeded, invalid_opcode, device_not_available, double_fault, invalid_tss,
      segment_not_present, stack_segment_fault, general_protection_fault, page_fault}"
    using that by (auto simp: divide_error_def bound_range_exceeded_def invalid_opcode_def device_not_available_def double_fault_def
        invalid_tss_def segment_not_present_def stack_segment_fault_def general_protection_fault_def page_fault_def ch_def printable_def)
  have "fmt_ok (KERN_DEBUG @ map ch ''DEBUG EXCEPTION'' @ [10]) []" by (simp add: KERN_DEBUG_def ch_def printable_def)
  from printk_says [OF assms this] show "\<exists>s'. h H s = ret s' \<and> ram s' = ram s" if "h \<in> {debug_exception, breakpoint, overflow}"
    using that by (fastforce simp: debug_exception_def breakpoint_def overflow_def says_def)
qed

text \<open>\<open>__amd64_for_each_core\<close> installs the routine under the common vector; since \<open>lapic_send_ipi\<close> does nothing, no core is
  interrupted and the routine is not run.\<close>

lemma for_each_core_result:
  assumes "ram s (goto_vec_lock s) = 0"
  shows "amd64_for_each_core s f = ret (register_interrupt s (goto_vector s) f)"
    and "ram s (goto_vec_lock s) \<noteq> 0 \<Longrightarrow> amd64_for_each_core s f = None"
proof -
  have "(ram s)(goto_vec_lock s := 1, goto_vec_lock s := 0) = ram s" using assms by auto
  then show "amd64_for_each_core s f = ret (register_interrupt s (goto_vector s) f)"
    using assms by (simp add: amd64_for_each_core_def lapic_get_goto_vector_def lapic_send_ipi_def lock_release_def mutex_release_def
        atomic_clear_def register_interrupt_def idt_set_desc_def)
qed (simp add: amd64_for_each_core_def)

end
