(* ===== verification/Rtl8139.thy ===== *)
theory Rtl8139
  imports Pci Interrupts
begin

text \<open>
  The network card, \<^verbatim>\<open>sys/dev/net/rtl8139.c\<close>: its initialisation, the interrupt handler with the receive ring,
  and the transmission of a packet. The registers of the card are ports of the hardware parameter; the
  static variables of the file are the record \<open>rtl8139\<close> of the kernel's state.
\<close>

subsection \<open>Constants\<close>

definition VENDOR_ID :: uint32_t where "VENDOR_ID = 0x10EC"
definition DEVICE_ID :: uint32_t where "DEVICE_ID = 0x8139"

definition PACKET_SIZE_MAX :: uint64_t where "PACKET_SIZE_MAX = 0x600"
definition PACKET_SIZE_MIN :: uint64_t where "PACKET_SIZE_MIN = 0x16"
definition RX_BUFFER_SIZE :: uint64_t where "RX_BUFFER_SIZE = 32768"
definition TX_BUFFER_SIZE :: uint64_t where "TX_BUFFER_SIZE = PACKET_SIZE_MAX"
definition TX_BUFFER_COUNT :: nat where "TX_BUFFER_COUNT = 4"

definition REG_MAC :: uint32_t where "REG_MAC = 0x00"
definition REG_MAR0 :: uint32_t where "REG_MAR0 = 0x08"
definition REG_MAR4 :: uint32_t where "REG_MAR4 = 0x12"
definition REG_TXSTATUS0 :: uint64_t where "REG_TXSTATUS0 = 0x10"
definition REG_RXBUF :: uint32_t where "REG_RXBUF = 0x30"
definition REG_COMMAND :: uint32_t where "REG_COMMAND = 0x37"
definition REG_CAPR :: uint32_t where "REG_CAPR = 0x38"
definition REG_IMR :: uint32_t where "REG_IMR = 0x3C"
definition REG_ISR :: uint32_t where "REG_ISR = 0x3E"
definition REG_TXCFG :: uint32_t where "REG_TXCFG = 0x40"
definition REG_RXCFG :: uint32_t where "REG_RXCFG = 0x44"
definition REG_CFG9346 :: uint32_t where "REG_CFG9346 = 0x50"
definition REG_CONFIG1 :: uint32_t where "REG_CONFIG1 = 0x52"
definition REG_MSR :: uint32_t where "REG_MSR = 0x58"
definition REG_BMCR :: uint32_t where "REG_BMCR = 0x62"

definition CMD_TX_ENABLE :: uint8_t where "CMD_TX_ENABLE = 0x04"
definition CMD_RX_ENABLE :: uint8_t where "CMD_RX_ENABLE = 0x08"
definition CMD_RESET :: uint8_t where "CMD_RESET = 0x10"

definition CFG9346_NONE :: uint8_t where "CFG9346_NONE = 0x00"
definition CFG9346_EEM0 :: uint8_t where "CFG9346_EEM0 = 0x40"
definition CFG9346_EEM1 :: uint8_t where "CFG9346_EEM1 = 0x80"

definition BMCR_SPEED :: uint32_t where "BMCR_SPEED = 0x2000"
definition BMCR_AUTO_NEGOTIATE :: uint32_t where "BMCR_AUTO_NEGOTIATE = 0x1000"
definition BMCR_DUPLEX :: uint32_t where "BMCR_DUPLEX = 0x0100"

definition MSR_LINKB :: uint8_t where "MSR_LINKB = 0x02"
definition MSR_SPEED_10 :: uint16_t where "MSR_SPEED_10 = 0x08"
definition MSR_RX_FLOW_CONTROL_ENABLE :: uint8_t where "MSR_RX_FLOW_CONTROL_ENABLE = 0x40"

definition RXCFG_APM :: uint32_t where "RXCFG_APM = 0x02"
definition RXCFG_AM :: uint32_t where "RXCFG_AM = 0x04"
definition RXCFG_AB :: uint32_t where "RXCFG_AB = 0x08"
definition RXCFG_WRAP_INHIBIT :: uint32_t where "RXCFG_WRAP_INHIBIT = 0x80"
definition RXCFG_MAX_DMA_UNLIMITED :: uint32_t where "RXCFG_MAX_DMA_UNLIMITED = 0x0700"
definition RXCFG_RBLN_32K :: uint32_t where "RXCFG_RBLN_32K = 0x1000"
definition RXCFG_FTH_NONE :: uint32_t where "RXCFG_FTH_NONE = 0xE000"

definition TXCFG_TXRR_ZERO :: uint32_t where "TXCFG_TXRR_ZERO = 0x00"
definition TXCFG_MAX_DMA_1K :: uint32_t where "TXCFG_MAX_DMA_1K = 0x600"
definition TXCFG_IFG11 :: uint32_t where "TXCFG_IFG11 = 0x3000000"

definition INT_RXOK :: uint16_t where "INT_RXOK = 0x01"
definition INT_RXERR :: uint16_t where "INT_RXERR = 0x02"
definition INT_TXOK :: uint16_t where "INT_TXOK = 0x04"
definition INT_TXERR :: uint16_t where "INT_TXERR = 0x08"
definition INT_RX_BUFFER_OVERFLOW :: uint16_t where "INT_RX_BUFFER_OVERFLOW = 0x10"
definition INT_LINK_CHANGE :: uint16_t where "INT_LINK_CHANGE = 0x20"
definition INT_RX_FIFO_OVERFLOW :: uint16_t where "INT_RX_FIFO_OVERFLOW = 0x40"
definition INT_LENGTH_CHANGE :: uint16_t where "INT_LENGTH_CHANGE = 0x2000"
definition INT_SYSTEM_ERROR :: uint16_t where "INT_SYSTEM_ERROR = 0x8000"

text \<open>The interrupts that \<open>startup_nic\<close> enables and the handler looks at.\<close>

definition INT_ALL :: uint16_t where
  "INT_ALL = INT_RXOK OR INT_RXERR OR INT_TXOK OR INT_TXERR OR INT_RX_BUFFER_OVERFLOW OR INT_LINK_CHANGE OR INT_RX_FIFO_OVERFLOW OR INT_LENGTH_CHANGE OR INT_SYSTEM_ERROR"

lemmas int_consts = INT_RXERR_def INT_TXOK_def INT_TXERR_def INT_RX_BUFFER_OVERFLOW_def INT_LINK_CHANGE_def INT_RX_FIFO_OVERFLOW_def
  INT_LENGTH_CHANGE_def INT_SYSTEM_ERROR_def

definition TX_STATUS_OWN :: uint32_t where "TX_STATUS_OWN = 0x2000"

definition RX_INVALID_SYMBOL_ERROR :: uint16_t where "RX_INVALID_SYMBOL_ERROR = 0x0020"
definition RX_CRC_ERROR :: uint16_t where "RX_CRC_ERROR = 0x0004"
definition RX_FRAME_ALIGNMENT_ERROR :: uint16_t where "RX_FRAME_ALIGNMENT_ERROR = 0x0002"
definition RX_OK :: uint16_t where "RX_OK = 0x0001"

subsection \<open>Registers\<close>

text \<open>The sum has 32 bits; the port instructions take its low 16.\<close>

definition PORT :: "'d kernel \<Rightarrow> uint32_t \<Rightarrow> uint32_t" where
  "PORT s reg = iobase (nic s) + reg"

definition nic_outb :: "'d hardware \<Rightarrow> 'd kernel \<Rightarrow> uint32_t \<Rightarrow> uint8_t \<Rightarrow> 'd kernel" where
  "nic_outb H s reg v = s\<lparr>hw := amd64_outb H (hw s) (ucast (PORT s reg)) v\<rparr>"

definition nic_outw :: "'d hardware \<Rightarrow> 'd kernel \<Rightarrow> uint32_t \<Rightarrow> uint16_t \<Rightarrow> 'd kernel" where
  "nic_outw H s reg v = s\<lparr>hw := amd64_outw H (hw s) (ucast (PORT s reg)) v\<rparr>"

definition nic_outl :: "'d hardware \<Rightarrow> 'd kernel \<Rightarrow> uint32_t \<Rightarrow> uint32_t \<Rightarrow> 'd kernel" where
  "nic_outl H s reg v = s\<lparr>hw := amd64_outl H (hw s) (ucast (PORT s reg)) v\<rparr>"

definition update_mac_addr :: "'d hardware \<Rightarrow> 'd kernel \<Rightarrow> 'd kernel" where
  "update_mac_addr H s =
     fold (\<lambda>i s. let (v, d) = amd64_inb H (hw s) (ucast (PORT s REG_MAC + of_nat i))
                 in s\<lparr>hw := d, nic := nic s\<lparr>mac_addr := (mac_addr (nic s))[i := v]\<rparr>\<rparr>) [0..<6] s"

definition link_up :: "'d hardware \<Rightarrow> 'd kernel \<Rightarrow> bool \<times> 'd kernel" where
  "link_up H s = (let (v, d) = amd64_inb H (hw s) (ucast (iobase (nic s) + REG_MSR)) in (v AND MSR_LINKB = 0, s\<lparr>hw := d\<rparr>))"

definition get_speed :: "'d hardware \<Rightarrow> 'd kernel \<Rightarrow> uint8_t \<times> 'd kernel" where
  "get_speed H s =
     (let (msr, d) = amd64_inw H (hw s) (ucast (iobase (nic s) + REG_MSR))
      in (if msr AND MSR_SPEED_10 \<noteq> 0 then 10 else 100, s\<lparr>hw := d\<rparr>))"

subsection \<open>Initialisation\<close>

partial_function (option) reset_wait :: "'d hardware \<Rightarrow> uint16_t \<Rightarrow> 'd \<Rightarrow> 'd option" where
  "reset_wait H port d =
     (let (v, d) = amd64_inb H d port in if v AND CMD_RESET \<noteq> 0 then reset_wait H port d else Some d)"

definition info :: "'d hardware \<Rightarrow> 'd kernel \<Rightarrow> string \<Rightarrow> va list \<Rightarrow> 'd kernel run" where
  "info H s msg args = Some (printk H s (KERN_INFO @ map ch msg @ [10]) args)"

text \<open>The loop that allocates the transmit buffers. An address is stored in a byte.\<close>

definition alloc_txbuf :: "shift_ub \<Rightarrow> addr \<Rightarrow> nat \<Rightarrow> 'd kernel \<Rightarrow> 'd kernel res" where
  "alloc_txbuf ub hhdm i s =
     bindE (heap_call (\<lambda>h. kmalloc h TX_BUFFER_SIZE) s) (\<lambda>(p, s).
     bindE (vmm_call (\<lambda>v. vmm_get_phys ub hhdm v p) s) (\<lambda>(phys, s).
     Inr (s\<lparr>nic := nic s\<lparr>txbufs := (txbufs (nic s))[i := ucast phys]\<rparr>\<rparr>)))"

definition startup_nic :: "'d hardware \<Rightarrow> shift_ub \<Rightarrow> addr \<Rightarrow> 'd kernel \<Rightarrow> 'd kernel run" where
  "startup_nic H ub hhdm s =
     (let s = nic_outb H s REG_COMMAND CMD_RESET
      in case reset_wait H (ucast (PORT s REG_COMMAND)) (hw s) of
           None \<Rightarrow> None
         | Some d \<Rightarrow>
     let s = s\<lparr>hw := d\<rparr>;
         s = nic_outb H s REG_CFG9346 (CFG9346_EEM0 OR CFG9346_EEM1);
         s = nic_outl H s REG_MAR0 0xFFFFFFFF;
         s = nic_outl H s REG_MAR4 0xFFFFFFFF
     in bindR (info H s ''RTL8139: Multicast enabled.'' []) (\<lambda>s.
     let s = nic_outb H s REG_COMMAND (CMD_RX_ENABLE OR CMD_TX_ENABLE);
         s = nic_outb H s REG_CONFIG1 0
     in bindR (Some (heap_call (\<lambda>h. kmalloc h RX_BUFFER_SIZE) s)) (\<lambda>(p, s).
     let s = s\<lparr>nic := nic s\<lparr>rxbuf := p\<rparr>\<rparr>
     in bindR (Some (vmm_call (\<lambda>v. vmm_get_phys ub hhdm v (rxbuf (nic s))) s)) (\<lambda>(phys, s).
     let s = nic_outl H s REG_RXBUF (ucast phys);
         s = nic_outl H s REG_BMCR (BMCR_SPEED OR BMCR_AUTO_NEGOTIATE OR BMCR_DUPLEX)
     in bindR (info H s ''RTL8139: Using 100mbit full duplex auto negoiation mode'' []) (\<lambda>s.
     let s = nic_outb H s REG_MSR MSR_RX_FLOW_CONTROL_ENABLE;
         s = nic_outl H s REG_RXCFG (RXCFG_APM OR RXCFG_AM OR RXCFG_AB OR RXCFG_WRAP_INHIBIT OR RXCFG_MAX_DMA_UNLIMITED OR
           RXCFG_RBLN_32K OR RXCFG_FTH_NONE)
     in bindR (info H s ''RTL8139: Accepted packets: Mac match, Multicast, Broadcasted'' []) (\<lambda>s.
     bindR (info H s ''RTL8139: Use max DMA transfer size and no FIFO threshold'' []) (\<lambda>s.
     let s = nic_outl H s REG_TXCFG (TXCFG_TXRR_ZERO OR TXCFG_MAX_DMA_1K OR TXCFG_IFG11)
     in bindR (Some (loopE (alloc_txbuf ub hhdm) [0..<TX_BUFFER_COUNT] s)) (\<lambda>s.
     let s = nic_outb H s REG_CFG9346 CFG9346_NONE
     in ret (nic_outw H s REG_IMR INT_ALL)))))))))"

subsection \<open>Receiving\<close>

text \<open>The offset is never negative, so its remainder is that of an unsigned number.\<close>

definition recieve :: "'d hardware \<Rightarrow> 'd kernel \<Rightarrow> 'd kernel res" where
  "recieve H s =
     (if rxbuf (nic s) = 0 then Inl Null_Deref
      else
     let packet = rxbuf (nic s) + rxbuf_offset (nic s);
         status = load16 (ram s) packet;
         len = load16 (ram s) (packet + 2);
         is_error = (status AND RX_OK = 0 \<or>
           status AND (RX_INVALID_SYMBOL_ERROR OR RX_CRC_ERROR OR RX_FRAME_ALIGNMENT_ERROR) \<noteq> 0)
     in if is_error \<or> ucast len \<ge> PACKET_SIZE_MAX \<or> ucast len < PACKET_SIZE_MIN then Inr s
        else if packet_buf (nic s) = 0 then Inl Null_Deref
        else let s = s\<lparr>ram := memcpy (ram s) (packet_buf (nic s)) (packet + 4) (ucast len - 4)\<rparr>;
                 s = s\<lparr>nic := nic s\<lparr>rxbuf_offset := ((rxbuf_offset (nic s) + ucast len + 4 + 3) AND NOT 3) mod RX_BUFFER_SIZE\<rparr>\<rparr>;
                 s = nic_outw H s REG_CAPR (ucast (rxbuf_offset (nic s) - 0x10))
             in Inr (s\<lparr>nic := nic s\<lparr>rxbuf_offset := rxbuf_offset (nic s) mod RX_BUFFER_SIZE\<rparr>\<rparr>))"

partial_function (option) isr_loop :: "'d hardware \<Rightarrow> 'd kernel \<Rightarrow> 'd kernel run" where
  "isr_loop H s =
     (let (status, d) = amd64_inw H (hw s) (ucast (PORT s REG_ISR));
          s = nic_outw H (s\<lparr>hw := d\<rparr>) REG_ISR status;
          stat = ucast (status AND INT_ALL) :: uint8_t
      in if stat = 0 then ret s
         else if status AND INT_RXOK \<noteq> 0
         then (case recieve H s of Inl e \<Rightarrow> Some (Inl e) | Inr s \<Rightarrow> isr_loop H s)
         else isr_loop H s)"

definition nic_isr :: "'d hardware \<Rightarrow> addr \<Rightarrow> 'd kernel \<Rightarrow> 'd kernel run" where
  "nic_isr H hhdm s = bindR (isr_loop H s) (\<lambda>s. ret (lapic_send_eoi H hhdm (nic_outw H s REG_ISR 0x5)))"

subsection \<open>Sending\<close>

text \<open>\<open>None\<close> is the value -1 of \<open>hwbuf\<close>.\<close>

fun find_txbuf :: "'d hardware \<Rightarrow> nat list \<Rightarrow> 'd kernel \<Rightarrow> size_t option \<times> 'd kernel" where
  "find_txbuf H [] s = (None, s)"
| "find_txbuf H (i # is) s =
     (let canidate = (next_txbuf (nic s) + of_nat i) mod 4;
          (status, d) = amd64_inl H (hw s) (ucast (ucast (iobase (nic s)) + (REG_TXSTATUS0 + canidate * 4)));
          s = s\<lparr>hw := d\<rparr>
      in if status AND TX_STATUS_OWN \<noteq> 0 then (Some canidate, s) else find_txbuf H is s)"

definition rtl8139_send_packet :: "'d hardware \<Rightarrow> addr \<Rightarrow> 'd kernel \<Rightarrow> addr \<Rightarrow> size_t \<Rightarrow> 'd kernel res" where
  "rtl8139_send_packet H hhdm s data sz =
     (if iobase (nic s) = 0 then Inr s
      else let (hwbuf, s) = find_txbuf H [0..<TX_BUFFER_COUNT] s;
               s = s\<lparr>nic := nic s\<lparr>next_txbuf := (case hwbuf of None \<Rightarrow> 0 | Some b \<Rightarrow> (b + 1) mod 4)\<rparr>\<rparr>;
               sz = (if sz < 60 then 60 else sz)
           in bindE (array_get (txbufs (nic s)) (case hwbuf of None \<Rightarrow> -1 | Some b \<Rightarrow> uint b)) (\<lambda>phys.
              let virt_addr = ucast phys + hhdm;
                  m = memzero (ram s) (ALIGN_DOWN virt_addr 0x1000) (TX_BUFFER_SIZE - sz);
                  m = memcpy m (ALIGN_DOWN virt_addr 0x1000) data sz;
                  s = s\<lparr>ram := m\<rparr>
              in Inr (s\<lparr>hw := amd64_outl H (hw s) (ucast (ucast (iobase (nic s)) + (REG_TXSTATUS0 + the hwbuf * 4))) (ucast sz)\<rparr>)))"

definition rtl8139_init :: "'d hardware \<Rightarrow> shift_ub \<Rightarrow> addr \<Rightarrow> addr \<Rightarrow> 'd kernel \<Rightarrow> 'd kernel run" where
  "rtl8139_init H ub hhdm isr s =
     bindR (Some (pci_find H VENDOR_ID DEVICE_ID s)) (\<lambda>(dev, s).
     let s = s\<lparr>nic := nic s\<lparr>nic_dev := dev\<rparr>\<rparr>
     in if dev = 0 then ret s
        else
     bindR (info H s ''RTL8139: Found RTL8139 card on PCI bus %d, slot %d'' [Num (ucast (ram s (dev + pd_bus))), Num (ucast (ram s (dev + pd_slot)))]) (\<lambda>s.
     bindR (Some (pci_enable_bus_mastering H s dev)) (\<lambda>s.
     let s = s\<lparr>nic := nic s\<lparr>iobase := ucast (load64 (ram s) (dev + pd_bars) AND 0xFFFFFFFC)\<rparr>\<rparr>
     in bindR (startup_nic H ub hhdm s) (\<lambda>s.
     let (up, s) = link_up H s
     in bindR (if up then let (speed, s) = get_speed H s in info H s ''RTL8139: Link up @%dmbps!'' [Num (ucast speed)]
               else info H s ''RTL8139: Link down..'' []) (\<lambda>s.
     bindR (Some (heap_call (\<lambda>h. kmalloc h PACKET_SIZE_MAX) s)) (\<lambda>(p, s).
     let s = s\<lparr>nic := nic s\<lparr>packet_buf := p\<rparr>\<rparr>;
         s = update_mac_addr H s
     in bindR (info H s ''RTL8139: MAC address: %X:%X:%X:%X:%X:%X'' (map (\<lambda>b. Num (ucast b)) (mac_addr (nic s)))) (\<lambda>s.
     case register_irq H hhdm s (ram s (dev + pd_irq_line)) isr of None \<Rightarrow> None | Some s \<Rightarrow> ret s)))))))"

subsection \<open>The receive ring\<close>

text \<open>
  A packet in the ring: the status word, the length of the frame with its checksum, the payload. The
  card puts the next packet behind it, at a multiple of 4, and starts again at the front when a packet
  has reached the end of the ring.
\<close>

definition good_status :: "uint16_t \<Rightarrow> bool" where
  "good_status w \<longleftrightarrow> bit w 0 \<and> \<not> bit w 1 \<and> \<not> bit w 2 \<and> \<not> bit w 5"

definition next_offset :: "nat \<Rightarrow> nat \<Rightarrow> nat" where
  "next_offset off len = (off + 4 * ((len + 7) div 4)) mod 32768"

definition packet_at :: "memory \<Rightarrow> addr \<Rightarrow> nat \<Rightarrow> uint8_t list \<Rightarrow> bool" where
  "packet_at m ring off payload \<longleftrightarrow>
     (let a = ring + of_nat off
      in good_status (load16 m a) \<and> load16 m (a + 2) = of_nat (length payload + 4) \<and>
         0x16 \<le> length payload + 4 \<and> length payload + 4 < 0x600 \<and> bytes_at m (a + 4) (length payload) = payload)"

fun packets_at :: "memory \<Rightarrow> addr \<Rightarrow> nat \<Rightarrow> uint8_t list list \<Rightarrow> bool" where
  "packets_at m ring off [] \<longleftrightarrow> True"
| "packets_at m ring off (p # ps) \<longleftrightarrow> packet_at m ring off p \<and> packets_at m ring (next_offset off (length p + 4)) ps"

lemma next_offset_less: "next_offset off len < 32768"
  by (simp add: next_offset_def)

lemma next_offset_dvd: "4 dvd off \<Longrightarrow> 4 dvd next_offset off len"
  unfolding next_offset_def by (intro dvd_mod dvd_add) simp_all

lemma unat_ucast16: "unat (ucast w :: uint64_t) = unat w" for w :: uint16_t
  using unsigned_less [of w, where ?'a = nat] by (simp add: unsigned_ucast_eq take_bit_nat_eq_self)

lemma mod_twice: "x mod c mod c = x mod c" for x c :: uint64_t
  by (simp add: word_unat_eq_iff unat_mod)

lemma offset_step:
  fixes off :: uint64_t and len :: uint16_t
  assumes "unat off < 32768" and "4 dvd unat off"
  shows "unat (((off + ucast len + 4 + 3) AND NOT 3) mod 32768) = next_offset (unat off) (unat len)"
proof -
  have l: "unat (ucast len :: uint64_t) = unat len" "unat len < 65536"
    using unsigned_less [of len, where ?'a = nat] unat_ucast16 by simp_all
  have o: "off = of_nat (unat off)" and c: "ucast len = (of_nat (unat len) :: uint64_t)" by (simp_all add: l)
  have "off + ucast len + 4 + 3 = of_nat (unat off + unat len + 7)" using o c by (simp add: l(1))
  then have "unat (off + ucast len + 4 + 3) = unat (of_nat (unat off + unat len + 7) :: uint64_t)" by (rule arg_cong)
  also have "\<dots> = unat off + unat len + 7" using assms l(2) by (intro unat_of_nat_64) simp
  finally have s: "unat (off + ucast len + 4 + 3) = unat off + unat len + 7" .
  have m: "NOT 3 = NOT (mask 2 :: uint64_t)" by (simp add: mask_eq_exp_minus_1)
  have "unat ((off + ucast len + 4 + 3) AND NOT 3) = 4 * ((unat off + unat len + 7) div 4)"
    unfolding m unat_and_not_mask s by simp
  also have "4 * ((unat off + unat len + 7) div 4) = unat off + 4 * ((unat len + 7) div 4)" using assms(2) by (auto simp: add.assoc)
  finally show ?thesis by (simp add: unat_mod next_offset_def)
qed

lemma status_test:
  "(w AND RX_OK = 0 \<or> w AND (RX_INVALID_SYMBOL_ERROR OR RX_CRC_ERROR OR RX_FRAME_ALIGNMENT_ERROR) \<noteq> 0) \<longleftrightarrow> \<not> good_status w"
proof -
  have c: "RX_OK = 2 ^ 0" "RX_INVALID_SYMBOL_ERROR = 2 ^ 5" "RX_CRC_ERROR = 2 ^ 2" "RX_FRAME_ALIGNMENT_ERROR = 2 ^ 1"
    by (simp_all add: RX_OK_def RX_INVALID_SYMBOL_ERROR_def RX_CRC_ERROR_def RX_FRAME_ALIGNMENT_ERROR_def)
  show ?thesis unfolding c bit.conj_disj_distrib or_eq_0_iff and_exp_eq_0_iff_not_bit good_status_def by blast
qed

lemma packet_header:
  assumes "packet_at m ring off p" and "a = ring + of_nat off"
  shows "good_status (load16 m a)" "unat (load16 m (a + 2)) = length p + 4" "0x16 \<le> length p + 4" "length p + 4 < 0x600"
    "bytes_at m (a + 4) (length p) = p"
proof -
  show len: "length p + 4 < 0x600" using assms(1) by (simp add: packet_at_def Let_def)
  have "unat (of_nat k :: uint16_t) = k" if "k < 65536" for k using that by (simp add: unat_of_nat)
  from this [of "length p + 4"] show "unat (load16 m (a + 2)) = length p + 4"
    using assms len by (simp add: packet_at_def Let_def del: of_nat_add)
qed (use assms in \<open>simp_all add: packet_at_def Let_def\<close>)

lemma recieve_bad:
  assumes "rxbuf (nic s) \<noteq> 0" and "packet = rxbuf (nic s) + rxbuf_offset (nic s)"
    and "\<not> good_status (load16 (ram s) packet) \<or> load16 (ram s) (packet + 2) < 0x16 \<or> 0x600 \<le> load16 (ram s) (packet + 2)"
  shows "recieve H s = Inr s"
proof -
  let ?l = "load16 (ram s) (packet + 2)"
  have "ucast ?l < PACKET_SIZE_MIN \<longleftrightarrow> ?l < 0x16" "PACKET_SIZE_MAX \<le> ucast ?l \<longleftrightarrow> 0x600 \<le> ?l"
    by (simp_all add: word_less_nat_alt word_le_nat_alt PACKET_SIZE_MIN_def PACKET_SIZE_MAX_def unat_ucast16)
  then show ?thesis using assms(1,3) unfolding recieve_def Let_def status_test assms(2) by auto
qed


lemma recieve_good:
  assumes ring: "rxbuf (nic s) \<noteq> 0" "packet_buf (nic s) \<noteq> 0" and off: "unat (rxbuf_offset (nic s)) < 32768" "4 dvd unat (rxbuf_offset (nic s))"
    and p: "packet_at (ram s) (rxbuf (nic s)) (unat (rxbuf_offset (nic s))) p"
  shows "\<exists>n. unat n = next_offset (unat (rxbuf_offset (nic s))) (length p + 4) \<and>
    recieve H s = Inr (nic_outw H (s\<lparr>ram := memcpy (ram s) (packet_buf (nic s)) (rxbuf (nic s) + rxbuf_offset (nic s) + 4) (of_nat (length p)),
      nic := nic s\<lparr>rxbuf_offset := n\<rparr>\<rparr>) REG_CAPR (ucast (n - 0x10)))"
proof -
  let ?a = "rxbuf (nic s) + rxbuf_offset (nic s)" and ?o = "rxbuf_offset (nic s)"
  let ?n = "((?o + ucast (load16 (ram s) (?a + 2)) + 4 + 3) AND NOT 3) mod 32768"
  have a: "good_status (load16 (ram s) ?a)" "load16 (ram s) (?a + 2) = of_nat (length p + 4)" "0x16 \<le> length p + 4" "length p + 4 < 0x600"
    using p by (simp_all add: packet_at_def Let_def)
  have l: "unat (of_nat (length p + 4) :: uint16_t) = length p + 4" using packet_header(2) [OF p, of ?a] a(2) by simp
  have n: "unat ?n = next_offset (unat ?o) (length p + 4)" using offset_step [OF off] a(2) l by simp
  have u64: "unat (of_nat (length p + 4) :: uint64_t) = length p + 4" using a(4) by (intro unat_of_nat_64) simp
  have u: "ucast (of_nat (length p + 4) :: uint16_t) = (of_nat (length p + 4) :: uint64_t)"
    unfolding word_unat_eq_iff u64 unat_ucast16 by (rule l)
  have t: "\<not> PACKET_SIZE_MAX \<le> of_nat (length p + 4)" "\<not> of_nat (length p + 4) < PACKET_SIZE_MIN"
    using a(3,4) unfolding word_le_nat_alt word_less_nat_alt u64 by (simp_all add: PACKET_SIZE_MIN_def PACKET_SIZE_MAX_def)
  have run: "recieve H s = Inr (nic_outw H (s\<lparr>ram := memcpy (ram s) (packet_buf (nic s)) (?a + 4) (of_nat (length p)),
      nic := nic s\<lparr>rxbuf_offset := ?n\<rparr>\<rparr>) REG_CAPR (ucast (?n - 0x10)))"
    unfolding recieve_def Let_def status_test using ring a(1) t
    by (simp add: a(2) u RX_BUFFER_SIZE_def nic_outw_def PORT_def mod_twice del: of_nat_add) simp
  show ?thesis using n run by blast
qed


lemma packet_at_cong:
  assumes same: "\<And>x. x \<in> span ring 0x8610 \<Longrightarrow> m' x = m x" and "off < 32768" and "packet_at m ring off p"
  shows "packet_at m' ring off p"
proof -
  have p: "length p + 4 < 0x600" using assms(3) by (simp add: packet_at_def Let_def)
  have in_ring: "x \<in> span ring 0x8610" if "x \<in> span (ring + of_nat off + of_nat i) n" "i + n \<le> 0x600" for x i n
    using that span_sub [of "off + i" n "0x8610" ring] assms(2) by (auto simp: add.assoc)
  have "load16 m' (ring + of_nat off) = load16 m (ring + of_nat off)" "load16 m' (ring + of_nat off + 2) = load16 m (ring + of_nat off + 2)"
    using in_ring [of _ 0 2] in_ring [of _ 2 2] same by (auto intro!: load16_cong)
  moreover have "bytes_at m' (ring + of_nat off + 4) (length p) = bytes_at m (ring + of_nat off + 4) (length p)"
    using in_ring [of _ 4 "length p"] p same by (intro bytes_at_cong) auto
  ultimately show ?thesis using assms(3) by (simp add: packet_at_def Let_def)
qed

lemma packets_at_cong:
  assumes "\<And>x. x \<in> span ring 0x8610 \<Longrightarrow> m' x = m x" and "off < 32768" and "packets_at m ring off ps"
  shows "packets_at m' ring off ps"
  using assms(2,3) packet_at_cong [OF assms(1)] next_offset_less by (induction ps arbitrary: off) auto

text \<open>The state the driver keeps between two packets.\<close>

definition ring_ok :: "'d kernel \<Rightarrow> bool" where
  "ring_ok s \<longleftrightarrow> rxbuf (nic s) \<noteq> 0 \<and> packet_buf (nic s) \<noteq> 0 \<and> unat (rxbuf_offset (nic s)) < 32768 \<and> 4 dvd unat (rxbuf_offset (nic s)) \<and>
     span (packet_buf (nic s)) 0x600 \<inter> span (rxbuf (nic s)) 0x8610 = {}"

definition ring_holds :: "'d kernel \<Rightarrow> uint8_t list list \<Rightarrow> bool" where
  "ring_holds s ps \<longleftrightarrow> packets_at (ram s) (rxbuf (nic s)) (unat (rxbuf_offset (nic s))) ps"

lemma recieve_result:
  assumes "ring_ok s" and "ring_holds s (p # ps)"
  shows "\<exists>s'. recieve H s = Inr s' \<and> ring_ok s' \<and> ring_holds s' ps \<and> bytes_at (ram s') (packet_buf (nic s')) (length p) = p \<and>
    (\<forall>x. x \<notin> span (packet_buf (nic s)) 0x600 \<longrightarrow> ram s' x = ram s x) \<and>
    hw s' = amd64_outw H (hw s) (ucast (PORT s REG_CAPR)) (ucast (rxbuf_offset (nic s') - 0x10)) \<and>
    nic s' = nic s\<lparr>rxbuf_offset := rxbuf_offset (nic s')\<rparr>"
proof -
  let ?b = "packet_buf (nic s)" and ?r = "rxbuf (nic s)" and ?o = "rxbuf_offset (nic s)"
  have ok: "?r \<noteq> 0" "?b \<noteq> 0" "unat ?o < 32768" "4 dvd unat ?o" and dis: "span ?b 0x600 \<inter> span ?r 0x8610 = {}"
    using assms(1) unfolding ring_ok_def by blast+
  have p: "packet_at (ram s) ?r (unat ?o) p" and ps: "packets_at (ram s) ?r (next_offset (unat ?o) (length p + 4)) ps"
    using assms(2) by (simp_all add: ring_holds_def)
  note len = packet_header(4) [OF p refl]
  have data: "bytes_at (ram s) (?r + ?o + 4) (length p) = p" using packet_header(5) [OF p refl] by simp
  obtain n where n: "unat n = next_offset (unat ?o) (length p + 4)" and run: "recieve H s = Inr (nic_outw H (s\<lparr>ram := memcpy (ram s) ?b (?r + ?o + 4) (of_nat (length p)),
      nic := nic s\<lparr>rxbuf_offset := n\<rparr>\<rparr>) REG_CAPR (ucast (n - 0x10)))"
    using recieve_good [OF ok p, of H] by (elim exE conjE)
  let ?m = "memcpy (ram s) ?b (?r + ?o + 4) (of_nat (length p))"
  have l: "unat (of_nat (length p) :: size_t) = length p" using len by (intro unat_of_nat_64) simp
  have buf: "span ?b (length p) \<subseteq> span ?b 0x600" using span_sub [of 0 "length p" "0x600" ?b] len by simp
  have src: "span (?r + ?o + 4) (length p) \<subseteq> span ?r 0x8610"
    using span_sub [of "unat ?o + 4" "length p" "0x8610" ?r] ok(3) len by (simp add: add.assoc)
  have "span ?b (length p) \<inter> span (?r + ?o + 4) (length p) = {}" using dis buf src by blast
  then have "bytes_at ?m ?b (length p) = p"
    using bytes_at_memcpy [of ?b "of_nat (length p)" "?r + ?o + 4" "ram s"] data unfolding l by simp
  moreover have out: "?m x = ram s x" if "x \<notin> span ?b 0x600" for x using that buf by (intro memcpy_outside) (auto simp: l)
  moreover have "packets_at ?m ?r (unat n) ps" unfolding n by (rule packets_at_cong [OF _ next_offset_less ps]) (use dis out in blast)
  moreover have "unat n < 32768" "4 dvd unat n"
    using ok(4) unfolding n by (simp_all add: next_offset_less next_offset_dvd)
  ultimately show ?thesis using run ok(1,2) dis
    by (intro exI [of _ "nic_outw H (s\<lparr>ram := ?m, nic := nic s\<lparr>rxbuf_offset := n\<rparr>\<rparr>) REG_CAPR (ucast (n - 0x10))"])
      (simp add: nic_outw_def ring_ok_def ring_holds_def PORT_def)
qed

text \<open>Whatever is in the ring, \<open>recieve\<close> returns: it takes a packet or it changes nothing.\<close>

lemma recieve_cases:
  assumes "ring_ok s"
  obtains "recieve H s = Inr s" "\<And>p ps. \<not> ring_holds s (p # ps)"
  | p where "ring_holds s [p]" "\<And>q ps. ring_holds s (q # ps) \<Longrightarrow> q = p"
proof -
  let ?a = "rxbuf (nic s) + rxbuf_offset (nic s)"
  let ?l = "load16 (ram s) (?a + 2)"
  show thesis
  proof (cases "\<not> good_status (load16 (ram s) ?a) \<or> ?l < 0x16 \<or> 0x600 \<le> ?l")
    case True
    moreover have "rxbuf (nic s) \<noteq> 0" using assms by (simp add: ring_ok_def)
    moreover have "\<not> ring_holds s (p # ps)" for p ps
    proof
      assume "ring_holds s (p # ps)"
      then have "packet_at (ram s) (rxbuf (nic s)) (unat (rxbuf_offset (nic s))) p" by (simp add: ring_holds_def)
      from packet_header [OF this, of ?a] True show False by (simp add: word_less_nat_alt word_le_nat_alt)
    qed
    ultimately show ?thesis using recieve_bad [of s ?a H] that(1) by blast
  next
    case False
    let ?p = "bytes_at (ram s) (?a + 4) (unat ?l - 4)"
    have "0x16 \<le> unat ?l" "unat ?l < 0x600" using False by (simp_all add: word_less_nat_alt word_le_nat_alt)
    then have "ring_holds s [?p]" using False by (simp add: ring_holds_def packet_at_def Let_def bytes_at_def)
    moreover have "q = ?p" if "ring_holds s (q # ps)" for q ps
    proof -
      have "packet_at (ram s) (rxbuf (nic s)) (unat (rxbuf_offset (nic s))) q" using that by (simp add: ring_holds_def)
      from packet_header [OF this, of ?a] show ?thesis by simp
    qed
    ultimately show ?thesis using that(2) by blast
  qed
qed

lemma port_distinct: "ucast (x + 0x38 :: uint32_t) \<noteq> (ucast (x + 0x3E) :: uint16_t)"
proof
  assume "ucast (x + 0x38 :: uint32_t) = (ucast (x + 0x3E) :: uint16_t)"
  then have "unat (ucast (x + 0x38 :: uint32_t) :: uint16_t) = unat (ucast (x + 0x3E) :: uint16_t)" by simp
  then have "(unat x + 62) mod 65536 = (unat x + 56) mod 65536"
    by (simp add: unsigned_ucast_eq take_bit_eq_mod unat_word_ariths mod_mod_cancel)
  then show False by (simp add: mod_eq_dvd_iff_nat)
qed

subsection \<open>The interrupt handler\<close>

text \<open>
  The documented behaviour of the interrupt status register: it reads as the pending interrupts, writing
  a bit acknowledges it, and nothing else the handler does changes it. In particular no new interrupt
  arrives while the handler runs; otherwise the handler may run for as long as they arrive.
\<close>

definition isr_register :: "'d hardware \<Rightarrow> uint16_t \<Rightarrow> ('d \<Rightarrow> uint16_t) \<Rightarrow> bool" where
  "isr_register H port pending \<longleftrightarrow>
     (\<forall>d. fst (port_in16 H d port) = pending d \<and> pending (snd (port_in16 H d port)) = pending d) \<and>
     (\<forall>d v. pending (port_out16 H d port v) = pending d AND NOT v) \<and>
     (\<forall>d q v. q \<noteq> port \<longrightarrow> pending (port_out16 H d q v) = pending d) \<and>
     (\<forall>d a v. pending (mmio_write32 H d a v) = pending d)"

definition acked :: "'d hardware \<Rightarrow> 'd kernel \<Rightarrow> 'd kernel" where
  "acked H s = (let (status, d) = amd64_inw H (hw s) (ucast (PORT s REG_ISR)) in nic_outw H (s\<lparr>hw := d\<rparr>) REG_ISR status)"

lemma acked_result:
  assumes "isr_register H (ucast (PORT s REG_ISR)) pending"
  shows "pending (hw (acked H s)) = 0" "ram (acked H s) = ram s" "nic (acked H s) = nic s"
proof -
  have "w AND NOT w = 0" for w :: uint16_t by simp
  then show "pending (hw (acked H s)) = 0" "ram (acked H s) = ram s" "nic (acked H s) = nic s"
    using assms by (simp_all add: acked_def case_prod_beta isr_register_def amd64_inw_def amd64_outw_def nic_outw_def PORT_def)
qed

lemma isr_step:
  assumes "isr_register H (ucast (PORT s REG_ISR)) pending"
  shows "isr_loop H s =
    (if (ucast (pending (hw s) AND INT_ALL) :: uint8_t) = 0 then ret (acked H s)
     else if bit (pending (hw s)) 0 then (case recieve H (acked H s) of Inl e \<Rightarrow> Some (Inl e) | Inr s \<Rightarrow> isr_loop H s)
     else isr_loop H (acked H s))"
proof -
  have c: "INT_RXOK = 2 ^ 0" by (simp add: INT_RXOK_def)
  have "fst (amd64_inw H (hw s) (ucast (PORT s REG_ISR))) = pending (hw s)" using assms by (simp add: isr_register_def amd64_inw_def)
  moreover have "pending (hw s) AND INT_RXOK \<noteq> 0 \<longleftrightarrow> bit (pending (hw s)) 0" unfolding c and_exp_eq_0_iff_not_bit by simp
  ultimately show ?thesis by (subst isr_loop.simps) (simp add: acked_def case_prod_beta)
qed

lemma isr_quiet:
  assumes "isr_register H (ucast (PORT s REG_ISR)) pending" and "pending (hw s) = 0"
  shows "isr_loop H s = ret (acked H s)"
  unfolding isr_step [OF assms(1)] assms(2) by simp

lemma recieve_pending:
  assumes "isr_register H (ucast (PORT s REG_ISR)) pending" and "ring_ok s" and "recieve H s = Inr s'"
  shows "pending (hw s') = pending (hw s)" "iobase (nic s') = iobase (nic s)" "ring_ok s'"
    "(\<And>p ps. \<not> ring_holds s (p # ps)) \<Longrightarrow> s' = s"
proof -
  have "pending (hw s') = pending (hw s) \<and> iobase (nic s') = iobase (nic s) \<and> ring_ok s'"
  proof (cases rule: recieve_cases [OF assms(2), of H])
    case 1
    then show ?thesis using assms(2,3) by simp
  next
    case (2 p)
    have "(ucast (PORT s REG_CAPR) :: uint16_t) \<noteq> ucast (PORT s REG_ISR)"
      unfolding PORT_def REG_CAPR_def REG_ISR_def by (rule port_distinct)
    then show ?thesis using recieve_result [OF assms(2) 2(1), of H] assms(1,3)
      by (auto simp: isr_register_def amd64_outw_def) (metis rtl8139.select_convs(2) rtl8139.surjective rtl8139.update_convs(6))
  qed
  then show "pending (hw s') = pending (hw s)" "iobase (nic s') = iobase (nic s)" "ring_ok s'" by simp_all
  show "s' = s" if "\<And>p ps. \<not> ring_holds s (p # ps)"
    using recieve_cases [OF assms(2), of H] that assms(3) by (metis Inr_inject)
qed

text \<open>The loop runs its body once or twice.\<close>

lemma isr_loop_result:
  assumes chip: "isr_register H (ucast (PORT s REG_ISR)) pending" and ok: "ring_ok s"
  shows "\<exists>t. isr_loop H s = ret t \<and> pending (hw t) = 0 \<and> iobase (nic t) = iobase (nic s) \<and> ring_ok t \<and>
    (\<forall>p ps. bit (pending (hw s)) 0 \<and> ring_holds s (p # ps) \<longrightarrow> ring_holds t ps \<and> bytes_at (ram t) (packet_buf (nic t)) (length p) = p) \<and>
    (\<not> bit (pending (hw s)) 0 \<or> (\<forall>p ps. \<not> ring_holds s (p # ps)) \<longrightarrow> ram t = ram s \<and> nic t = nic s)"
proof -
  let ?a = "acked H s"
  note a = acked_result [OF chip]
  have chip_a: "isr_register H (ucast (PORT ?a REG_ISR)) pending" using chip a(3) by (simp add: PORT_def)
  have ok_a: "ring_ok ?a" and holds_a: "\<And>ps. ring_holds ?a ps \<longleftrightarrow> ring_holds s ps" using ok a by (simp_all add: ring_ok_def ring_holds_def)
  show ?thesis
  proof (cases "bit (pending (hw s)) 0")
    case False
    obtain t where t: "isr_loop H s = ret t" "t = ?a \<or> t = acked H ?a"
      using isr_step [OF chip] isr_quiet [OF chip_a a(1)] False by (simp split: if_splits)
    have "pending (hw t) = 0 \<and> ram t = ram s \<and> nic t = nic s" using t(2) a acked_result [OF chip_a] by auto
    then show ?thesis using t(1) False ok by (auto simp: ring_ok_def)
  next
    case True
    have "bit (ucast (pending (hw s) AND INT_ALL) :: uint8_t) 0" using True by (simp add: bit_simps INT_ALL_def INT_RXOK_def int_consts)
    then have stat: "(ucast (pending (hw s) AND INT_ALL) :: uint8_t) \<noteq> 0" by (metis bit_0_eq bot_apply bot_bool_def)
    obtain r where r: "recieve H ?a = Inr r"
      using recieve_cases [OF ok_a, of H] recieve_result [OF ok_a] by metis
    note rp = recieve_pending [OF chip_a ok_a r]
    have chip_r: "isr_register H (ucast (PORT r REG_ISR)) pending" using chip_a rp(2) by (simp add: PORT_def)
    have "isr_loop H s = ret (acked H r)"
      using isr_step [OF chip] stat True r isr_quiet [OF chip_r] rp(1) a(1) by simp
    moreover note acked_result [OF chip_r]
    moreover have "iobase (nic r) = iobase (nic s)" using rp(2) a(3) by simp
    moreover have "ring_holds r ps \<and> bytes_at (ram r) (packet_buf (nic r)) (length p) = p" if "ring_holds s (p # ps)" for p ps
      using recieve_result [OF ok_a, of p ps H] that holds_a r by auto
    moreover have "ram r = ram s \<and> nic r = nic s" if "\<forall>p ps. \<not> ring_holds s (p # ps)"
      using rp(4) that holds_a a by auto
    ultimately show ?thesis using True rp(3)
      by (intro exI [of _ "acked H r"]) (auto simp: ring_ok_def ring_holds_def)
  qed
qed

subsection \<open>Transmission\<close>

text \<open>The documented behaviour of the four transmit status registers: reading one returns it and changes none.\<close>

definition tx_port :: "'d kernel \<Rightarrow> size_t \<Rightarrow> uint16_t" where
  "tx_port s c = ucast (ucast (iobase (nic s)) + (0x10 + c * 4))"

definition tx_registers :: "'d hardware \<Rightarrow> (size_t \<Rightarrow> uint16_t) \<Rightarrow> ('d \<Rightarrow> size_t \<Rightarrow> uint32_t) \<Rightarrow> bool" where
  "tx_registers H port st \<longleftrightarrow> (\<forall>d c. c < 4 \<longrightarrow> fst (port_in32 H d (port c)) = st d c \<and> st (snd (port_in32 H d (port c))) = st d)"

definition candidate :: "'d kernel \<Rightarrow> nat \<Rightarrow> size_t" where
  "candidate s i = (next_txbuf (nic s) + of_nat i) mod 4"

lemma candidate_less: "candidate s i < 4"
  unfolding candidate_def by (rule word_mod_less_divisor) simp

lemma find_txbuf_result:
  assumes "tx_registers H (tx_port s) st"
  shows "\<exists>d. st d = st (hw s) \<and> find_txbuf H is s = (map_option (candidate s) (find (\<lambda>i. bit (st (hw s) (candidate s i)) 13) is), s\<lparr>hw := d\<rparr>)"
  using assms
proof (induction "is" arbitrary: s)
  case Nil
  show ?case by (rule exI [of _ "hw s"]) simp
next
  case (Cons i "is")
  let ?d = "snd (port_in32 H (hw s) (tx_port s (candidate s i)))"
  have p: "ucast (ucast (iobase (nic s)) + (REG_TXSTATUS0 + (next_txbuf (nic s) + of_nat i) mod 4 * 4)) = tx_port s (candidate s i)"
    by (simp add: tx_port_def candidate_def REG_TXSTATUS0_def)
  have r: "fst (port_in32 H (hw s) (tx_port s (candidate s i))) = st (hw s) (candidate s i)" "st ?d = st (hw s)"
    using Cons.prems candidate_less by (auto simp: tx_registers_def)
  have c: "TX_STATUS_OWN = 2 ^ 13" by (simp add: TX_STATUS_OWN_def)
  have same: "tx_port (s\<lparr>hw := ?d\<rparr>) = tx_port s" "candidate (s\<lparr>hw := ?d\<rparr>) = candidate s" by (simp_all add: fun_eq_iff tx_port_def candidate_def)
  then obtain d' where "st d' = st (hw s)" and
    rest: "find_txbuf H is (s\<lparr>hw := ?d\<rparr>) = (map_option (candidate s) (find (\<lambda>i. bit (st (hw s) (candidate s i)) 13) is), s\<lparr>hw := d'\<rparr>)"
    using Cons.IH [of "s\<lparr>hw := ?d\<rparr>"] Cons.prems r(2) by auto
  have step: "find_txbuf H (i # is) s = (if bit (st (hw s) (candidate s i)) 13 then (Some (candidate s i), s\<lparr>hw := ?d\<rparr>) else find_txbuf H is (s\<lparr>hw := ?d\<rparr>))"
    unfolding find_txbuf.simps Let_def p case_prod_beta amd64_inl_def r(1) c and_exp_eq_0_iff_not_bit by (simp add: candidate_def)
  show ?case
  proof (cases "bit (st (hw s) (candidate s i)) 13")
    case True
    then show ?thesis using r(2) by (intro exI [of _ ?d]) (simp add: step del: find_txbuf.simps)
  next
    case False
    then show ?thesis using rest \<open>st d' = st (hw s)\<close> by (intro exI [of _ d']) (simp add: step del: find_txbuf.simps)
  qed
qed

text \<open>What \<open>startup_nic\<close> stores in the array of buffers: the low byte of the address of a page, which is 0.\<close>

lemma alloc_txbuf_zero:
  assumes "alloc_txbuf ub hhdm i s = Inr s'"
  shows "txbufs (nic s') = (txbufs (nic s))[i := 0]"
proof -
  have "ucast (PTE_GET_ADDR v) = (0 :: uint8_t)" for v
    using pte_addr_aligned [of v, unfolded page_aligned_iff] by (auto simp: bit_eq_iff bit_simps)
  then show ?thesis using assms
    by (auto simp: alloc_txbuf_def bindE_eq_Inr heap_call_def vmm_call_def vmm_get_phys_def put_heap_def Let_def split: if_splits)
qed

text \<open>A byte added to the address of a page stays in the page.\<close>

lemma page_of_byte:
  assumes "unat hhdm mod 4096 = 0"
  shows "ALIGN_DOWN (ucast (b :: uint8_t) + hhdm) 0x1000 = hhdm"
proof -
  have b: "unat (ucast b :: uint64_t) = unat b" "unat b < 256" using unsigned_less [of b, where ?'a = nat]
    by (simp_all add: unsigned_ucast_eq take_bit_nat_eq_self)
  obtain k where k: "unat hhdm = 4096 * k" using assms by auto
  have "unat hhdm < 2 ^ 64" using unsigned_less [of hhdm, where ?'a = nat] by simp
  then have "k < 2 ^ 52" using k by simp
  then have "unat b + unat hhdm < 2 ^ LENGTH(64)" using b(2) k by simp
  then have s: "unat (ucast b + hhdm) = unat b + unat hhdm" unfolding unat_word_ariths b(1) by (rule mod_less)
  have m: "(0x1000 - 1 :: uint64_t) = mask 12" by (simp add: mask_eq_exp_minus_1)
  have "unat (ALIGN_DOWN (ucast b + hhdm) 0x1000) = unat hhdm" unfolding ALIGN_DOWN_def m unat_and_not_mask s using k b(2) by simp
  then show ?thesis by (simp add: word_unat_eq_iff)
qed

subsection \<open>Properties\<close>


definition demo_card :: "uint16_t hardware" where
  "demo_card = \<lparr>mmio_read32 = \<lambda>d a. (0, d), mmio_write32 = \<lambda>d a v. d, mmio_read64 = \<lambda>d a. (0, d), mmio_write64 = \<lambda>d a v. d,
     port_in8 = \<lambda>d a. (0, d), port_out8 = \<lambda>d a v. d, port_in16 = \<lambda>d a. (if a = 0xC03E then d else 0, d),
     port_out16 = \<lambda>d a v. if a = 0xC03E then d AND NOT v else d, port_in32 = \<lambda>d a. (if a = 0xC014 then 0x2000 else 0, d), port_out32 = \<lambda>d a v. d\<rparr>"

definition demo_ring :: "uint16_t kernel" where
  "demo_ring = (demo_machine 1 ((\<lambda>_. 0)(0x10000 := 1, 0x10002 := 0x16)))
     \<lparr>nic := \<lparr>nic_dev = 0, iobase = 0xC000, rxbuf = 0x10000, txbufs = [0, 0, 0, 0], next_txbuf = 0, rxbuf_offset = 0, packet_buf = 0x30000,
       mac_addr = replicate 6 0\<rparr>\<rparr>"

lemma demo_ring_simps:
  "ram demo_ring = (\<lambda>_. 0)(0x10000 := 1, 0x10002 := 0x16)" "hw demo_ring = 1" "rxbuf (nic demo_ring) = 0x10000" "packet_buf (nic demo_ring) = 0x30000"
  "rxbuf_offset (nic demo_ring) = 0" "iobase (nic demo_ring) = 0xC000" "txbufs (nic demo_ring) = [0, 0, 0, 0]" "next_txbuf (nic demo_ring) = 0"
  by (simp_all add: demo_ring_def demo_machine_def)

lemma demo_ring_ok: "ring_ok demo_ring" "ring_holds demo_ring [replicate 18 0]"
proof -
  have "span (0 + 0x30000) 0x600 \<inter> span (0 + 0x10000) 0x8610 = {}" by (rule span_num) simp_all
  then show "ring_ok demo_ring" by (simp add: ring_ok_def demo_ring_simps)
  have "0 + 0x10000 \<notin> span (0 + 0x10004) 18" "0 + 0x10002 \<notin> span (0 + 0x10004) 18" by (rule byte_outside; simp)+
  then have "bytes_at ((\<lambda>_. 0)(0x10000 := 1, 0x10002 := 0x16)) 0x10004 18 = bytes_at (\<lambda>_. 0) 0x10004 18" by (intro bytes_at_cong) auto
  then have "bytes_at ((\<lambda>_. 0)(0x10000 := 1, 0x10002 := 0x16)) 0x10004 18 = replicate 18 0" by (simp add: bytes_at_def map_replicate_const)
  then show "ring_holds demo_ring [replicate 18 0]"
    by (simp add: ring_holds_def packet_at_def demo_ring_simps load_small good_status_def bit_simps)
qed

lemma demo_register: "isr_register demo_card (ucast (PORT demo_ring REG_ISR)) id"
  by (simp add: isr_register_def demo_card_def PORT_def REG_ISR_def demo_ring_simps)



lemma demo_tx: "tx_registers demo_card (tx_port demo_ring) (\<lambda>_ c. if c = 1 then 0x2000 else 0)"
proof -
  have "fst (port_in32 demo_card d (tx_port demo_ring c)) = (if c = 1 then 0x2000 else 0)" if "c < 4" for c d
  proof -
    have "unat c < 4" using that by (simp add: word_less_nat_alt)
    then have "unat c \<in> {0, 1, 2, 3}" by auto
    then have "c = 0 \<or> c = 1 \<or> c = 2 \<or> c = 3" by (auto simp: word_unat_eq_iff)
    then show ?thesis by (auto simp: demo_card_def tx_port_def demo_ring_simps)
  qed
  then show ?thesis by (simp add: tx_registers_def)
qed


end
