(* ===== verification/Process.thy ===== *)
theory Process
  imports Cores
begin

text \<open>
  Processes and threads, \<^verbatim>\<open>sys/sched/process.c\<close> and \<^verbatim>\<open>sys/include/sched/process.h\<close>: the layout of the two
  structures in memory, the allocation of process numbers in a bitmap, and the creation of
  processes and threads in the kernel heap.
\<close>

subsection \<open>Layout\<close>

text \<open>Offsets in \<open>trapframe_t\<close> (\<^verbatim>\<open>sys/include/amd64/asm.h\<close>), which is the first field of \<open>thread_t\<close>.\<close>

definition tf_trapno :: uint64_t where "tf_trapno = 128"
definition tf_rip :: uint64_t where "tf_rip = 136"
definition tf_cs :: uint64_t where "tf_cs = 144"
definition tf_rflags :: uint64_t where "tf_rflags = 152"
definition tf_rsp :: uint64_t where "tf_rsp = 160"
definition tf_ss :: uint64_t where "tf_ss = 168"
definition sizeof_tf :: uint64_t where "sizeof_tf = 176"

definition th_stack_base :: uint64_t where "th_stack_base = 176"
definition th_flags :: uint64_t where "th_flags = 184"
definition th_parent :: uint64_t where "th_parent = 192"
definition th_threadq :: uint64_t where "th_threadq = 200"
definition sizeof_thread :: uint64_t where "sizeof_thread = 216"

definition pr_name :: uint64_t where "pr_name = 0"
definition pr_pid :: uint64_t where "pr_pid = 256"
definition pr_uid :: uint64_t where "pr_uid = 260"
definition pr_euid :: uint64_t where "pr_euid = 264"
definition pr_gid :: uint64_t where "pr_gid = 268"
definition pr_runq :: uint64_t where "pr_runq = 272"
definition pr_threadq_head :: uint64_t where "pr_threadq_head = 288"
definition pr_running_thread :: uint64_t where "pr_running_thread = 304"
definition pr_thread_count :: uint64_t where "pr_thread_count = 312"
definition pr_vaddrsp :: uint64_t where "pr_vaddrsp = 320"
definition sizeof_process :: uint64_t where "sizeof_process = 328"

lemmas tf_offsets = tf_trapno_def tf_rip_def tf_cs_def tf_rflags_def tf_rsp_def tf_ss_def sizeof_tf_def
lemmas th_offsets = th_stack_base_def th_flags_def th_parent_def th_threadq_def sizeof_thread_def
lemmas pr_offsets = pr_name_def pr_pid_def pr_uid_def pr_euid_def pr_gid_def pr_runq_def pr_threadq_head_def
  pr_running_thread_def pr_thread_count_def pr_vaddrsp_def sizeof_process_def

definition THREAD_STARTUP :: uint16_t where "THREAD_STARTUP = push_bit 0 1"
definition NAME_MAX :: size_t where "NAME_MAX = 255"

subsection \<open>Process numbers\<close>

definition init_pid_bitmap :: "'d kernel \<Rightarrow> 'd kernel res" where
  "init_pid_bitmap s = bindE (heap_call (\<lambda>h. kmalloc h 1) s) (\<lambda>(p, s). Inr (s\<lparr>pid_bitmap := p\<rparr>))"

text \<open>The first half of the loop body of \<open>alloc_pid\<close>, which makes the bitmap larger.\<close>

definition grow_pid_bitmap :: "'d kernel \<Rightarrow> size_t \<Rightarrow> 'd kernel res" where
  "grow_pid_bitmap s i =
     (if i div 8 > pid_bitmap_bytes s
      then let s = s\<lparr>pid_bitmap_bytes := pid_bitmap_bytes s + 1\<rparr>
           in bindE (heap_call (\<lambda>h. krealloc h (pid_bitmap s) (pid_bitmap_bytes s + 2)) s) (\<lambda>(p, s).
              bindE (assertE (p \<noteq> 0)) (\<lambda>_. Inr (s\<lparr>pid_bitmap := p\<rparr>)))
      else Inr s)"

partial_function (option) pid_search :: "shift_ub \<Rightarrow> 'd kernel \<Rightarrow> size_t \<Rightarrow> (size_t \<times> 'd kernel) run" where
  "pid_search ub s i =
     (case grow_pid_bitmap s i of
        Inl e \<Rightarrow> Some (Inl e)
      | Inr s \<Rightarrow>
          if pid_bitmap s = 0 then Some (Inl Null_Deref)
          else if bitmap_test_bit ub (ram s) (pid_bitmap s) i = 0
          then ret (i, s\<lparr>ram := bitmap_set_bit (ram s) (pid_bitmap s) i\<rparr>)
          else pid_search ub s (i + 1))"

text \<open>The result is converted to \<open>pid_t\<close>, an \<open>int\<close>.\<close>

definition alloc_pid :: "shift_ub \<Rightarrow> 'd kernel \<Rightarrow> (uint32_t \<times> 'd kernel) run" where
  "alloc_pid ub s =
     bindR (if pid_bitmap s = 0 then Some (init_pid_bitmap s) else ret s) (\<lambda>s.
     bindR (pid_search ub s 1) (\<lambda>(i, s). ret (ucast i, s)))"

definition free_pid :: "'d kernel \<Rightarrow> uint32_t \<Rightarrow> 'd kernel res" where
  "free_pid s pid =
     bindE (assertE (sint pid > 0)) (\<lambda>_.
     if pid_bitmap s = 0 then Inl Null_Deref
     else Inr (s\<lparr>ram := bitmap_unset_bit (ram s) (pid_bitmap s) (scast pid)\<rparr>))"

subsection \<open>Creation\<close>

definition process_create_thread :: "'d kernel \<Rightarrow> addr \<Rightarrow> addr \<Rightarrow> (addr \<times> 'd kernel) res" where
  "process_create_thread s parent entry =
     bindE (heap_call (\<lambda>h. kmalloc h sizeof_thread) s) (\<lambda>(thread, s).
     bindE (assertE (thread \<noteq> 0)) (\<lambda>_.
     bindE (heap_call (\<lambda>h. kmalloc h 0x500) s) (\<lambda>(stack, s).
     let m = store64 (ram s) (thread + th_stack_base) (stack + 0x500)
     in bindE (assertE (load64 m (thread + th_stack_base) \<noteq> 0)) (\<lambda>_.
        let m = store64 m (thread + th_parent) parent;
            m = store16 m (thread + th_flags) 0;
            m = memzero m thread sizeof_tf;
            m = store16 m (thread + tf_ss) 0x30;
            m = store16 m (thread + tf_cs) 0x28;
            m = store64 m (thread + tf_rflags) 0x202;
            m = store64 m (thread + tf_rsp) (load64 m (thread + th_stack_base) + (0x500 - 1));
            m = store64 m (thread + tf_rip) entry
        in Inr (thread, s\<lparr>ram := m\<rparr>)))))"

definition create_process :: "shift_ub \<Rightarrow> addr \<Rightarrow> 'd kernel \<Rightarrow> addr \<Rightarrow> uint32_t \<Rightarrow> uint32_t \<Rightarrow> addr \<Rightarrow> (addr \<times> 'd kernel) run" where
  "create_process ub hhdm s name user_id group_id entry =
     (case strlen (ram s) name of
        None \<Rightarrow> None
      | Some len \<Rightarrow>
          bindR (Some (assertE (len \<le> NAME_MAX))) (\<lambda>_.
          bindR (Some (heap_call (\<lambda>h. kmalloc h sizeof_process) s)) (\<lambda>(p, s).
          bindR (Some (assertE (p \<noteq> 0))) (\<lambda>_.
          let s = s\<lparr>ram := TAILQ_INIT (ram s) (p + pr_threadq_head)\<rparr>;
              s = s\<lparr>ram := store64 (ram s) (p + pr_thread_count) 1\<rparr>
          in bindR (Some (process_create_thread s p entry)) (\<lambda>(main_thread, s).
             let s = s\<lparr>ram := TAILQ_INSERT_TAIL (ram s) (p + pr_threadq_head) main_thread th_threadq\<rparr>;
                 s = s\<lparr>ram := store64 (ram s) (p + pr_running_thread) main_thread\<rparr>;
                 s = s\<lparr>ram := store32 (ram s) (p + pr_uid) user_id\<rparr>;
                 s = s\<lparr>ram := store32 (ram s) (p + pr_euid) user_id\<rparr>;
                 s = s\<lparr>ram := store32 (ram s) (p + pr_gid) group_id\<rparr>
             in bindR (alloc_pid ub s) (\<lambda>(pid, s).
                let s = s\<lparr>ram := store32 (ram s) (p + pr_pid) pid\<rparr>
                in bindR (Some (vmm_call (vmm_make_pml4 ub hhdm) s)) (\<lambda>(pml4, s).
                   let s = s\<lparr>ram := store64 (ram s) (p + pr_vaddrsp) pml4\<rparr>
                   in (case strlen (ram s) name of
                         None \<Rightarrow> None
                       | Some len \<Rightarrow> ret (p, s\<lparr>ram := memcpy (ram s) (p + pr_name) name len\<rparr>)))))))))"

definition create_kernel_process :: "shift_ub \<Rightarrow> addr \<Rightarrow> 'd kernel \<Rightarrow> addr \<Rightarrow> addr \<Rightarrow> (addr \<times> 'd kernel) run" where
  "create_kernel_process ub hhdm s name entry = create_process ub hhdm s name 0 0 entry"

subsection \<open>Process numbers\<close>

lemma pid_search_result:
  assumes "pid_bitmap s \<noteq> 0" and "1 \<le> pid_bitmap_bytes s" and "i \<le> 8"
  shows "\<exists>j \<ge> i. j \<le> 8 \<and> pid_search ub s (of_nat i) = ret (of_nat j, s\<lparr>ram := bitmap_set_bit (ram s) (pid_bitmap s) (of_nat j)\<rparr>) \<and>
    (\<forall>n. i \<le> n \<longrightarrow> n < j \<longrightarrow> bm (ram s) (pid_bitmap s) n) \<and> (j < 8 \<longrightarrow> \<not> bm (ram s) (pid_bitmap s) j)"
  using assms(3)
proof (induction "8 - i" arbitrary: i)
  case 0
  then have i: "i = 8" by simp
  have "bitmap_test_bit ub (ram s) (pid_bitmap s) 8 = 0" by (rule test_mid) simp_all
  moreover have "\<not> (8 :: size_t) div 8 > pid_bitmap_bytes s" using assms(2) by (auto simp: not_less)
  ultimately show ?case using assms(1) i
    by (intro exI [of _ 8]) (subst pid_search.simps, simp add: grow_pid_bitmap_def)
next
  case (Suc d)
  then have i: "i < 8" by simp
  then have u: "unat (of_nat i :: size_t) = i" by (intro unat_of_nat_64) simp
  have g: "grow_pid_bitmap s (of_nat i) = Inr s"
    using i by (simp add: grow_pid_bitmap_def word_less_nat_alt unat_div u)
  have t: "bitmap_test_bit ub (ram s) (pid_bitmap s) (of_nat i) = of_bool (bm (ram s) (pid_bitmap s) i)"
    using test_low [of "of_nat i :: size_t" ub] i u by simp
  show ?case
  proof (cases "bm (ram s) (pid_bitmap s) i")
    case True
    have "of_nat i + 1 = (of_nat (Suc i) :: size_t)" by simp
    then have step: "pid_search ub s (of_nat i) = pid_search ub s (of_nat (Suc i))"
      using g t True assms(1) by (subst pid_search.simps) (simp add: add.commute)
    have "d = 8 - Suc i" "Suc i \<le> 8" using Suc.hyps(2) i by simp_all
    from Suc.hyps(1) [OF this] obtain j where j: "Suc i \<le> j" "j \<le> 8"
      "pid_search ub s (of_nat (Suc i)) = ret (of_nat j, s\<lparr>ram := bitmap_set_bit (ram s) (pid_bitmap s) (of_nat j)\<rparr>)"
      "\<forall>n. Suc i \<le> n \<longrightarrow> n < j \<longrightarrow> bm (ram s) (pid_bitmap s) n" "j < 8 \<longrightarrow> \<not> bm (ram s) (pid_bitmap s) j" by blast
    have "bm (ram s) (pid_bitmap s) n" if "i \<le> n" "n < j" for n using j(4) True that by (cases "n = i") auto
    then show ?thesis using j step by (intro exI [of _ j]) auto
  next
    case False
    then show ?thesis using g t assms(1) i by (intro exI [of _ i]) (subst pid_search.simps, simp)
  qed
qed

lemma alloc_pid_result:
  assumes "pid_bitmap s \<noteq> 0" and "1 \<le> pid_bitmap_bytes s"
  shows "\<exists>j \<ge> 1. j \<le> 8 \<and> alloc_pid ub s = ret (of_nat j, s\<lparr>ram := bitmap_set_bit (ram s) (pid_bitmap s) (of_nat j)\<rparr>) \<and>
    (\<forall>n. 1 \<le> n \<longrightarrow> n < j \<longrightarrow> bm (ram s) (pid_bitmap s) n) \<and> (j < 8 \<longrightarrow> \<not> bm (ram s) (pid_bitmap s) j)"
proof -
  obtain j where j: "1 \<le> j" "j \<le> 8" "pid_search ub s 1 = ret (of_nat j, s\<lparr>ram := bitmap_set_bit (ram s) (pid_bitmap s) (of_nat j)\<rparr>)"
    "\<forall>n. 1 \<le> n \<longrightarrow> n < j \<longrightarrow> bm (ram s) (pid_bitmap s) n" "j < 8 \<longrightarrow> \<not> bm (ram s) (pid_bitmap s) j"
    using pid_search_result [OF assms, of 1 ub] by auto
  have "(ucast (of_nat j :: size_t) :: uint32_t) = of_nat j"
    using j(2) by (simp add: unsigned_of_nat take_bit_nat_eq_self)
  then show ?thesis using j assms(1) by (intro exI [of _ j]) (simp add: alloc_pid_def)
qed

subsection \<open>Threads\<close>

definition init_thread :: "memory \<Rightarrow> addr \<Rightarrow> addr \<Rightarrow> addr \<Rightarrow> addr \<Rightarrow> memory" where
  "init_thread m thread parent entry base =
     (let m = store64 m (thread + 176) base;
          m = store64 m (thread + 192) parent;
          m = store16 m (thread + 184) 0;
          m = memzero m thread 176;
          m = store16 m (thread + 168) 0x30;
          m = store16 m (thread + 144) 0x28;
          m = store64 m (thread + 152) 0x202;
          m = store64 m (thread + 160) (base + 0x4FF)
      in store64 m (thread + 136) entry)"

lemma init_thread_fields:
  "load64 (init_thread m t parent entry base) (t + tf_rip) = entry"
  "load64 (init_thread m t parent entry base) (t + tf_rsp) = base + 0x4FF"
  "load64 (init_thread m t parent entry base) (t + tf_rflags) = 0x202"
  "load16 (init_thread m t parent entry base) (t + tf_cs) = 0x28"
  "load16 (init_thread m t parent entry base) (t + tf_ss) = 0x30"
  "load64 (init_thread m t parent entry base) (t + th_stack_base) = base"
  "load64 (init_thread m t parent entry base) (t + th_parent) = parent"
  "load16 (init_thread m t parent entry base) (t + th_flags) = 0"
  unfolding init_thread_def Let_def tf_offsets th_offsets load64_def store64_def load16_def store16_def
  by (simp_all add: field_access)

lemma init_thread_frame:
  assumes "x \<notin> span t 216"
  shows "init_thread m t parent entry base x = m x"
proof -
  have "x \<notin> span (t + of_nat i) j" if "i + j \<le> 216" for i j using span_sub [OF that, of t] assms by blast
  from this [of 0 176] this [of 136 8] this [of 144 2] this [of 152 8] this [of 160 8] this [of 168 2] this [of 176 8] this [of 184 2] this [of 192 8]
  show ?thesis unfolding init_thread_def Let_def
    by (simp add: store64_notin store16_notin memzero_memset memset_outside)
qed

lemma create_thread_eq:
  assumes "heap_call (\<lambda>h. kmalloc h sizeof_thread) s = Inr (t, s1)" and "t \<noteq> 0"
    and "heap_call (\<lambda>h. kmalloc h 0x500) s1 = Inr (stack, s2)" and "stack + 0x500 \<noteq> 0"
  shows "process_create_thread s parent entry = Inr (t, s2\<lparr>ram := init_thread (ram s2) t parent entry (stack + 0x500)\<rparr>)"
proof -
  let ?m = "memzero (store16 (store64 (store64 (ram s2) (t + 176) (stack + 0x500)) (t + 192) parent) (t + 184) 0) t 176"
  have "load64 (store64 (store16 (store16 ?m (t + 168) 0x30) (t + 144) 0x28) (t + 152) 0x202) (t + 176) = stack + 0x500"
    unfolding load64_def store64_def store16_def by (simp add: field_access)
  then show ?thesis using assms
    by (simp add: process_create_thread_def init_thread_def Let_def tf_offsets th_offsets add.assoc)
qed

lemma create_thread_writes:
  assumes B: "heap_holds s B" "B t = Some k" "216 \<le> k" and s': "s' = s\<lparr>ram := init_thread (ram s) (W t) parent entry base\<rparr>"
  shows "heap_holds s' B" "B r = Some j \<Longrightarrow> r \<noteq> t \<Longrightarrow> i < j \<Longrightarrow> ram s' (W (r + i)) = ram s (W (r + i))"
proof -
  have "span (W t) 216 \<subseteq> span (W t) k" using span_sub [of 0 216 k "W t"] B(3) by simp
  then show "heap_holds s' B" unfolding s' by (intro heap_holds_write [OF B(1,2)] init_thread_frame) blast
  show "ram s' (W (r + i)) = ram s (W (r + i))" if "B r = Some j" "r \<noteq> t" "i < j"
    unfolding s' using holds_outside [OF B(1,2) that B(3)] by (simp add: init_thread_frame)
qed

lemma stack_alloc:
  assumes "heap_holds s A"
  shows "\<exists>stack s' B. heap_call (\<lambda>h. kmalloc h 0x500) s = Inr (stack, s') \<and> heap_holds s' B \<and> A \<subseteq>\<^sub>m B \<and> stack + 0x500 \<noteq> 0 \<and>
    (stack = 0 \<or> (\<exists>q j. stack = W q \<and> A q = None \<and> B q = Some j \<and> 0x500 \<le> j)) \<and>
    (\<forall>r j i. A r = Some j \<longrightarrow> i < j \<longrightarrow> ram s' (W (r + i)) = ram s (W (r + i)))"
proof -
  obtain p s' where p: "heap_call (\<lambda>h. kmalloc h 0x500) s = Inr (p, s')" and
    "p = 0 \<and> heap_holds s' A \<and> ram s' = ram s \<or>
     (\<exists>q j. p = W q \<and> p \<noteq> 0 \<and> A q = None \<and> heap_holds s' (A(q \<mapsto> j)) \<and> (unat (0x500 :: size_t) + 7 < 2 ^ 64 \<longrightarrow> unat (0x500 :: size_t) \<le> j) \<and>
       (\<forall>r j i. A r = Some j \<longrightarrow> i < j \<longrightarrow> ram s' (W (r + i)) = ram s (W (r + i))))"
    using kmalloc_call [OF assms, of "0x500"] by blast
  then show ?thesis
  proof (elim disjE exE conjE)
    assume "p = 0" "heap_holds s' A" "ram s' = ram s"
    then show ?thesis using p by (intro exI [of _ p] exI [of _ s'] exI [of _ A]) simp
  next
    fix q j
    assume q: "p = W q" "A q = None" "heap_holds s' (A(q \<mapsto> j))" "unat (0x500 :: size_t) + 7 < 2 ^ 64 \<longrightarrow> unat (0x500 :: size_t) \<le> j"
      "\<forall>r j i. A r = Some j \<longrightarrow> i < j \<longrightarrow> ram s' (W (r + i)) = ram s (W (r + i))"
    have j: "0x500 \<le> j" using q(4) by simp
    have b: "0 < q" "q + j < 2 ^ 64" using holds_block [OF q(3), of q j] by simp_all
    have "p + 0x500 = W (q + 0x500)" using q(1) by (simp add: W_def)
    then have nz: "p + 0x500 \<noteq> 0" using b j by (simp add: W_eq_0_iff)
    have "A \<subseteq>\<^sub>m A(q \<mapsto> j)" "(A(q \<mapsto> j)) q = Some j" using q(2) by (auto simp: map_le_def)
    then show ?thesis using p q(1-3,5) nz j by blast
  qed
qed

lemma create_thread_result:
  assumes "heap_holds s A"
  shows "process_create_thread s parent entry = Inl Assert_Failed \<or>
    (\<exists>t k s' B stack. process_create_thread s parent entry = Inr (W t, s') \<and> W t \<noteq> 0 \<and> A t = None \<and> A \<subseteq>\<^sub>m B \<and>
       B t = Some k \<and> 216 \<le> k \<and> heap_holds s' B \<and>
       (stack = 0 \<or> (\<exists>q j. stack = W q \<and> q \<noteq> t \<and> A q = None \<and> B q = Some j \<and> 0x500 \<le> j)) \<and>
       (\<exists>m. ram s' = init_thread m (W t) parent entry (stack + 0x500)) \<and>
       (\<forall>r j i. A r = Some j \<longrightarrow> i < j \<longrightarrow> ram s' (W (r + i)) = ram s (W (r + i))))"
proof -
  obtain p s1 where p: "heap_call (\<lambda>h. kmalloc h sizeof_thread) s = Inr (p, s1)" and
    c1: "p = 0 \<or> (\<exists>t k. p = W t \<and> p \<noteq> 0 \<and> A t = None \<and> heap_holds s1 (A(t \<mapsto> k)) \<and> (unat sizeof_thread + 7 < 2 ^ 64 \<longrightarrow> unat sizeof_thread \<le> k) \<and>
         (\<forall>r j i. A r = Some j \<longrightarrow> i < j \<longrightarrow> ram s1 (W (r + i)) = ram s (W (r + i))))"
    using kmalloc_call [OF assms, of sizeof_thread] by blast
  show ?thesis
  proof (cases "p = 0")
    case True
    then show ?thesis using p by (simp add: process_create_thread_def assertE_def)
  next
    case False
    then obtain t k where t: "p = W t" "A t = None" "heap_holds s1 (A(t \<mapsto> k))" "216 \<le> k"
      "\<forall>r j i. A r = Some j \<longrightarrow> i < j \<longrightarrow> ram s1 (W (r + i)) = ram s (W (r + i))"
      using c1 by (auto simp: sizeof_thread_def)
    obtain stack s2 B where st: "heap_call (\<lambda>h. kmalloc h 0x500) s1 = Inr (stack, s2)" and
      B: "heap_holds s2 B" "A(t \<mapsto> k) \<subseteq>\<^sub>m B" "stack + 0x500 \<noteq> 0"
        "stack = 0 \<or> (\<exists>q j. stack = W q \<and> (A(t \<mapsto> k)) q = None \<and> B q = Some j \<and> 0x500 \<le> j)"
        "\<forall>r j i. (A(t \<mapsto> k)) r = Some j \<longrightarrow> i < j \<longrightarrow> ram s2 (W (r + i)) = ram s1 (W (r + i))"
      using stack_alloc [OF t(3)] by blast
    have Bt: "B t = Some k" "A \<subseteq>\<^sub>m B" using B(2) t(2) by (auto simp: map_le_def dom_def)
    let ?s = "s2\<lparr>ram := init_thread (ram s2) (W t) parent entry (stack + 0x500)\<rparr>"
    note w = create_thread_writes [OF B(1) Bt(1) t(4) refl, where parent = parent and entry = entry and base = "stack + 0x500"]
    have "ram ?s (W (r + i)) = ram s (W (r + i))" if r: "A r = Some j" "i < j" for r j i
    proof -
      have "B r = Some j" "r \<noteq> t" using Bt(2) r t(2) by (auto simp: map_le_def dom_def)
      then show ?thesis using w(2) [of r j i] B(5) t(5) r by simp
    qed
    moreover have "process_create_thread s parent entry = Inr (W t, ?s)"
      using create_thread_eq [OF p False st B(3)] t(1) by simp
    moreover have "stack = 0 \<or> (\<exists>q j. stack = W q \<and> q \<noteq> t \<and> A q = None \<and> B q = Some j \<and> 0x500 \<le> j)"
      using B(4) by (auto split: if_splits)
    moreover have "\<exists>m. ram ?s = init_thread m (W t) parent entry (stack + 0x500)" by auto
    ultimately show ?thesis using w(1) Bt t(1,2,4) False by blast
  qed
qed

subsection \<open>Properties\<close>

lemma bm_alloc: "n < 2 ^ 64 \<Longrightarrow> bm m b n \<Longrightarrow> bm (bitmap_set_bit m b i) b n"
  by (simp add: bm_set)

text \<open>C11: \<open>alloc_pid\<close> returns the first number from 1 to 7 whose bit is clear and sets its bit. When these
  seven are in use it returns 8 without having looked at its bit, and so does every later call: two
  processes then have the same number. (\<open>bitmap_test_bit\<close> reads the bits 8 to 31 as clear.)\<close>

theorem alloc_pid_correct:
  assumes "pid_bitmap s \<noteq> 0" and "1 \<le> pid_bitmap_bytes s"
  shows "(\<exists>j s'. alloc_pid ub s = ret (of_nat j, s') \<and> s' = s\<lparr>ram := bitmap_set_bit (ram s) (pid_bitmap s) (of_nat j)\<rparr> \<and>
      1 \<le> j \<and> j \<le> 8 \<and> (\<forall>n. 1 \<le> n \<and> n < j \<longrightarrow> bm (ram s) (pid_bitmap s) n) \<and>
      (j < 8 \<longrightarrow> \<not> bm (ram s) (pid_bitmap s) j)) \<and>
    ((\<forall>n. 1 \<le> n \<and> n < 8 \<longrightarrow> bm (ram s) (pid_bitmap s) n) \<longrightarrow>
      (\<exists>s1 s2. alloc_pid ub s = ret (8, s1) \<and> alloc_pid ub s1 = ret (8, s2)))"
proof (intro conjI impI)
  show "\<exists>j s'. alloc_pid ub s = ret (of_nat j, s') \<and> s' = s\<lparr>ram := bitmap_set_bit (ram s) (pid_bitmap s) (of_nat j)\<rparr> \<and>
      1 \<le> j \<and> j \<le> 8 \<and> (\<forall>n. 1 \<le> n \<and> n < j \<longrightarrow> bm (ram s) (pid_bitmap s) n) \<and> (j < 8 \<longrightarrow> \<not> bm (ram s) (pid_bitmap s) j)"
    using alloc_pid_result [OF assms, of ub] by auto
  have eight: "\<exists>s'. alloc_pid ub s = ret (8, s') \<and> s' = s\<lparr>ram := bitmap_set_bit (ram s) (pid_bitmap s) 8\<rparr>"
    if a: "pid_bitmap s \<noteq> 0" "1 \<le> pid_bitmap_bytes s" "\<forall>n. 1 \<le> n \<and> n < 8 \<longrightarrow> bm (ram s) (pid_bitmap s) n" for s :: "'a kernel"
  proof -
    obtain j where j: "1 \<le> j" "j \<le> 8" "alloc_pid ub s = ret (of_nat j, s\<lparr>ram := bitmap_set_bit (ram s) (pid_bitmap s) (of_nat j)\<rparr>)"
      "j < 8 \<longrightarrow> \<not> bm (ram s) (pid_bitmap s) j" using alloc_pid_result [OF a(1,2), of ub] by blast
    then have "j = 8" using a(3) by (cases "j < 8") auto
    then show ?thesis using j(3) by simp
  qed
  assume full: "\<forall>n. 1 \<le> n \<and> n < 8 \<longrightarrow> bm (ram s) (pid_bitmap s) n"
  let ?s1 = "s\<lparr>ram := bitmap_set_bit (ram s) (pid_bitmap s) 8\<rparr>"
  have "\<forall>n. 1 \<le> n \<and> n < 8 \<longrightarrow> bm (ram ?s1) (pid_bitmap ?s1) n" using full by (auto intro!: bm_alloc)
  then show "\<exists>s1 s2. alloc_pid ub s = ret (8, s1) \<and> alloc_pid ub s1 = ret (8, s2)"
    using eight [OF assms full] eight [of ?s1] assms by auto
qed

definition demo_pids :: "uint64_t kernel" where
  "demo_pids = (demo_kernel ((\<lambda>_. 0)(0x5000 := 0xFE)))\<lparr>pid_bitmap := 0x5000\<rparr>"

lemma demo_pids_simps:
  "ram demo_pids = (\<lambda>_. 0)(0x5000 := 0xFE)" "pid_bitmap demo_pids = 0x5000" "pid_bitmap_bytes demo_pids = 1"
  by (simp_all add: demo_pids_def demo_kernel_def demo_machine_def)

theorem alloc_pid_correct_witness:
  "\<exists>s1 s2. alloc_pid shr32 demo_pids = ret (8, s1) \<and> alloc_pid shr32 s1 = ret (8, s2)"
proof -
  have "bm ((\<lambda>_. 0)(0x5000 := 0xFE)) 0x5000 n" if "1 \<le> n" "n < 8" for n
  proof -
    have "n \<in> {1, 2, 3, 4, 5, 6, 7}" using that by auto
    then show ?thesis by (auto simp: bm_def)
  qed
  then have "\<forall>n. 1 \<le> n \<and> n < 8 \<longrightarrow> bm (ram demo_pids) (pid_bitmap demo_pids) n" unfolding demo_pids_simps by blast
  moreover have "pid_bitmap demo_pids \<noteq> 0" "1 \<le> pid_bitmap_bytes demo_pids" unfolding demo_pids_simps by simp_all
  ultimately show ?thesis using alloc_pid_correct [of demo_pids shr32] by blast
qed


lemma demo_holds: "heap_holds (demo_kernel (mem demo_heap)) Map.empty"
  unfolding demo_kernel_def by (rule machine_holds)


end
