(* ===== verification/Sched.thy ===== *)
theory Sched
  imports Process
begin

text \<open>
  The scheduler, \<^verbatim>\<open>sys/sched/sched.c\<close>, and the trap handler that calls it, \<^verbatim>\<open>sys/amd64/trap.c\<close>.

  Every core has a queue of processes and every process a queue of threads. The timer interrupt
  saves the registers of the running thread, moves the process to its next thread and the core to
  its next process, both cyclically, and loads the registers of the thread that is running then.
\<close>

subsection \<open>Operations\<close>

definition SCHED_QUANTUM_BASE :: uint64_t where "SCHED_QUANTUM_BASE = 20"

definition sched_core :: "'d kernel \<Rightarrow> (addr \<times> 'd kernel) res" where
  "sched_core s =
     (let core = g_corelist s + current_core_idx s * sizeof_core
      in bindE (smp_get_core_count s) (\<lambda>n.
         if n = 0 then Inl Div_By_Zero
         else Inr (core, s\<lparr>current_core_idx := (current_core_idx s + 1) mod n\<rparr>)))"

definition enqueue_thread :: "memory \<Rightarrow> addr \<Rightarrow> addr \<Rightarrow> memory" where
  "enqueue_thread m parent thread =
     (let m = TAILQ_INSERT_TAIL m (parent + pr_threadq_head) thread th_threadq
      in store64 m (parent + pr_thread_count) (load64 m (parent + pr_thread_count) + 1))"

definition enqueue_process :: "'d kernel \<Rightarrow> addr \<Rightarrow> 'd kernel res" where
  "enqueue_process s p =
     bindE (sched_core s) (\<lambda>(core, s).
     let m = TAILQ_INSERT_TAIL (ram s) (core + core_processq_head) p pr_runq
     in if load64 m (core + core_running_process) = 0
        then let m = store64 m (core + core_running_process) p;
                 t = load64 m (p + pr_running_thread)
             in if t = 0 then Inl Null_Deref
                else Inr (s\<lparr>ram := store16 m (t + th_flags) (load16 m (t + th_flags) OR THREAD_STARTUP)\<rparr>)
        else Inr (s\<lparr>ram := m\<rparr>))"

definition next_process :: "memory \<Rightarrow> addr \<Rightarrow> memory res" where
  "next_process m core =
     (let running = load64 m (core + core_running_process)
      in if running = 0 then Inl Null_Deref
         else let m = store64 m (core + core_running_process) (TAILQ_NEXT m running pr_runq)
              in Inr (if load64 m (core + core_running_process) = 0
                      then store64 m (core + core_running_process) (TAILQ_FIRST m (core + core_processq_head))
                      else m))"

definition next_thread :: "memory \<Rightarrow> addr \<Rightarrow> memory res" where
  "next_thread m parent =
     (let thread = load64 m (parent + pr_running_thread)
      in if thread = 0 then Inl Null_Deref
         else let m = store64 m (parent + pr_running_thread) (TAILQ_NEXT m thread th_threadq)
              in Inr (if load64 m (parent + pr_running_thread) = 0
                      then store64 m (parent + pr_running_thread) (TAILQ_FIRST m (parent + pr_threadq_head))
                      else m))"

definition sched_begin_timer :: "'d hardware \<Rightarrow> addr \<Rightarrow> 'd kernel \<Rightarrow> 'd kernel run" where
  "sched_begin_timer H hhdm s =
     bindR (lapic_timer_calibrate H hhdm s) (\<lambda>s. lapic_timer_oneshot H hhdm s SCHED_QUANTUM_BASE)"

text \<open>The part of \<open>sched_yield\<close> between finding the core and starting the timer.\<close>

definition switch :: "memory \<Rightarrow> addr \<Rightarrow> addr \<Rightarrow> memory res" where
  "switch m core tf =
     (let running = load64 m (core + core_running_process)
      in if running = 0 then Inl Null_Deref
         else let thread = load64 m (running + pr_running_thread)
         in if thread = 0 then Inl Null_Deref
         else if load16 m (thread + th_flags) AND THREAD_STARTUP = 0
         then bindE (next_thread (memcpy m thread tf sizeof_tf) running) (\<lambda>m.
              bindE (next_process m core) (\<lambda>m.
              let running = load64 m (core + core_running_process)
              in if running = 0 then Inl Null_Deref
                 else let thread = load64 m (running + pr_running_thread)
                 in if thread = 0 then Inl Null_Deref
                 else Inr (memcpy m tf thread sizeof_tf)))
         else let m = store16 m (thread + th_flags) (load16 m (thread + th_flags) AND NOT THREAD_STARTUP)
              in Inr (memcpy m tf thread sizeof_tf))"

definition sched_yield :: "'d hardware \<Rightarrow> addr \<Rightarrow> 'd kernel \<Rightarrow> addr \<Rightarrow> 'd kernel run" where
  "sched_yield H hhdm s tf =
     bindR (this_core H hhdm s) (\<lambda>(core, s).
     if core = 0 then Some (Inl Null_Deref)
     else bindR (Some (switch (ram s) core tf)) (\<lambda>m. sched_begin_timer H hhdm (s\<lparr>ram := m\<rparr>)))"

definition trap :: "'d hardware \<Rightarrow> addr \<Rightarrow> 'd kernel \<Rightarrow> addr \<Rightarrow> 'd kernel run" where
  "trap H hhdm s tf =
     bindR (lock_acquire s (trap_lock s)) (\<lambda>s.
     bindR (if load64 (ram s) (tf + tf_trapno) = ucast (lapic_get_timer_vector s) then sched_yield H hhdm s tf else ret s) (\<lambda>s.
     ret (lock_release (lapic_send_eoi H hhdm s) (trap_lock s))))"

text \<open>\<open>sched_start\<close> up to the endless loop at its end; \<open>idle_name\<close>, \<open>idle\<close> and \<open>test_func\<close> are the addresses
  of the string and of the two functions.\<close>

definition sched_start ::
  "shift_ub \<Rightarrow> 'd hardware \<Rightarrow> addr \<Rightarrow> addr \<Rightarrow> addr \<Rightarrow> addr \<Rightarrow> 'd kernel \<Rightarrow> 'd kernel run" where
  "sched_start ub H hhdm idle_name idle test_func s =
     bindR (create_kernel_process ub hhdm s idle_name idle) (\<lambda>(p, s).
     bindR (Some (enqueue_process s p)) (\<lambda>s.
     bindR (Some (process_create_thread s p test_func)) (\<lambda>(t, s).
     sched_begin_timer H hhdm (s\<lparr>ram := enqueue_thread (ram s) p t\<rparr>))))"

subsection \<open>Moving on\<close>

text \<open>One step of the round robin: the slot \<open>a\<close> points to an element of the queue at \<open>h\<close>.\<close>

definition advance :: "memory \<Rightarrow> addr \<Rightarrow> addr \<Rightarrow> uint64_t \<Rightarrow> memory" where
  "advance m a h f =
     (let m = store64 m a (TAILQ_NEXT m (load64 m a) f)
      in if load64 m a = 0 then store64 m a (TAILQ_FIRST m h) else m)"

lemma advance_result:
  assumes "tailq m h f xs" and "c < length xs" and "load64 m a = xs ! c" and "span h 8 \<inter> span a 8 = {}"
  shows "load64 (advance m a h f) a = xs ! (Suc c mod length xs)" and "x \<notin> span a 8 \<Longrightarrow> advance m a h f x = m x"
proof -
  have "TAILQ_FIRST (store64 m a v) h = TAILQ_FIRST m h" for v
    unfolding TAILQ_FIRST_def by (rule load64_store64_other [OF assms(4)])
  then show "load64 (advance m a h f) a = xs ! (Suc c mod length xs)"
    using tq.cyclic_step [OF assms(1,2)] assms(3) by (simp add: advance_def Let_def split: if_splits)
  show "x \<notin> span a 8 \<Longrightarrow> advance m a h f x = m x"
    by (simp add: advance_def Let_def store64_notin)
qed

lemma next_thread_advance:
  "load64 m (p + pr_running_thread) \<noteq> 0 \<Longrightarrow>
     next_thread m p = Inr (advance m (p + pr_running_thread) (p + pr_threadq_head) th_threadq)"
  by (simp add: next_thread_def advance_def Let_def)

lemma next_process_advance:
  "load64 m (core + core_running_process) \<noteq> 0 \<Longrightarrow>
     next_process m core = Inr (advance m (core + core_running_process) (core + core_processq_head) pr_runq)"
  by (simp add: next_process_def advance_def Let_def)

subsection \<open>The state of one core\<close>

text \<open>
  The objects of a core with the processes \<open>ps\<close> and the threads \<open>ts p\<close> of every process: its descriptor,
  the trap frame at \<open>tf\<close>, the processes and the threads. They do not overlap.
\<close>

definition objs :: "addr \<Rightarrow> addr \<Rightarrow> addr list \<Rightarrow> (addr \<Rightarrow> addr list) \<Rightarrow> (addr \<times> nat) set" where
  "objs core tf ps ts = {(core, 64), (tf, 176)} \<union> (\<lambda>p. (p, 328)) ` set ps \<union> (\<Union>p \<in> set ps. (\<lambda>t. (t, 216)) ` set (ts p))"

definition sched_apart :: "addr \<Rightarrow> addr \<Rightarrow> addr list \<Rightarrow> (addr \<Rightarrow> addr list) \<Rightarrow> bool" where
  "sched_apart core tf ps ts \<longleftrightarrow>
     (\<forall>x \<in> objs core tf ps ts. \<forall>y \<in> objs core tf ps ts. x \<noteq> y \<longrightarrow> span (fst x) (snd x) \<inter> span (fst y) (snd y) = {})"

definition queues :: "memory \<Rightarrow> addr \<Rightarrow> addr list \<Rightarrow> (addr \<Rightarrow> addr list) \<Rightarrow> bool" where
  "queues m core ps ts \<longleftrightarrow> tailq m (core + core_processq_head) pr_runq ps \<and>
     (\<forall>p \<in> set ps. tailq m (p + pr_threadq_head) th_threadq (ts p))"

definition queue_bytes :: "addr \<Rightarrow> addr list \<Rightarrow> (addr \<Rightarrow> addr list) \<Rightarrow> addr set" where
  "queue_bytes core ps ts = span (core + core_processq_head) 16 \<union> (\<Union>p \<in> set ps. span (p + pr_runq) 16 \<union>
     span (p + pr_threadq_head) 16 \<union> (\<Union>t \<in> set (ts p). span (t + th_threadq) 16))"

definition sched_ok :: "memory \<Rightarrow> addr \<Rightarrow> addr \<Rightarrow> addr list \<Rightarrow> (addr \<Rightarrow> addr list) \<Rightarrow> nat \<Rightarrow> (addr \<Rightarrow> nat) \<Rightarrow> bool" where
  "sched_ok m core tf ps ts i cur \<longleftrightarrow> sched_apart core tf ps ts \<and> queues m core ps ts \<and>
     i < length ps \<and> load64 m (core + core_running_process) = ps ! i \<and>
     (\<forall>p \<in> set ps. cur p < length (ts p) \<and> load64 m (p + pr_running_thread) = ts p ! cur p)"

lemma queues_cong:
  assumes "queues m core ps ts" and "\<And>x. x \<in> queue_bytes core ps ts \<Longrightarrow> m' x = m x"
  shows "queues m' core ps ts"
  unfolding queues_def
proof (intro conjI ballI)
  show "tailq m' (core + core_processq_head) pr_runq ps"
    by (rule tailq_cong [of m]) (use assms in \<open>auto simp: queues_def queue_bytes_def cells_def\<close>)
  show "tailq m' (p + pr_threadq_head) th_threadq (ts p)" if "p \<in> set ps" for p
    by (rule tailq_cong [of m]) (use assms that in \<open>auto simp: queues_def queue_bytes_def cells_def\<close>)
qed

lemma span_part: "i + j \<le> n \<Longrightarrow> x \<in> span (a + of_nat i) j \<Longrightarrow> x \<in> span a n"
  using span_sub by blast

text \<open>Where the bytes of the queues and the two slots lie.\<close>

lemma queue_bytes_cases:
  assumes "x \<in> queue_bytes core ps ts"
  obtains "x \<in> span (core + 40) 16" | p where "p \<in> set ps" "x \<in> span (p + 272) 32"
    | p t where "p \<in> set ps" "t \<in> set (ts p)" "x \<in> span (t + 200) 16"
proof -
  have "span (p + 272) 16 \<subseteq> span (p + 272) 32" "span (p + 288) 16 \<subseteq> span (p + 272) 32" for p :: addr
    using span_sub [of 0 16 32 "p + 272"] span_sub [of 16 16 32 "p + 272"] by (simp_all add: add.assoc)
  then show ?thesis using assms that
    unfolding queue_bytes_def core_processq_head_def pr_runq_def pr_threadq_head_def th_threadq_def by blast
qed

lemma parts_apart:
  assumes "sched_apart core tf ps ts" and "(a, n) \<in> objs core tf ps ts" and "(b, k) \<in> objs core tf ps ts"
    and "i + j \<le> n" and "i' + j' \<le> k" and "(a, n) = (b, k) \<Longrightarrow> i + j \<le> i' \<or> i' + j' \<le> i"
  shows "span (a + of_nat i) j \<inter> span (b + of_nat i') j' = {}"
proof (cases "(a, n) = (b, k)")
  case True
  have "n \<le> 328" using assms(2) by (auto simp: objs_def)
  then have "i + j \<le> 2 ^ 64" "i' + j' \<le> 2 ^ 64" using assms(4,5) True by simp_all
  then show ?thesis using True assms(6) span_offsets [of i j i' j' a] span_offsets [of i' j' i j a] by auto
next
  case False
  then have "span a n \<inter> span b k = {}" using assms(1-3) unfolding sched_apart_def by fastforce
  then show ?thesis using span_sub [OF assms(4), of a] span_sub [OF assms(5), of b] by blast
qed

text \<open>A part of an object of the core that holds neither a queue head nor queue links.\<close>

lemma part_no_queue:
  assumes "sched_apart core tf ps ts" and "(a, n) \<in> objs core tf ps ts" and "i + j \<le> n"
    and "n = 64 \<Longrightarrow> i + j \<le> 40 \<or> 56 \<le> i" and "n = 328 \<Longrightarrow> i + j \<le> 272 \<or> 304 \<le> i" and "n = 216 \<Longrightarrow> i + j \<le> 200"
    and "x \<in> span (a + of_nat i) j"
  shows "x \<notin> queue_bytes core ps ts"
proof
  assume "x \<in> queue_bytes core ps ts"
  then show False
  proof (cases rule: queue_bytes_cases)
    case 1
    have "span (a + of_nat i) j \<inter> span (core + of_nat 40) 16 = {}"
      by (rule parts_apart [OF assms(1,2), of core 64]) (use assms(3,4) in \<open>auto simp: objs_def\<close>)
    then show False using 1 assms(7) by auto
  next
    case (2 p)
    have "span (a + of_nat i) j \<inter> span (p + of_nat 272) 32 = {}"
      by (rule parts_apart [OF assms(1,2), of p 328]) (use assms(3,5) 2 in \<open>auto simp: objs_def\<close>)
    then show False using 2 assms(7) by auto
  next
    case (3 p t)
    have "span (a + of_nat i) j \<inter> span (t + of_nat 200) 16 = {}"
      by (rule parts_apart [OF assms(1,2), of t 216]) (use assms(3,6) 3 in \<open>auto simp: objs_def\<close>)
    then show False using 3 assms(7) by auto
  qed
qed

lemma objs_mem:
  "(core, 64) \<in> objs core tf ps ts" "(tf, 176) \<in> objs core tf ps ts" "p \<in> set ps \<Longrightarrow> (p, 328) \<in> objs core tf ps ts"
  "p \<in> set ps \<Longrightarrow> t \<in> set (ts p) \<Longrightarrow> (t, 216) \<in> objs core tf ps ts"
  by (auto simp: objs_def)

text \<open>A change of memory outside the queues, the slot of the core and the slots of the processes.\<close>

definition sched_bytes :: "addr \<Rightarrow> addr list \<Rightarrow> (addr \<Rightarrow> addr list) \<Rightarrow> addr set" where
  "sched_bytes core ps ts = queue_bytes core ps ts \<union> span (core + core_running_process) 8 \<union>
     (\<Union>p \<in> set ps. span (p + pr_running_thread) 8)"

lemma sched_ok_cong:
  assumes "sched_ok m core tf ps ts i cur" and "\<And>x. x \<in> sched_bytes core ps ts \<Longrightarrow> m' x = m x"
  shows "sched_ok m' core tf ps ts i cur"
proof -
  have "queues m' core ps ts" by (rule queues_cong [of m]) (use assms in \<open>auto simp: sched_ok_def sched_bytes_def\<close>)
  moreover have "load64 m' (core + core_running_process) = load64 m (core + core_running_process)"
    by (rule load64_cong) (use assms(2) in \<open>auto simp: sched_bytes_def\<close>)
  moreover have "load64 m' (p + pr_running_thread) = load64 m (p + pr_running_thread)" if "p \<in> set ps" for p
    by (rule load64_cong) (use assms(2) that in \<open>auto simp: sched_bytes_def\<close>)
  ultimately show ?thesis using assms(1) by (simp add: sched_ok_def)
qed

lemma part_no_sched:
  assumes "sched_apart core tf ps ts" and "(a, n) \<in> objs core tf ps ts" and "i + j \<le> n"
    and "n = 64 \<Longrightarrow> i + j \<le> 40" and "n = 328 \<Longrightarrow> i + j \<le> 272" and "n = 216 \<Longrightarrow> i + j \<le> 200"
    and "x \<in> span (a + of_nat i) j"
  shows "x \<notin> sched_bytes core ps ts"
proof -
  have "x \<notin> queue_bytes core ps ts" by (rule part_no_queue [OF assms(1-3) _ _ _ assms(7)]) (use assms(4-6) in auto)
  moreover have "span (a + of_nat i) j \<inter> span (core + of_nat 56) 8 = {}"
    by (rule parts_apart [OF assms(1,2), of core 64]) (use assms(3,4) in \<open>auto simp: objs_def\<close>)
  moreover have "span (a + of_nat i) j \<inter> span (p + of_nat 304) 8 = {}" if "p \<in> set ps" for p
    by (rule parts_apart [OF assms(1,2), of p 328]) (use assms(3,5) that in \<open>auto simp: objs_def\<close>)
  ultimately show ?thesis using assms(7) by (auto simp: sched_bytes_def core_running_process_def pr_running_thread_def)
qed

subsection \<open>A switch\<close>

lemma sched_okD:
  assumes "sched_ok m core tf ps ts i cur"
  shows "sched_apart core tf ps ts" "queues m core ps ts" "i < length ps" "load64 m (core + core_running_process) = ps ! i"
    "ps ! i \<in> set ps" "tailq m (core + core_processq_head) pr_runq ps" "ps ! i \<noteq> 0"
  using assms tailq_nonzero [of m "core + core_processq_head" pr_runq ps "ps ! i"] by (auto simp: sched_ok_def queues_def)

lemma sched_ok_process:
  assumes "sched_ok m core tf ps ts i cur" and "p \<in> set ps"
  shows "cur p < length (ts p)" "load64 m (p + pr_running_thread) = ts p ! cur p" "ts p ! cur p \<in> set (ts p)"
    "tailq m (p + pr_threadq_head) th_threadq (ts p)" "ts p ! cur p \<noteq> 0"
  using assms tailq_nonzero [of m "p + pr_threadq_head" th_threadq "ts p" "ts p ! cur p"] by (auto simp: sched_ok_def queues_def)

lemma next_thread_ok:
  assumes ok: "sched_ok m core tf ps ts i cur" and p: "p \<in> set ps"
  shows "\<exists>m'. next_thread m p = Inr m' \<and> sched_ok m' core tf ps ts i (cur(p := Suc (cur p) mod length (ts p))) \<and>
    (\<forall>x. x \<notin> span (p + pr_running_thread) 8 \<longrightarrow> m' x = m x)"
proof -
  let ?m = "advance m (p + pr_running_thread) (p + pr_threadq_head) th_threadq"
  note t = sched_ok_process [OF ok p] and s = sched_okD [OF ok]
  have "span (p + pr_threadq_head) 8 \<inter> span (p + pr_running_thread) 8 = {}"
    using span_offsets [of 288 8 304 8 p] by (simp add: pr_offsets)
  note a = advance_result [OF t(4) t(1) t(2) this]
  have q: "queues ?m core ps ts"
  proof (rule queues_cong [OF s(2)])
    show "?m x = m x" if "x \<in> queue_bytes core ps ts" for x
      using part_no_queue [OF s(1) objs_mem(3) [OF p], of 304 8 x] that by (intro a(2)) (auto simp: pr_offsets)
  qed
  have c: "load64 ?m (core + core_running_process) = load64 m (core + core_running_process)"
  proof (rule load64_cong, rule a(2))
    have "span (core + of_nat 56) 8 \<inter> span (p + of_nat 304) 8 = {}"
      by (rule parts_apart [OF s(1) objs_mem(1) objs_mem(3) [OF p]]) auto
    then show "x \<notin> span (p + pr_running_thread) 8" if "x \<in> span (core + core_running_process) 8" for x
      using that by (auto simp: pr_offsets core_offsets)
  qed
  have o: "load64 ?m (p' + pr_running_thread) = load64 m (p' + pr_running_thread)" if p': "p' \<in> set ps" "p' \<noteq> p" for p'
  proof (rule load64_cong, rule a(2))
    have "span (p' + of_nat 304) 8 \<inter> span (p + of_nat 304) 8 = {}"
      by (rule parts_apart [OF s(1) objs_mem(3) [OF p'(1)] objs_mem(3) [OF p]]) (use p'(2) in auto)
    then show "x \<notin> span (p + pr_running_thread) 8" if "x \<in> span (p' + pr_running_thread) 8" for x
      using that by (auto simp: pr_offsets)
  qed
  have "next_thread m p = Inr ?m" using t(2,5) by (intro next_thread_advance) simp
  moreover have "Suc (cur p) mod length (ts p) < length (ts p)" using t(1) by (intro mod_less_divisor) linarith
  then have "sched_ok ?m core tf ps ts i (cur(p := Suc (cur p) mod length (ts p)))"
    using ok q c o a(1) by (auto simp: sched_ok_def)
  ultimately show ?thesis using a(2) by blast
qed

lemma next_process_ok:
  assumes ok: "sched_ok m core tf ps ts i cur"
  shows "\<exists>m'. next_process m core = Inr m' \<and> sched_ok m' core tf ps ts (Suc i mod length ps) cur \<and>
    (\<forall>x. x \<notin> span (core + core_running_process) 8 \<longrightarrow> m' x = m x)"
proof -
  let ?m = "advance m (core + core_running_process) (core + core_processq_head) pr_runq"
  note s = sched_okD [OF ok]
  have "span (core + core_processq_head) 8 \<inter> span (core + core_running_process) 8 = {}"
    using span_offsets [of 40 8 56 8 core] by (simp add: core_offsets)
  note a = advance_result [OF s(6,3,4) this]
  have q: "queues ?m core ps ts"
  proof (rule queues_cong [OF s(2)])
    show "?m x = m x" if "x \<in> queue_bytes core ps ts" for x
      using part_no_queue [OF s(1) objs_mem(1), of 56 8 x] that by (intro a(2)) (auto simp: core_offsets)
  qed
  have o: "load64 ?m (p + pr_running_thread) = load64 m (p + pr_running_thread)" if p: "p \<in> set ps" for p
  proof (rule load64_cong, rule a(2))
    have "span (p + of_nat 304) 8 \<inter> span (core + of_nat 56) 8 = {}"
      by (rule parts_apart [OF s(1) objs_mem(3) [OF p] objs_mem(1)]) auto
    then show "x \<notin> span (core + core_running_process) 8" if "x \<in> span (p + pr_running_thread) 8" for x
      using that by (auto simp: pr_offsets core_offsets)
  qed
  have "next_process m core = Inr ?m" using s(4,7) by (intro next_process_advance) simp
  moreover have "Suc i mod length ps < length ps" using s(3) by (intro mod_less_divisor) linarith
  then have "sched_ok ?m core tf ps ts (Suc i mod length ps) cur" using ok q o a(1) by (auto simp: sched_ok_def)
  ultimately show ?thesis using a(2) by blast
qed

lemma unat_sizeof_tf [simp]: "unat sizeof_tf = 176"
  by (simp add: sizeof_tf_def)

lemma thread_tf_apart:
  assumes "sched_apart core tf ps ts" and "p \<in> set ps" and "t \<in> set (ts p)"
  shows "span t 176 \<inter> span tf 176 = {}"
  using parts_apart [OF assms(1) objs_mem(4) [where ts = ts, OF assms(2,3)] objs_mem(2), of 0 176 0 176] by simp

lemma threads_apart:
  assumes "sched_apart core tf ps ts" and "p \<in> set ps" and "t \<in> set (ts p)" and "p' \<in> set ps" and "t' \<in> set (ts p')" and "t \<noteq> t'"
  shows "span t 176 \<inter> span t' 176 = {}"
  using parts_apart [OF assms(1) objs_mem(4) [where ts = ts, OF assms(2,3)] objs_mem(4) [where ts = ts, OF assms(4,5)], of 0 176 0 176] assms(6) by simp

lemma tf_part_no_sched:
  assumes "sched_apart core tf ps ts"
  shows "x \<in> span tf 176 \<Longrightarrow> x \<notin> sched_bytes core ps ts"
    and "p \<in> set ps \<Longrightarrow> t \<in> set (ts p) \<Longrightarrow> x \<in> span t 176 \<Longrightarrow> x \<notin> sched_bytes core ps ts"
  using part_no_sched [OF assms objs_mem(2), of 0 176 x] part_no_sched [OF assms objs_mem(4) [where ts = ts], of p t 0 176 x] by auto

text \<open>The abstract scheduler: the number of the running process and, per process, of its thread.\<close>

definition rr_step :: "addr list \<Rightarrow> (addr \<Rightarrow> addr list) \<Rightarrow> nat \<times> (addr \<Rightarrow> nat) \<Rightarrow> nat \<times> (addr \<Rightarrow> nat)" where
  "rr_step ps ts = (\<lambda>(i, cur). (Suc i mod length ps, cur(ps ! i := Suc (cur (ps ! i)) mod length (ts (ps ! i)))))"

definition rr_thread :: "addr list \<Rightarrow> (addr \<Rightarrow> addr list) \<Rightarrow> nat \<times> (addr \<Rightarrow> nat) \<Rightarrow> addr" where
  "rr_thread ps ts = (\<lambda>(i, cur). ts (ps ! i) ! cur (ps ! i))"

lemma rr_thread_in:
  assumes "sched_ok m core tf ps ts i cur"
  shows "rr_thread ps ts (i, cur) \<in> set (ts (ps ! i))" "rr_thread ps ts (i, cur) \<noteq> 0"
    "load64 m (ps ! i + pr_running_thread) = rr_thread ps ts (i, cur)"
  using sched_ok_process [OF assms sched_okD(5) [OF assms]] by (simp_all add: rr_thread_def)

lemma slots_in_sched:
  assumes "p \<in> set ps" and "x \<in> span (p + pr_running_thread) 8 \<or> x \<in> span (core + core_running_process) 8"
  shows "x \<in> sched_bytes core ps ts"
  using assms by (auto simp: sched_bytes_def)

lemma switch_normal:
  assumes ok: "sched_ok m core tf ps ts i cur" and nx: "rr_step ps ts (i, cur) = (j, cur')"
    and flag: "load16 m (rr_thread ps ts (i, cur) + th_flags) AND THREAD_STARTUP = 0"
  defines "t \<equiv> rr_thread ps ts (i, cur)" and "t' \<equiv> rr_thread ps ts (j, cur')"
  shows "\<exists>m'. switch m core tf = Inr m' \<and> sched_ok m' core tf ps ts j cur' \<and> bytes_at m' t 176 = bytes_at m tf 176 \<and>
    bytes_at m' tf 176 = (if t' = t then bytes_at m tf 176 else bytes_at m t' 176) \<and>
    (\<forall>x. x \<notin> sched_bytes core ps ts \<union> span t 176 \<union> span tf 176 \<longrightarrow> m' x = m x)"
proof -
  let ?p = "ps ! i"
  have jc: "j = Suc i mod length ps" "cur' = cur(?p := Suc (cur ?p) mod length (ts ?p))" using nx by (auto simp: rr_step_def)
  note s = sched_okD [OF ok] and r = rr_thread_in [OF ok, folded t_def]
  note tt = thread_tf_apart [OF s(1,5) r(1)]
  let ?m1 = "memcpy m t tf sizeof_tf"
  have m1: "?m1 x = m x" if "x \<notin> span t 176" for x using that by (intro memcpy_outside) simp
  have ok1: "sched_ok ?m1 core tf ps ts i cur"
    by (rule sched_ok_cong [OF ok], rule m1) (use tf_part_no_sched(2) [OF s(1,5) r(1)] in blast)
  obtain m2 where m2: "next_thread ?m1 ?p = Inr m2" "sched_ok m2 core tf ps ts i cur'"
    "\<forall>x. x \<notin> span (?p + pr_running_thread) 8 \<longrightarrow> m2 x = ?m1 x" using next_thread_ok [OF ok1 s(5)] jc(2) by blast
  obtain m3 where m3: "next_process m2 core = Inr m3" "sched_ok m3 core tf ps ts j cur'"
    "\<forall>x. x \<notin> span (core + core_running_process) 8 \<longrightarrow> m3 x = m2 x" using next_process_ok [OF m2(2)] jc(1) by blast
  have m31: "m3 x = ?m1 x" if "x \<notin> sched_bytes core ps ts" for x
    using m2(3) m3(3) slots_in_sched [OF s(5)] that by metis
  note s3 = sched_okD [OF m3(2)] and r3 = rr_thread_in [OF m3(2), folded t'_def]
  let ?m4 = "memcpy m3 tf t' sizeof_tf"
  have m4: "?m4 x = m3 x" if "x \<notin> span tf 176" for x using that by (intro memcpy_outside) simp
  have "switch m core tf = Inr ?m4"
    using s(4,7) r(2,3) flag m2(1) m3(1) s3(4,7) r3(2,3) by (simp add: switch_def t_def Let_def)
  moreover have "sched_ok ?m4 core tf ps ts j cur'"
    by (rule sched_ok_cong [OF m3(2)], rule m4) (use tf_part_no_sched(1) [OF s(1)] in blast)
  moreover have "bytes_at ?m4 t 176 = bytes_at m3 t 176" by (rule bytes_at_cong, rule m4) (use tt in blast)
  moreover have m3t: "bytes_at m3 u 176 = bytes_at ?m1 u 176" if "p \<in> set ps" "u \<in> set (ts p)" for p u
    by (rule bytes_at_cong, rule m31) (use tf_part_no_sched(2) [OF s(1) that] in blast)
  moreover have "bytes_at ?m1 t 176 = bytes_at m tf 176" using bytes_at_memcpy [of t sizeof_tf tf m] tt by simp
  moreover have "bytes_at ?m4 tf 176 = bytes_at m3 t' 176"
    using bytes_at_memcpy [of tf sizeof_tf t' m3] thread_tf_apart [OF s(1) s3(5) r3(1)] by (simp add: Int_commute)
  moreover have "bytes_at ?m1 t' 176 = bytes_at m t' 176" if "t' \<noteq> t"
    by (rule bytes_at_cong, rule m1) (use threads_apart [OF s(1) s3(5) r3(1) s(5) r(1) that] in blast)
  moreover have "?m4 x = m x" if "x \<notin> sched_bytes core ps ts \<union> span t 176 \<union> span tf 176" for x
    using m4 m31 m1 that by auto
  ultimately show ?thesis using m3t [OF s(5) r(1)] m3t [OF s3(5) r3(1)] by (intro exI [of _ ?m4]) auto
qed

text \<open>The first interrupt of a process that was started on an idle core only loads its registers.\<close>

lemma switch_startup:
  assumes ok: "sched_ok m core tf ps ts i cur"
    and flag: "load16 m (rr_thread ps ts (i, cur) + th_flags) AND THREAD_STARTUP \<noteq> 0"
  defines "t \<equiv> rr_thread ps ts (i, cur)"
  shows "\<exists>m'. switch m core tf = Inr m' \<and> sched_ok m' core tf ps ts i cur \<and> bytes_at m' tf 176 = bytes_at m t 176 \<and>
    load16 m' (t + th_flags) AND THREAD_STARTUP = 0 \<and> (\<forall>x. x \<notin> span (t + th_flags) 2 \<union> span tf 176 \<longrightarrow> m' x = m x)"
proof -
  note s = sched_okD [OF ok] and r = rr_thread_in [OF ok, folded t_def]
  let ?v = "load16 m (t + th_flags) AND NOT THREAD_STARTUP"
  let ?m1 = "store16 m (t + th_flags) ?v"
  let ?m2 = "memcpy ?m1 tf t sizeof_tf"
  have m1: "?m1 x = m x" if "x \<notin> span (t + th_flags) 2" for x using that by (rule store16_notin)
  have m2: "?m2 x = ?m1 x" if "x \<notin> span tf 176" for x using that by (intro memcpy_outside) simp
  have "sched_ok ?m1 core tf ps ts i cur"
    by (rule sched_ok_cong [OF ok], rule m1)
      (use part_no_sched [OF s(1) objs_mem(4) [where ts = ts, OF s(5) r(1)], of 184 2] in \<open>auto simp: th_offsets\<close>)
  then have "sched_ok ?m2 core tf ps ts i cur"
    by (rule sched_ok_cong, intro m2) (use tf_part_no_sched(1) [OF s(1)] in blast)
  moreover have "switch m core tf = Inr ?m2" using s(4,7) r(2,3) flag by (simp add: switch_def t_def Let_def)
  moreover have "bytes_at ?m2 tf 176 = bytes_at ?m1 t 176"
    using bytes_at_memcpy [of tf sizeof_tf t ?m1] thread_tf_apart [OF s(1,5) r(1)] by (simp add: Int_commute)
  moreover have "bytes_at ?m1 t 176 = bytes_at m t 176"
    by (rule bytes_at_cong, rule m1) (use span_offsets [of 0 176 184 2 t] in \<open>auto simp: th_offsets\<close>)
  moreover have "load16 ?m2 (t + th_flags) = load16 ?m1 (t + th_flags)"
    by (rule load16_cong, rule m2)
      (use parts_apart [OF s(1) objs_mem(4) [where ts = ts, OF s(5) r(1)] objs_mem(2), of 184 2 0 176] in \<open>auto simp: th_offsets\<close>)
  moreover have "?v AND THREAD_STARTUP = 0" by (simp add: and.assoc)
  ultimately show ?thesis using m1 m2 by (intro exI [of _ ?m2]) auto
qed

subsection \<open>A timer interrupt\<close>

definition obj_bytes :: "addr \<Rightarrow> addr \<Rightarrow> addr list \<Rightarrow> (addr \<Rightarrow> addr list) \<Rightarrow> addr set" where
  "obj_bytes core tf ps ts = (\<Union>x \<in> objs core tf ps ts. span (fst x) (snd x))"

text \<open>The locks and the descriptors of the cores before \<open>k\<close> lie outside the objects of core \<open>k\<close>.\<close>

definition sched_ready ::
  "'d hardware \<Rightarrow> addr \<Rightarrow> nat \<Rightarrow> addr \<Rightarrow> addr list \<Rightarrow> (addr \<Rightarrow> addr list) \<Rightarrow> 'd kernel \<Rightarrow> nat \<times> (addr \<Rightarrow> nat) \<Rightarrow> bool" where
  "sched_ready H hhdm k tf ps ts s = (\<lambda>(i, cur). timer_ready H hhdm s k \<and>
     this_core_lock s \<notin> obj_bytes (core_at s k) tf ps ts \<and> sleep_lock s \<notin> obj_bytes (core_at s k) tf ps ts \<and>
     (\<forall>j < k. span (core_at s j) 64 \<inter> obj_bytes (core_at s k) tf ps ts = {}) \<and>
     sched_ok (ram s) (core_at s k) tf ps ts i cur \<and>
     (\<forall>p \<in> set ps. \<forall>t \<in> set (ts p). load16 (ram s) (t + th_flags) AND THREAD_STARTUP = 0))"

lemma begin_timer_result:
  assumes "timer_ready H hhdm s k"
  shows "\<exists>d f. sched_begin_timer H hhdm s = ret (s\<lparr>ram := store64 (ram s) (core_at s k) f, hw := d\<rparr>)"
proof -
  obtain d f where c: "lapic_timer_calibrate H hhdm s = ret (s\<lparr>ram := store64 (ram s) (core_at s k) f, hw := d\<rparr>)"
    using calibrate_result [OF assms] by blast
  have "on_core H hhdm (s\<lparr>ram := store64 (ram s) (core_at s k) f, hw := d\<rparr>) k"
    using on_core_freq [of H hhdm s k f] assms by (simp add: timer_ready_def)
  from oneshot_result [OF this, of SCHED_QUANTUM_BASE] c show ?thesis by (auto simp: sched_begin_timer_def)
qed

text \<open>Everything a switch may write, and what it cannot touch.\<close>

definition yield_bytes :: "addr \<Rightarrow> addr \<Rightarrow> addr list \<Rightarrow> (addr \<Rightarrow> addr list) \<Rightarrow> addr set" where
  "yield_bytes core tf ps ts = sched_bytes core ps ts \<union> span tf 176 \<union> (\<Union>p \<in> set ps. \<Union>t \<in> set (ts p). span t 176)"

lemma obj_part: "(a, n) \<in> objs core tf ps ts \<Longrightarrow> i + j \<le> n \<Longrightarrow> span (a + of_nat i) j \<subseteq> obj_bytes core tf ps ts"
  using span_sub [of i j n a] by (force simp: obj_bytes_def)

lemma queue_bytes_obj: "queue_bytes core ps ts \<subseteq> obj_bytes core tf ps ts"
proof
  fix x
  assume "x \<in> queue_bytes core ps ts"
  then show "x \<in> obj_bytes core tf ps ts"
  proof (cases rule: queue_bytes_cases)
    case 1
    then show ?thesis using obj_part [OF objs_mem(1), of 40 16 core tf ps ts] by auto
  next
    case (2 p)
    then show ?thesis using obj_part [OF objs_mem(3) [OF 2(1)], of 272 32 core tf ts] by auto
  next
    case (3 p t)
    then show ?thesis using obj_part [OF objs_mem(4) [where ts = ts, OF 3(1,2)], of 200 16 core tf] by auto
  qed
qed

lemma yield_bytes_obj: "yield_bytes core tf ps ts \<subseteq> obj_bytes core tf ps ts"
proof -
  have "span (core + core_running_process) 8 \<subseteq> obj_bytes core tf ps ts"
    using obj_part [OF objs_mem(1), of 56 8 core tf ps ts] by (simp add: core_offsets)
  moreover have "span (p + pr_running_thread) 8 \<subseteq> obj_bytes core tf ps ts" if "p \<in> set ps" for p
    using obj_part [OF objs_mem(3) [OF that], of 304 8 core tf ts] by (simp add: pr_offsets)
  moreover have "span t 176 \<subseteq> obj_bytes core tf ps ts" if "p \<in> set ps" "t \<in> set (ts p)" for p t
    using obj_part [OF objs_mem(4) [where ts = ts, OF that], of 0 176 core tf] by simp
  moreover have "span tf 176 \<subseteq> obj_bytes core tf ps ts"
    using obj_part [OF objs_mem(2), of 0 176 tf core ps ts] by simp
  ultimately show ?thesis using queue_bytes_obj [of core ps ts tf] unfolding yield_bytes_def sched_bytes_def by blast
qed

lemma yield_bytes_core:
  assumes "sched_apart core tf ps ts" and "i + j \<le> 40" and "x \<in> span (core + of_nat i) j"
  shows "x \<notin> yield_bytes core tf ps ts"
proof -
  have "x \<notin> sched_bytes core ps ts" by (rule part_no_sched [OF assms(1) objs_mem(1), of i j]) (use assms(2,3) in auto)
  moreover have "span (core + of_nat i) j \<inter> span (tf + of_nat 0) 176 = {}"
    by (rule parts_apart [OF assms(1) objs_mem(1,2)]) (use assms(2) in auto)
  moreover have "span (core + of_nat i) j \<inter> span (t + of_nat 0) 176 = {}" if "p \<in> set ps" "t \<in> set (ts p)" for p t
    by (rule parts_apart [OF assms(1) objs_mem(1) objs_mem(4) [where ts = ts, OF that]]) (use assms(2) in auto)
  ultimately show ?thesis using assms(3) by (fastforce simp: yield_bytes_def)
qed

lemma yield_bytes_flags:
  assumes "sched_apart core tf ps ts" and "p \<in> set ps" and "t \<in> set (ts p)" and "x \<in> span (t + th_flags) 2"
  shows "x \<notin> yield_bytes core tf ps ts"
proof -
  note o = objs_mem(4) [where ts = ts, OF assms(2,3)]
  have x: "x \<in> span (t + of_nat 184) 2" using assms(4) by (simp add: th_flags_def)
  have "x \<notin> sched_bytes core ps ts" by (rule part_no_sched [OF assms(1) o _ _ _ _ x]) auto
  moreover have "span (t + of_nat 184) 2 \<inter> span (tf + of_nat 0) 176 = {}" by (rule parts_apart [OF assms(1) o objs_mem(2)]) auto
  moreover have "span (t + of_nat 184) 2 \<inter> span (t' + of_nat 0) 176 = {}" if "p' \<in> set ps" "t' \<in> set (ts p')" for p' t'
    by (rule parts_apart [OF assms(1) o objs_mem(4) [where ts = ts, OF that]]) auto
  ultimately show ?thesis using x by (fastforce simp: yield_bytes_def)
qed

text \<open>A switch, or anything else that writes only where a switch may, keeps the core ready.\<close>

lemma sched_ready_ram:
  assumes "sched_ready H hhdm k tf ps ts s (i, cur)" and "sched_ok m (core_at s k) tf ps ts j cur'"
    and "\<And>x. x \<notin> yield_bytes (core_at s k) tf ps ts \<Longrightarrow> m x = ram s x"
  shows "sched_ready H hhdm k tf ps ts (s\<lparr>ram := m, hw := d\<rparr>) (j, cur')"
proof -
  let ?B = "obj_bytes (core_at s k) tf ps ts"
  have r: "timer_ready H hhdm s k" "this_core_lock s \<notin> ?B" "sleep_lock s \<notin> ?B" "sched_apart (core_at s k) tf ps ts"
    "\<forall>j < k. span (core_at s j) 64 \<inter> ?B = {}"
    "\<forall>p \<in> set ps. \<forall>t \<in> set (ts p). load16 (ram s) (t + th_flags) AND THREAD_STARTUP = 0"
    using assms(1) by (auto simp: sched_ready_def sched_ok_def)
  have keep: "m x = ram s x" if "x \<notin> ?B" for x using that yield_bytes_obj assms(3) by blast
  have locks: "m (this_core_lock s) = 0" "m (sleep_lock s) = 0"
    using keep r(1-3) by (auto simp: timer_ready_def on_core_def)
  have "on_core H hhdm (s\<lparr>ram := m\<rparr>) k"
  proof (rule on_core_ram)
    show "on_core H hhdm s k" using r(1) by (simp add: timer_ready_def)
    show "m (this_core_lock s) = 0" by (rule locks)
    fix j x
    assume j: "j \<le> k" and x: "x \<in> span (core_at s j + core_lapic_id) 4"
    show "m x = ram s x"
    proof (cases "j = k")
      case True
      then show ?thesis using yield_bytes_core [OF r(4), of 8 4 x] x by (intro assms(3)) (auto simp: core_lapic_id_def)
    next
      case False
      then have "span (core_at s j) 64 \<inter> ?B = {}" using r(5) j by auto
      moreover have "x \<in> span (core_at s j) 64" using x span_sub [of 8 4 64 "core_at s j"] by (auto simp: core_lapic_id_def)
      ultimately show ?thesis by (intro keep) blast
    qed
  qed
  moreover have "load16 m (t + th_flags) = load16 (ram s) (t + th_flags)" if "p \<in> set ps" "t \<in> set (ts p)" for p t
    by (rule load16_cong, rule assms(3)) (use yield_bytes_flags [OF r(4) that] in blast)
  ultimately show ?thesis using r locks assms(2) by (simp add: sched_ready_def timer_ready_def)
qed

lemma yield_frame:
  assumes "sched_apart core tf ps ts" and "p \<in> set ps" and "t \<in> set (ts p)"
    and "\<And>x. x \<notin> sched_bytes core ps ts \<union> span t 176 \<union> span tf 176 \<Longrightarrow> m' x = m x" and "x \<notin> yield_bytes core tf ps ts"
  shows "m' x = m x"
  using assms(2-5) by (auto simp: yield_bytes_def)

text \<open>The frequency of the timer, which \<open>sched_begin_timer\<close> stores at the start of the descriptor.\<close>

lemma freq_frame:
  assumes "sched_apart core tf ps ts" and "x \<in> yield_bytes core tf ps ts"
  shows "store64 m core f x = m x"
  by (rule store64_notin) (use yield_bytes_core [OF assms(1), of 0 8 x] assms(2) in auto)

lemma sched_ready_freq:
  assumes r: "sched_ready H hhdm k tf ps ts s (i, cur)"
  shows "sched_ready H hhdm k tf ps ts (s\<lparr>ram := store64 (ram s) (core_at s k) f, hw := d\<rparr>) (i, cur)"
proof -
  let ?c = "core_at s k" and ?m = "store64 (ram s) (core_at s k) f"
  have ok: "sched_ok (ram s) ?c tf ps ts i cur" and tr: "timer_ready H hhdm s k" using r by (simp_all add: sched_ready_def)
  note ap = sched_okD(1) [OF ok]
  have "sched_ok ?m ?c tf ps ts i cur" by (rule sched_ok_cong [OF ok]) (simp add: freq_frame [OF ap] yield_bytes_def)
  moreover have "span ?c 8 \<subseteq> obj_bytes ?c tf ps ts" using obj_part [OF objs_mem(1), of 0 8 ?c tf ps ts] by simp
  then have "?m (sleep_lock s) = 0" using r by (subst store64_notin) (auto simp: sched_ready_def timer_ready_def)
  moreover have "on_core H hhdm (s\<lparr>ram := ?m\<rparr>) k" using tr by (intro on_core_freq) (simp add: timer_ready_def)
  moreover have "load16 ?m (t + th_flags) = load16 (ram s) (t + th_flags)" if "p \<in> set ps" "t \<in> set (ts p)" for p t
  proof (rule load16_cong, rule store64_notin)
    have "span (t + of_nat 184) 2 \<inter> span (?c + of_nat 0) 8 = {}"
      by (rule parts_apart [OF ap objs_mem(4) [where ts = ts, OF that] objs_mem(1)]) auto
    then show "x \<notin> span ?c 8" if "x \<in> span (t + th_flags) 2" for x using that by (auto simp: th_flags_def)
  qed
  ultimately show ?thesis using r by (simp add: sched_ready_def timer_ready_def)
qed

lemma yield_result:
  assumes r: "sched_ready H hhdm k tf ps ts s (i, cur)" and nx: "rr_step ps ts (i, cur) = (j, cur')"
  defines "t \<equiv> rr_thread ps ts (i, cur)" and "t' \<equiv> rr_thread ps ts (j, cur')"
  shows "\<exists>s'. sched_yield H hhdm s tf = ret s' \<and> sched_ready H hhdm k tf ps ts s' (j, cur') \<and> core_at s' k = core_at s k \<and>
    bytes_at (ram s') t 176 = bytes_at (ram s) tf 176 \<and>
    bytes_at (ram s') tf 176 = (if t' = t then bytes_at (ram s) tf 176 else bytes_at (ram s) t' 176)"
proof -
  let ?c = "core_at s k"
  have ok: "sched_ok (ram s) ?c tf ps ts i cur" and tr: "timer_ready H hhdm s k" using r by (simp_all add: sched_ready_def)
  note so = sched_okD [OF ok] and rt = rr_thread_in [OF ok, folded t_def]
  have nz: "?c \<noteq> 0" using tr by (simp add: timer_ready_def on_core_def)
  obtain d where d: "this_core H hhdm s = ret (?c, s\<lparr>hw := d\<rparr>)" using this_core_on [of H hhdm s k] tr unfolding timer_ready_def by blast
  have "load16 (ram s) (t + th_flags) AND THREAD_STARTUP = 0" using r so(5) rt(1) by (auto simp: sched_ready_def)
  from switch_normal [OF ok nx this [unfolded t_def], folded t_def t'_def] obtain m where
    m: "switch (ram s) ?c tf = Inr m" "sched_ok m ?c tf ps ts j cur'" "bytes_at m t 176 = bytes_at (ram s) tf 176"
      "bytes_at m tf 176 = (if t' = t then bytes_at (ram s) tf 176 else bytes_at (ram s) t' 176)"
      "\<And>x. x \<notin> sched_bytes ?c ps ts \<union> span t 176 \<union> span tf 176 \<Longrightarrow> m x = ram s x" by blast
  have my: "m x = ram s x" if "x \<notin> yield_bytes ?c tf ps ts" for x
    by (rule yield_frame [OF so(1,5) rt(1) m(5) that])
  let ?s = "s\<lparr>ram := m, hw := d\<rparr>"
  have r1: "sched_ready H hhdm k tf ps ts ?s (j, cur')" by (rule sched_ready_ram [OF r m(2) my])
  then have "timer_ready H hhdm ?s k" by (simp add: sched_ready_def)
  from begin_timer_result [OF this] obtain d' f where
    b: "sched_begin_timer H hhdm ?s = ret (?s\<lparr>ram := store64 m ?c f, hw := d'\<rparr>)" by auto
  let ?m = "store64 m ?c f"
  have y: "?m x = m x" if "x \<in> yield_bytes ?c tf ps ts" for x by (rule freq_frame [OF so(1) that])
  have "sched_ready H hhdm k tf ps ts (?s\<lparr>ram := ?m, hw := d'\<rparr>) (j, cur')"
    using sched_ready_freq [OF r1, where f = f and d = d'] by simp
  moreover have "bytes_at ?m t 176 = bytes_at m t 176" "bytes_at ?m tf 176 = bytes_at m tf 176"
    by (rule bytes_at_cong, rule y, use so(5) rt(1) in \<open>auto simp: yield_bytes_def\<close>)+
  moreover have eq: "s\<lparr>hw := d, ram := m\<rparr> = ?s" by simp
  have "sched_begin_timer H hhdm (s\<lparr>hw := d, ram := m\<rparr>) = ret (?s\<lparr>ram := ?m, hw := d'\<rparr>)" unfolding eq by (rule b)
  then have "sched_yield H hhdm s tf = ret (?s\<lparr>ram := ?m, hw := d'\<rparr>)" using d nz m(1) by (simp add: sched_yield_def)
  ultimately show ?thesis using m(3,4) by (intro exI [of _ "?s\<lparr>ram := ?m, hw := d'\<rparr>"]) simp
qed

subsection \<open>Runs\<close>

text \<open>
  The life of a core: between two interrupts the running threads and the devices may change anything but
  the scheduler's objects (the trap frame excepted) and the locks; every timer interrupt is a call
  of \<open>sched_yield\<close>.
\<close>

definition own_bytes :: "'d kernel \<Rightarrow> nat \<Rightarrow> addr \<Rightarrow> addr list \<Rightarrow> (addr \<Rightarrow> addr list) \<Rightarrow> addr set" where
  "own_bytes s k tf ps ts = (obj_bytes (core_at s k) tf ps ts - span tf 176) \<union> {this_core_lock s, sleep_lock s} \<union>
     (\<Union>j \<in> {..<k}. span (core_at s j) 64)"

inductive sched_run ::
  "'d hardware \<Rightarrow> addr \<Rightarrow> nat \<Rightarrow> addr \<Rightarrow> addr list \<Rightarrow> (addr \<Rightarrow> addr list) \<Rightarrow> 'd kernel \<Rightarrow> nat \<Rightarrow> 'd kernel \<Rightarrow> bool"
  for H hhdm k tf ps ts s where
  start: "sched_run H hhdm k tf ps ts s 0 s"
| work: "sched_run H hhdm k tf ps ts s n s' \<Longrightarrow> (\<And>x. x \<in> own_bytes s' k tf ps ts \<Longrightarrow> m x = ram s' x) \<Longrightarrow>
     sched_run H hhdm k tf ps ts s n (s'\<lparr>ram := m, hw := d\<rparr>)"
| tick: "sched_run H hhdm k tf ps ts s n s' \<Longrightarrow> sched_yield H hhdm s' tf = ret s'' \<Longrightarrow>
     sched_run H hhdm k tf ps ts s (Suc n) s''"

lemma obj_not_tf:
  assumes "sched_apart core tf ps ts" and "(a, n) \<in> objs core tf ps ts" and "n \<noteq> 176" and "i + j \<le> n" and "x \<in> span (a + of_nat i) j"
  shows "x \<in> obj_bytes core tf ps ts - span tf 176"
proof -
  have "span (a + of_nat i) j \<inter> span (tf + of_nat 0) 176 = {}"
    by (rule parts_apart [OF assms(1,2) objs_mem(2) assms(4)]) (use assms(3) in auto)
  then show ?thesis using assms(5) obj_part [OF assms(2,4)] by auto
qed

lemma sched_bytes_not_tf:
  assumes "sched_apart core tf ps ts" and "x \<in> sched_bytes core ps ts"
  shows "x \<in> obj_bytes core tf ps ts - span tf 176"
  using assms tf_part_no_sched(1) [OF assms(1)] yield_bytes_obj by (fastforce simp: yield_bytes_def)

lemma work_ready:
  assumes r: "sched_ready H hhdm k tf ps ts s (i, cur)" and m: "\<And>x. x \<in> own_bytes s k tf ps ts \<Longrightarrow> m x = ram s x"
  shows "sched_ready H hhdm k tf ps ts (s\<lparr>ram := m, hw := d\<rparr>) (i, cur)"
proof -
  let ?c = "core_at s k"
  have ok: "sched_ok (ram s) ?c tf ps ts i cur" and tr: "timer_ready H hhdm s k" using r by (simp_all add: sched_ready_def)
  note ap = sched_okD(1) [OF ok]
  have "sched_ok m ?c tf ps ts i cur"
    by (rule sched_ok_cong [OF ok], rule m) (use sched_bytes_not_tf [OF ap] in \<open>auto simp: own_bytes_def\<close>)
  moreover have l: "m (this_core_lock s) = 0" "m (sleep_lock s) = 0"
    using m tr by (auto simp: own_bytes_def timer_ready_def on_core_def)
  moreover have "on_core H hhdm (s\<lparr>ram := m\<rparr>) k"
  proof (rule on_core_ram)
    fix j x
    assume j: "j \<le> k" and x: "x \<in> span (core_at s j + core_lapic_id) 4"
    show "m x = ram s x"
    proof (cases "j = k")
      case True
      then have "x \<in> span (?c + of_nat 8) 4" using x by (simp add: core_lapic_id_def)
      from obj_not_tf [OF ap objs_mem(1) _ _ this] show ?thesis by (intro m) (auto simp: own_bytes_def)
    next
      case False
      moreover have "x \<in> span (core_at s j) 64" using x span_sub [of 8 4 64 "core_at s j"] by (auto simp: core_lapic_id_def)
      ultimately show ?thesis using j by (intro m) (auto simp: own_bytes_def)
    qed
  qed (use tr l in \<open>simp_all add: timer_ready_def\<close>)
  moreover have "load16 m (t + th_flags) = load16 (ram s) (t + th_flags)" if "p \<in> set ps" "t \<in> set (ts p)" for p t
  proof (rule load16_cong, rule m)
    fix x
    assume "x \<in> span (t + th_flags) 2"
    then have "x \<in> span (t + of_nat 184) 2" by (simp add: th_flags_def)
    from obj_not_tf [OF ap objs_mem(4) [where ts = ts, OF that] _ _ this] show "x \<in> own_bytes s k tf ps ts"
      by (auto simp: own_bytes_def)
  qed
  ultimately show ?thesis using r by (simp add: sched_ready_def timer_ready_def)
qed

lemma run_result:
  assumes "sched_run H hhdm k tf ps ts s n s'" and "sched_ready H hhdm k tf ps ts s st"
  shows "sched_ready H hhdm k tf ps ts s' ((rr_step ps ts ^^ n) st) \<and> core_at s' k = core_at s k"
  using assms
proof (induction rule: sched_run.induct)
  case (work n s' m d)
  then show ?case using work_ready [of H hhdm k tf ps ts s' "fst ((rr_step ps ts ^^ n) st)" "snd ((rr_step ps ts ^^ n) st)" m d] by simp
next
  case (tick n s' s'')
  let ?st = "(rr_step ps ts ^^ n) st"
  have "sched_ready H hhdm k tf ps ts s' (fst ?st, snd ?st)" using tick by simp
  from yield_result [OF this prod.collapse [symmetric]] tick show ?case by auto
qed simp

lemma rr_index: "fst ((rr_step ps ts ^^ n) (i, cur)) mod length ps = (i + n) mod length ps"
proof (induction n)
  case (Suc n)
  have "fst (rr_step ps ts st) = Suc (fst st) mod length ps" for st by (cases st) (simp add: rr_step_def)
  then show ?case using Suc by simp (metis mod_Suc_eq)
qed simp

subsection \<open>A core with one thread\<close>

text \<open>The descriptor at \<open>0x1000\<close>, a process at \<open>0x2000\<close>, its thread at \<open>0x3000\<close>, the trap frame at \<open>0x8000\<close>.\<close>

definition demo_sched :: memory where
  "demo_sched = (\<lambda>_. 0)(0x1029 := 0x20, 0x1030 := 0x10, 0x1031 := 0x21, 0x1039 := 0x20, 0x2118 := 0x28, 0x2119 := 0x10,
     0x2121 := 0x30, 0x2128 := 0xC8, 0x2129 := 0x30, 0x2131 := 0x30, 0x30D0 := 0x20, 0x30D1 := 0x21)"

lemma demo_loads:
  "load64 demo_sched 0x1028 = 0x2000" "load64 demo_sched 0x1030 = 0x2110" "load64 demo_sched 0x1038 = 0x2000"
  "load64 demo_sched 0x2110 = 0" "load64 demo_sched 0x2118 = 0x1028" "load64 demo_sched 0x2120 = 0x3000"
  "load64 demo_sched 0x2128 = 0x30C8" "load64 demo_sched 0x2130 = 0x3000" "load64 demo_sched 0x30C8 = 0"
  "load64 demo_sched 0x30D0 = 0x2120"
  by (subst load64_two; simp add: demo_sched_def)+

lemma demo_apart:
  "span 0x1000 64 \<inter> span 0x8000 176 = {}" "span 0x1000 64 \<inter> span 0x2000 328 = {}" "span 0x1000 64 \<inter> span 0x3000 216 = {}"
  "span 0x2000 328 \<inter> span 0x8000 176 = {}" "span 0x3000 216 \<inter> span 0x8000 176 = {}" "span 0x2000 328 \<inter> span 0x3000 216 = {}"
  "span 0x1028 16 \<inter> span 0x2110 16 = {}" "span 0x2120 16 \<inter> span 0x30C8 16 = {}"
  using span_disjoint_nat [of "0x1000" 64 "0x8000" 176] span_disjoint_nat [of "0x1000" 64 "0x2000" 328]
    span_disjoint_nat [of "0x1000" 64 "0x3000" 216] span_disjoint_nat [of "0x2000" 328 "0x8000" 176]
    span_disjoint_nat [of "0x3000" 216 "0x8000" 176] span_disjoint_nat [of "0x2000" 328 "0x3000" 216]
    span_disjoint_nat [of "0x1028" 16 "0x2110" 16] span_disjoint_nat [of "0x2120" 16 "0x30C8" 16]
  by simp_all

lemma demo_sched_ok: "sched_ok demo_sched 0x1000 0x8000 [0x2000] (\<lambda>_. [0x3000]) 0 (\<lambda>_. 0)"
proof -
  have "sched_apart 0x1000 0x8000 [0x2000] (\<lambda>_. [0x3000])"
    using demo_apart(1-6) by (auto simp: sched_apart_def objs_def Int_commute)
  moreover have "tailq demo_sched 0x1028 272 [0x2000]" "tailq demo_sched 0x2120 200 [0x3000]"
    using demo_loads demo_apart(7,8) by (simp_all add: tailq_def cells_apart_def)
  ultimately show ?thesis using demo_loads by (simp add: sched_ok_def queues_def core_offsets pr_offsets th_offsets)
qed

lemma demo_small:
  assumes "a < 0x1000"
  shows "(of_nat a :: addr) \<notin> obj_bytes 0x1000 0x8000 [0x2000] (\<lambda>_. [0x3000])"
  using of_nat_notin_span [of a "0x1000" 64] of_nat_notin_span [of a "0x8000" 176] of_nat_notin_span [of a "0x2000" 328]
    of_nat_notin_span [of a "0x3000" 216] assms by (simp add: obj_bytes_def objs_def)

lemma demo_ready: "sched_ready demo_hw 0 0 0x8000 [0x2000] (\<lambda>_. [0x3000]) (demo_kernel demo_sched) (0, \<lambda>_. 0)"
proof -
  have "load32 demo_sched 0x1008 = 0" "load16 demo_sched 0x30B8 = 0"
    by (simp_all add: load_small demo_sched_def)
  moreover from this have "on_core demo_hw 0 (demo_kernel demo_sched) 0" by (intro demo_on_core) (simp_all add: demo_sched_def)
  moreover have "demo_sched 0x11 = 0" by (simp add: demo_sched_def)
  ultimately show ?thesis
    using demo_sched_ok demo_hpet_counts [of 0] demo_small [of "0x10"] demo_small [of "0x11"]
    by (simp add: sched_ready_def timer_ready_def demo_kernel_def demo_machine_def core_at_def th_offsets)
qed

subsection \<open>Properties\<close>





end
