(* ===== verification/Smp.thy ===== *)
theory Smp
  imports Interrupts
begin

text \<open>
  Segments and cores: the global descriptor table (\<^verbatim>\<open>sys/amd64/gdt.c\<close>, \<^verbatim>\<open>sys/include/amd64/gdt.h\<close>), the task state
  segments (\<^verbatim>\<open>sys/amd64/tss.c\<close>, \<^verbatim>\<open>sys/include/amd64/tss.h\<close>) and the start of the cores (\<^verbatim>\<open>sys/amd64/smp.c\<close>). The
  static table \<open>g_gdt\<close> lies in memory at the address \<open>g_gdt s\<close>; the register loads of the assembly
  routines set the fields of the running core.
\<close>

subsection \<open>Descriptor tables\<close>

record gdt_desc =
  seg_limit :: uint16_t
  base_low :: uint16_t
  base_mid :: uint8_t
  access :: uint8_t
  granularity :: uint8_t
  base_hi :: uint8_t

definition g_gdt_init :: "gdt_desc list" where
  "g_gdt_init =
     [\<lparr>seg_limit = 0, base_low = 0, base_mid = 0, access = 0, granularity = 0, base_hi = 0\<rparr>,
      \<lparr>seg_limit = 0xFFFF, base_low = 0x0000, base_mid = 0x00, access = 0x9A, granularity = 0x00, base_hi = 0x00\<rparr>,
      \<lparr>seg_limit = 0xFFFF, base_low = 0x0000, base_mid = 0x00, access = 0x92, granularity = 0x00, base_hi = 0x00\<rparr>,
      \<lparr>seg_limit = 0xFFFF, base_low = 0x0000, base_mid = 0x00, access = 0x9A, granularity = 0xCF, base_hi = 0x00\<rparr>,
      \<lparr>seg_limit = 0xFFFF, base_low = 0x0000, base_mid = 0x00, access = 0x92, granularity = 0xCF, base_hi = 0x00\<rparr>,
      \<lparr>seg_limit = 0x0000, base_low = 0x0000, base_mid = 0x00, access = 0x9A, granularity = 0x20, base_hi = 0x00\<rparr>,
      \<lparr>seg_limit = 0x0000, base_low = 0x0000, base_mid = 0x00, access = 0x92, granularity = 0x00, base_hi = 0x00\<rparr>,
      \<lparr>seg_limit = 0x0000, base_low = 0x0000, base_mid = 0x00, access = 0xFA, granularity = 0xAF, base_hi = 0x00\<rparr>,
      \<lparr>seg_limit = 0x0000, base_low = 0x0000, base_mid = 0x00, access = 0xF2, granularity = 0x00, base_hi = 0x00\<rparr>,
      \<lparr>seg_limit = 0, base_low = 0, base_mid = 0, access = 0, granularity = 0, base_hi = 0\<rparr>,
      \<lparr>seg_limit = 0, base_low = 0, base_mid = 0, access = 0, granularity = 0, base_hi = 0\<rparr>,
      \<lparr>seg_limit = 0, base_low = 0, base_mid = 0, access = 0, granularity = 0, base_hi = 0\<rparr>,
      \<lparr>seg_limit = 0, base_low = 0, base_mid = 0, access = 0, granularity = 0, base_hi = 0\<rparr>]"

definition GDT_TSS :: uint64_t where "GDT_TSS = 0x9"
definition sizeof_gdt_desc :: uint64_t where "sizeof_gdt_desc = 8"
definition sizeof_g_gdt :: uint64_t where "sizeof_g_gdt = sizeof_gdt_desc * 13"
definition gdtr_limit_off :: uint64_t where "gdtr_limit_off = 0"
definition gdtr_ptr_off :: uint64_t where "gdtr_ptr_off = 2"
definition sizeof_gdtr :: uint64_t where "sizeof_gdtr = 10"

text \<open>The limit and the address of a \<open>gdtr_t\<close> go to the register.\<close>

definition load_gdt :: "'d kernel \<Rightarrow> uint16_t \<Rightarrow> addr \<Rightarrow> 'd kernel" where
  "load_gdt s limit ptr = s\<lparr>gdtr_limit := limit, gdtr_base := ptr\<rparr>"

definition load_gdt_bsp :: "'d kernel \<Rightarrow> 'd kernel" where
  "load_gdt_bsp s = load_gdt s (ucast sizeof_g_gdt - 1) (g_gdt s)"

text \<open>\<^verbatim>\<open>sys/amd64/tssasm.s\<close>\<close>

definition load_tss :: "'d kernel \<Rightarrow> 'd kernel" where
  "load_tss s = s\<lparr>task_register := 0x48 OR 3\<rparr>"

subsection \<open>Task state segments\<close>

definition tss_rsp0Low :: uint64_t where "tss_rsp0Low = 4"
definition tss_rsp0High :: uint64_t where "tss_rsp0High = 8"
definition sizeof_tss :: uint64_t where "sizeof_tss = 104"

text \<open>Offsets in \<open>tss_desc_t\<close>; the bytes 5 and 6 hold the bit fields.\<close>

definition td_seglimit :: uint64_t where "td_seglimit = 0"
definition td_baseAddrLow :: uint64_t where "td_baseAddrLow = 2"
definition td_baseAddrMiddle :: uint64_t where "td_baseAddrMiddle = 4"
definition td_access :: uint64_t where "td_access = 5"
definition td_flags :: uint64_t where "td_flags = 6"
definition td_baseAddrOtherMiddle :: uint64_t where "td_baseAddrOtherMiddle = 7"
definition td_baseAddrUpper :: uint64_t where "td_baseAddrUpper = 8"
definition td_reserved :: uint64_t where "td_reserved = 12"

lemmas td_offsets = td_seglimit_def td_baseAddrLow_def td_baseAddrMiddle_def td_access_def td_flags_def
  td_baseAddrOtherMiddle_def td_baseAddrUpper_def td_reserved_def tss_rsp0Low_def tss_rsp0High_def sizeof_tss_def

text \<open>An assignment to the bit field of width \<open>w\<close> at bit \<open>lo\<close> of a byte.\<close>

definition set_field :: "uint8_t \<Rightarrow> nat \<Rightarrow> nat \<Rightarrow> uint8_t \<Rightarrow> uint8_t" where
  "set_field b lo w v = (b AND NOT (push_bit lo (mask w))) OR push_bit lo (take_bit w v)"

definition set_bits :: "memory \<Rightarrow> addr \<Rightarrow> nat \<Rightarrow> nat \<Rightarrow> uint8_t \<Rightarrow> memory" where
  "set_bits m a lo w v = m(a := set_field (m a) lo w v)"

text \<open>The assignments of \<open>write_tss\<close> once the stack has been allocated.\<close>

definition fill_tss :: "memory \<Rightarrow> addr \<Rightarrow> addr \<Rightarrow> addr \<Rightarrow> memory" where
  "fill_tss m gdt_tss tss stack =
     (let tss_base = tss;
          m = store32 m (tss + tss_rsp0Low) (ucast (stack AND ucast (ucast stack :: uint32_t)));
          stack = ucast (ucast (drop_bit 32 stack) :: uint32_t) :: uint64_t;
          m = store32 m (tss + tss_rsp0High) (ucast stack);
          m = store16 m (gdt_tss + td_seglimit) (ucast sizeof_tss);
          m = set_bits m (gdt_tss + td_flags) 7 1 0;
          m = store16 m (gdt_tss + td_baseAddrLow) (ucast (tss_base AND 0xFFFF));
          m = m(gdt_tss + td_baseAddrMiddle := ucast (drop_bit 16 tss_base AND 0xFF));
          m = m(gdt_tss + td_baseAddrOtherMiddle := ucast (drop_bit 24 tss_base AND 0xFF));
          m = store32 m (gdt_tss + td_baseAddrUpper) (ucast (drop_bit 32 tss_base));
          m = set_bits m (gdt_tss + td_flags) 4 1 0;
          m = set_bits m (gdt_tss + td_access) 5 2 0;
          m = set_bits m (gdt_tss + td_access) 7 1 1;
          m = store32 m (gdt_tss + td_reserved) 0;
          m = set_bits m (gdt_tss + td_access) 0 4 0x9;
          m = set_bits m (gdt_tss + td_access) 4 1 0
      in m)"

definition write_tss :: "'d kernel \<Rightarrow> addr \<Rightarrow> addr \<Rightarrow> 'd kernel res" where
  "write_tss s gdt_tss tss =
     (if tss = 0 then Inl Null_Deref
      else let s = s\<lparr>ram := memzero (ram s) tss sizeof_tss\<rparr>
           in bindE (heap_call (\<lambda>h. kmalloc h 0x500) s) (\<lambda>(p, s).
              Inr (s\<lparr>ram := fill_tss (ram s) gdt_tss tss (p + (0x500 - 1))\<rparr>)))"

definition load_tss_bsp :: "'d kernel \<Rightarrow> 'd kernel res" where
  "load_tss_bsp s =
     bindE (heap_call (\<lambda>h. kmalloc h sizeof_tss) s) (\<lambda>(tss, s).
     let s = s\<lparr>bsp_tss := tss\<rparr>
     in bindE (write_tss s (g_gdt s + sizeof_gdt_desc * 0x9) tss) (\<lambda>s. Inr (load_tss s)))"

subsection \<open>Cores\<close>

definition core_gdt :: uint64_t where "core_gdt = 16"
definition core_gdtr :: uint64_t where "core_gdtr = 24"
definition core_tss :: uint64_t where "core_tss = 32"

definition init_core_desc :: "'d kernel \<Rightarrow> addr \<Rightarrow> uint8_t \<Rightarrow> 'd kernel res" where
  "init_core_desc s desc lapic_id =
     (if desc = 0 then Inl Null_Deref
      else let s = s\<lparr>ram := store32 (ram s) (desc + core_lapic_id) (ucast lapic_id)\<rparr>
           in bindE (heap_call (\<lambda>h. kmalloc h (sizeof_gdt_desc * 13)) s) (\<lambda>(gdt, s).
              let s = s\<lparr>ram := store64 (ram s) (desc + core_gdt) gdt\<rparr>
              in if gdt = 0 then Inl Null_Deref
                 else let s = s\<lparr>ram := memcpy (ram s) gdt (g_gdt s) sizeof_g_gdt\<rparr>
                 in bindE (heap_call (\<lambda>h. kmalloc h sizeof_gdtr) s) (\<lambda>(gdtr, s).
                    let s = s\<lparr>ram := store64 (ram s) (desc + core_gdtr) gdtr\<rparr>
                    in if gdtr = 0 then Inl Null_Deref
                       else let m = store16 (ram s) (gdtr + gdtr_limit_off) (ucast sizeof_g_gdt - 1);
                                m = store64 m (gdtr + gdtr_ptr_off) (load64 m (desc + core_gdt));
                                m = m(desc + core_lock := 0);
                                m = store16 m (desc + core_flags) 0;
                                m = store64 m (desc + core_running_process) 0;
                                m = TAILQ_INIT m (desc + core_processq_head);
                                s = s\<lparr>ram := m\<rparr>
                       in bindE (heap_call (\<lambda>h. kmalloc h sizeof_tss) s) (\<lambda>(tss, s).
                          let s = s\<lparr>ram := store64 (ram s) (desc + core_tss) tss\<rparr>
                          in write_tss s (load64 (ram s) (desc + core_gdt) + sizeof_gdt_desc * GDT_TSS) tss))))"

text \<open>\<open>ap_entry\<close> up to the endless loop at its end. The register loads are those of the starting core.\<close>

definition ap_entry :: "'d hardware \<Rightarrow> addr \<Rightarrow> addr \<Rightarrow> limine_smp_info \<Rightarrow> 'd kernel \<Rightarrow> 'd kernel run" where
  "ap_entry H hhdm lapic_timer_isr info s =
     (let s = s\<lparr>vm := vmm_load_pml4 hhdm (vm s) (extra_argument info)\<rparr>;
          s = load_idt s
      in bindR (lock_acquire s (ap_lock s)) (\<lambda>s.
         let gdtr = load64 (ram s) (g_corelist s + core_idx s * sizeof_core + core_gdtr);
             s = load_gdt s (load16 (ram s) (gdtr + gdtr_limit_off)) (load64 (ram s) (gdtr + gdtr_ptr_off));
             s = load_tss s;
             s = lapic_init H hhdm lapic_timer_isr s
         in bindR (lapic_timer_calibrate H hhdm s) (\<lambda>s.
            ret (lock_release s (ap_lock s)))))"

text \<open>The two loops of \<open>smp_init\<close> over the cores \<open>i, i + 1, \<dots>\<close> of the response; \<open>ap\<close> is the address of \<open>ap_entry\<close>.\<close>

definition init_core :: "limine_smp_response \<Rightarrow> nat \<Rightarrow> 'd kernel \<Rightarrow> 'd kernel res" where
  "init_core r i s =
     bindE (array_get (cpus r) (int i)) (\<lambda>c.
     init_core_desc s (if g_corelist s = 0 then 0 else g_corelist s + of_nat i * sizeof_core) (ucast (info_lapic_id c)))"

definition start_core :: "shift_ub \<Rightarrow> addr \<Rightarrow> addr \<Rightarrow> nat \<Rightarrow> limine_smp_response \<times> 'd kernel \<Rightarrow> (limine_smp_response \<times> 'd kernel) res" where
  "start_core ub hhdm ap i = (\<lambda>(r, s).
     bindE (array_get (cpus r) (int i)) (\<lambda>c.
     if info_lapic_id c = bsp_lapic_id r then Inr (r, s)
     else bindE (vmm_call (vmm_make_pml4 ub hhdm) s) (\<lambda>(pml4, s).
          Inr (r\<lparr>cpus := (cpus r)[i := c\<lparr>extra_argument := pml4, goto_address := ap\<rparr>]\<rparr>, s))))"

definition smp_init :: "shift_ub \<Rightarrow> 'd hardware \<Rightarrow> addr \<Rightarrow> addr \<Rightarrow> 'd kernel \<Rightarrow> 'd kernel res" where
  "smp_init ub H hhdm ap s =
     (let s = s\<lparr>smp_resp := smp_req s\<rparr>
      in case smp_resp s of
           None \<Rightarrow> Inl Null_Deref
         | Some r \<Rightarrow>
             bindE (heap_call (\<lambda>h. kmalloc h (sizeof_core * cpu_count r)) s) (\<lambda>(p, s).
             let s = s\<lparr>g_corelist := p\<rparr>
             in bindE (printk H s (KERN_INFO @ map ch ''CPU has %d cores.'' @ [10]) [Num (cpu_count r)]) (\<lambda>s.
                bindE (loopE (init_core r) [0..<unat (cpu_count r)] s) (\<lambda>s.
                bindE (printk H s (KERN_INFO @ map ch ''Bootstrapping %d APs..'' @ [10]) [Num (cpu_count r - 1)]) (\<lambda>s.
                bindE (loopE (start_core ub hhdm ap) [0..<unat (cpu_count r)] (r, s)) (\<lambda>(r, s).
                Inr (s\<lparr>smp_resp := Some r\<rparr>)))))))"

subsection \<open>What the processor reads\<close>

text \<open>The base address of a TSS descriptor and the stack pointer a TSS holds for ring 0.\<close>

definition tss_desc_base :: "memory \<Rightarrow> addr \<Rightarrow> addr" where
  "tss_desc_base m a = ucast (load16 m (a + 2)) OR push_bit 16 (ucast (m (a + 4))) OR push_bit 24 (ucast (m (a + 7))) OR
     push_bit 32 (ucast (load32 m (a + 8)))"

definition tss_rsp0 :: "memory \<Rightarrow> addr \<Rightarrow> addr" where
  "tss_rsp0 m a = ucast (load32 m (a + 4)) OR push_bit 32 (ucast (load32 m (a + 8)))"

lemma base_parts:
  fixes a :: addr
  shows "ucast (ucast (a AND 0xFFFF) :: uint16_t) OR push_bit 16 (ucast (ucast (drop_bit 16 a AND 0xFF) :: uint8_t)) OR
    push_bit 24 (ucast (ucast (drop_bit 24 a AND 0xFF) :: uint8_t)) OR push_bit 32 (ucast (ucast (drop_bit 32 a) :: uint32_t)) = a"
proof (rule bit_word_eqI)
  fix n assume n: "n < LENGTH(64)"
  have m: "(0xFFFF :: addr) = mask 16" "(0xFF :: addr) = mask 8" by (simp_all add: mask_eq_exp_minus_1)
  show "bit (ucast (ucast (a AND 0xFFFF) :: uint16_t) OR push_bit 16 (ucast (ucast (drop_bit 16 a AND 0xFF) :: uint8_t)) OR
    push_bit 24 (ucast (ucast (drop_bit 24 a AND 0xFF) :: uint8_t)) OR push_bit 32 (ucast (ucast (drop_bit 32 a) :: uint32_t)) :: addr) n = bit a n"
    using n by (cases "n < 16"; cases "n < 24"; cases "n < 32") (auto simp: m bit_simps)
qed

lemma stack_parts:
  fixes a :: addr
  shows "ucast (ucast (a AND ucast (ucast a :: uint32_t)) :: uint32_t) OR
    push_bit 32 (ucast (ucast (ucast (ucast (drop_bit 32 a) :: uint32_t) :: uint64_t) :: uint32_t)) = a"
  by (rule bit_word_eqI) (auto simp: bit_simps)

lemma access_byte: "set_field (set_field (set_field (set_field b 5 2 0) 7 1 1) 0 4 9) 4 1 0 = 0x89"
proof (rule bit_word_eqI)
  fix n assume "n < LENGTH(8)"
  then have "n \<in> {0, 1, 2, 3, 4, 5, 6, 7}" by auto
  then show "bit (set_field (set_field (set_field (set_field b 5 2 0) 7 1 1) 0 4 9) 4 1 0) n = bit (0x89 :: uint8_t) n"
    by (auto simp: set_field_def bit_simps)
qed

lemmas tss_access = byte_access load16_def load32_def store16_def store32_def set_bits_def

lemma fill_desc:
  assumes "m' = fill_tss m desc tss stack"
  shows "tss_desc_base m' desc = tss" "load16 m' desc = 104" "m' (desc + 5) = 0x89"
proof -
  define m0 where "m0 = store32 (store32 m (tss + 4) (ucast (stack AND ucast (ucast stack :: uint32_t)))) (tss + 8)
      (ucast (ucast (ucast (drop_bit 32 stack) :: uint32_t) :: uint64_t))"
  have m': "m' = (let m = store16 m0 desc 104; m = set_bits m (desc + 6) 7 1 0; m = store16 m (desc + 2) (ucast (tss AND 0xFFFF));
      m = m(desc + 4 := ucast (drop_bit 16 tss AND 0xFF)); m = m(desc + 7 := ucast (drop_bit 24 tss AND 0xFF));
      m = store32 m (desc + 8) (ucast (drop_bit 32 tss)); m = set_bits m (desc + 6) 4 1 0;
      m = set_bits m (desc + 5) 5 2 0; m = set_bits m (desc + 5) 7 1 1; m = store32 m (desc + 12) 0;
      m = set_bits m (desc + 5) 0 4 0x9 in set_bits m (desc + 5) 4 1 0)"
    unfolding assms fill_tss_def m0_def td_offsets Let_def by simp
  have "load16 m' (desc + 2) = ucast (tss AND 0xFFFF)" "m' (desc + 4) = ucast (drop_bit 16 tss AND 0xFF)"
    "m' (desc + 7) = ucast (drop_bit 24 tss AND 0xFF)" "load32 m' (desc + 8) = ucast (drop_bit 32 tss)"
    unfolding m' Let_def by (simp_all add: tss_access)
  then show "tss_desc_base m' desc = tss" using base_parts [of tss] by (simp add: tss_desc_base_def)
  show "load16 m' desc = 104" "m' (desc + 5) = 0x89"
    unfolding m' Let_def using access_byte by (simp_all add: tss_access)
qed

lemma fill_outside:
  assumes "x \<notin> span desc 16" and "x \<notin> span (tss + 4) 8"
  shows "fill_tss m desc tss stack x = m x"
proof -
  have d: "x \<notin> span (desc + of_nat i) n" if "i + n \<le> 16" for i n using assms(1) span_sub [OF that, of desc] by auto
  have t: "x \<notin> span (tss + 4 + of_nat i) n" if "i + n \<le> 8" for i n using assms(2) span_sub [OF that, of "tss + 4"] by auto
  have b: "x \<noteq> desc + 4" "x \<noteq> desc + 5" "x \<noteq> desc + 6" "x \<noteq> desc + 7"
    using d [of 4 1] d [of 5 1] d [of 6 1] d [of 7 1] by (auto simp: span_single)
  have w: "x \<notin> span desc 2" "x \<notin> span (desc + 2) 2" "x \<notin> span (desc + 8) 4" "x \<notin> span (desc + 12) 4"
    "x \<notin> span (tss + 4) 4" "x \<notin> span (tss + 8) 4"
    using d [of 0 2] d [of 2 2] d [of 8 4] d [of 12 4] t [of 0 4] t [of 4 4] by (simp_all add: add.assoc)
  show ?thesis unfolding fill_tss_def td_offsets Let_def using b w
    by (simp add: set_bits_def store16_def store32_def store_le_notin)
qed

lemma fill_rsp0:
  assumes "span desc 16 \<inter> span tss 104 = {}"
  shows "tss_rsp0 (fill_tss m desc tss stack) tss = stack"
proof -
  let ?lo = "ucast (stack AND ucast (ucast stack :: uint32_t)) :: uint32_t" and ?hi = "ucast (ucast (ucast (drop_bit 32 stack) :: uint32_t) :: uint64_t) :: uint32_t"
  define m0 where "m0 = store32 (store32 m (tss + 4) ?lo) (tss + 8) ?hi"
  have same: "fill_tss m desc tss stack x = m0 x" if "x \<in> span tss 104" for x
  proof -
    have "x \<notin> span (desc + of_nat i) n" if "i + n \<le> 16" for i n using assms \<open>x \<in> span tss 104\<close> span_sub [OF that, of desc] by auto
    note d = this
    have b: "x \<noteq> desc + 4" "x \<noteq> desc + 5" "x \<noteq> desc + 6" "x \<noteq> desc + 7"
      using d [of 4 1] d [of 5 1] d [of 6 1] d [of 7 1] by (auto simp: span_single)
    have w: "x \<notin> span desc 2" "x \<notin> span (desc + 2) 2" "x \<notin> span (desc + 8) 4" "x \<notin> span (desc + 12) 4"
      using d [of 0 2] d [of 2 2] d [of 8 4] d [of 12 4] by simp_all
    show ?thesis unfolding fill_tss_def td_offsets Let_def m0_def using b w
      by (simp add: set_bits_def store16_def store_le_notin [where n = 2] store32_def [of _ "desc + 8"] store32_def [of _ "desc + 12"] store_le_notin [where n = 4])
  qed
  have "load32 (fill_tss m desc tss stack) (tss + of_nat i) = load32 m0 (tss + of_nat i)" if "i + 4 \<le> 104" for i
    unfolding load32_def by (rule load_le_cong) (use same span_sub [OF that, of tss] in auto)
  from this [of 4] this [of 8] have "load32 (fill_tss m desc tss stack) (tss + 4) = load32 m0 (tss + 4)"
    "load32 (fill_tss m desc tss stack) (tss + 8) = load32 m0 (tss + 8)" by simp_all
  moreover have "load32 m0 (tss + 4) = ?lo" "load32 m0 (tss + 8) = ?hi" unfolding m0_def by (simp_all add: tss_access)
  ultimately show ?thesis using stack_parts [of stack] by (simp add: tss_rsp0_def)
qed

subsection \<open>The other cores\<close>

lemma timer_ready_lock:
  assumes "timer_ready H hhdm s k" and "l \<noteq> this_core_lock s" and "l \<noteq> sleep_lock s" and "\<And>j. j \<le> k \<Longrightarrow> l \<notin> span (core_at s j) 64"
  shows "timer_ready H hhdm (s\<lparr>ram := (ram s)(l := v)\<rparr>) k"
proof -
  have "on_core H hhdm (s\<lparr>ram := (ram s)(l := v)\<rparr>) k"
  proof (rule on_core_ram)
    show "on_core H hhdm s k" "((ram s)(l := v)) (this_core_lock s) = 0" using assms(1,2) by (simp_all add: timer_ready_def on_core_def)
    fix j x assume "j \<le> k" "x \<in> span (core_at s j + core_lapic_id) 4"
    then show "((ram s)(l := v)) x = ram s x"
      using assms(4) [of j] span_sub [of 8 4 64 "core_at s j"] by (auto simp: core_lapic_id_def)
  qed
  then show ?thesis using assms(1,3) by (simp add: timer_ready_def)
qed

lemma load_gdt_simps [simp]:
  "timer_ready H hhdm (load_tss (load_gdt s n p)) k = timer_ready H hhdm s k" "timer_ready H hhdm (load_idt s) k = timer_ready H hhdm s k"
  "timer_ready H hhdm (s\<lparr>vm := v\<rparr>) k = timer_ready H hhdm s k" "timer_ready H hhdm (s\<lparr>hw := d\<rparr>) k = timer_ready H hhdm s k"
  by (simp_all add: timer_ready_def on_core_def core_at_def load_tss_def load_gdt_def load_idt_def)

subsection \<open>Properties\<close>


definition demo_block_machine :: "unit kernel" where
  "demo_block_machine = (demo_machine () (mem demo_used))\<lparr>heap := \<lparr>tlsf_ctx = Some demo_used, bytes_allocated = 0\<rparr>\<rparr>"

lemma demo_block_holds: "heap_holds demo_block_machine [demo_ptr \<mapsto> demo_size]"
  using demo_used_ok(2) by (auto simp: heap_holds_def with_ram_def demo_block_machine_def kheap_ok_def demo_machine_def)




end
