(* ===== verification/Hashmap_Spec.thy ===== *)
theory Hashmap_Spec
  imports Hashmap
begin

text \<open>
  Correctness of the hash map: \<open>hm_ok\<close> is its invariant, \<open>hm_abs\<close> the finite map from the bytes of a
  key to a value that it stands for, and \<open>hm_owns\<close> says that its table is a block of the kernel heap.
  Lookup, removal and insertion, with any number of rehashings, are shown to act on \<open>hm_abs\<close> as on
  a map.
\<close>

subsection \<open>Keys and places\<close>

definition ekey :: "memory \<Rightarrow> hashmap_element \<Rightarrow> uint8_t list" where
  "ekey M e = bytes_at M (key e) (unat (key_len e))"

definition home :: "hashmap \<Rightarrow> uint8_t list \<Rightarrow> nat" where
  "home m bs = unat (mix32 (crc32c bs)) mod length (elems m)"

definition place :: "hashmap \<Rightarrow> nat \<Rightarrow> nat \<Rightarrow> nat" where
  "place m i j = (i + j) mod length (elems m)"

definition used :: "hashmap \<Rightarrow> nat \<Rightarrow> bool" where
  "used m i \<longleftrightarrow> i < length (elems m) \<and> in_use (elems m ! i) \<noteq> 0"

definition hm_shape :: "hashmap \<Rightarrow> bool" where
  "hm_shape m \<longleftrightarrow> length (elems m) = unat (table_size m) \<and> (\<exists>k. unat (table_size m) = 2 ^ k)"

definition hm_ok :: "memory \<Rightarrow> hashmap \<Rightarrow> bool" where
  "hm_ok M m \<longleftrightarrow> hm_shape m \<and> unat (hm_size m) = card {i. used m i} \<and>
     (\<forall>e \<in> set (elems m). in_use e = 0 \<or> in_use e = 1) \<and>
     (\<forall>i. used m i \<longrightarrow> (\<exists>j < 8. i = place m (home m (ekey M (elems m ! i))) j)) \<and>
     (\<forall>i i'. used m i \<longrightarrow> used m i' \<longrightarrow> ekey M (elems m ! i) = ekey M (elems m ! i') \<longrightarrow> i = i')"

definition hm_abs :: "memory \<Rightarrow> hashmap \<Rightarrow> uint8_t list \<Rightarrow> addr option" where
  "hm_abs M m bs = map_option edata (find (\<lambda>e. in_use e \<noteq> 0 \<and> ekey M e = bs) (elems m))"

lemma match_iff: "hashmap_match_helper M e k len \<longleftrightarrow> ekey M e = bytes_at M k (unat len)"
proof -
  have "unat len < 2 ^ 32" using unsigned_less [of len, where ?'a = nat] by simp
  then have u: "unat (ucast len :: size_t) = unat len" by (simp add: unsigned_ucast_eq take_bit_nat_eq_self)
  have "key_len e = len" if "ekey M e = bytes_at M k (unat len)"
  proof -
    have "length (ekey M e) = length (bytes_at M k (unat len))" using that by simp
    then show ?thesis by (simp add: ekey_def bytes_at_def word_unat_eq_iff)
  qed
  then show ?thesis by (auto simp: hashmap_match_helper_def memcmp_eq_0 u ekey_def)
qed

lemma shape_pos: "hm_shape m \<Longrightarrow> 0 < length (elems m)"
  by (auto simp: hm_shape_def)

lemma hash_helper_int:
  assumes "hm_shape m"
  shows "hashmap_hash_helper_int_helper M m k len = Inr (of_nat (home m (bytes_at M k (unat len)))) \<and>
    unat (of_nat (home m (bytes_at M k (unat len))) :: uint32_t) = home m (bytes_at M k (unat len))"
proof -
  let ?h = "mix32 (crc32c (bytes_at M k (unat len))) mod table_size m"
  have "table_size m \<noteq> 0" using shape_pos [OF assms] assms by (auto simp: hm_shape_def)
  moreover have u: "unat ?h = home m (bytes_at M k (unat len))"
    using assms by (simp add: home_def hm_shape_def unat_mod)
  moreover have "of_nat (home m (bytes_at M k (unat len))) = ?h" unfolding u [symmetric] by simp
  ultimately show ?thesis by (simp add: hashmap_hash_helper_int_helper_def crc32_eq)
qed

lemma step_place:
  assumes "hm_shape m" and "unat cur < length (elems m)"
  shows "unat ((cur + 1) mod table_size m) = (unat cur + 1) mod length (elems m)"
proof -
  have l: "length (elems m) = unat (table_size m)" using assms(1) by (simp add: hm_shape_def)
  then have "cur < table_size m" using assms(2) by (simp add: word_less_nat_alt)
  from unat_Suc_less [OF this] show ?thesis by (simp add: l unat_mod)
qed

lemma place_Suc: "0 < length (elems m) \<Longrightarrow> place m ((i + 1) mod length (elems m)) j = place m i (Suc j)"
  by (simp add: place_def mod_add_left_eq)

lemma place_less: "0 < length (elems m) \<Longrightarrow> place m i j < length (elems m)"
  by (simp add: place_def)

lemma ex_less_Suc: "(\<exists>j < Suc n. P j) \<longleftrightarrow> P 0 \<or> (\<exists>j < n. P (Suc j))"
  by (auto simp: less_Suc_eq_0_disj)

lemma uint_int_unat: "uint c = int (unat c)"
  by simp

lemma array_get_uint: "unat c < length xs \<Longrightarrow> array_get xs (uint (c :: uint32_t)) = Inr (xs ! unat c)"
  unfolding uint_int_unat by (rule array_get_nat)

lemma array_set_uint: "unat c < length xs \<Longrightarrow> array_set xs (uint (c :: uint32_t)) v = Inr (xs[unat c := v])"
  unfolding uint_int_unat by (rule array_set_nat)

lemma place_0: "i < length (elems m) \<Longrightarrow> place m i 0 = i"
  by (simp add: place_def)

lemma probe_spec:
  assumes "hm_shape m" and "unat cur < length (elems m)"
  shows "(\<exists>c. probe P m n cur = Inr (Some c) \<and> (\<exists>j < n. unat c = place m (unat cur) j) \<and> P (elems m ! unat c)) \<or>
    probe P m n cur = Inr None \<and> (\<forall>j < n. \<not> P (elems m ! place m (unat cur) j))"
  using assms(2)
proof (induction n arbitrary: cur)
  case (Suc n)
  let ?c = "(cur + 1) mod table_size m"
  have pos: "0 < length (elems m)" using shape_pos [OF assms(1)] .
  have g: "array_get (elems m) (uint cur) = Inr (elems m ! unat cur)" using Suc.prems by (rule array_get_uint)
  have c: "unat ?c < length (elems m)" using step_place [OF assms(1) Suc.prems] pos by simp
  have pl: "place m (unat ?c) j = place m (unat cur) (Suc j)" for j
    unfolding step_place [OF assms(1) Suc.prems] by (rule place_Suc [OF pos])
  show ?case
  proof (cases "P (elems m ! unat cur)")
    case True
    then have "probe P m (Suc n) cur = Inr (Some cur)" using g by simp
    then show ?thesis using True place_0 [OF Suc.prems] by auto
  next
    case False
    then have "probe P m (Suc n) cur = probe P m n ?c" using g by simp
    then show ?thesis using Suc.IH [OF c] False unfolding pl by (auto simp: ex_less_Suc less_Suc_eq_0_disj place_0 [OF Suc.prems])
  qed
qed simp

lemma probe_count_spec:
  assumes "hm_shape m" and "unat cur < length (elems m)"
  shows "(\<exists>c t. probe_count P m n cur acc = Inr (Some c, t) \<and> (\<exists>j < n. unat c = place m (unat cur) j) \<and> P (elems m ! unat c)) \<or>
    probe_count P m n cur acc = Inr (None, acc + (\<Sum>j<n. in_use (elems m ! place m (unat cur) j))) \<and>
    (\<forall>j < n. \<not> P (elems m ! place m (unat cur) j))"
  using assms(2)
proof (induction n arbitrary: cur acc)
  case (Suc n)
  let ?c = "(cur + 1) mod table_size m" and ?a = "acc + in_use (elems m ! unat cur)"
  have pos: "0 < length (elems m)" using shape_pos [OF assms(1)] .
  have g: "array_get (elems m) (uint cur) = Inr (elems m ! unat cur)" using Suc.prems by (rule array_get_uint)
  have c: "unat ?c < length (elems m)" using step_place [OF assms(1) Suc.prems] pos by simp
  have pl: "place m (unat ?c) j = place m (unat cur) (Suc j)" for j
    unfolding step_place [OF assms(1) Suc.prems] by (rule place_Suc [OF pos])
  show ?case
  proof (cases "P (elems m ! unat cur)")
    case True
    then have "probe_count P m (Suc n) cur acc = Inr (Some cur, ?a)" using g by simp
    then show ?thesis using True place_0 [OF Suc.prems] by auto
  next
    case False
    then have "probe_count P m (Suc n) cur acc = probe_count P m n ?c ?a" using g by simp
    then show ?thesis
      using Suc.IH [OF c, of ?a] False unfolding pl sum.lessThan_Suc_shift
      by (auto simp: ex_less_Suc less_Suc_eq_0_disj place_0 [OF Suc.prems] algebra_simps)
  qed
qed simp

subsection \<open>The abstract map\<close>

lemma abs_Some:
  assumes "hm_ok M m"
  shows "hm_abs M m bs = Some d \<longleftrightarrow> (\<exists>i. used m i \<and> ekey M (elems m ! i) = bs \<and> edata (elems m ! i) = d)"
proof
  assume "hm_abs M m bs = Some d"
  then show "\<exists>i. used m i \<and> ekey M (elems m ! i) = bs \<and> edata (elems m ! i) = d"
    by (auto simp: hm_abs_def find_Some_iff used_def)
next
  assume "\<exists>i. used m i \<and> ekey M (elems m ! i) = bs \<and> edata (elems m ! i) = d"
  then obtain i where i: "used m i" "ekey M (elems m ! i) = bs" "edata (elems m ! i) = d" by blast
  have "find (\<lambda>e. in_use e \<noteq> 0 \<and> ekey M e = bs) (elems m) \<noteq> None"
    using i nth_mem [of i "elems m"] unfolding find_None_iff used_def by blast
  then obtain e where e: "find (\<lambda>e. in_use e \<noteq> 0 \<and> ekey M e = bs) (elems m) = Some e" by blast
  then obtain i' where "i' < length (elems m)" "in_use (elems m ! i') \<noteq> 0" "ekey M (elems m ! i') = bs" "e = elems m ! i'"
    by (auto simp: find_Some_iff)
  then have "i' = i" using i assms unfolding hm_ok_def used_def by blast
  with e i \<open>e = elems m ! i'\<close> show "hm_abs M m bs = Some d" by (simp add: hm_abs_def)
qed

lemma abs_None: "hm_abs M m bs = None \<longleftrightarrow> (\<forall>i. used m i \<longrightarrow> ekey M (elems m ! i) \<noteq> bs)"
  by (auto simp: hm_abs_def find_None_iff used_def in_set_conv_nth)

text \<open>Every place where a key can be is probed.\<close>

lemma key_place:
  assumes "hm_ok M m" and "used m i" and "ekey M (elems m ! i) = bs"
  shows "\<exists>j < 8. i = place m (home m bs) j"
  using assms unfolding hm_ok_def by blast

lemma home_less: "hm_shape m \<Longrightarrow> home m bs < length (elems m)"
  using shape_pos by (simp add: home_def)

definition is_key :: "memory \<Rightarrow> addr \<Rightarrow> uint32_t \<Rightarrow> hashmap_element \<Rightarrow> bool" where
  "is_key M k len e \<longleftrightarrow> in_use e \<noteq> 0 \<and> hashmap_match_helper M e k len"

lemma not_found:
  assumes "hm_ok M m" and "\<forall>j < 8. \<not> is_key M k len (elems m ! place m (home m (bytes_at M k (unat len))) j)"
  shows "hm_abs M m (bytes_at M k (unat len)) = None"
  unfolding abs_None
proof (intro allI impI notI)
  fix i assume i: "used m i" "ekey M (elems m ! i) = bytes_at M k (unat len)"
  from key_place [OF assms(1) i] assms(2) have "\<not> is_key M k len (elems m ! i)" by blast
  with i show False by (simp add: is_key_def match_iff used_def)
qed

lemma search_spec:
  assumes "hm_ok M m" and bs_def: "bs = bytes_at M k (unat len)"
  shows "(\<exists>c. probe (is_key M k len) m HASHMAP_MAX_CHAIN_LENGTH (of_nat (home m bs)) = Inr (Some c) \<and>
      used m (unat c) \<and> ekey M (elems m ! unat c) = bs) \<or>
    probe (is_key M k len) m HASHMAP_MAX_CHAIN_LENGTH (of_nat (home m bs)) = Inr None \<and> hm_abs M m bs = None"
proof -
  have sh: "hm_shape m" using assms(1) by (simp add: hm_ok_def)
  have h: "unat (of_nat (home m bs) :: uint32_t) = home m bs" using hash_helper_int [OF sh, of M k len] by (simp add: bs_def)
  have lt: "unat (of_nat (home m bs) :: uint32_t) < length (elems m)" using h home_less [OF sh] by simp
  from probe_spec [OF sh lt, of "is_key M k len" 8, unfolded h] show ?thesis
  proof (elim disjE exE conjE)
    fix c j assume c: "probe (is_key M k len) m 8 (of_nat (home m bs)) = Inr (Some c)" "is_key M k len (elems m ! unat c)"
      "unat c = place m (home m bs) j"
    then have "unat c < length (elems m)" using place_less [OF shape_pos [OF sh]] by simp
    with c show ?thesis by (auto simp: is_key_def match_iff used_def bs_def HASHMAP_MAX_CHAIN_LENGTH_def)
  next
    assume "probe (is_key M k len) m 8 (of_nat (home m bs)) = Inr None"
      "\<forall>j < 8. \<not> is_key M k len (elems m ! place m (home m bs) j)"
    then show ?thesis using not_found [OF assms(1), of k len] by (simp add: bs_def HASHMAP_MAX_CHAIN_LENGTH_def)
  qed
qed

lemma get_eq:
  assumes "hm_ok M m"
  shows "hashmap_get M m k len = Inr (case hm_abs M m (bytes_at M k (unat len)) of None \<Rightarrow> 0 | Some d \<Rightarrow> d)"
proof -
  let ?bs = "bytes_at M k (unat len)"
  have sh: "hm_shape m" using assms by (simp add: hm_ok_def)
  have e: "hashmap_get M m k len = bindE (probe (is_key M k len) m HASHMAP_MAX_CHAIN_LENGTH (of_nat (home m ?bs))) (\<lambda>found.
      case found of None \<Rightarrow> Inr 0 | Some cur \<Rightarrow> bindE (array_get (elems m) (uint cur)) (\<lambda>e. Inr (edata e)))"
    using hash_helper_int [OF sh, of M k len] by (simp add: hashmap_get_def is_key_def [abs_def])
  from search_spec [OF assms refl, of k len] show ?thesis
  proof (elim disjE exE conjE)
    fix c assume c: "probe (is_key M k len) m HASHMAP_MAX_CHAIN_LENGTH (of_nat (home m ?bs)) = Inr (Some c)"
      "used m (unat c)" "ekey M (elems m ! unat c) = ?bs"
    then have "hm_abs M m ?bs = Some (edata (elems m ! unat c))" unfolding abs_Some [OF assms] by blast
    moreover have "array_get (elems m) (uint c) = Inr (elems m ! unat c)"
      using c(2) by (intro array_get_uint) (simp add: used_def)
    ultimately show ?thesis using c(1) by (simp add: e)
  qed (simp add: e)
qed

text \<open>Blanking a place that is in use.\<close>

definition clear_at :: "hashmap \<Rightarrow> nat \<Rightarrow> hashmap_element \<Rightarrow> hashmap" where
  "clear_at m i e = m\<lparr>elems := (elems m)[i := e], hm_size := hm_size m - 1\<rparr>"

lemma used_clear: "in_use e = 0 \<Longrightarrow> used (clear_at m i e) j \<longleftrightarrow> used m j \<and> j \<noteq> i"
  by (cases "j = i") (auto simp: used_def clear_at_def)

lemma clear_ok:
  assumes ok: "hm_ok M m" and i: "used m i" and e: "in_use e = 0"
  shows "hm_ok M (clear_at m i e)" and "hm_abs M (clear_at m i e) = (hm_abs M m)(ekey M (elems m ! i) := None)"
proof -
  let ?m = "clear_at m i e"
  have el: "elems ?m ! j = elems m ! j" if "j \<noteq> i" for j using that by (simp add: clear_at_def)
  have len: "length (elems ?m) = length (elems m)" "table_size ?m = table_size m" by (simp_all add: clear_at_def)
  have pl: "home ?m bs = home m bs" "place ?m a b = place m a b" for bs a b by (simp_all add: home_def place_def len)
  have fin: "finite {j. used m j}" by (rule finite_subset [of _ "{..<length (elems m)}"]) (auto simp: used_def)
  have cl: "{j. used ?m j} = {j. used m j} - {i}" using used_clear [OF e] by auto
  then have c: "card {j. used ?m j} = unat (hm_size m) - 1" using ok i fin by (simp add: hm_ok_def)
  have "0 < unat (hm_size m)" using ok i fin by (auto simp: hm_ok_def card_gt_0_iff)
  then have sz: "unat (hm_size ?m) = card {j. used ?m j}"
    unfolding c by (simp add: clear_at_def unat_minus_one unat_gt_0)
  have bits: "\<forall>x \<in> set (elems ?m). in_use x = 0 \<or> in_use x = 1"
    using ok e set_update_subset_insert [of "elems m" i e] by (auto simp: hm_ok_def clear_at_def)
  have sh: "hm_shape ?m" using ok by (simp add: hm_ok_def hm_shape_def len)
  show ok': "hm_ok M ?m"
    unfolding hm_ok_def
  proof (intro conjI)
    show "unat (hm_size ?m) = card {j. used ?m j}" by (rule sz)
  qed (use ok sh bits in \<open>auto simp: used_clear [OF e] el pl hm_ok_def\<close>)
  show "hm_abs M ?m = (hm_abs M m)(ekey M (elems m ! i) := None)"
  proof (rule ext)
    fix bs
    have u: "used m j \<Longrightarrow> ekey M (elems m ! j) = ekey M (elems m ! i) \<Longrightarrow> j = i" for j
      using ok i unfolding hm_ok_def by blast
    have "hm_abs M ?m bs = Some d \<longleftrightarrow> (\<exists>j. used m j \<and> j \<noteq> i \<and> ekey M (elems m ! j) = bs \<and> edata (elems m ! j) = d)" for d
      unfolding abs_Some [OF ok'] by (metis el used_clear [OF e])
    then have "hm_abs M ?m bs = Some d \<longleftrightarrow> ((hm_abs M m)(ekey M (elems m ! i) := None)) bs = Some d" for d
      using u by (auto simp: abs_Some [OF ok])
    then show "hm_abs M ?m bs = ((hm_abs M m)(ekey M (elems m ! i) := None)) bs"
      by (metis option.exhaust)
  qed
qed

lemma remove_eq:
  assumes "hm_ok M m" and bs: "bs = bytes_at M k (unat len)"
  shows "hm_abs M m bs = None \<and> hashmap_remove M m k len = Inr (1, m) \<and> hashmap_remove_and_return_key M m k len = Inr (0, m) \<or>
    (\<exists>i. used m i \<and> ekey M (elems m ! i) = bs \<and> hashmap_remove M m k len = Inr (0, clear_at m i blank) \<and>
       hashmap_remove_and_return_key M m k len =
         Inr (key (elems m ! i), clear_at m i ((elems m ! i)\<lparr>in_use := 0, edata := 0, key := 0\<rparr>)))"
proof -
  let ?p = "probe (is_key M k len) m HASHMAP_MAX_CHAIN_LENGTH (of_nat (home m bs))"
  have sh: "hm_shape m" using assms(1) by (simp add: hm_ok_def)
  have e: "hashmap_remove M m k len = bindE ?p (\<lambda>found. case found of None \<Rightarrow> Inr (1, m)
      | Some cur \<Rightarrow> bindE (update_elem m cur blank) (\<lambda>m. Inr (0, m\<lparr>hm_size := hm_size m - 1\<rparr>)))"
    "hashmap_remove_and_return_key M m k len = bindE ?p (\<lambda>found. case found of None \<Rightarrow> Inr (0, m)
      | Some cur \<Rightarrow> bindE (array_get (elems m) (uint cur)) (\<lambda>e.
         bindE (update_elem m cur (e\<lparr>in_use := 0, edata := 0, key := 0\<rparr>)) (\<lambda>m. Inr (key e, m\<lparr>hm_size := hm_size m - 1\<rparr>))))"
    using hash_helper_int [OF sh, of M k len]
    by (simp_all add: hashmap_remove_def hashmap_remove_and_return_key_def is_key_def [abs_def] bs)
  from search_spec [OF assms] show ?thesis
  proof (elim disjE exE conjE)
    fix c assume c: "?p = Inr (Some c)" "used m (unat c)" "ekey M (elems m ! unat c) = bs"
    have "unat c < length (elems m)" using c(2) by (simp add: used_def)
    then show ?thesis
      using c by (intro disjI2 exI [of _ "unat c"]) (simp add: e update_elem_def array_get_uint array_set_uint clear_at_def)
  qed (simp add: e)
qed

subsection \<open>Insertion into a free or a matching place\<close>

lemma in_use_bounds: "hm_ok M m \<Longrightarrow> i < length (elems m) \<Longrightarrow> in_use (elems m ! i) = 0 \<or> in_use (elems m ! i) = 1"
  unfolding hm_ok_def by (metis nth_mem)

lemma hash_helper_cases:
  assumes ok: "hm_ok M m" and bs: "bs = bytes_at M k (unat len)"
  shows "hashmap_hash_helper M m k len = Inr None \<or>
    (\<exists>c. hashmap_hash_helper M m k len = Inr (Some c) \<and> used m (unat c) \<and> ekey M (elems m ! unat c) = bs) \<or>
    (\<exists>c j. hashmap_hash_helper M m k len = Inr (Some c) \<and> unat c < length (elems m) \<and> \<not> used m (unat c) \<and>
      j < 8 \<and> unat c = place m (home m bs) j \<and> hm_abs M m bs = None)"
proof (cases "hm_size m \<ge> table_size m")
  case True
  then show ?thesis by (simp add: hashmap_hash_helper_def)
next
  case False
  let ?s = "of_nat (home m bs) :: uint32_t"
  have sh: "hm_shape m" using ok by (simp add: hm_ok_def)
  note pos = shape_pos [OF sh]
  have h: "hashmap_hash_helper_int_helper M m k len = Inr ?s" "unat ?s = home m bs"
    using hash_helper_int [OF sh, of M k len] bs by auto
  have lt: "unat ?s < length (elems m)" using h(2) home_less [OF sh] by simp
  have e: "hashmap_hash_helper M m k len = bindE (probe_count (is_key M k len) m 8 ?s 0) (\<lambda>(found, total_in_use).
      case found of Some cur \<Rightarrow> Inr (Some cur)
      | None \<Rightarrow> if 8 > total_in_use then probe (\<lambda>e. in_use e = 0) m 8 ?s else Inr None)"
    unfolding hashmap_hash_helper_def HASHMAP_MAX_CHAIN_LENGTH_def is_key_def [abs_def] of_nat_numeral using False h(1) by simp
  from probe_count_spec [OF sh lt, of "is_key M k len" 8 0, unfolded h(2)] show ?thesis
  proof (elim disjE exE conjE)
    fix c t j assume c: "probe_count (is_key M k len) m 8 ?s 0 = Inr (Some c, t)" "is_key M k len (elems m ! unat c)"
      "unat c = place m (home m bs) j"
    then have "used m (unat c) \<and> ekey M (elems m ! unat c) = bs"
      using place_less [OF pos] by (simp add: is_key_def match_iff used_def bs)
    then show ?thesis using c(1) by (auto simp: e)
  next
    let ?t = "\<Sum>j<8. in_use (elems m ! place m (home m bs) j)"
    assume n: "probe_count (is_key M k len) m 8 ?s 0 = Inr (None, 0 + ?t)"
      "\<forall>j < 8. \<not> is_key M k len (elems m ! place m (home m bs) j)"
    have "hm_abs M m bs = None" using not_found [OF ok, of k len] n(2) bs by simp
    moreover have "(\<exists>c. probe (\<lambda>e. in_use e = 0) m 8 ?s = Inr (Some c) \<and> (\<exists>j < 8. unat c = place m (home m bs) j) \<and> in_use (elems m ! unat c) = 0) \<or>
        probe (\<lambda>e. in_use e = 0) m 8 ?s = Inr None"
      using probe_spec [OF sh lt, of "\<lambda>e. in_use e = 0" 8, unfolded h(2)] by blast
    ultimately show ?thesis
      using n(1) place_less [OF pos] by (auto simp: e used_def split del: if_split split: if_splits)
  qed
qed

definition fill :: "hashmap \<Rightarrow> nat \<Rightarrow> addr \<Rightarrow> uint32_t \<Rightarrow> addr \<Rightarrow> hashmap" where
  "fill m i k len v = m\<lparr>elems := (elems m)[i := \<lparr>key = k, key_len = len, in_use = 1, edata = v\<rparr>],
     hm_size := if used m i then hm_size m else hm_size m + 1\<rparr>"

lemma put_at_eq:
  assumes "hm_ok M m" and "unat c < length (elems m)"
  shows "put_at m c k len v = Inr (fill m (unat c) k len v)"
proof -
  have r: "(elems m ! unat c)\<lparr>edata := v, key := k, key_len := len, in_use := if in_use (elems m ! unat c) = 0 then 1 else in_use (elems m ! unat c)\<rparr> =
      \<lparr>key = k, key_len = len, in_use = 1, edata = v\<rparr>"
    using in_use_bounds [OF assms] by (cases "elems m ! unat c") auto
  show ?thesis
    unfolding put_at_def update_elem_def array_get_uint [OF assms(2)] bindE_Inr r array_set_uint [OF assms(2)]
    using assms(2) by (simp add: fill_def used_def)
qed

lemma used_fill: "i < length (elems m) \<Longrightarrow> used (fill m i k len v) j \<longleftrightarrow> used m j \<or> j = i"
  by (cases "j = i") (auto simp: used_def fill_def)

lemma fill_elems:
  assumes "i < length (elems m)"
  shows "elems (fill m i k len v) ! i = \<lparr>key = k, key_len = len, in_use = 1, edata = v\<rparr>"
    and "j \<noteq> i \<Longrightarrow> elems (fill m i k len v) ! j = elems m ! j"
    and "home (fill m i k len v) x = home m x" and "place (fill m i k len v) a b = place m a b"
  using assms by (simp_all add: fill_def home_def place_def)

lemma fill_size:
  assumes ok: "hm_ok M m" and i: "i < length (elems m)"
  shows "unat (hm_size (fill m i k len v)) = card {j. used (fill m i k len v) j}"
proof -
  have sub: "{j. used m j} \<subseteq> {..<length (elems m)}" by (auto simp: used_def)
  have fin: "finite {j. used m j}" using sub by (rule finite_subset) simp
  have us: "{j. used (fill m i k len v) j} = insert i {j. used m j}" using used_fill [OF i] by auto
  show ?thesis
  proof (cases "used m i")
    case True
    then have "insert i {j. used m j} = {j. used m j}" by auto
    with True show ?thesis using ok unfolding us by (simp add: fill_def hm_ok_def)
  next
    case False
    have "card {j. used m j} < card {..<length (elems m)}"
      by (rule psubset_card_mono) (use sub False i in auto)
    moreover have "length (elems m) = unat (table_size m)" using ok by (simp add: hm_ok_def hm_shape_def)
    ultimately have "hm_size m < table_size m" using ok by (simp add: hm_ok_def word_less_nat_alt)
    from unat_Suc_less [OF this] False show ?thesis using ok fin unfolding us by (simp add: fill_def hm_ok_def)
  qed
qed

text \<open>The key is still stored in one place only.\<close>

lemma fill_inj:
  assumes ok: "hm_ok M m" and i: "i < length (elems m)" and bs: "bs = bytes_at M k (unat len)"
    and fresh: "\<And>j. used m j \<Longrightarrow> ekey M (elems m ! j) = bs \<Longrightarrow> j = i"
    and j: "used (fill m i k len v) j" "used (fill m i k len v) j'"
      "ekey M (elems (fill m i k len v) ! j) = ekey M (elems (fill m i k len v) ! j')"
  shows "j = j'"
proof (cases "j = i \<or> j' = i")
  case True
  let ?m = "fill m i k len v"
  have ei: "ekey M (elems ?m ! i) = bs" using fill_elems(1) [OF i] by (simp add: ekey_def bs)
  have "x = i" if "used m x" "ekey M (elems ?m ! x) = bs" for x
    using fresh [of x] fill_elems(2) [OF i, where j = x and k = k and len = len and v = v] that by (cases "x = i") auto
  then show ?thesis using True j ei unfolding used_fill [OF i] by metis
next
  case False
  then have "used m j" "used m j'" "ekey M (elems m ! j) = ekey M (elems m ! j')"
    using j fill_elems(2) [OF i] unfolding used_fill [OF i] by auto
  then show ?thesis using ok unfolding hm_ok_def by blast
qed

lemma fill_ok:
  assumes ok: "hm_ok M m" and i: "i < length (elems m)" and bs: "bs = bytes_at M k (unat len)"
    and pl: "\<exists>j < 8. i = place m (home m bs) j"
    and fresh: "\<And>j. used m j \<Longrightarrow> ekey M (elems m ! j) = bs \<Longrightarrow> j = i"
    and old: "used m i \<Longrightarrow> ekey M (elems m ! i) = bs"
  shows "hm_ok M (fill m i k len v)" and "hm_abs M (fill m i k len v) = (hm_abs M m)(bs \<mapsto> v)"
proof -
  let ?m = "fill m i k len v"
  note fill = fill_elems [OF i, where k = k and len = len and v = v]
  have ei: "ekey M (elems ?m ! i) = bs" "edata (elems ?m ! i) = v" using fill(1) by (simp_all add: ekey_def bs)
  have inj: "\<And>j j'. used ?m j \<Longrightarrow> used ?m j' \<Longrightarrow> ekey M (elems ?m ! j) = ekey M (elems ?m ! j') \<Longrightarrow> j = j'"
    using fill_inj [OF ok i bs fresh] by blast
  have "set (elems ?m) \<subseteq> insert \<lparr>key = k, key_len = len, in_use = 1, edata = v\<rparr> (set (elems m))"
    by (simp add: fill_def set_update_subset_insert)
  then have bits: "\<forall>x \<in> set (elems ?m). in_use x = 0 \<or> in_use x = 1" using ok unfolding hm_ok_def by fastforce
  have sh: "hm_shape ?m" using ok by (simp add: hm_ok_def hm_shape_def fill_def)
  have chain: "\<exists>b < 8. j = place ?m (home ?m (ekey M (elems ?m ! j))) b" if j: "used ?m j" for j
  proof (cases "j = i")
    case True
    then show ?thesis using pl by (simp add: ei fill(3,4))
  next
    case False
    then show ?thesis using j ok unfolding hm_ok_def by (simp add: used_fill [OF i] fill(2-4))
  qed
  show ok': "hm_ok M ?m" unfolding hm_ok_def using sh fill_size [OF ok i] bits chain inj by blast
  show "hm_abs M ?m = (hm_abs M m)(bs \<mapsto> v)"
  proof (rule ext)
    fix x
    have "hm_abs M ?m x = Some d \<longleftrightarrow> (if x = bs then v = d else (\<exists>j. used m j \<and> ekey M (elems m ! j) = x \<and> edata (elems m ! j) = d))" for d
    proof (cases "x = bs")
      case True
      have "used ?m i" using used_fill [OF i] by simp
      moreover have "j = i" if "used ?m j" "ekey M (elems ?m ! j) = bs" for j using inj [of j i] that ei(1) calculation by simp
      ultimately have "(\<exists>j. used ?m j \<and> ekey M (elems ?m ! j) = bs \<and> edata (elems ?m ! j) = d) \<longleftrightarrow> v = d" using ei by metis
      then show ?thesis using True unfolding abs_Some [OF ok'] by simp
    next
      case False
      then show ?thesis unfolding abs_Some [OF ok'] used_fill [OF i] by (metis ei(1) fill(2) old)
    qed
    then show "hm_abs M ?m x = ((hm_abs M m)(bs \<mapsto> v)) x"
      using abs_Some [OF ok] by (metis fun_upd_apply option.exhaust)
  qed
qed

subsection \<open>The table as a block of the heap\<close>

definition hm_owns :: "addr set \<Rightarrow> kheap \<Rightarrow> (nat \<Rightarrow> nat option) \<Rightarrow> hashmap \<Rightarrow> bool" where
  \<comment> \<open>besides the blocks \<open>A\<close> of others, the heap holds the table of \<open>m\<close>\<close>
  "hm_owns U h A m \<longleftrightarrow> (\<exists>q n. hm_data m = W q \<and> A q = None \<and> kheap_in U h (A(q \<mapsto> n)) \<and> 24 * unat (table_size m) \<le> n)"

lemma kheap_block: "kheap_ok h A \<Longrightarrow> A q = Some n \<Longrightarrow> n < 2 ^ 32 \<and> W q \<noteq> 0"
proof -
  assume "kheap_ok h A" and q: "A q = Some n"
  then obtain t c R where ok: "heap_ok c t A R" by (auto simp: kheap_ok_def)
  show ?thesis using heap_block [OF ok q] by (simp add: W_eq_0_iff)
qed

lemma owns_small: "hm_owns U h A m \<Longrightarrow> 24 * unat (table_size m) < 2 ^ 32"
proof -
  assume "hm_owns U h A m"
  then obtain q n where q: "kheap_in U h (A(q \<mapsto> n))" "24 * unat (table_size m) \<le> n" by (auto simp: hm_owns_def)
  have "n < 2 ^ 32" using kheap_block [OF kheap_in_ok [OF q(1)], of q n] by simp
  with q(2) show ?thesis by linarith
qed

lemma pow2_and: "unat (x :: uint32_t) = 2 ^ k \<Longrightarrow> x \<noteq> 0 \<and> x AND (x - 1) = 0"
proof -
  assume x: "unat x = 2 ^ k"
  have "x = of_nat (unat x)" by simp
  then have e: "x = 2 ^ k" unfolding x by simp
  have "x AND (x - 1) = 2 ^ k AND mask k" by (simp add: e mask_eq_exp_minus_1)
  also have "\<dots> = 0" by (rule bit_word_eqI) (auto simp: bit_simps bit_exp_iff)
  finally show ?thesis using x by auto
qed

lemma create_ok:
  assumes "kheap_in U h A" and "unat sz = 2 ^ k"
  shows "hashmap_create h sz = Inl Null_Deref \<or>
    (\<exists>m h'. hashmap_create h sz = Inr (0, m, h') \<and> hm_ok M m \<and> hm_abs M m = Map.empty \<and> table_size m = sz \<and> hm_owns U h' A m \<and> kframe U A h h')"
proof -
  have p: "sz \<noteq> 0" "sz AND (sz - 1) = 0" using pow2_and [OF assms(2)] by simp_all
  have lt: "unat sz < 2 ^ 32" using unsigned_less [of sz, where ?'a = nat] by simp
  have n: "unat (sizeof_element * ucast sz) = 24 * unat sz"
    using lt by (simp add: sizeof_element_def unat_word_ariths unsigned_ucast_eq take_bit_nat_eq_self)
  then have nz: "sizeof_element * ucast sz \<noteq> 0" using assms(2) by (metis mult_is_0 power_eq_0_iff unat_0 zero_neq_numeral)
  have "unat (sizeof_element * ucast sz) + 7 < 2 ^ 64" using n lt by simp
  from kcalloc_in [OF assms(1) this] show ?thesis
  proof (elim disjE exE conjE)
    fix h' assume "kcalloc h (ucast sz) sizeof_element = (if sizeof_element * ucast sz = 0 then Inr (0, h') else Inl Null_Deref)"
    then show ?thesis using nz p by (simp add: hashmap_create_def)
  next
    fix q n' h' assume q: "kcalloc h (ucast sz) sizeof_element = Inr (W q, h')" "A q = None" "kheap_in U h' (A(q \<mapsto> n'))"
      "unat (sizeof_element * ucast sz) \<le> n'" "kframe U A h h'"
    let ?m = "\<lparr>table_size = sz, hm_size = 0, hm_data = W q, elems = replicate (unat sz) blank\<rparr>"
    have "W q \<noteq> 0" using kheap_block [OF kheap_in_ok [OF q(3)], of q n'] by simp
    then have "hashmap_create h sz = Inr (0, ?m, h')" using q(1) p by (simp add: hashmap_create_def)
    moreover have nu: "\<not> used ?m i" for i by (simp add: used_def blank_def)
    then have "hm_ok M ?m" using assms(2) by (auto simp: hm_ok_def hm_shape_def blank_def)
    moreover have "hm_abs M ?m = Map.empty" using nu abs_None [of M ?m] by (intro ext) simp
    moreover have "hm_owns U h' A ?m" using q n by (auto simp: hm_owns_def)
    ultimately show ?thesis using q(5) by (intro disjI2 exI [of _ ?m] exI [of _ h']) simp
  qed
qed

subsection \<open>Insertion\<close>

definition entries :: "hashmap \<Rightarrow> (addr \<times> uint32_t \<times> addr) set" where
  \<comment> \<open>the keys of the map, as pointers and lengths, with their values\<close>
  "entries m = (\<lambda>i. (key (elems m ! i), key_len (elems m ! i), edata (elems m ! i))) ` {i. used m i}"

lemma entries_fill: "i < length (elems m) \<Longrightarrow> entries (fill m i k len v) \<subseteq> insert (k, len, v) (entries m)"
  unfolding entries_def using used_fill [of i m k len v] by (auto simp: fill_def nth_list_update)

definition put_post :: "memory \<Rightarrow> addr set \<Rightarrow> kheap \<Rightarrow> hashmap \<Rightarrow> (nat \<Rightarrow> nat option) \<Rightarrow> addr \<Rightarrow> uint32_t \<Rightarrow> addr \<Rightarrow> (int \<times> hashmap \<times> kheap) res option \<Rightarrow> bool" where
  \<comment> \<open>the value was stored under the key, or a fault for want of memory\<close>
  "put_post M U h m A k len v r \<longleftrightarrow> r = Some (Inl Null_Deref) \<or>
     (\<exists>m' h'. r = Some (Inr (0, m', h')) \<and> hm_ok M m' \<and> hm_owns U h' A m' \<and>
        hm_abs M m' = (hm_abs M m)(bytes_at M k (unat len) \<mapsto> v) \<and> unat (table_size m) \<le> unat (table_size m') \<and> kframe U A h h' \<and>
        entries m' \<subseteq> insert (k, len, v) (entries m))"

definition put_good :: "memory \<Rightarrow> addr set \<Rightarrow> putter \<Rightarrow> nat \<Rightarrow> bool" where
  \<comment> \<open>\<open>put\<close> works on every table of at least \<open>L\<close> places\<close>
  "put_good M U put L \<longleftrightarrow> (\<forall>h A m k len v. hm_ok M m \<longrightarrow> hm_owns U h A m \<longrightarrow> L \<le> unat (table_size m) \<longrightarrow>
     put_post M U h m A k len v (put h m k len v))"

lemma put_goodD:
  "put_good M U put L \<Longrightarrow> hm_ok M m \<Longrightarrow> hm_owns U h A m \<Longrightarrow> L \<le> unat (table_size m) \<Longrightarrow>
   put_post M U h m A k len v (put h m k len v)"
  unfolding put_good_def by blast

text \<open>What the new table holds after the first \<open>i\<close> places of the old one have been moved.\<close>

definition moved :: "memory \<Rightarrow> hashmap \<Rightarrow> nat \<Rightarrow> hashmap \<Rightarrow> bool" where
  "moved M m0 i n \<longleftrightarrow> (\<forall>bs d. hm_abs M n bs = Some d \<longleftrightarrow>
     (\<exists>j < i. used m0 j \<and> ekey M (elems m0 ! j) = bs \<and> edata (elems m0 ! j) = d))"

lemma moved_Suc:
  assumes ok: "hm_ok M m0" and mv: "moved M m0 i n" and i: "used m0 i"
    and n': "hm_abs M n' = (hm_abs M n)(ekey M (elems m0 ! i) \<mapsto> edata (elems m0 ! i))"
  shows "moved M m0 (Suc i) n'"
proof -
  have u: "j = i" if "used m0 j" "ekey M (elems m0 ! j) = ekey M (elems m0 ! i)" for j
    using ok i that unfolding hm_ok_def by blast
  show ?thesis
    unfolding moved_def
  proof (intro allI)
    fix bs d
    let ?E = "\<lambda>j. used m0 j \<and> ekey M (elems m0 ! j) = bs \<and> edata (elems m0 ! j) = d"
    have s: "(\<exists>j < Suc i. ?E j) \<longleftrightarrow> ?E i \<or> (\<exists>j < i. ?E j)" by (auto simp: less_Suc_eq)
    show "hm_abs M n' bs = Some d \<longleftrightarrow> (\<exists>j < Suc i. ?E j)"
    proof (cases "bs = ekey M (elems m0 ! i)")
      case True
      then have "\<not> (\<exists>j < i. ?E j)" using u by (metis less_irrefl)
      then show ?thesis unfolding s using True i n' by auto
    next
      case False
      then show ?thesis unfolding s using mv n' by (simp add: moved_def)
    qed
  qed
qed

lemma moved_skip: "moved M m0 i n \<Longrightarrow> \<not> used m0 i \<Longrightarrow> moved M m0 (Suc i) n"
  by (auto simp: moved_def less_Suc_eq)

lemma rehash_loop:
  assumes put: "put_good M U put L" and m0: "hm_ok M m0" and "i + n = length (elems m0)"
    and "length (elems m) = length (elems m0)" and "\<forall>j \<ge> i. elems m ! j = elems m0 ! j" and "hm_data m = hm_data m0"
    and "hm_ok M new" and "hm_owns U h A new" and "L \<le> unat (table_size new)" and "moved M m0 i new"
  shows "iterate_pairs_from (hashmap_rehash_iterator put) n i m (new, h) = Some (Inl Null_Deref) \<or>
    (\<exists>m' new' h'. iterate_pairs_from (hashmap_rehash_iterator put) n i m (new, h) = Some (Inr (0, m', new', h')) \<and>
       hm_data m' = hm_data m0 \<and> hm_ok M new' \<and> hm_owns U h' A new' \<and> L \<le> unat (table_size new') \<and>
       moved M m0 (length (elems m0)) new' \<and> kframe U A h h' \<and> entries new' \<subseteq> entries new \<union> entries m0)"
  using assms(3-)
proof (induction n arbitrary: i m new h)
  case (Suc n)
  have i: "i < length (elems m)" using Suc.prems(1,2) by simp
  have ei: "elems m ! i = elems m0 ! i" using Suc.prems(3) by simp
  have g: "array_get (elems m) (int i) = Inr (elems m0 ! i)" using array_get_nat [OF i] ei by simp
  show ?case
  proof (cases "in_use (elems m0 ! i) = 0")
    case True
    then have "iterate_pairs_from (hashmap_rehash_iterator put) (Suc n) i m (new, h) =
        iterate_pairs_from (hashmap_rehash_iterator put) n (Suc i) m (new, h)" by (simp add: g)
    moreover have "moved M m0 (Suc i) new" using Suc.prems(8) True by (intro moved_skip) (simp_all add: used_def)
    ultimately show ?thesis using Suc.IH [of "Suc i" m new h] Suc.prems by simp
  next
    case False
    let ?e = "elems m0 ! i" and ?m = "m\<lparr>elems := (elems m)[i := blank], hm_size := hm_size m - 1\<rparr>"
    have u: "used m0 i" using False i Suc.prems(2) by (simp add: used_def)
    consider "put h new (key ?e) (key_len ?e) (edata ?e) = Some (Inl Null_Deref)"
      | new' h' where "put h new (key ?e) (key_len ?e) (edata ?e) = Some (Inr (0, new', h'))" "hm_ok M new'" "hm_owns U h' A new'"
          "hm_abs M new' = (hm_abs M new)(ekey M ?e \<mapsto> edata ?e)" "unat (table_size new) \<le> unat (table_size new')" "kframe U A h h'"
          "entries new' \<subseteq> insert (key ?e, key_len ?e, edata ?e) (entries new)"
      using put_goodD [OF put Suc.prems(5-7), of "key ?e" "key_len ?e" "edata ?e"] unfolding put_post_def ekey_def by blast
    then show ?thesis
    proof cases
      case 1
      then show ?thesis using False by (simp add: g hashmap_rehash_iterator_def)
    next
      case (2 new' h')
      then have "iterate_pairs_from (hashmap_rehash_iterator put) (Suc n) i m (new, h) =
          iterate_pairs_from (hashmap_rehash_iterator put) n (Suc i) ?m (new', h')"
        using False by (simp add: g hashmap_rehash_iterator_def)
      moreover have "moved M m0 (Suc i) new'" using moved_Suc [OF m0 Suc.prems(8) u 2(4)] .
      moreover have "(key ?e, key_len ?e, edata ?e) \<in> entries m0" using u by (auto simp: entries_def)
      then have "entries new' \<union> entries m0 \<subseteq> entries new \<union> entries m0" using 2(7) by blast
      ultimately show ?thesis using Suc.IH [of "Suc i" ?m new' h'] Suc.prems(1-4,7) 2 kframe_trans [OF 2(6)] by (auto 0 4)
    qed
  qed
qed simp

lemma destroy_ok:
  assumes "kheap_in U h (A(q \<mapsto> n, q' \<mapsto> n'))" and "hm_data m = W q" and "A q = None" and "(A(q \<mapsto> n)) q' = None"
  shows "\<exists>e h'. hashmap_destroy h m = Inr (e, h') \<and> kheap_in U h' (A(q' \<mapsto> n')) \<and> A q' = None \<and> kframe U A h h'"
proof -
  have ne: "q' \<noteq> q" "A q' = None" using assms(4) by (auto split: if_splits)
  then have "(A(q \<mapsto> n, q' \<mapsto> n')) q = Some n" by simp
  from kfree_in [OF assms(1) this] obtain h' where h': "kfree h (W q) = Inr h'"
    "kheap_in U h' ((A(q \<mapsto> n, q' \<mapsto> n'))(q := None))" "kframe U ((A(q \<mapsto> n, q' \<mapsto> n'))(q := None)) h h'" by blast
  moreover have e: "(A(q \<mapsto> n, q' \<mapsto> n'))(q := None) = A(q' \<mapsto> n')" using ne assms(3) by (auto simp: fun_eq_iff)
  moreover have "kframe U A h h'" by (rule kframe_mono [OF h'(3)]) (use e ne in auto)
  ultimately show ?thesis using assms(2) ne(2) by (simp add: hashmap_destroy_def)
qed

lemma rehash_ok:
  assumes put: "put_good M U put (2 * L)" and ok: "hm_ok M m" and ow: "hm_owns U h A m" and L: "L \<le> unat (table_size m)"
  shows "hashmap_rehash_helper put h m = Some (Inl Null_Deref) \<or>
    (\<exists>m' h'. hashmap_rehash_helper put h m = Some (Inr (0, m', h')) \<and> hm_ok M m' \<and> hm_owns U h' A m' \<and>
       hm_abs M m' = hm_abs M m \<and> 2 * L \<le> unat (table_size m') \<and> kframe U A h h' \<and> entries m' \<subseteq> entries m)"
proof -
  obtain q n where q: "hm_data m = W q" "A q = None" "kheap_in U h (A(q \<mapsto> n))" using ow by (auto simp: hm_owns_def)
  obtain k where k: "unat (table_size m) = 2 ^ k" "length (elems m) = unat (table_size m)"
    using ok by (auto simp: hm_ok_def hm_shape_def)
  have d: "unat (2 * table_size m) = 2 ^ Suc k" "2 * L \<le> unat (2 * table_size m)"
    using owns_small [OF ow] L k by (simp_all add: unat_word_ariths)
  from create_ok [OF q(3) d(1), of M] show ?thesis
  proof (elim disjE exE conjE)
    assume "hashmap_create h (2 * table_size m) = Inl Null_Deref"
    then show ?thesis by (simp add: hashmap_rehash_helper_def)
  next
    fix new h1 assume new: "hashmap_create h (2 * table_size m) = Inr (0, new, h1)" "hm_ok M new" "hm_abs M new = Map.empty"
      "table_size new = 2 * table_size m" "hm_owns U h1 (A(q \<mapsto> n)) new" "kframe U (A(q \<mapsto> n)) h h1"
    have mv: "moved M m 0 new" using new(3) by (simp add: moved_def)
    have Ln: "2 * L \<le> unat (table_size new)" using d(2) new(4) by simp
    have e: "hashmap_rehash_helper put h m =
        (case iterate_pairs_from (hashmap_rehash_iterator put) (unat (table_size m)) 0 m (new, h1) of
           None \<Rightarrow> None | Some (Inl err) \<Rightarrow> Some (Inl err)
         | Some (Inr (flag, m, new_hash, h)) \<Rightarrow> if flag \<noteq> 0 then Some (Inr (flag, m, h))
             else Some (bindE (hashmap_destroy h m) (\<lambda>(m, h). Inr (0, new_hash, h))))"
      using new(1) by (simp add: hashmap_rehash_helper_def hashmap_iterate_pairs_def)
    have "0 + unat (table_size m) = length (elems m)" "\<forall>j \<ge> 0. elems m ! j = elems m ! j" using k(2) by simp_all
    from rehash_loop [OF put ok this(1) refl this(2) refl new(2,5) Ln mv] show ?thesis
      unfolding k(2)
    proof (elim disjE exE conjE)
      fix m' new' h' assume it: "iterate_pairs_from (hashmap_rehash_iterator put) (unat (table_size m)) 0 m (new, h1) = Some (Inr (0, m', new', h'))"
        and n': "hm_data m' = hm_data m" "hm_ok M new'" "hm_owns U h' (A(q \<mapsto> n)) new'" "2 * L \<le> unat (table_size new')"
          "moved M m (unat (table_size m)) new'" "kframe U (A(q \<mapsto> n)) h1 h'"
          "entries new' \<subseteq> entries new \<union> entries m"
      obtain q' k' where q': "hm_data new' = W q'" "(A(q \<mapsto> n)) q' = None" "kheap_in U h' (A(q \<mapsto> n, q' \<mapsto> k'))" "24 * unat (table_size new') \<le> k'"
        using n'(3) by (auto simp: hm_owns_def)
      obtain z h2 where z: "hashmap_destroy h' m' = Inr (z, h2)" "kheap_in U h2 (A(q' \<mapsto> k'))" "A q' = None" "kframe U A h' h2"
        using destroy_ok [OF q'(3) _ q(2) q'(2), of m'] n'(1) q(1) by auto
      have "hm_abs M new' bs = hm_abs M m bs" for bs
      proof -
        have "hm_abs M new' bs = Some d \<longleftrightarrow> hm_abs M m bs = Some d" for d
          using n'(5) k(2) unfolding abs_Some [OF ok] moved_def used_def by auto
        then show ?thesis by (metis option.exhaust)
      qed
      moreover have "entries new = {}" using new(2,3) abs_None [of M new] by (auto simp: entries_def)
      then have "entries new' \<subseteq> entries m" using n'(7) by simp
      moreover have "kframe U A h h'" by (rule kframe_mono [OF kframe_trans [OF new(6) n'(6)]]) (use q(2) in auto)
      then have "kframe U A h h2" using kframe_trans z(4) by blast
      moreover have "hm_owns U h2 A new'" using q' z by (auto simp: hm_owns_def)
      moreover have "hashmap_rehash_helper put h m = Some (Inr (0, new', h2))" using z(1) by (simp add: e it)
      ultimately show ?thesis using n'(2,4) by blast
    qed (simp add: e)
  qed
qed

lemma put_place:
  assumes ok: "hm_ok M m" and ow: "hm_owns U h A m" and h: "hashmap_hash_helper M m k len = Inr (Some c)"
  shows "put_post M U h m A k len v (hashmap_put (Suc fuel) M h m k len v)"
proof -
  let ?bs = "bytes_at M k (unat len)" and ?m = "fill m (unat c) k len v"
  have "unat c < length (elems m) \<and> hm_ok M ?m \<and> hm_abs M ?m = (hm_abs M m)(?bs \<mapsto> v)"
    using hash_helper_cases [OF ok refl, of k len]
  proof (elim disjE exE conjE)
    fix c' assume c': "hashmap_hash_helper M m k len = Inr (Some c')" "used m (unat c')" "ekey M (elems m ! unat c') = ?bs"
    then have c: "used m (unat c)" "ekey M (elems m ! unat c) = ?bs" using h by simp_all
    have u: "j = unat c" if "used m j" "ekey M (elems m ! j) = ?bs" for j
      using ok c that unfolding hm_ok_def by metis
    have lt: "unat c < length (elems m)" using c by (simp add: used_def)
    show ?thesis using fill_ok [OF ok lt refl key_place [OF ok c] u c(2)] lt by blast
  next
    fix c' j assume c': "hashmap_hash_helper M m k len = Inr (Some c')" "unat c' < length (elems m)" "\<not> used m (unat c')"
      "j < 8" "unat c' = place m (home m ?bs) j" "hm_abs M m ?bs = None"
    then have c: "unat c < length (elems m)" "\<not> used m (unat c)" "\<exists>j < 8. unat c = place m (home m ?bs) j" using h by auto
    have n: "\<And>i. used m i \<Longrightarrow> ekey M (elems m ! i) = ?bs \<Longrightarrow> i = unat c" using c'(6) unfolding abs_None by blast
    show ?thesis using fill_ok [OF ok c(1) refl c(3) n] c(1,2) by blast
  qed (simp add: h)
  moreover have "hm_owns U h A ?m" "table_size ?m = table_size m" using ow by (simp_all add: hm_owns_def fill_def)
  ultimately show ?thesis using entries_fill [of "unat c" m k len v] by (simp add: put_post_def h put_at_eq [OF ok])
qed

lemma put_rehash:
  assumes ok: "hm_ok M m" and ow: "hm_owns U h A m" and h: "hashmap_hash_helper M m k len = Inr None"
    and IH: "put_good M U (hashmap_put fuel M) (2 * unat (table_size m))"
  shows "put_post M U h m A k len v (hashmap_put (Suc fuel) M h m k len v)"
  using rehash_ok [OF IH ok ow le_refl]
proof (elim disjE exE conjE)
  assume "hashmap_rehash_helper (hashmap_put fuel M) h m = Some (Inl Null_Deref)"
  then show ?thesis by (simp add: put_post_def h)
next
  fix m1 h1 assume r: "hashmap_rehash_helper (hashmap_put fuel M) h m = Some (Inr (0, m1, h1))" "hm_ok M m1"
    "hm_owns U h1 A m1" "hm_abs M m1 = hm_abs M m" "2 * unat (table_size m) \<le> unat (table_size m1)" "kframe U A h h1" "entries m1 \<subseteq> entries m"
  have e: "hashmap_put (Suc fuel) M h m k len v = hashmap_put fuel M h1 m1 k len v" using h r(1) by simp
  have "put_post M U h1 m1 A k len v (hashmap_put fuel M h1 m1 k len v)"
    by (rule put_goodD [OF IH r(2,3,5)])
  moreover have "unat (table_size m) \<le> unat (table_size m1)" using r(5) by linarith
  ultimately show ?thesis unfolding e put_post_def r(4) using order_trans kframe_trans [OF r(6)] r(7) by blast
qed

lemma put_fuel: "2 ^ 28 \<le> L * 2 ^ fuel \<Longrightarrow> put_good M U (hashmap_put fuel M) L"
proof (induction fuel arbitrary: L)
  case 0
  have "\<not> (hm_owns U h A m \<and> L \<le> unat (table_size m))" for h A m using owns_small [of U h A m] 0 by auto
  then show ?case unfolding put_good_def by blast
next
  case (Suc fuel)
  show ?case
    unfolding put_good_def
  proof (intro allI impI)
    fix h A m k v and len :: uint32_t
    assume ok: "hm_ok M m" and ow: "hm_owns U h A m" and L: "L \<le> unat (table_size m)"
    have "L * 2 ^ Suc fuel \<le> unat (table_size m) * 2 ^ Suc fuel" using L by (rule mult_le_mono1)
    from order_trans [OF Suc.prems this] have "2 ^ 28 \<le> 2 * unat (table_size m) * 2 ^ fuel"
      by (simp only: power_Suc ac_simps)
    then have IH: "put_good M U (hashmap_put fuel M) (2 * unat (table_size m))" by (rule Suc.IH)
    from hash_helper_cases [OF ok refl, of k len] consider
      "hashmap_hash_helper M m k len = Inr None" | c where "hashmap_hash_helper M m k len = Inr (Some c)" by blast
    then show "put_post M U h m A k len v (hashmap_put (Suc fuel) M h m k len v)"
      by cases (rule put_rehash [OF ok ow _ IH] put_place [OF ok ow], assumption)+
  qed
qed

subsection \<open>A keyed store\<close>

text \<open>
  What a client relies on: a lookup returns the value stored for the name of the key or the null
  pointer, and a removal deletes that name only. Both removals of the hash map provide it.
\<close>

locale keyed_store =
  fixes inv :: "'s \<Rightarrow> bool"
    and contents :: "'s \<Rightarrow> 'n \<Rightarrow> addr option"
    and name :: "'k \<Rightarrow> 'n"
    and get :: "'s \<Rightarrow> 'k \<Rightarrow> addr res"
    and remove :: "'s \<Rightarrow> 'k \<Rightarrow> ('r \<times> 's) res"
  assumes get_law: "inv s \<Longrightarrow> get s k = Inr (case contents s (name k) of None \<Rightarrow> 0 | Some d \<Rightarrow> d)"
    and remove_law: "inv s \<Longrightarrow> \<exists>r s'. remove s k = Inr (r, s') \<and> inv s' \<and> contents s' = (contents s)(name k := None)"
begin

lemma get_after_remove:
  assumes "inv s"
  shows "\<exists>r s'. remove s k = Inr (r, s') \<and> inv s' \<and> get s' k = Inr 0 \<and>
    (\<forall>k'. name k' \<noteq> name k \<longrightarrow> get s' k' = get s k')"
proof -
  obtain r s' where s': "remove s k = Inr (r, s')" "inv s'" "contents s' = (contents s)(name k := None)"
    using remove_law [OF assms] by blast
  then show ?thesis using get_law [OF s'(2)] get_law [OF assms] by auto
qed

lemma remove_twice:
  assumes "inv s"
  shows "\<exists>r1 s1 r2 s2. remove s k = Inr (r1, s1) \<and> remove s1 k = Inr (r2, s2) \<and> contents s2 = contents s1"
proof -
  obtain r1 s1 where s1: "remove s k = Inr (r1, s1)" "inv s1" "contents s1 = (contents s)(name k := None)"
    using remove_law [OF assms] by blast
  obtain r2 s2 where "remove s1 k = Inr (r2, s2)" "contents s2 = (contents s1)(name k := None)"
    using remove_law [OF s1(2)] by blast
  then show ?thesis using s1 by auto
qed

end

lemma clear_law:
  assumes "hm_ok M m" and "bs = bytes_at M k (unat len)"
  shows "\<exists>r m'. hashmap_remove M m k len = Inr (r, m') \<and> hm_ok M m' \<and> hm_abs M m' = (hm_abs M m)(bs := None) \<and>
      (r = 0 \<longleftrightarrow> hm_abs M m bs \<noteq> None) \<and> (r = 0 \<or> r = 1)"
    and "\<exists>r m'. hashmap_remove_and_return_key M m k len = Inr (r, m') \<and> hm_ok M m' \<and> hm_abs M m' = (hm_abs M m)(bs := None) \<and>
      (case hm_abs M m bs of None \<Rightarrow> r = 0 | Some d \<Rightarrow> bytes_at M r (unat len) = bs)"
proof -
  have "(\<exists>r m'. hashmap_remove M m k len = Inr (r, m') \<and> hm_ok M m' \<and> hm_abs M m' = (hm_abs M m)(bs := None) \<and>
      (r = 0 \<longleftrightarrow> hm_abs M m bs \<noteq> None) \<and> (r = 0 \<or> r = 1)) \<and>
    (\<exists>r m'. hashmap_remove_and_return_key M m k len = Inr (r, m') \<and> hm_ok M m' \<and> hm_abs M m' = (hm_abs M m)(bs := None) \<and>
      (case hm_abs M m bs of None \<Rightarrow> r = 0 | Some d \<Rightarrow> bytes_at M r (unat len) = bs))"
    using remove_eq [OF assms]
  proof (elim disjE exE conjE)
    assume n: "hm_abs M m bs = None" "hashmap_remove M m k len = Inr (1, m)" "hashmap_remove_and_return_key M m k len = Inr (0, m)"
    then have "(hm_abs M m)(bs := None) = hm_abs M m" by (simp only: fun_upd_idem)
    with n assms(1) show ?thesis by simp
  next
    fix i
    let ?e = "(elems m ! i)\<lparr>in_use := 0, edata := 0, key := 0\<rparr>"
    assume i: "used m i" "ekey M (elems m ! i) = bs" "hashmap_remove M m k len = Inr (0, clear_at m i blank)"
      "hashmap_remove_and_return_key M m k len = Inr (key (elems m ! i), clear_at m i ?e)"
    have d: "hm_abs M m bs = Some (edata (elems m ! i))" unfolding abs_Some [OF assms(1)] using i by blast
    have "key_len (elems m ! i) = len" using match_iff [of M "elems m ! i" k len] i(2) assms(2) by (simp add: hashmap_match_helper_def)
    then have ek: "bytes_at M (key (elems m ! i)) (unat len) = bs" using i(2) by (simp add: ekey_def)
    have z: "in_use blank = 0" "in_use ?e = 0" by (simp_all add: blank_def)
    note c = clear_ok [OF assms(1) i(1) z(1), unfolded i(2)] clear_ok [OF assms(1) i(1) z(2), unfolded i(2)]
    show ?thesis
      by (rule conjI, rule exI [of _ 0], rule exI [of _ "clear_at m i blank"], use i(3) c(1,2) d in simp,
          rule exI [of _ "key (elems m ! i)"], rule exI [of _ "clear_at m i ?e"], use i(4) c(3,4) d ek in simp)
  qed
  then show "\<exists>r m'. hashmap_remove M m k len = Inr (r, m') \<and> hm_ok M m' \<and> hm_abs M m' = (hm_abs M m)(bs := None) \<and>
      (r = 0 \<longleftrightarrow> hm_abs M m bs \<noteq> None) \<and> (r = 0 \<or> r = 1)"
    and "\<exists>r m'. hashmap_remove_and_return_key M m k len = Inr (r, m') \<and> hm_ok M m' \<and> hm_abs M m' = (hm_abs M m)(bs := None) \<and>
      (case hm_abs M m bs of None \<Rightarrow> r = 0 | Some d \<Rightarrow> bytes_at M r (unat len) = bs)" by blast+
qed

interpretation hr: keyed_store "hm_ok M" "hm_abs M" "\<lambda>(k, len). bytes_at M k (unat len)"
  "\<lambda>m (k, len). hashmap_get M m k len" "\<lambda>m (k, len). hashmap_remove M m k len" for M
proof (unfold_locales, goal_cases)
  case (1 s k)
  then show ?case by (cases k) (simp add: get_eq)
next
  case (2 s k)
  then show ?case using clear_law(1) [OF 2 refl] by (cases k) (simp only: prod.case, blast)
qed

interpretation hk: keyed_store "hm_ok M" "hm_abs M" "\<lambda>(k, len). bytes_at M k (unat len)"
  "\<lambda>m (k, len). hashmap_get M m k len" "\<lambda>m (k, len). hashmap_remove_and_return_key M m k len" for M
proof (unfold_locales, goal_cases)
  case (1 s k)
  then show ?case by (cases k) (simp add: get_eq)
next
  case (2 s k)
  then show ?case using clear_law(2) [OF 2 refl] by (cases k) (simp only: prod.case, blast)
qed

subsection \<open>Properties\<close>

text \<open>An empty table of four places in the block of a heap with one allocation.\<close>

definition demo_hash :: hashmap where
  "demo_hash = \<lparr>table_size = 4, hm_size = 0, hm_data = W demo_ptr, elems = replicate 4 blank\<rparr>"

definition demo_hash_heap :: kheap where
  "demo_hash_heap = \<lparr>tlsf_ctx = Some demo_used, bytes_allocated = 100\<rparr>"

lemma demo_hash_unused: "\<not> used demo_hash i"
  by (simp add: used_def demo_hash_def blank_def)

lemma demo_hash_empty: "hm_abs M demo_hash bs = None"
  by (simp add: abs_None demo_hash_unused)

lemma demo_hash_ok: "hm_ok M demo_hash" "hm_owns {} demo_hash_heap Map.empty demo_hash"
proof -
  have "hm_shape demo_hash" unfolding hm_shape_def by (simp add: demo_hash_def exI [of _ 2])
  then show "hm_ok M demo_hash" by (auto simp: hm_ok_def demo_hash_unused) (auto simp: demo_hash_def blank_def)
  have "kheap_in {} demo_hash_heap [demo_ptr \<mapsto> demo_size]"
    by (rule kheap_inI [OF _ demo_used_ok(2)]) (simp_all add: demo_hash_heap_def)
  moreover have "24 * unat (table_size demo_hash) \<le> demo_size" using demo_used_ok(3) by (simp add: demo_hash_def)
  ultimately show "hm_owns {} demo_hash_heap Map.empty demo_hash" unfolding hm_owns_def by (auto simp: demo_hash_def)
qed

lemma put_result:
  assumes "hm_ok M m" and "hm_owns U h A m" and "28 \<le> fuel"
  shows "hashmap_put fuel M h m k len v = Some (Inl Null_Deref) \<or>
    (\<exists>m' h'. hashmap_put fuel M h m k len v = Some (Inr (0, m', h')) \<and> hm_ok M m' \<and> hm_owns U h' A m' \<and>
       hm_abs M m' = (hm_abs M m)(bytes_at M k (unat len) \<mapsto> v) \<and> kframe U A h h' \<and>
       entries m' \<subseteq> insert (k, len, v) (entries m))"
proof -
  have "(2 :: nat) ^ 28 \<le> 1 * 2 ^ fuel" using assms(3) power_increasing [of 28 fuel "2 :: nat"] by simp
  moreover have "1 \<le> unat (table_size m)" using assms(1) by (auto simp: hm_ok_def hm_shape_def)
  ultimately show ?thesis
    using put_goodD [OF put_fuel assms(1,2)] unfolding put_post_def by blast
qed



text \<open>C20: \<open>hashmap_get\<close> returns the value stored under the bytes of the key, wherever the key itself is
  stored, and the null pointer if there is none; it always returns.\<close>

theorem hashmap_get_correct:
  assumes "hm_ok M m"
  shows "hashmap_get M m k len = Inr (case hm_abs M m (bytes_at M k (unat len)) of None \<Rightarrow> 0 | Some d \<Rightarrow> d)"
  by (rule get_eq [OF assms])

theorem hashmap_get_correct_witness: "hashmap_get (\<lambda>_. 7) demo_hash 5 2 = Inr 0"
  using hashmap_get_correct [OF demo_hash_ok(1), of "\<lambda>_. 7" 5 2] by (simp add: demo_hash_empty)

text \<open>C21: \<open>hashmap_remove\<close> deletes the key and returns 0, or returns 1 if it was not there. Afterwards a
  lookup of the key finds nothing and a lookup of any other key finds what it found before.\<close>

theorem hashmap_remove_correct:
  assumes "hm_ok M m"
  shows "\<exists>r m'. hashmap_remove M m k len = Inr (r, m') \<and> hm_ok M m' \<and>
    r = (if hm_abs M m (bytes_at M k (unat len)) = None then 1 else 0) \<and> hashmap_get M m' k len = Inr 0 \<and>
    (\<forall>k' len'. bytes_at M k' (unat len') \<noteq> bytes_at M k (unat len) \<longrightarrow> hashmap_get M m' k' len' = hashmap_get M m k' len')"
proof -
  obtain r m' where r: "hashmap_remove M m k len = Inr (r, m')" "hm_ok M m'"
    "hashmap_get M m' k len = Inr 0"
    "\<forall>k'. (case k' of (k', len') \<Rightarrow> bytes_at M k' (unat len')) \<noteq> bytes_at M k (unat len) \<longrightarrow>
       (case k' of (k', len') \<Rightarrow> hashmap_get M m' k' len') = (case k' of (k', len') \<Rightarrow> hashmap_get M m k' len')"
    using hr.get_after_remove [OF assms, of "(k, len)"] by (simp only: prod.case) blast
  moreover have "r = (if hm_abs M m (bytes_at M k (unat len)) = None then 1 else 0)"
    using clear_law(1) [OF assms refl, of k len] r(1) by auto
  ultimately show ?thesis by (intro exI [of _ r] exI [of _ m']) auto
qed

theorem hashmap_remove_correct_witness: "\<exists>m'. hashmap_remove (\<lambda>_. 7) demo_hash 5 2 = Inr (1, m') \<and> hm_ok (\<lambda>_. 7) m'"
  using hashmap_remove_correct [OF demo_hash_ok(1), of "\<lambda>_. 7" 5 2] by (auto simp: demo_hash_empty)

text \<open>\<open>hashmap_remove_and_return_key\<close> deletes the same key and returns a pointer to a key with the
  same bytes, the one that was stored, or the null pointer if there was none.\<close>

lemma hashmap_remove_and_return_key_correct:
  assumes "hm_ok M m"
  shows "\<exists>r m'. hashmap_remove_and_return_key M m k len = Inr (r, m') \<and> hm_ok M m' \<and>
    hm_abs M m' = (hm_abs M m)(bytes_at M k (unat len) := None) \<and>
    (if hm_abs M m (bytes_at M k (unat len)) = None then r = 0 else bytes_at M r (unat len) = bytes_at M k (unat len))"
  using clear_law(2) [OF assms refl, of k len] by (auto split: option.splits)

text \<open>\<open>hashmap_num_entries\<close> is the number of keys.\<close>

lemma hashmap_num_entries_correct:
  assumes "hm_ok M m"
  shows "unat (hashmap_num_entries m) = card (dom (hm_abs M m))"
proof -
  have "dom (hm_abs M m) = (\<lambda>i. ekey M (elems m ! i)) ` {i. used m i}"
    using abs_Some [OF assms] by (auto simp: dom_def)
  moreover have "inj_on (\<lambda>i. ekey M (elems m ! i)) {i. used m i}"
    using assms unfolding hm_ok_def inj_on_def by blast
  ultimately have "card (dom (hm_abs M m)) = card {i. used m i}" by (simp only: card_image)
  moreover have "unat (hm_size m) = card {i. used m i}" using assms unfolding hm_ok_def by blast
  ultimately show ?thesis by (simp only: hashmap_num_entries_def)
qed

text \<open>\<open>hashmap_create\<close> of a power of two gives an empty map whose table is a new block of the heap, or
  faults when the heap is exhausted; it rejects 0. \<open>hashmap_destroy\<close> gives the block back.\<close>

lemma hashmap_create_destroy:
  assumes "kheap_in U h A" and "unat sz = 2 ^ k"
  shows "hashmap_create h sz = Inl Null_Deref \<or>
    (\<exists>m h' e h''. hashmap_create h sz = Inr (0, m, h') \<and> hm_ok M m \<and> hm_abs M m = Map.empty \<and> table_size m = sz \<and>
       hm_owns U h' A m \<and> hashmap_destroy h' m = Inr (e, h'') \<and> kheap_in U h'' A)"
  using create_ok [OF assms, of M]
proof (elim disjE exE conjE)
  fix m h' assume m: "hashmap_create h sz = Inr (0, m, h')" "hm_ok M m" "hm_abs M m = Map.empty" "table_size m = sz" "hm_owns U h' A m"
  obtain q n where q: "hm_data m = W q" "A q = None" "kheap_in U h' (A(q \<mapsto> n))" using m(5) by (auto simp: hm_owns_def)
  have "(A(q \<mapsto> n)) q = Some n" by simp
  from ku.release_law [OF q(3) this] obtain h'' where "kfree h' (W q) = Inr h''" "kheap_in U h'' ((A(q \<mapsto> n))(q := None))" by blast
  moreover have "(A(q \<mapsto> n))(q := None) = A" using q(2) by (simp add: fun_upd_idem)
  ultimately show ?thesis using m q(1) by (simp add: hashmap_destroy_def)
qed simp

text \<open>\<open>hashmap_iterate\<close> stops with the result 1 at the first value for which the callback returns 0,
  and returns 0 when the callback never does: the reverse of its documentation, which says that
  iteration goes on while the callback returns 0.\<close>

lemma hashmap_iterate_stops:
  assumes "\<And>c d. snd (f c d) = g c d" and "\<And>c d. fst (f c d) = 0 \<longleftrightarrow> stop d"
    and "vs = map edata (filter (\<lambda>e. in_use e \<noteq> 0) (take (unat (table_size m)) (elems m)))"
  shows "hashmap_iterate m f c =
    (if \<exists>d \<in> set vs. stop d then (1, foldl g c (takeWhile (\<lambda>d. \<not> stop d) vs @ [hd (dropWhile (\<lambda>d. \<not> stop d) vs)]))
     else (0, foldl g c vs))"
proof -
  have "iterate_from f es c = (let vs = map edata (filter (\<lambda>e. in_use e \<noteq> 0) es) in
      if \<exists>d \<in> set vs. stop d then (1, foldl g c (takeWhile (\<lambda>d. \<not> stop d) vs @ [hd (dropWhile (\<lambda>d. \<not> stop d) vs)]))
      else (0, foldl g c vs))" for es
  proof (induction es arbitrary: c)
    case (Cons e es)
    have "f c (edata e) = (fst (f c (edata e)), g c (edata e))" using assms(1) by (metis prod.collapse)
    then show ?case using Cons assms(2) [of c "edata e"] by (auto simp: Let_def split: prod.splits)
  qed simp
  then show ?thesis by (simp add: hashmap_iterate_def assms(3) Let_def)
qed

end
