(* ===== verification/Vfs.thy ===== *)
theory Vfs
  imports Hashmap_Spec Console Process
begin

text \<open>
  The file system, \<^verbatim>\<open>sys/fs/vfs.c\<close> and \<^verbatim>\<open>sys/include/sys/vnode.h\<close>: a tree of nodes, each a block of the
  kernel heap with a hash map of its children. The name of a node is in memory, at the address of the
  node, and so is its lock; its other fields are the record \<open>vnode\<close>. A pointer that is not the address of a node is
  treated as the null pointer. The buffer \<open>fname\<close> of \<open>path2vnode\<close> is on the stack; its address is a
  parameter, as are the addresses of string literals.
\<close>

definition V_ROOT :: uint8_t where "V_ROOT = push_bit 0 1"
definition V_ETERNALDEV :: uint8_t where "V_ETERNALDEV = push_bit 1 1"
definition V_SYSTEM :: uint8_t where "V_SYSTEM = push_bit 2 1"
definition V_MOUNTPOINT :: uint8_t where "V_MOUNTPOINT = push_bit 3 1"

definition sizeof_vnode :: size_t where "sizeof_vnode = 304"

definition V_LOCK :: "'d kernel \<Rightarrow> addr \<Rightarrow> 'd kernel run" where
  "V_LOCK s vnode = (if vnode = 0 then Some (Inl Null_Deref) else lock_acquire s (vnode + 265))"

definition V_UNLOCK :: "'d kernel \<Rightarrow> addr \<Rightarrow> 'd kernel res" where
  "V_UNLOCK s vnode = (if vnode = 0 then Inl Null_Deref else Inr (lock_release s (vnode + 265)))"

subsection \<open>Operations\<close>

definition node :: "'d kernel \<Rightarrow> addr \<Rightarrow> vnode res" where
  "node s p = (case vnodes s p of None \<Rightarrow> Inl Null_Deref | Some v \<Rightarrow> Inr v)"

definition strlenR :: "'d kernel \<Rightarrow> addr \<Rightarrow> size_t run" where
  "strlenR s p = (case strlen (ram s) p of None \<Rightarrow> None | Some n \<Rightarrow> ret n)"

definition name2vnode :: "'d kernel \<Rightarrow> addr \<Rightarrow> addr \<Rightarrow> addr run" where
  "name2vnode s name parent =
     bindR (strlenR s name) (\<lambda>len.
     bindR (Some (node s parent)) (\<lambda>v.
     Some (hashmap_get (ram s) (children v) name (ucast len))))"

text \<open>The loop of \<open>path2vnode\<close>, from a node, a character of the path and an index of \<open>fname\<close>.\<close>

partial_function (option) path_loop :: "'d hardware \<Rightarrow> addr \<Rightarrow> addr \<Rightarrow> addr \<Rightarrow> size_t \<Rightarrow> 'd kernel \<Rightarrow> (addr \<times> 'd kernel) run" where
  "path_loop H fname current ptr fname_idx s =
     (if fname_idx \<ge> NAME_MAX then ret (0, s)
      else if ram s ptr = ch (CHR ''/'') \<or> ram s ptr = 0
      then let s = s\<lparr>ram := (ram s)(fname + fname_idx := 0)\<rparr>
           in case name2vnode s fname current of
                None \<Rightarrow> None
              | Some (Inl e) \<Rightarrow> Some (Inl e)
              | Some (Inr current) \<Rightarrow>
                  case strlen (ram s) fname of
                    None \<Rightarrow> None
                  | Some len \<Rightarrow>
                      case printk H s (map ch ''%s'' @ [10]) [Str (bytes_at (ram s) fname (unat len))] of
                        Inl e \<Rightarrow> Some (Inl e)
                      | Inr s \<Rightarrow>
                          if current = 0 then ret (0, s)
                          else let s = s\<lparr>ram := memzero (ram s) fname 256\<rparr>;
                                   ptr = ptr + 1
                               in if ram s (ptr - 1) = 0 then ret (if current \<noteq> fs_root s then current else 0, s)
                                  else path_loop H fname current ptr 0 s
      else path_loop H fname current (ptr + 1) (fname_idx + 1) (s\<lparr>ram := (ram s)(fname + fname_idx := ram s ptr)\<rparr>))"

definition path2vnode :: "'d hardware \<Rightarrow> addr \<Rightarrow> 'd kernel \<Rightarrow> addr \<Rightarrow> (addr \<times> 'd kernel) run" where
  "path2vnode H fname s path =
     (if ram s path \<noteq> ch (CHR ''/'') then ret (0, s)
      else path_loop H fname (fs_root s) (path + 1) 0 s)"

definition map_call :: "(kheap \<Rightarrow> (int \<times> hashmap \<times> kheap) res) \<Rightarrow> 'd kernel \<Rightarrow> (int \<times> hashmap \<times> 'd kernel) res" where
  "map_call f s = bindE (f (with_ram (heap s) (ram s))) (\<lambda>(r, m, h). Inr (r, m, put_heap s h))"

definition vfs_append_child :: "'d kernel \<Rightarrow> addr \<Rightarrow> addr \<Rightarrow> 'd kernel run" where
  "vfs_append_child s parent child =
     (let parent = (if parent = 0 then fs_root s else parent)
      in bindR (Some (node s child)) (\<lambda>_.
         bindR (strlenR s child) (\<lambda>len.
         bindR (Some (node s parent)) (\<lambda>v.
         case hashmap_put 28 (ram s) (with_ram (heap s) (ram s)) (children v) child (ucast len) child of
           None \<Rightarrow> None
         | Some (Inl e) \<Rightarrow> Some (Inl e)
         | Some (Inr (_, m, h)) \<Rightarrow>
             let s = put_heap s h
             in ret (s\<lparr>vnodes := (vnodes s)(parent \<mapsto> v\<lparr>children := m\<rparr>)\<rparr>)))))"

definition vfs_make_vnode :: "'d kernel \<Rightarrow> addr \<Rightarrow> vtype \<Rightarrow> uint8_t \<Rightarrow> (addr \<times> 'd kernel) run" where
  "vfs_make_vnode s name vtype is_mountpoint =
     bindR (strlenR s name) (\<lambda>len.
     if len \<ge> NAME_MAX then ret (0, s)
     else bindR (Some (heap_call (\<lambda>h. kcalloc h 1 sizeof_vnode) s)) (\<lambda>(new, s).
          let v = \<lparr>v_type = vtype, v_state = VSTATE_CONSTRUCTED, v_flags = (if is_mountpoint \<noteq> 0 then V_MOUNTPOINT else 0),
                   v_mkdir = 0, children = \<lparr>table_size = 0, hm_size = 0, hm_data = 0, elems = []\<rparr>, n_children = 0\<rparr>
          in bindR (Some (map_call (\<lambda>h. hashmap_create h 2) s)) (\<lambda>(r, m, s).
             let s = s\<lparr>vnodes := (vnodes s)(new \<mapsto> v\<lparr>children := m\<rparr>)\<rparr>
             in bindR (Some (assertE (r = 0))) (\<lambda>_.
                bindR (strlenR s name) (\<lambda>len.
                ret (new, s\<lparr>ram := memcpy (ram s) new name len\<rparr>))))))"

definition vfs_init :: "'d hardware \<Rightarrow> addr \<Rightarrow> 'd kernel \<Rightarrow> 'd kernel run" where
  "vfs_init H lit s =
     bindR (vfs_make_vnode s lit VDIR 1) (\<lambda>(root, s).
     let s = s\<lparr>fs_root := root\<rparr>
     in bindR (Some (node s root)) (\<lambda>v.
        let s = s\<lparr>vnodes := (vnodes s)(root \<mapsto> v\<lparr>v_flags := v_flags v OR V_ROOT\<rparr>)\<rparr>
        in Some (printk H s (KERN_INFO @ map ch ''Mounted filesystem root at '' @ [39] @ map ch ''/'' @ [39, 10]) [])))"

subsection \<open>The tree\<close>

definition name_at :: "memory \<Rightarrow> addr \<Rightarrow> uint8_t list \<Rightarrow> bool" where
  "name_at M p xs \<longleftrightarrow> cstring_at M p xs \<and> length xs < 255"

text \<open>A node: a block of the heap with a name, and a consistent map whose table is another block and whose keys are
  the names of the nodes it maps them to.\<close>

definition node_at :: "memory \<Rightarrow> (nat \<Rightarrow> nat option) \<Rightarrow> (addr \<Rightarrow> vnode option) \<Rightarrow> addr \<Rightarrow> vnode \<Rightarrow> bool" where
  "node_at M A V p v \<longleftrightarrow>
     p \<noteq> 0 \<and> (\<exists>q k. p = W q \<and> A q = Some k \<and> 304 \<le> k) \<and> (\<exists>xs. name_at M p xs) \<and> hm_ok M (children v) \<and>
     (\<exists>t n. hm_data (children v) = W t \<and> A t = Some n \<and> 24 * unat (table_size (children v)) \<le> n) \<and>
     (\<forall>(k, len, d) \<in> entries (children v). k = d \<and> V d \<noteq> None \<and> name_at M d (bytes_at M d (unat len)))"

lemma node_atI:
  assumes "p = W q" "A q = Some k" "304 \<le> k" "p \<noteq> 0" and "name_at M p xs" and "hm_ok M (children v)"
    and "hm_data (children v) = W t" "A t = Some n" "24 * unat (table_size (children v)) \<le> n"
    and "\<And>k len d. (k, len, d) \<in> entries (children v) \<Longrightarrow> k = d \<and> V d \<noteq> None \<and> name_at M d (bytes_at M d (unat len))"
  shows "node_at M A V p v"
proof -
  have "\<forall>(k, len, d) \<in> entries (children v). k = d \<and> V d \<noteq> None \<and> name_at M d (bytes_at M d (unat len))" using assms(10) by blast
  moreover have "\<exists>q k. p = W q \<and> A q = Some k \<and> 304 \<le> k" using assms(1-3) by blast
  moreover have "\<exists>t n. hm_data (children v) = W t \<and> A t = Some n \<and> 24 * unat (table_size (children v)) \<le> n" using assms(7-9) by blast
  ultimately show ?thesis unfolding node_at_def using assms(4,5,6) by blast
qed

lemma node_entry:
  assumes "node_at M A V p v" and "(k, len, d) \<in> entries (children v)"
  shows "k = d \<and> V d \<noteq> None \<and> name_at M d (bytes_at M d (unat len))"
  using assms by (auto simp: node_at_def)

definition tables_apart :: "(addr \<Rightarrow> vnode option) \<Rightarrow> bool" where
  "tables_apart V \<longleftrightarrow> (\<forall>p v p' v'. V p = Some v \<longrightarrow> V p' = Some v' \<longrightarrow>
     hm_data (children v) \<noteq> p' \<and> (p \<noteq> p' \<longrightarrow> hm_data (children v) \<noteq> hm_data (children v')))"

text \<open>The invariant: \<open>A\<close> are the blocks of the heap, \<open>U\<close> addresses outside its memory.\<close>

definition tree_ok :: "addr set \<Rightarrow> 'd kernel \<Rightarrow> (nat \<Rightarrow> nat option) \<Rightarrow> bool" where
  "tree_ok U s A \<longleftrightarrow> kheap_in U (with_ram (heap s) (ram s)) A \<and>
     (\<forall>p v. vnodes s p = Some v \<longrightarrow> node_at (ram s) A (vnodes s) p v) \<and> tables_apart (vnodes s)"

text \<open>What the tree stands for: the child of a node with a name, and the node at the end of a path.\<close>

definition kids :: "memory \<Rightarrow> (addr \<Rightarrow> vnode option) \<Rightarrow> addr \<Rightarrow> uint8_t list \<Rightarrow> addr option" where
  "kids M V p name = (case V p of None \<Rightarrow> None | Some v \<Rightarrow> hm_abs M (children v) name)"

fun walk :: "(addr \<Rightarrow> uint8_t list \<Rightarrow> addr option) \<Rightarrow> addr \<Rightarrow> uint8_t list list \<Rightarrow> addr option" where
  "walk f p [] = Some p"
| "walk f p (c # cs) = (case f p c of None \<Rightarrow> None | Some q \<Rightarrow> walk f q cs)"

abbreviation slash :: uint8_t where
  "slash \<equiv> ch (CHR ''/'')"

fun components :: "uint8_t list \<Rightarrow> uint8_t list list" where
  "components [] = [[]]"
| "components (c # cs) =
     (if c = slash then [] # components cs else (case components cs of [] \<Rightarrow> [[c]] | x # xs \<Rightarrow> (c # x) # xs))"

lemma components_cases: "slash \<notin> set acc \<Longrightarrow> components acc = [acc]"
  "slash \<notin> set acc \<Longrightarrow> components (acc @ slash # ys) = acc # components ys"
  "slash \<notin> set acc \<Longrightarrow> \<exists>z zs. components (acc @ ys) = (acc @ z) # zs"
proof -
  show "slash \<notin> set acc \<Longrightarrow> components acc = [acc]" by (induction acc) auto
  show "slash \<notin> set acc \<Longrightarrow> components (acc @ slash # ys) = acc # components ys" by (induction acc) auto
  have "components ys \<noteq> []" by (induction ys) (auto split: list.splits)
  then show "slash \<notin> set acc \<Longrightarrow> \<exists>z zs. components (acc @ ys) = (acc @ z) # zs"
    by (induction acc) (auto simp: neq_Nil_conv)
qed

subsection \<open>Memory that does not matter\<close>

lemma hm_cong:
  assumes "\<And>i. used m i \<Longrightarrow> ekey M' (elems m ! i) = ekey M (elems m ! i)"
  shows "hm_ok M m \<Longrightarrow> hm_ok M' m" "hm_abs M' m = hm_abs M m"
proof -
  show "hm_ok M m \<Longrightarrow> hm_ok M' m" unfolding hm_ok_def using assms by simp
  have "find (\<lambda>e. in_use e \<noteq> 0 \<and> ekey M' e = bs) (elems m) = find (\<lambda>e. in_use e \<noteq> 0 \<and> ekey M e = bs) (elems m)" for bs
    using assms by (intro find_cong) (auto simp: used_def in_set_conv_nth)
  then show "hm_abs M' m = hm_abs M m" by (simp add: fun_eq_iff hm_abs_def)
qed

lemma name_cong:
  assumes "\<And>x. x \<in> span p 255 \<Longrightarrow> M' x = M x" and "name_at M p xs"
  shows "name_at M' p xs"
proof -
  have l: "length xs < 255" and c: "cstring_at M p xs" using assms(2) by (simp_all add: name_at_def)
  have "bytes_at M' p (length xs) = bytes_at M p (length xs)"
    using assms(1) span_sub [of 0 "length xs" 255 p] l by (intro bytes_at_cong) auto
  moreover have "p + of_nat (length xs) \<in> span p 255" using l by (auto simp: span_def)
  ultimately show ?thesis using c l assms(1) by (simp add: name_at_def cstring_at_def)
qed

lemma node_cong:
  assumes same: "\<And>d x. V d \<noteq> None \<Longrightarrow> x \<in> span d 255 \<Longrightarrow> M' x = M x" and "V p = Some v" and ok: "node_at M A V p v"
  shows "node_at M' A V p v" "hm_abs M' (children v) = hm_abs M (children v)"
proof -
  have e: "bytes_at M' d (unat len) = bytes_at M d (unat len)" "name_at M' d (bytes_at M d (unat len))"
    if "(k, len, d) \<in> entries (children v)" for k len d
  proof -
    have d: "V d \<noteq> None" "name_at M d (bytes_at M d (unat len))" using that ok by (auto simp: node_at_def)
    then have "unat len < 255" by (simp add: name_at_def bytes_at_def)
    then show "bytes_at M' d (unat len) = bytes_at M d (unat len)"
      using same [OF d(1)] span_sub [of 0 "unat len" 255 d] by (intro bytes_at_cong) auto
    show "name_at M' d (bytes_at M d (unat len))" using name_cong [OF same [OF d(1)] d(2)] .
  qed
  have k: "ekey M' (elems (children v) ! i) = ekey M (elems (children v) ! i)" if "used (children v) i" for i
  proof -
    let ?e = "elems (children v) ! i"
    have "(key ?e, key_len ?e, edata ?e) \<in> entries (children v)" using that by (auto simp: entries_def)
    moreover from this have "key ?e = edata ?e" using ok by (auto simp: node_at_def)
    ultimately show ?thesis using e(1) by (simp add: ekey_def)
  qed
  show "hm_abs M' (children v) = hm_abs M (children v)" by (rule hm_cong(2) [OF k])
  obtain xs where "name_at M p xs" using ok by (auto simp: node_at_def)
  then have "name_at M' p xs" using same [of p] assms(2) by (intro name_cong [of p M' M xs]) auto
  then have "\<exists>xs. name_at M' p xs" by blast
  then show "node_at M' A V p v" using ok hm_cong(1) [OF k] e unfolding node_at_def by fastforce
qed

lemma kids_Some:
  assumes "\<And>p v. V p = Some v \<Longrightarrow> node_at M A V p v" and "kids M V p name = Some d"
  shows "V d \<noteq> None" "name_at M d name" "d \<noteq> 0"
proof -
  obtain v where v: "V p = Some v" "hm_abs M (children v) name = Some d" using assms(2) by (auto simp: kids_def split: option.splits)
  have n: "node_at M A V p v" by (rule assms(1) [OF v(1)])
  then obtain i where i: "used (children v) i" "ekey M (elems (children v) ! i) = name" "edata (elems (children v) ! i) = d"
    using v(2) abs_Some [of M "children v"] by (auto simp: node_at_def)
  let ?e = "elems (children v) ! i"
  have "(key ?e, key_len ?e, edata ?e) \<in> entries (children v)" using i(1) by (auto simp: entries_def)
  then have "key ?e = d" "V d \<noteq> None" "name_at M d (bytes_at M d (unat (key_len ?e)))" using n i(3) by (auto simp: node_at_def)
  then show d: "V d \<noteq> None" "name_at M d name" using i(2) by (simp_all add: ekey_def)
  then obtain w where "node_at M A V d w" using assms(1) by auto
  then show "d \<noteq> 0" by (simp add: node_at_def)
qed

subsection \<open>Lookup by path\<close>

text \<open>The states during a lookup: only the buffer, the console and its device change.\<close>

definition near :: "addr \<Rightarrow> limine_framebuffer \<Rightarrow> 'd kernel \<Rightarrow> 'd kernel \<Rightarrow> bool" where
  "near fname fb s0 s \<longleftrightarrow> con_ok fb s \<and> (\<exists>m d c. s = s0\<lparr>ram := m, hw := d, con := c\<rparr>) \<and> (\<forall>x. x \<notin> span fname 256 \<longrightarrow> ram s x = ram s0 x)"

lemma near_other:
  "near fname fb s0 s \<Longrightarrow> vnodes s = vnodes s0 \<and> fs_root s = fs_root s0"
  by (auto simp: near_def)

lemma near_ram:
  assumes "near fname fb s0 s" and "\<And>x. x \<notin> span fname 256 \<Longrightarrow> m x = ram s x"
  shows "near fname fb s0 (s\<lparr>ram := m\<rparr>)"
proof -
  obtain n d c where s: "s = s0\<lparr>ram := n, hw := d, con := c\<rparr>" using assms(1) by (auto simp: near_def)
  then have "s\<lparr>ram := m\<rparr> = s0\<lparr>ram := m, hw := d, con := c\<rparr>" by simp
  moreover have "con_ok fb (s\<lparr>ram := m\<rparr>)" using assms(1) by (simp add: near_def con_ok_def)
  ultimately show ?thesis using assms unfolding near_def by fastforce
qed

lemma near_says:
  assumes "near fname fb s0 s" and "says fb s s'"
  shows "near fname fb s0 s'" "ram s' = ram s"
proof -
  obtain n d c where s: "s = s0\<lparr>ram := n, hw := d, con := c\<rparr>" using assms(1) by (auto simp: near_def)
  obtain d' c' where s': "s' = s\<lparr>hw := d', con := c'\<rparr>" "con_ok fb s'" using assms(2) by (auto simp: says_def)
  then have "s' = s0\<lparr>ram := n, hw := d', con := c'\<rparr>" using s by simp
  then show "near fname fb s0 s'" "ram s' = ram s" using assms(1) s' s unfolding near_def by auto
qed

text \<open>The buffer is apart from the nodes.\<close>

definition buf_apart :: "addr \<Rightarrow> (addr \<Rightarrow> vnode option) \<Rightarrow> bool" where
  "buf_apart fname V \<longleftrightarrow> (\<forall>d. V d \<noteq> None \<longrightarrow> span d 255 \<inter> span fname 256 = {})"

lemma near_nodes:
  assumes "near fname fb s0 s" and "buf_apart fname (vnodes s0)" and "vnodes s0 p = Some v" and "node_at (ram s0) A (vnodes s0) p v"
  shows "node_at (ram s) A (vnodes s0) p v" "hm_abs (ram s) (children v) = hm_abs (ram s0) (children v)"
proof -
  have same: "ram s x = ram s0 x" if "vnodes s0 d \<noteq> None" "x \<in> span d 255" for d x
    using assms(1,2) that unfolding near_def buf_apart_def by blast
  show "node_at (ram s) A (vnodes s0) p v" "hm_abs (ram s) (children v) = hm_abs (ram s0) (children v)"
    using node_cong [of "vnodes s0" "ram s" "ram s0" p v A] same assms(3,4) by blast+
qed

lemma store_end: "n < 2 ^ 64 \<Longrightarrow> bytes_at (m(a + of_nat n := c)) a n = bytes_at m a n"
  using inj_offset [of _ n a] by (simp add: bytes_at_def)

lemma store_string:
  assumes "bytes_at m a (length xs) = xs" and "0 \<notin> set xs" and "length xs < 2 ^ 64"
  shows "cstring_at (m(a + of_nat (length xs) := 0)) a xs"
  using assms by (simp add: cstring_at_def store_end)

lemma store_next:
  assumes "bytes_at m a (length xs) = xs" and "length xs < 2 ^ 64"
  shows "bytes_at (m(a + of_nat (length xs) := c)) a (Suc (length xs)) = xs @ [c]"
proof -
  have "bytes_at m' a (Suc n) = bytes_at m' a n @ [m' (a + of_nat n)]" for m' n by (simp add: bytes_at_def)
  then show ?thesis using assms store_end [of "length xs"] by simp
qed

lemma cstring_Cons:
  assumes "cstring_at m p (c # cs)"
  shows "m p = c" "c \<noteq> 0" "cstring_at m (p + 1) cs"
proof -
  have "bytes_at m p (Suc n) = m p # bytes_at m (p + 1) n" for n
    unfolding bytes_at_def by (simp add: upt_conv_Cons map_Suc_upt [symmetric] add.assoc del: upt_Suc)
  then show "m p = c" "c \<noteq> 0" "cstring_at m (p + 1) cs" using assms by (auto simp: cstring_at_def add.assoc)
qed

lemma ucast_len: "n < 255 \<Longrightarrow> unat (ucast (of_nat n :: size_t) :: uint32_t) = n"
  by (simp add: unsigned_ucast_eq unat_of_nat_64 take_bit_nat_eq_self)

lemma name2vnode_result:
  assumes "cstring_at (ram s) fname xs" and "length xs < 255" and "vnodes s p = Some v" and "hm_ok (ram s) (children v)"
  shows "name2vnode s fname p = ret (case hm_abs (ram s) (children v) xs of None \<Rightarrow> 0 | Some d \<Rightarrow> d)"
proof -
  have "bytes_at (ram s) fname (length xs) = xs" using assms(1) by (simp add: cstring_at_def)
  then show ?thesis
    using strlen_eq [OF assms(1)] get_eq [OF assms(4), of fname "ucast (of_nat (length xs) :: size_t)"] ucast_len [OF assms(2)] assms(3)
    by (simp add: name2vnode_def strlenR_def node_def)
qed

text \<open>The end of a component.\<close>

lemma component_step:
  assumes near: "near fname fb s0 s" and ap: "buf_apart fname (vnodes s0)"
    and ok: "\<And>p v. vnodes s0 p = Some v \<Longrightarrow> node_at (ram s0) A (vnodes s0) p v"
    and acc: "bytes_at (ram s) fname (length acc) = acc" "length acc < 255" "\<forall>c \<in> set acc. printable c"
    and cur: "vnodes s0 p \<noteq> None" and c: "ram s ptr = slash \<or> ram s ptr = 0" and ptr: "ptr \<notin> span fname 256"
  shows "\<exists>s'. near fname fb s0 s' \<and> path_loop H fname p ptr (of_nat (length acc)) s =
    (case kids (ram s0) (vnodes s0) p acc of None \<Rightarrow> ret (0, s')
     | Some d \<Rightarrow> if ram s ptr = 0 then ret (if d \<noteq> fs_root s0 then d else 0, s') else path_loop H fname d (ptr + 1) 0 s')"
proof -
  have nz: "0 \<notin> set acc" using acc(3) by (auto simp: printable_def)
  let ?t = "s\<lparr>ram := (ram s)(fname + of_nat (length acc) := 0)\<rparr>"
  have in_buf: "fname + of_nat (length acc) \<in> span fname 256" using acc(2) by (auto simp: span_def)
  have t: "near fname fb s0 ?t" by (rule near_ram [OF near]) (use in_buf in auto)
  have str: "cstring_at (ram ?t) fname acc" using store_string [OF acc(1) nz] acc(2) by simp
  obtain v where v: "vnodes s0 p = Some v" using cur by auto
  have V: "vnodes ?t = vnodes s0" using near_other [OF t] by simp
  note n = near_nodes [OF t ap v ok [OF v]]
  have get: "name2vnode ?t fname p = ret (case kids (ram s0) (vnodes s0) p acc of None \<Rightarrow> 0 | Some d \<Rightarrow> d)"
    using name2vnode_result [OF str acc(2), of p v] n V v by (simp add: node_at_def kids_def)
  have len: "strlen (ram ?t) fname = Some (of_nat (length acc))" "unat (of_nat (length acc) :: size_t) = length acc"
    using strlen_eq [OF str] acc(2) by (simp_all add: unat_of_nat_64)
  have "fmt_ok (map ch ''%s'' @ [10]) [Str acc]" using acc(3) by (simp add: ch_def)
  moreover have "con_ok fb ?t" using t by (simp add: near_def)
  ultimately obtain u where u: "printk H ?t (map ch ''%s'' @ [10]) [Str acc] = Inr u" "says fb ?t u"
    using printk_says [of fb ?t] by blast
  have a: "bytes_at (ram ?t) fname (length acc) = acc" using str by (simp add: cstring_at_def)
  note nu = near_says [OF t u(2)]
  let ?w = "u\<lparr>ram := memzero (ram u) fname 256\<rparr>"
  have w: "near fname fb s0 ?w"
    by (rule near_ram [OF nu(1)]) (simp add: memzero_memset memset_outside)
  have b: "ram ?w ptr = ram s ptr" using ptr in_buf nu(2) by (auto simp: memzero_memset memset_outside)
  have i: "\<not> NAME_MAX \<le> of_nat (length acc)" using acc(2) len(2) by (simp add: NAME_MAX_def word_le_nat_alt)
  have r: "fs_root ?w = fs_root s0" using near_other [OF w] by simp
  have step: "path_loop H fname p ptr (of_nat (length acc)) s =
    (let d = (case kids (ram s0) (vnodes s0) p acc of None \<Rightarrow> 0 | Some d \<Rightarrow> d)
     in if d = 0 then ret (0, u)
        else if ram s ptr = 0 then ret (if d \<noteq> fs_root s0 then d else 0, ?w) else path_loop H fname d (ptr + 1) 0 ?w)"
    using i c get len u(1) a b r by (subst path_loop.simps) (simp add: Let_def)
  show ?thesis
  proof (cases "kids (ram s0) (vnodes s0) p acc")
    case None
    then show ?thesis using step nu(1) by (intro exI [of _ u]) simp
  next
    case (Some d)
    have "d \<noteq> 0" by (rule kids_Some(3) [OF ok Some])
    then show ?thesis using step Some w by (intro exI [of _ ?w]) simp
  qed
qed

lemma long_name_missing:
  assumes "\<And>p v. V p = Some v \<Longrightarrow> node_at M A V p v" and "slash \<notin> set acc" and "255 \<le> length acc"
  shows "walk (kids M V) p (components (acc @ ys)) = None"
proof -
  obtain z zs where c: "components (acc @ ys) = (acc @ z) # zs" using components_cases(3) [OF assms(2)] by blast
  have "kids M V p (acc @ z) = None"
    using kids_Some(2) [OF assms(1), of p "acc @ z"] assms(3) by (cases "kids M V p (acc @ z)") (auto simp: name_at_def)
  then show ?thesis by (simp add: c)
qed

lemma path_too_long:
  assumes "\<And>p v. V p = Some v \<Longrightarrow> node_at M A V p v" and "slash \<notin> set acc" and "length acc = 255"
  shows "path_loop H fname p ptr (of_nat (length acc)) s = ret (0, s)" "walk (kids M V) p (components (acc @ ys)) = None"
proof -
  show "path_loop H fname p ptr (of_nat (length acc)) s = ret (0, s)" using assms(3) by (subst path_loop.simps) (simp add: NAME_MAX_def)
  show "walk (kids M V) p (components (acc @ ys)) = None" by (rule long_name_missing [OF assms(1,2)]) (use assms(3) in simp_all)
qed

text \<open>A character of a component.\<close>

lemma char_step:
  assumes near: "near fname fb s0 s" and acc: "bytes_at (ram s) fname (length acc) = acc" "length acc < 255"
    and c: "ram s ptr = c" "c \<noteq> 0" "c \<noteq> slash"
  defines "t \<equiv> s\<lparr>ram := (ram s)(fname + of_nat (length acc) := c)\<rparr>"
  shows "near fname fb s0 t" "bytes_at (ram t) fname (length (acc @ [c])) = acc @ [c]"
    and "path_loop H fname p ptr (of_nat (length acc)) s = path_loop H fname p (ptr + 1) (of_nat (length (acc @ [c]))) t"
proof -
  have "fname + of_nat (length acc) \<in> span fname 256" using acc(2) by (auto simp: span_def)
  then show "near fname fb s0 t" unfolding t_def by (intro near_ram [OF near]) auto
  show "bytes_at (ram t) fname (length (acc @ [c])) = acc @ [c]" using store_next [OF acc(1)] acc(2) by (simp add: t_def)
  have "unat (of_nat (length acc) :: size_t) = length acc" using acc(2) by (simp add: unat_of_nat_64)
  then have "\<not> NAME_MAX \<le> of_nat (length acc)" using acc(2) by (simp add: NAME_MAX_def word_le_nat_alt)
  then show "path_loop H fname p ptr (of_nat (length acc)) s = path_loop H fname p (ptr + 1) (of_nat (length (acc @ [c]))) t"
    unfolding t_def using c by (subst path_loop.simps) (simp add: add.commute)
qed

lemma path_loop_result:
  assumes ap: "buf_apart fname (vnodes s0)" and ok: "\<And>p v. vnodes s0 p = Some v \<Longrightarrow> node_at (ram s0) A (vnodes s0) p v"
    and "near fname fb s0 s" and "bytes_at (ram s) fname (length acc) = acc" "\<forall>c \<in> set acc. printable c" "slash \<notin> set acc"
    and "cstring_at (ram s0) ptr ys" "\<forall>c \<in> set ys. printable c" "span ptr (length ys + 1) \<inter> span fname 256 = {}"
    and "vnodes s0 p \<noteq> None" "length acc \<le> 255"
  shows "\<exists>s'. near fname fb s0 s' \<and> path_loop H fname p ptr (of_nat (length acc)) s =
    ret (case walk (kids (ram s0) (vnodes s0)) p (components (acc @ ys)) of None \<Rightarrow> 0
         | Some d \<Rightarrow> if d \<noteq> fs_root s0 then d else 0, s')"
  using assms(3-)
proof (induction ys arbitrary: acc s ptr p)
  case Nil
  have ptr: "ptr \<notin> span fname 256" using Nil.prems(7) by (simp add: span_Suc)
  then have rz: "ram s ptr = 0" using Nil.prems(1,5) by (simp add: near_def cstring_at_def)
  show ?case
  proof (cases "length acc < 255")
    case True
    then show ?thesis
      using component_step [OF Nil.prems(1) ap ok Nil.prems(2) True Nil.prems(3) Nil.prems(8) disjI2 [OF rz] ptr]
        components_cases(1) [OF Nil.prems(4)] rz by (auto split: option.splits)
  next
    case False
    then have "length acc = 255" using Nil.prems(9) by simp
    then show ?thesis using path_too_long(1) [OF ok Nil.prems(4), of H fname p ptr s] path_too_long(2) [OF ok Nil.prems(4), of p "[]"] Nil.prems(1)
      by auto
  qed
next
  case (Cons c ys)
  note near = Cons.prems(1)
  have c: "ram s0 ptr = c" "c \<noteq> 0" "cstring_at (ram s0) (ptr + 1) ys" using cstring_Cons [OF Cons.prems(5)] by simp_all
  have ptr: "ptr \<notin> span fname 256" and sp: "span (ptr + 1) (length ys + 1) \<inter> span fname 256 = {}"
    using Cons.prems(7) span_Suc [of ptr "length ys + 1"] by auto
  then have rc: "ram s ptr = c" using c(1) near by (simp add: near_def)
  have ys: "\<forall>c \<in> set ys. printable c" using Cons.prems(6) by simp
  consider (long) "length acc = 255" | (sep) "length acc < 255" "c = slash" | (char) "length acc < 255" "c \<noteq> slash"
    using Cons.prems(9) by linarith
  then show ?case
  proof cases
    case long
    then show ?thesis using path_too_long(1) [OF ok Cons.prems(4), of H fname p ptr s] path_too_long(2) [OF ok Cons.prems(4), of p "c # ys"] near
      by auto
  next
    case sep
    obtain u where u: "near fname fb s0 u" "path_loop H fname p ptr (of_nat (length acc)) s =
      (case kids (ram s0) (vnodes s0) p acc of None \<Rightarrow> ret (0, u)
       | Some d \<Rightarrow> if ram s ptr = 0 then ret (if d \<noteq> fs_root s0 then d else 0, u) else path_loop H fname d (ptr + 1) 0 u)"
      using component_step [OF near ap ok Cons.prems(2) sep(1) Cons.prems(3) Cons.prems(8) _ ptr] rc sep(2) by blast
    have w: "components (acc @ c # ys) = acc # components ys" using components_cases(2) [OF Cons.prems(4)] sep(2) by simp
    show ?thesis
    proof (cases "kids (ram s0) (vnodes s0) p acc")
      case (Some d)
      have "vnodes s0 d \<noteq> None" by (rule kids_Some(1) [OF ok Some])
      then show ?thesis using Cons.IH [of u "[]" "ptr + 1" d] u(1) c(3) ys sp u(2) w Some rc c(2) by (simp add: bytes_at_def)
    qed (use u w in auto)
  next
    case char
    note t = char_step [OF near Cons.prems(2) char(1) rc c(2) char(2)]
    have "\<forall>c \<in> set (acc @ [c]). printable c" "slash \<notin> set (acc @ [c])" "length (acc @ [c]) \<le> 255"
      using Cons.prems(3,4,6) char by auto
    from Cons.IH [OF t(1,2) this(1,2) c(3) ys sp Cons.prems(8) this(3)] show ?thesis unfolding t(3) by simp
  qed
qed

definition file_at :: "'d kernel \<Rightarrow> uint8_t list \<Rightarrow> addr" where
  "file_at s path =
     (case path of [] \<Rightarrow> 0
      | c # rest \<Rightarrow>
          if c \<noteq> slash then 0
          else case walk (kids (ram s) (vnodes s)) (fs_root s) (components rest) of None \<Rightarrow> 0
               | Some d \<Rightarrow> if d \<noteq> fs_root s then d else 0)"

lemma kheap_in_block:
  assumes "kheap_in U h A" and "A q = Some k"
  shows "0 < q" "q + k < 2 ^ 64" "n \<le> k \<Longrightarrow> span (W q) n \<inter> U = {}"
proof -
  obtain t c R where ok: "heap_ok c t A R" and U: "\<forall>x \<in> U. unat x \<notin> R" using assms(1) by (auto simp: kheap_in_def)
  note b = heap_block [OF ok assms(2)]
  then show "0 < q" "q + k < 2 ^ 64" by simp_all
  show "span (W q) n \<inter> U = {}" if "n \<le> k"
  proof -
    have "x \<notin> U" if "x = W (q + i)" "i < n" for x i
    proof -
      have "q + i \<in> {q..<q + k}" using that(2) \<open>n \<le> k\<close> by auto
      then have "q + i \<in> R" using alloc_region [OF ok assms(2)] by blast
      moreover have "unat x = q + i" using that \<open>n \<le> k\<close> b(4) by (simp add: unat_W)
      ultimately show ?thesis using U by metis
    qed
    then show ?thesis by (auto simp: span_def W_def)
  qed
qed

lemma tree_apart:
  assumes "tree_ok U s A" and "span fname 256 \<subseteq> U"
  shows "buf_apart fname (vnodes s)"
  unfolding buf_apart_def
proof (intro allI impI)
  fix d assume "vnodes s d \<noteq> None"
  then obtain v where "node_at (ram s) A (vnodes s) d v" using assms(1) by (auto simp: tree_ok_def)
  then obtain q k where q: "d = W q" "A q = Some k" "304 \<le> k" by (auto simp: node_at_def)
  have "kheap_in U (with_ram (heap s) (ram s)) A" using assms(1) by (simp add: tree_ok_def)
  from kheap_in_block(3) [OF this q(2), of 255] q(3) have "span d 255 \<inter> U = {}" unfolding q(1) by simp
  then show "span d 255 \<inter> span fname 256 = {}" using assms(2) by blast
qed

lemma path2vnode_result:
  assumes ok: "tree_ok U s A" and con: "con_ok fb s" and root: "vnodes s (fs_root s) \<noteq> None" and buf: "span fname 256 \<subseteq> U"
    and path: "cstring_at (ram s) path xs" "\<forall>c \<in> set xs. printable c" "span path (length xs + 1) \<inter> span fname 256 = {}"
  shows "\<exists>s'. near fname fb s s' \<and> path2vnode H fname s path = ret (file_at s xs, s')"
proof -
  have "s = s\<lparr>ram := ram s, hw := hw s, con := con s\<rparr>" by simp
  then have near: "near fname fb s s" using con unfolding near_def by blast
  have nodes: "node_at (ram s) A (vnodes s) p v" if "vnodes s p = Some v" for p v using ok that by (simp add: tree_ok_def)
  show ?thesis
  proof (cases xs)
    case Nil
    then have "ram s path = 0" using path(1) by (simp add: cstring_at_def)
    then show ?thesis using near Nil by (auto simp: path2vnode_def file_at_def ch_def)
  next
    case (Cons c ys)
    note c = cstring_Cons [OF path(1) [unfolded Cons]]
    have sp: "span (path + 1) (length ys + 1) \<inter> span fname 256 = {}" using path(3) Cons by (simp add: span_Suc [of path])
    show ?thesis
    proof (cases "c = slash")
      case True
      have "slash \<notin> set ([] :: uint8_t list)" by simp
      with path_loop_result [OF tree_apart [OF ok buf] nodes near, of "[]" "path + 1" ys "fs_root s" H]
      show ?thesis using c(1,3) path(2) sp root True Cons by (simp add: path2vnode_def file_at_def bytes_at_def)
    next
      case False
      then show ?thesis using near c(1) Cons by (auto simp: path2vnode_def file_at_def)
    qed
  qed
qed

subsection \<open>Adding nodes\<close>

lemma node_weaken:
  assumes "node_at M A V p v" and "\<And>q k. A q = Some k \<Longrightarrow> W q \<noteq> t \<Longrightarrow> A' q = Some k" and "p \<noteq> t" "hm_data (children v) \<noteq> t"
    and "\<And>d. V d \<noteq> None \<Longrightarrow> V' d \<noteq> None"
  shows "node_at M A' V' p v"
proof -
  have "\<exists>q k. p = W q \<and> A' q = Some k \<and> 304 \<le> k" using assms(1-3) unfolding node_at_def by metis
  moreover have "\<exists>t n. hm_data (children v) = W t \<and> A' t = Some n \<and> 24 * unat (table_size (children v)) \<le> n"
    using assms(1,2,4) unfolding node_at_def by metis
  ultimately show ?thesis using assms(1,5) unfolding node_at_def by fast
qed

lemma tree_node: "tree_ok U s A \<Longrightarrow> vnodes s p = Some v \<Longrightarrow> node_at (ram s) A (vnodes s) p v"
  by (simp add: tree_ok_def)

lemma tree_heap:
  assumes "tree_ok U s A"
  shows "kheap_in U (with_ram (heap s) (ram s)) A" "kmem (with_ram (heap s) (ram s)) = ram s"
proof -
  show "kheap_in U (with_ram (heap s) (ram s)) A" using assms by (simp add: tree_ok_def)
  then show "kmem (with_ram (heap s) (ram s)) = ram s" by (auto simp: kheap_in_def kmem_def with_ram_def)
qed

lemma put_heap_in:
  assumes "kheap_in U h A"
  shows "kheap_in U (with_ram (heap (put_heap s h)) (ram (put_heap s h))) A" "ram (put_heap s h) = kmem h"
proof -
  obtain t where t: "tlsf_ctx h = Some t" using assms by (auto simp: kheap_in_def)
  then show r: "ram (put_heap s h) = kmem h" by (simp add: put_heap_def kmem_def)
  have "heap (put_heap s h) = h" by (simp add: put_heap_def)
  then show "kheap_in U (with_ram (heap (put_heap s h)) (ram (put_heap s h))) A"
    using assms with_ram_kmem [OF kheap_in_ok [OF assms]] r by simp
qed

text \<open>The names of the nodes lie in blocks, so whatever keeps the blocks keeps the names.\<close>

lemma names_kept:
  assumes "kframe U A h h'" and "p = W q" "A q = Some k" "304 \<le> k" and "x \<in> span p 255"
  shows "kmem h' x = kmem h x"
proof -
  obtain i where i: "x = W (q + i)" "i < 255" using assms(2,5) by (auto simp: span_def W_def)
  moreover have "i < k" using i(2) assms(4) by simp
  ultimately show ?thesis using assms(1,3) unfolding kframe_def by blast
qed

lemma W_neq: "kheap_in U h A \<Longrightarrow> A q = Some k \<Longrightarrow> A r = Some j \<Longrightarrow> q \<noteq> r \<Longrightarrow> W q \<noteq> W r"
  using kheap_in_block(2) [of U h A q k] kheap_in_block(2) [of U h A r j] unat_W [of q] unat_W [of r] by force

lemma node_mono:
  assumes "node_at M A V p v" and "\<And>q k. A q = Some k \<Longrightarrow> A' q = Some k" and "\<And>d. V d \<noteq> None \<Longrightarrow> V' d \<noteq> None"
    and "kheap_in U h A'"
  shows "node_at M A' V' p v"
proof (rule node_weaken [OF assms(1), of 0])
  show "p \<noteq> 0" using assms(1) by (simp add: node_at_def)
  obtain t j where t: "hm_data (children v) = W t" "A t = Some j" using assms(1) by (auto simp: node_at_def)
  show "hm_data (children v) \<noteq> 0" using kheap_block [OF kheap_in_ok [OF assms(4)] assms(2) [OF t(2)]] t(1) by simp
qed (rule assms(2,3); assumption)+

lemma tables_insert:
  assumes "tables_apart V" and "hm_data (children w) = t" "t \<noteq> p"
    and "\<And>d u. V d = Some u \<Longrightarrow> d \<noteq> p \<Longrightarrow> hm_data (children u) \<noteq> p \<and> hm_data (children u) \<noteq> t \<and> d \<noteq> t"
  shows "tables_apart (V(p \<mapsto> w))"
  unfolding tables_apart_def
proof (intro allI impI conjI)
  fix d u d' u' assume d: "(V(p \<mapsto> w)) d = Some u" "(V(p \<mapsto> w)) d' = Some u'"
  show "hm_data (children u) \<noteq> d'"
    using d assms unfolding tables_apart_def by (cases "d = p"; cases "d' = p") (auto split: if_splits)
  show "hm_data (children u) \<noteq> hm_data (children u')" if "d \<noteq> d'"
    using d assms(1,2) assms(4) [of d u] assms(4) [of d' u'] that unfolding tables_apart_def
    by (cases "d = p"; cases "d' = p") auto
qed

text \<open>A node \<open>p\<close> is added or gets a new table: \<open>B\<close> are the blocks without that table.\<close>

lemma tree_insert:
  assumes heap: "kheap_in U (with_ram (heap s') (ram s')) (B(q \<mapsto> n))" "B q = None"
    and V': "vnodes s' = (vnodes s)(p \<mapsto> w)" and p: "p = W x" "B x = Some k"
    and old: "\<And>d u. vnodes s d = Some u \<Longrightarrow> d \<noteq> p \<Longrightarrow> node_at (ram s) B (vnodes s) d u \<and> hm_data (children u) \<noteq> p"
    and tabs: "tables_apart (vnodes s)"
    and names: "\<And>d y. vnodes s d \<noteq> None \<Longrightarrow> y \<in> span d 255 \<Longrightarrow> ram s' y = ram s y"
    and new: "node_at (ram s') (B(q \<mapsto> n)) (vnodes s') p w" "hm_data (children w) = W q"
  shows "tree_ok U s' (B(q \<mapsto> n))"
    and "kids (ram s') (vnodes s') = (kids (ram s) (vnodes s))(p := hm_abs (ram s') (children w))"
proof -
  have B: "(B(q \<mapsto> n)) y = Some j" "W y \<noteq> W q" if "B y = Some j" for y j
    using W_neq [OF heap(1), of y j q n] that heap(2) by (cases "y = q"; auto)+
  have dom: "vnodes s d \<noteq> None \<Longrightarrow> vnodes s' d \<noteq> None" for d by (simp add: V')
  have tq: "hm_data (children u) \<noteq> p \<and> hm_data (children u) \<noteq> W q \<and> d \<noteq> W q" if "vnodes s d = Some u" "d \<noteq> p" for d u
  proof -
    have n: "node_at (ram s) B (vnodes s) d u" using old that by blast
    then obtain y j t i where "d = W y" "B y = Some j" "hm_data (children u) = W t" "B t = Some i" by (auto simp: node_at_def)
    then show ?thesis using B(2) old that by metis
  qed
  have cong: "node_at (ram s') B (vnodes s) d u" "hm_abs (ram s') (children u) = hm_abs (ram s) (children u)"
    if "vnodes s d = Some u" "d \<noteq> p" for d u
    using node_cong [of "vnodes s" "ram s'" "ram s" d u B] names old [OF that] that(1) by blast+
  have "node_at (ram s') (B(q \<mapsto> n)) (vnodes s') d u" if "vnodes s' d = Some u" for d u
  proof (cases "d = p")
    case False
    then have "node_at (ram s') B (vnodes s) d u" using that V' cong(1) by simp
    then show ?thesis by (rule node_mono [OF _ B(1) dom heap(1)])
  qed (use that new(1) V' in simp)
  moreover have "tables_apart (vnodes s')" unfolding V'
    by (rule tables_insert [OF tabs new(2) _ tq]) (use B(2) [OF p(2)] p(1) in auto)
  ultimately show "tree_ok U s' (B(q \<mapsto> n))" using heap(1) by (simp add: tree_ok_def)
  show "kids (ram s') (vnodes s') = (kids (ram s) (vnodes s))(p := hm_abs (ram s') (children w))"
  proof
    fix d
    show "kids (ram s') (vnodes s') d = ((kids (ram s) (vnodes s))(p := hm_abs (ram s') (children w))) d"
      using cong(2) [of d] by (cases "d = p"; cases "vnodes s d") (auto simp: kids_def V' fun_eq_iff)
  qed
qed

lemma append_tree:
  assumes ok: "tree_ok U s A" and v: "vnodes s p = Some v" and t: "hm_data (children v) = W t"
    and child: "vnodes s child \<noteq> None" "name_at (ram s) child (bytes_at (ram s) child (unat len))"
    and m: "hm_ok (ram s) m" "hm_owns U h' (A(t := None)) m" "kframe U (A(t := None)) (with_ram (heap s) (ram s)) h'"
      "entries m \<subseteq> insert (child, len, child) (entries (children v))"
  shows "\<exists>A'. tree_ok U ((put_heap s h')\<lparr>vnodes := (vnodes s)(p \<mapsto> v\<lparr>children := m\<rparr>)\<rparr>) A'"
    and "kids (kmem h') ((vnodes s)(p \<mapsto> v\<lparr>children := m\<rparr>)) = (kids (ram s) (vnodes s))(p := hm_abs (ram s) m)"
proof -
  let ?B = "A(t := None)" and ?V = "(vnodes s)(p \<mapsto> v\<lparr>children := m\<rparr>)"
  let ?s = "(put_heap s h')\<lparr>vnodes := ?V\<rparr>"
  obtain q n where q: "hm_data m = W q" "?B q = None" "kheap_in U h' (?B(q \<mapsto> n))" "24 * unat (table_size m) \<le> n"
    using m(2) by (auto simp: hm_owns_def)
  have s': "ram ?s = kmem h'" "vnodes ?s = ?V" "kheap_in U (with_ram (heap ?s) (ram ?s)) (?B(q \<mapsto> n))"
    using put_heap_in [OF q(3), of s] by simp_all
  have tabs: "tables_apart (vnodes s)" using ok by (simp add: tree_ok_def)
  then have ap: "W t \<noteq> d" "hm_data (children u) \<noteq> p" "d \<noteq> p \<Longrightarrow> hm_data (children u) \<noteq> W t" if "vnodes s d = Some u" for d u
    using that v t unfolding tables_apart_def by metis+
  have blk: "\<exists>y k. d = W y \<and> ?B y = Some k \<and> 304 \<le> k" if d: "vnodes s d \<noteq> None" for d
  proof -
    obtain u where u: "vnodes s d = Some u" using d by auto
    then obtain y k where "d = W y" "A y = Some k" "304 \<le> k" using tree_node [OF ok u] by (auto simp: node_at_def)
    then show ?thesis using ap(1) [OF u] by (cases "y = t") auto
  qed
  have names: "kmem h' x = ram s x" if "vnodes s d \<noteq> None" "x \<in> span d 255" for d x
    using blk [OF that(1)] names_kept [OF m(3), of d _ _ x] that(2) tree_heap(2) [OF ok] by metis
  have old: "node_at (ram s) ?B (vnodes s) d u \<and> hm_data (children u) \<noteq> p" if u: "vnodes s d = Some u" "d \<noteq> p" for d u
  proof -
    have "\<And>y k. A y = Some k \<Longrightarrow> W y \<noteq> W t \<Longrightarrow> ?B y = Some k" by auto
    then show ?thesis using node_weaken [OF tree_node [OF ok u(1)], of "W t" ?B "vnodes s"] ap [OF u(1)] u(2) by metis
  qed
  obtain x k where x: "p = W x" "?B x = Some k" "304 \<le> k" using blk [of p] v by auto
  have old_n: "node_at (ram s) A (vnodes s) p v" by (rule tree_node [OF ok v])
  have xq: "(?B(q \<mapsto> n)) x = Some k" using x(2) q(2) by auto
  have ent: "k = d \<and> ?V d \<noteq> None \<and> name_at (ram s) d (bytes_at (ram s) d (unat l))" if "(k, l, d) \<in> entries m" for k l d
    using subsetD [OF m(4) that] child node_entry [OF old_n] by auto
  obtain xs where "name_at (ram s) p xs" "p \<noteq> 0" using old_n by (auto simp: node_at_def)
  then have new0: "node_at (ram s) (?B(q \<mapsto> n)) ?V p (v\<lparr>children := m\<rparr>)"
    using m(1) q(1,4) ent xq x(1,3) by (intro node_atI [of p x "?B(q \<mapsto> n)" k _ xs _ q n]) auto
  have "kmem h' y = ram s y" if "?V d \<noteq> None" "y \<in> span d 255" for d y using names that v by (auto split: if_splits)
  then have new: "node_at (kmem h') (?B(q \<mapsto> n)) ?V p (v\<lparr>children := m\<rparr>)" "hm_abs (kmem h') m = hm_abs (ram s) m"
    using node_cong [of ?V "kmem h'" "ram s" p "v\<lparr>children := m\<rparr>" "?B(q \<mapsto> n)"] new0 by auto
  have names': "ram ?s y = ram s y" if "vnodes s d \<noteq> None" "y \<in> span d 255" for d y using names that s'(1) by simp
  have new': "node_at (ram ?s) (?B(q \<mapsto> n)) (vnodes ?s) p (v\<lparr>children := m\<rparr>)" using new(1) s'(1,2) by simp
  have data: "hm_data (children (v\<lparr>children := m\<rparr>)) = W q" using q(1) by simp
  have "tree_ok U ?s (?B(q \<mapsto> n))"
    by (rule tree_insert(1) [OF s'(3) q(2) s'(2) x(1,2) _ tabs _ new' data]) (rule old names'; assumption)+
  then show "\<exists>A'. tree_ok U ?s A'" by blast
  have "kids (ram ?s) (vnodes ?s) = (kids (ram s) (vnodes s))(p := hm_abs (ram ?s) (children (v\<lparr>children := m\<rparr>)))"
    by (rule tree_insert(2) [OF s'(3) q(2) s'(2) x(1,2) _ tabs _ new' data]) (rule old names'; assumption)+
  then show "kids (kmem h') ?V = (kids (ram s) (vnodes s))(p := hm_abs (ram s) m)" using new(2) s'(1,2) by simp
qed

lemma append_result:
  assumes ok: "tree_ok U s A" and parent: "vnodes s (if parent = 0 then fs_root s else parent) \<noteq> None"
    and child: "vnodes s child \<noteq> None" "name_at (ram s) child xs"
  shows "vfs_append_child s parent child = Some (Inl Null_Deref) \<or>
    (\<exists>s' A'. vfs_append_child s parent child = ret s' \<and> tree_ok U s' A' \<and> fs_root s' = fs_root s \<and> con s' = con s \<and> dom (vnodes s') = dom (vnodes s) \<and>
       kids (ram s') (vnodes s') =
         (let p = (if parent = 0 then fs_root s else parent)
          in (kids (ram s) (vnodes s))(p := (kids (ram s) (vnodes s) p)(xs \<mapsto> child))) \<and>
       (\<forall>x \<in> U. ram s' x = ram s x))"
proof -
  define p where "p = (if parent = 0 then fs_root s else parent)"
  obtain v where v: "vnodes s p = Some v" using parent by (auto simp: p_def)
  note n = tree_node [OF ok v]
  let ?h = "with_ram (heap s) (ram s)" and ?len = "ucast (of_nat (length xs) :: size_t) :: uint32_t"
  obtain t j where t: "hm_data (children v) = W t" "A t = Some j" "24 * unat (table_size (children v)) \<le> j" and hm: "hm_ok (ram s) (children v)"
    using n by (auto simp: node_at_def)
  define B where "B = A(t := None)"
  have "B(t \<mapsto> j) = A" "B t = None" using t(2) by (auto simp: B_def)
  then have owns: "hm_owns U ?h B (children v)" using tree_heap(1) [OF ok] t by (auto simp: hm_owns_def)
  have cs: "cstring_at (ram s) child xs" "length xs < 255" using child(2) by (simp_all add: name_at_def)
  have bs: "bytes_at (ram s) child (unat ?len) = xs" using cs ucast_len [OF cs(2)] by (simp add: cstring_at_def)
  obtain cv where "vnodes s child = Some cv" using child(1) by auto
  then have run: "vfs_append_child s parent child = (case hashmap_put 28 (ram s) ?h (children v) child ?len child of
      None \<Rightarrow> None | Some (Inl e) \<Rightarrow> Some (Inl e)
    | Some (Inr (_, m, h)) \<Rightarrow> ret ((put_heap s h)\<lparr>vnodes := (vnodes s)(p \<mapsto> v\<lparr>children := m\<rparr>)\<rparr>))"
    using v strlen_eq [OF cs(1)]
    by (simp add: vfs_append_child_def node_def strlenR_def Let_def p_def [symmetric] put_heap_def split: option.splits sum.splits)
  from put_result [OF hm owns order_refl, of child ?len child] show ?thesis
  proof (elim disjE exE conjE)
    fix m h' assume put: "hashmap_put 28 (ram s) ?h (children v) child ?len child = Some (Inr (0, m, h'))" "hm_ok (ram s) m" "hm_owns U h' B m"
      "hm_abs (ram s) m = (hm_abs (ram s) (children v))(bytes_at (ram s) child (unat ?len) \<mapsto> child)" "kframe U B ?h h'"
      "entries m \<subseteq> insert (child, ?len, child) (entries (children v))"
    let ?s = "(put_heap s h')\<lparr>vnodes := (vnodes s)(p \<mapsto> v\<lparr>children := m\<rparr>)\<rparr>"
    have nm: "name_at (ram s) child (bytes_at (ram s) child (unat ?len))" using child(2) bs by simp
    note tree = append_tree [OF ok v t(1) child(1) nm put(2) put(3,5) [unfolded B_def] put(6)]
    obtain q k where "kheap_in U h' (B(q \<mapsto> k))" using put(3) by (auto simp: hm_owns_def)
    then have r: "ram ?s = kmem h'" using put_heap_in(2) [of U h' _ s] by simp
    have "kids (ram s) (vnodes s) p = hm_abs (ram s) (children v)" using v by (auto simp: kids_def)
    moreover have "\<forall>x \<in> U. kmem h' x = ram s x" using put(5) tree_heap(2) [OF ok] by (simp add: kframe_def)
    ultimately show ?thesis
      using run put(1) tree put(4) bs r v by (intro disjI2 exI [of _ ?s]) (auto simp: p_def [symmetric] put_heap_def)
  qed (use run in simp_all)
qed

lemma kheap_in_write:
  assumes "kheap_in U (with_ram h m) A" and "A q = Some k" and "\<And>x. x \<notin> span (W q) k \<Longrightarrow> m' x = m x"
  shows "kheap_in U (with_ram h m') A"
proof -
  obtain t c R where t: "tlsf_ctx h = Some t" "heap_ok c (t\<lparr>mem := m\<rparr>) A R" and U: "\<forall>x \<in> U. unat x \<notin> R \<and> (unat x < c \<or> c + 6536 \<le> unat x)"
    using assms(1) by (auto simp: kheap_in_def with_ram_def)
  have "heap_ok c (t\<lparr>mem := m\<rparr>\<lparr>mem := m'\<rparr>) A R" by (rule block_write [OF t(2) assms(2)]) (simp add: assms(3))
  then show ?thesis using t(1) U by (auto simp: kheap_in_def with_ram_def)
qed

lemma other_block:
  assumes "kheap_in U h A" and "A q = Some k" "A r = Some j" "r \<noteq> q" and "n \<le> j" and "x \<in> span (W r) n"
  shows "x \<notin> span (W q) k"
proof -
  obtain i where i: "x = W (r + i)" "i < j" using assms(5,6) by (auto simp: span_def W_def)
  have "{q..<q + k} \<inter> {r..<r + j} = {}" using ku.disjoint_law [OF assms(1-3)] assms(4) by auto
  then have "r + i \<notin> {q..<q + k}" using i(2) by auto
  then show ?thesis unfolding i(1) W_def using kheap_in_block(2) [OF assms(1,2)] kheap_in_block(2) [OF assms(1,3)] i(2)
    by (intro of_nat_notin_span) auto
qed

lemma fresh_map:
  assumes "kheap_in U h A" "hashmap_create h 2 = Inr (r, m, h')"
  shows "r = 0" "hm_ok M m" "hm_abs M m = Map.empty" "entries m = {}" "hm_owns U h' A m" "kframe U A h h'"
proof -
  have "unat (2 :: uint32_t) = 2 ^ 1" by simp
  from create_ok [OF assms(1) this, of M] assms(2)
  show c: "r = 0" "hm_ok M m" "hm_abs M m = Map.empty" "hm_owns U h' A m" "kframe U A h h'" by auto
  have "\<not> used m i" for i using abs_None [of M m "ekey M (elems m ! i)"] c(3) by auto
  then show "entries m = {}" by (simp add: entries_def)
qed

text \<open>Memory during \<open>vfs_make_vnode\<close>: a zeroed block, a table, and the name copied into the block.\<close>

lemma make_memory:
  assumes A: "A q = None" and h1: "kheap_in U h1 (A(q \<mapsto> k))" "304 \<le> k" "\<forall>i < 304. kmem h1 (W (q + i)) = 0" "kframe U A h h1"
    and h2: "kheap_in U h2 (A(q \<mapsto> k, t \<mapsto> n))" "(A(q \<mapsto> k)) t = None" "kframe U (A(q \<mapsto> k)) h1 h2"
    and name: "cstring_at (kmem h) name xs" "length xs < 255" "span name (length xs + 1) \<subseteq> U"
  defines "M \<equiv> memcpy (kmem h2) (W q) name (of_nat (length xs))"
  shows "cstring_at (kmem h2) name xs" "kheap_in U (with_ram h2 M) (A(q \<mapsto> k, t \<mapsto> n))" "name_at M (W q) xs"
    and "\<And>x. x \<in> U \<Longrightarrow> M x = kmem h x"
    and "\<And>y j x. A y = Some j \<Longrightarrow> 304 \<le> j \<Longrightarrow> x \<in> span (W y) 255 \<Longrightarrow> M x = kmem h x"
proof -
  let ?A = "A(q \<mapsto> k, t \<mapsto> n)"
  have len: "unat (of_nat (length xs) :: size_t) = length xs" using name(2) by (simp add: unat_of_nat_64)
  have tq: "t \<noteq> q" using h2(2) by auto
  then have qk: "?A q = Some k" by simp
  have U: "kmem h2 x = kmem h x" if "x \<in> U" for x using h1(4) h2(3) that unfolding kframe_def by simp
  have sub: "span name (length xs) \<subseteq> U" using name(3) span_sub [of 0 "length xs" "length xs + 1" name] by auto
  have end_U: "name + of_nat (length xs) \<in> U" using name(3) by (auto simp: span_def)
  have "bytes_at (kmem h2) name (length xs) = bytes_at (kmem h) name (length xs)" using U sub by (intro bytes_at_cong) auto
  then show str: "cstring_at (kmem h2) name xs" using name(1) U [OF end_U] by (simp add: cstring_at_def)
  have out: "M x = kmem h2 x" if "x \<notin> span (W q) (length xs)" for x unfolding M_def using that len by (simp add: memcpy_outside)
  have small: "span (W q) (length xs) \<subseteq> span (W q) k" using span_sub [of 0 "length xs" k "W q"] name(2) h1(2) by simp
  have "with_ram h2 (kmem h2) = h2" by (rule with_ram_kmem [OF kheap_in_ok [OF h2(1)]])
  then show "kheap_in U (with_ram h2 M) ?A" using kheap_in_write [of U h2 "kmem h2" ?A q k M] h2(1) qk out small by auto
  have apartU: "span (W q) k \<inter> U = {}" by (rule kheap_in_block(3) [OF h2(1) qk order_refl])
  then have "bytes_at M (W q) (length xs) = xs"
    unfolding M_def using bytes_at_memcpy [of "W q" "of_nat (length xs)" name "kmem h2"] sub small str len by (auto simp: cstring_at_def)
  moreover have "W q + of_nat (length xs) \<noteq> W q + of_nat i" if "i < length xs" for i
    using inj_offset [of i "length xs" "W q"] name(2) that by simp
  then have "W q + of_nat (length xs) \<notin> span (W q) (length xs)" by (auto simp: span_def)
  then have "M (W (q + length xs)) = kmem h2 (W (q + length xs))" using out by (simp add: W_def)
  moreover have "kmem h2 (W (q + length xs)) = 0" 
  proof -
    have "kmem h2 (W (q + length xs)) = kmem h1 (W (q + length xs))"
      by (rule names_kept [OF h2(3) refl _ h1(2)]) (use name(2) in \<open>auto simp: span_def W_def\<close>)
    then show ?thesis using h1(3) name(2) by simp
  qed
  ultimately show "name_at M (W q) xs" using name(1,2) by (simp add: name_at_def cstring_at_def W_def)
  show "M x = kmem h x" if "x \<in> U" for x
  proof -
    have "x \<notin> span (W q) (length xs)" using apartU small that by blast
    then show ?thesis using out U [OF that] by simp
  qed
  show "M x = kmem h x" if "A y = Some j" "304 \<le> j" "x \<in> span (W y) 255" for y j x
  proof -
    have y: "y \<noteq> q" "y \<noteq> t" using A h2(2) that(1) tq by auto
    then have yj: "?A y = Some j" using that(1) by simp
    have "255 \<le> j" using that(2) by simp
    from other_block [OF h2(1) qk yj y(1) this that(3)] have "x \<notin> span (W q) k" .
    then have "M x = kmem h2 x" using out small by blast
    also have "\<dots> = kmem h1 x" by (rule names_kept [OF h2(3) refl _ that(2,3)]) (use y(1) that(1) in simp)
    also have "\<dots> = kmem h x" by (rule names_kept [OF h1(4) refl that])
    finally show ?thesis .
  qed
qed

lemma make_tree:
  assumes ok: "tree_ok U s A" and q: "A q = None" "304 \<le> k" and t: "(A(q \<mapsto> k)) t = None"
    and M: "kheap_in U (with_ram h M) (A(q \<mapsto> k, t \<mapsto> n))" "name_at M (W q) xs"
      "\<And>y j x. A y = Some j \<Longrightarrow> 304 \<le> j \<Longrightarrow> x \<in> span (W y) 255 \<Longrightarrow> M x = ram s x"
    and m: "hm_data m = W t" "24 * unat (table_size m) \<le> n" "hm_ok M m" "hm_abs M m = Map.empty" "entries m = {}" "children w = m"
  defines "s' \<equiv> s\<lparr>heap := h, ram := M, vnodes := (vnodes s)(W q \<mapsto> w)\<rparr>"
  shows "vnodes s (W q) = None" "tree_ok U s' (A(q \<mapsto> k, t \<mapsto> n))"
    and "kids (ram s') (vnodes s') = (kids (ram s) (vnodes s))(W q := Map.empty)"
proof -
  let ?B = "A(q \<mapsto> k)"
  have tq: "t \<noteq> q" using t by auto
  have sub: "(?B(t \<mapsto> n)) y = Some j" "W y \<noteq> W q" if y: "A y = Some j" for y j
  proof -
    have n: "y \<noteq> q" "y \<noteq> t" using y q(1) t tq by auto
    then show s: "(?B(t \<mapsto> n)) y = Some j" using y by simp
    show "W y \<noteq> W q" by (rule W_neq [OF M(1) s _ n(1), of k]) (use tq in simp)
  qed
  have node: "node_at (ram s) A (vnodes s) d u" if "vnodes s d = Some u" for d u by (rule tree_node [OF ok that])
  have ap: "d \<noteq> W q" "hm_data (children u) \<noteq> W q" if v: "vnodes s d = Some u" for d u
  proof -
    obtain y j r i where "d = W y" "A y = Some j" "hm_data (children u) = W r" "A r = Some i" using node [OF v] by (auto simp: node_at_def)
    then show "d \<noteq> W q" "hm_data (children u) \<noteq> W q" using sub(2) by metis+
  qed
  then show "vnodes s (W q) = None" by (cases "vnodes s (W q)") auto
  have s': "ram s' = M" "vnodes s' = (vnodes s)(W q \<mapsto> w)" "heap s' = h" by (simp_all add: s'_def)
  have heap': "kheap_in U (with_ram (heap s') (ram s')) (?B(t \<mapsto> n))" using M(1) s' by simp
  have qk: "?B q = Some k" "(?B(t \<mapsto> n)) q = Some k" using tq by simp_all
  have "W q \<noteq> 0" using kheap_block [OF kheap_in_ok [OF heap'] qk(2)] by simp
  then have new: "node_at (ram s') (?B(t \<mapsto> n)) (vnodes s') (W q) w"
    using m M(2) qk(2) q(2) s'(1) by (intro node_atI [of _ q _ k _ xs _ t n]) auto
  have data: "hm_data (children w) = W t" using m by simp
  have old: "node_at (ram s) ?B (vnodes s) d u \<and> hm_data (children u) \<noteq> W q" if "vnodes s d = Some u" "d \<noteq> W q" for d u
  proof -
    have "?B y = Some j" if "A y = Some j" for y j using that q(1) by auto
    then have "node_at (ram s) ?B (vnodes s) d u"
      using node_weaken [OF node [OF that(1)], of "W q" ?B "vnodes s"] ap [OF that(1)] by metis
    then show ?thesis using ap(2) [OF that(1)] by simp
  qed
  have tabs: "tables_apart (vnodes s)" using ok by (simp add: tree_ok_def)
  have names: "ram s' y = ram s y" if d: "vnodes s d \<noteq> None" "y \<in> span d 255" for d y
  proof -
    obtain u where "node_at (ram s) A (vnodes s) d u" using node [of d] d(1) by auto
    then obtain x j where "d = W x" "A x = Some j" "304 \<le> j" by (auto simp: node_at_def)
    then show ?thesis using M(3) d(2) s'(1) by simp
  qed
  show "tree_ok U s' (?B(t \<mapsto> n))"
    by (rule tree_insert(1) [OF heap' t s'(2) refl qk(1) _ tabs _ new data]) (rule old names; assumption)+
  have "kids (ram s') (vnodes s') = (kids (ram s) (vnodes s))(W q := hm_abs (ram s') (children w))"
    by (rule tree_insert(2) [OF heap' t s'(2) refl qk(1) _ tabs _ new data]) (rule old names; assumption)+
  then show "kids (ram s') (vnodes s') = (kids (ram s) (vnodes s))(W q := Map.empty)" using m(4,6) s'(1) by simp
qed

text \<open>The part of \<open>vfs_make_vnode\<close> after the allocation of the block \<open>q\<close>.\<close>

lemma make_filled:
  assumes ok: "tree_ok U s A" and name: "cstring_at (ram s) name xs" "length xs < 255" "span name (length xs + 1) \<subseteq> U"
    and new: "A q = None" "kheap_in U h1 (A(q \<mapsto> k))" "304 \<le> k" "\<forall>i < 304. kmem h1 (W (q + i)) = 0" "kframe U A (with_ram (heap s) (ram s)) h1"
    and m: "hashmap_create h1 2 = Inr (0, m, h2)" and w: "children w = m"
  defines "M \<equiv> memcpy (kmem h2) (W q) name (of_nat (length xs))"
  defines "s' \<equiv> s\<lparr>heap := h2, ram := M, vnodes := (vnodes s)(W q \<mapsto> w)\<rparr>"
  shows "ram (put_heap (put_heap s h1) h2) = kmem h2" "strlen (kmem h2) name = Some (of_nat (length xs))"
    and "\<exists>A'. tree_ok U s' A'" "vnodes s (W q) = None" "kids (ram s') (vnodes s') = (kids (ram s) (vnodes s))(W q := Map.empty)"
    and "name_at M (W q) xs" "\<forall>x \<in> U. M x = ram s x"
proof -
  note heap = tree_heap [OF ok]
  obtain t n where t: "hm_data m = W t" "(A(q \<mapsto> k)) t = None" "kheap_in U h2 (A(q \<mapsto> k, t \<mapsto> n))" "24 * unat (table_size m) \<le> n"
    using fresh_map(5) [OF new(2) m] by (auto simp: hm_owns_def)
  have str: "cstring_at (kmem (with_ram (heap s) (ram s))) name xs" using name(1) heap(2) by simp
  note mm = make_memory [OF new t(3,2) fresh_map(6) [OF new(2) m] str name(2,3), folded M_def]
  have names: "M x = ram s x" if "A y = Some j" "304 \<le> j" "x \<in> span (W y) 255" for y j x using mm(5) [OF that] heap(2) by simp
  note mt = make_tree [OF ok new(1,3) t(2) mm(2,3) _ t(1,4) fresh_map(2,3,4) [OF new(2) m] w, folded s'_def]
  have tree: "vnodes s (W q) = None" "tree_ok U s' (A(q \<mapsto> k, t \<mapsto> n))"
    "kids (ram s') (vnodes s') = (kids (ram s) (vnodes s))(W q := Map.empty)" by (rule mt; rule names; assumption)+
  show "ram (put_heap (put_heap s h1) h2) = kmem h2" by (rule put_heap_in(2) [OF t(3)])
  show "strlen (kmem h2) name = Some (of_nat (length xs))" by (rule strlen_eq [OF mm(1)])
  show "\<exists>A'. tree_ok U s' A'" using tree(2) by blast
  show "vnodes s (W q) = None" "kids (ram s') (vnodes s') = (kids (ram s) (vnodes s))(W q := Map.empty)" "name_at M (W q) xs"
    using tree(1,3) mm(3) by simp_all
  show "\<forall>x \<in> U. M x = ram s x" using mm(4) heap(2) by simp
qed

lemma make_result:
  assumes ok: "tree_ok U s A" and name: "cstring_at (ram s) name xs" "length xs < 255" "span name (length xs + 1) \<subseteq> U"
  shows "vfs_make_vnode s name vt mount = Some (Inl Null_Deref) \<or>
    (\<exists>p v s' A'. vfs_make_vnode s name vt mount = ret (p, s') \<and> p \<noteq> 0 \<and> vnodes s p = None \<and> vnodes s' = (vnodes s)(p \<mapsto> v) \<and>
       v_type v = vt \<and> v_state v = VSTATE_CONSTRUCTED \<and> v_flags v = (if mount \<noteq> 0 then V_MOUNTPOINT else 0) \<and> n_children v = 0 \<and>
       name_at (ram s') p xs \<and> tree_ok U s' A' \<and> kids (ram s') (vnodes s') = (kids (ram s) (vnodes s))(p := Map.empty) \<and>
       (\<exists>h M. s' = s\<lparr>heap := h, ram := M, vnodes := vnodes s'\<rparr>) \<and> (\<forall>x \<in> U. ram s' x = ram s x))"
proof -
  let ?h = "with_ram (heap s) (ram s)"
  note heap = tree_heap [OF ok]
  have len: "strlen (ram s) name = Some (of_nat (length xs))" "\<not> NAME_MAX \<le> (of_nat (length xs) :: size_t)"
    using strlen_eq [OF name(1)] name(2) by (simp_all add: NAME_MAX_def word_le_nat_alt unat_of_nat_64)
  have "unat (sizeof_vnode * 1) = 304" by (simp add: sizeof_vnode_def)
  with kcalloc_in [OF heap(1), of sizeof_vnode 1] consider (null) "kcalloc ?h 1 sizeof_vnode = Inl Null_Deref"
    | (new) q k h1 where "kcalloc ?h 1 sizeof_vnode = Inr (W q, h1)" "A q = None" "kheap_in U h1 (A(q \<mapsto> k))" "304 \<le> k"
      "\<forall>i < 304. kmem h1 (W (q + i)) = 0" "kframe U A ?h h1"
    by (auto simp: sizeof_vnode_def split: if_splits)
  then show ?thesis
  proof cases
    case null
    then show ?thesis using len by (simp add: vfs_make_vnode_def strlenR_def heap_call_def)
  next
    case new
    let ?v = "\<lparr>v_type = vt, v_state = VSTATE_CONSTRUCTED, v_flags = (if mount \<noteq> 0 then V_MOUNTPOINT else 0),
       v_mkdir = 0, children = \<lparr>table_size = 0, hm_size = 0, hm_data = 0, elems = []\<rparr>, n_children = 0\<rparr>"
    have call: "heap_call (\<lambda>h. kcalloc h 1 sizeof_vnode) s = Inr (W q, put_heap s h1)" by (simp add: heap_call_def new(1))
    note in1 = put_heap_in [OF new(3), of s]
    have w1: "with_ram (heap (put_heap s h1)) (ram (put_heap s h1)) = h1"
      using in1(2) with_ram_kmem [OF kheap_in_ok [OF new(3)]] by (simp add: put_heap_def)
    show ?thesis
    proof (cases "hashmap_create h1 2")
      case (Inl e)
      have "unat (2 :: uint32_t) = 2 ^ 1" by simp
      then have "e = Null_Deref" using create_ok [OF new(3), of 2 1] Inl by auto
      then show ?thesis using len call w1 Inl by (simp add: vfs_make_vnode_def strlenR_def map_call_def)
    next
      case (Inr r)
      then obtain m h2 where m: "hashmap_create h1 2 = Inr (0, m, h2)" using fresh_map(1) [OF new(3)] by (cases r) auto
      let ?w = "?v\<lparr>children := m\<rparr>"
      let ?s = "s\<lparr>heap := h2, ram := memcpy (kmem h2) (W q) name (of_nat (length xs)), vnodes := (vnodes s)(W q \<mapsto> ?w)\<rparr>"
      have w: "children ?w = m" by simp
      note fill = make_filled [OF ok name new(2-6) m w]
      have "vfs_make_vnode s name vt mount = ret (W q, ?s)"
        using len call w1 m fill(1,2) by (simp add: vfs_make_vnode_def strlenR_def map_call_def put_heap_def assertE_def Let_def)
      moreover have "W q \<noteq> 0" using kheap_block [OF kheap_in_ok [OF new(3)], of q k] by simp
      ultimately show ?thesis using fill(3-7) by (intro disjI2 exI [of _ "W q"] exI [of _ ?w] exI [of _ ?s]) auto
    qed
  qed
qed

lemma make_long:
  assumes "cstring_at (ram s) name xs" "255 \<le> length xs"
  shows "vfs_make_vnode s name vt mount = ret (0, s)"
proof -
  have "length xs < 2 ^ 64" using assms(1) by (simp add: cstring_at_def)
  then have "NAME_MAX \<le> (of_nat (length xs) :: size_t)" using assms(2) by (simp add: NAME_MAX_def word_le_nat_alt unat_of_nat_64)
  then show ?thesis using strlen_eq [OF assms(1)] by (simp add: vfs_make_vnode_def strlenR_def)
qed

text \<open>Fields of a node that the tree does not depend on.\<close>

lemma tree_flags:
  assumes ok: "tree_ok U s A" and v: "vnodes s p = Some v" and w: "children w = children v"
    and s': "ram s' = ram s" "heap s' = heap s" "vnodes s' = (vnodes s)(p \<mapsto> w)"
  shows "tree_ok U s' A" "kids (ram s') (vnodes s') = kids (ram s) (vnodes s)"
proof -
  have old: "\<exists>u'. vnodes s d = Some u' \<and> children u = children u'" if "vnodes s' d = Some u" for d u
    using that s'(3) v w by (cases "d = p") auto
  have dom: "vnodes s d \<noteq> None \<Longrightarrow> vnodes s' d \<noteq> None" for d using s'(3) by simp
  have "node_at (ram s) A (vnodes s') d u" if d: "vnodes s' d = Some u" for d u
  proof -
    obtain u' where u': "vnodes s d = Some u'" "children u = children u'" using old [OF d] by blast
    have "node_at (ram s) A (vnodes s') d u'" by (rule node_mono [OF tree_node [OF ok u'(1)] _ dom tree_heap(1) [OF ok]])
    then show ?thesis using u'(2) by (simp add: node_at_def)
  qed
  moreover have "tables_apart (vnodes s')"
    unfolding tables_apart_def
  proof (intro allI impI)
    fix d u d' u' assume "vnodes s' d = Some u" "vnodes s' d' = Some u'"
    then obtain x x' where "vnodes s d = Some x" "children u = children x" "vnodes s d' = Some x'" "children u' = children x'"
      using old by meson
    then show "hm_data (children u) \<noteq> d' \<and> (d \<noteq> d' \<longrightarrow> hm_data (children u) \<noteq> hm_data (children u'))"
      using ok unfolding tree_ok_def tables_apart_def by simp
  qed
  ultimately show "tree_ok U s' A" using ok s' by (simp add: tree_ok_def)
  show "kids (ram s') (vnodes s') = kids (ram s) (vnodes s)"
    unfolding s'(1,3) using v w by (intro ext) (simp add: kids_def)
qed

lemma init_result:
  assumes heap: "kheap_in U (with_ram (heap s) (ram s)) A" and none: "vnodes s = Map.empty" and con: "con_ok fb s"
    and lit: "ram s lit = 0" "lit \<in> U"
  shows "vfs_init H lit s = Some (Inl Null_Deref) \<or>
    (\<exists>s' A' v. vfs_init H lit s = ret s' \<and> tree_ok U s' A' \<and> con_ok fb s' \<and> fs_root s' \<noteq> 0 \<and> vnodes s' = [fs_root s' \<mapsto> v] \<and>
       v_type v = VDIR \<and> v_flags v = V_MOUNTPOINT OR V_ROOT \<and> name_at (ram s') (fs_root s') [] \<and>
       kids (ram s') (vnodes s') (fs_root s') = Map.empty)"
proof -
  have ok: "tree_ok U s A" using heap none by (simp add: tree_ok_def tables_apart_def)
  have str: "cstring_at (ram s) lit []" "length ([] :: uint8_t list) < 255" "span lit (length ([] :: uint8_t list) + 1) \<subseteq> U"
    using lit by (simp_all add: cstring_at_def bytes_at_def span_Suc)
  from make_result [OF ok str, of VDIR 1] show ?thesis
  proof (elim disjE exE conjE)
    assume "vfs_make_vnode s lit VDIR 1 = Some (Inl Null_Deref)"
    then show ?thesis by (simp add: vfs_init_def)
  next
    fix p v s1 A' h M
    assume made: "vfs_make_vnode s lit VDIR 1 = ret (p, s1)" "p \<noteq> 0" "vnodes s1 = (vnodes s)(p \<mapsto> v)" "v_type v = VDIR"
      "v_flags v = (if (1 :: uint8_t) \<noteq> 0 then V_MOUNTPOINT else 0)" "name_at (ram s1) p []" "tree_ok U s1 A'"
      "kids (ram s1) (vnodes s1) = (kids (ram s) (vnodes s))(p := Map.empty)" "s1 = s\<lparr>heap := h, ram := M, vnodes := vnodes s1\<rparr>"
    let ?w = "v\<lparr>v_flags := v_flags v OR V_ROOT\<rparr>"
    let ?s = "s1\<lparr>fs_root := p, vnodes := (vnodes s1)(p \<mapsto> ?w)\<rparr>"
    have v: "vnodes s1 p = Some v" using made(3) by simp
    note tree = tree_flags [OF made(7) v, of ?w ?s, simplified]
    have "con s1 = con (s\<lparr>heap := h, ram := M, vnodes := vnodes s1\<rparr>)" using made(9) by (rule arg_cong)
    then have "con_ok fb ?s" using con by (simp add: con_ok_def)
    moreover have "fmt_ok (KERN_INFO @ map ch ''Mounted filesystem root at '' @ [39] @ map ch ''/'' @ [39, 10]) []"
      unfolding info_ok by (simp add: ch_def printable_def)
    ultimately obtain u where u: "printk H ?s (KERN_INFO @ map ch ''Mounted filesystem root at '' @ [39] @ map ch ''/'' @ [39, 10]) [] = Inr u" "says fb ?s u"
      using printk_says by blast
    then obtain d c where d: "u = ?s\<lparr>hw := d, con := c\<rparr>" "con_ok fb u" by (auto simp: says_def)
    have run: "vfs_init H lit s = ret u" using made(1) v u(1) by (simp add: vfs_init_def node_def Let_def)
    have "tree_ok U u A'" using tree(1) d(1) by (simp add: tree_ok_def)
    moreover have "vnodes u = [p \<mapsto> ?w]" using d(1) made(3) none by simp
    ultimately show ?thesis
      using run d made(2,4,5,6,8) tree(2) by (intro disjI2 exI [of _ u] exI [of _ A'] exI [of _ ?w]) simp
  qed
qed

subsection \<open>Reachable trees\<close>

text \<open>The states of the file system: calls of its operations that return, in any order. Names and paths are strings
  outside the heap, nodes are ones that \<open>vfs_make_vnode\<close> has returned.\<close>

inductive fs_reach :: "'d hardware \<Rightarrow> addr \<Rightarrow> addr set \<Rightarrow> 'd kernel \<Rightarrow> 'd kernel \<Rightarrow> bool"
  for H fname U s0 where
  start: "fs_reach H fname U s0 s0"
| make: "fs_reach H fname U s0 s \<Longrightarrow> cstring_at (ram s) name xs \<Longrightarrow> span name (length xs + 1) \<subseteq> U \<Longrightarrow>
    vfs_make_vnode s name vt mount = ret (p, s') \<Longrightarrow> fs_reach H fname U s0 s'"
| append: "fs_reach H fname U s0 s \<Longrightarrow> parent = 0 \<or> vnodes s parent \<noteq> None \<Longrightarrow> vnodes s child \<noteq> None \<Longrightarrow>
    vfs_append_child s parent child = ret s' \<Longrightarrow> fs_reach H fname U s0 s'"
| look_up: "fs_reach H fname U s0 s \<Longrightarrow> cstring_at (ram s) path xs \<Longrightarrow> \<forall>c \<in> set xs. printable c \<Longrightarrow>
    span path (length xs + 1) \<inter> span fname 256 = {} \<Longrightarrow> path2vnode H fname s path = ret (p, s') \<Longrightarrow> fs_reach H fname U s0 s'"

text \<open>What holds in all of them.\<close>

definition fs_ok :: "addr set \<Rightarrow> limine_framebuffer \<Rightarrow> 'd kernel \<Rightarrow> bool" where
  "fs_ok U fb s \<longleftrightarrow> (\<exists>A. tree_ok U s A) \<and> con_ok fb s \<and> fs_root s \<noteq> 0 \<and> vnodes s (fs_root s) \<noteq> None"

lemma make_fs_ok:
  assumes "fs_ok U fb s" and "cstring_at (ram s) name xs" "span name (length xs + 1) \<subseteq> U" "vfs_make_vnode s name vt mount = ret (p, s')"
  shows "fs_ok U fb s'"
proof (cases "length xs < 255")
  case True
  obtain A where A: "tree_ok U s A" using assms(1) by (auto simp: fs_ok_def)
  from make_result [OF A assms(2) True assms(3), of vt mount] show ?thesis
  proof (elim disjE exE conjE)
    fix q v t B h M
    assume t: "vfs_make_vnode s name vt mount = ret (q, t)" "vnodes t = (vnodes s)(q \<mapsto> v)" "tree_ok U t B" "t = s\<lparr>heap := h, ram := M, vnodes := vnodes t\<rparr>"
    have "con t = con (s\<lparr>heap := h, ram := M, vnodes := vnodes t\<rparr>)" "fs_root t = fs_root (s\<lparr>heap := h, ram := M, vnodes := vnodes t\<rparr>)"
      using t(4) by (rule arg_cong)+
    then show ?thesis using assms(1,4) t by (auto simp: fs_ok_def con_ok_def)
  qed (use assms(4) in simp)
next
  case False
  then show ?thesis using make_long [OF assms(2), of vt mount] assms(1,4) by simp
qed

lemma append_fs_ok:
  assumes "fs_ok U fb s" and "parent = 0 \<or> vnodes s parent \<noteq> None" "vnodes s child \<noteq> None" "vfs_append_child s parent child = ret s'"
  shows "fs_ok U fb s'"
proof -
  obtain A where A: "tree_ok U s A" using assms(1) by (auto simp: fs_ok_def)
  obtain v where "vnodes s child = Some v" using assms(3) by auto
  from tree_node [OF A this] obtain xs where xs: "name_at (ram s) child xs" by (auto simp: node_at_def)
  have p: "vnodes s (if parent = 0 then fs_root s else parent) \<noteq> None" using assms(1,2) by (auto simp: fs_ok_def)
  show ?thesis using append_result [OF A p assms(3) xs] assms(1,4) by (auto simp: fs_ok_def con_ok_def dom_def)
qed

text \<open>The heap does not depend on memory outside its pools.\<close>

lemma rd_cong: "(\<And>i. i < 8 \<Longrightarrow> m' (W (y + i)) = m (W (y + i))) \<Longrightarrow> rd m' y = rd m y"
  unfolding rd_def by (rule load64_cong) (auto simp: span_def W_def)

lemma heap_ok_outside:
  assumes "heap_ok c s A R" and same: "\<And>y. y \<in> R \<Longrightarrow> m (W y) = mem s (W y)"
  shows "heap_ok c (s\<lparr>mem := m\<rparr>) A R"
proof -
  obtain B where B: "hok c s B {}" "coalesced B" "A = allocs B" "view_ok B" "R = region B" using assms(1) by (rule heap_okE)
  obtain L where h: "hinv c s B L {}" using B(1) by (rule hok_hinv)
  have rd: "rd m y = rd (mem s) y" if "B a = Some b" "a + 8 \<le> y" "y + 8 \<le> a + 16 + bsz b" for a b y
  proof (rule rd_cong)
    fix i :: nat assume "i < 8"
    then have "a + 8 \<le> y + i" "y + i < a + 16 + bsz b" using that by simp_all
    then have "y + i \<in> R" unfolding B(5) region_def using that(1) by blast
    then show "m (W (y + i)) = mem s (W (y + i))" by (rule same)
  qed
  have "mem_ok m B" using hinvD(3) [OF h] rd unfolding mem_ok_def by simp
  moreover have l: "lists_ok s B L {}" using h by (simp add: hinv_def)
  have "dseg m (control s) (L (i, j)) (control s)" if ij: "i < 25" "j < 32" for i j
  proof (rule dseg_cong)
    show "dseg (mem s) (control s) (L (i, j)) (control s)" using l ij by (simp add: lists_ok_def)
    fix x assume "x \<in> set (L (i, j))"
    then obtain b where b: "B x = Some b" "bfree b" using l ij unfolding lists_ok_def by blast
    then have "24 \<le> bsz b" using view_blk [OF B(4) b(1)] by (auto simp: blk_ok_def)
    then show "rd m (x + 16) = rd (mem s) (x + 16)" "rd m (x + 24) = rd (mem s) (x + 24)" using rd [OF b(1)] by simp_all
  qed
  then have "lists_ok (s\<lparr>mem := m\<rparr>) B L {}" using l by (simp add: lists_ok_def)
  ultimately have "hinv c (s\<lparr>mem := m\<rparr>) B L {}" using h by (simp add: hinv_def ctl_ok_def)
  then show ?thesis using B(2,3,5) by (auto simp: heap_ok_def hok_def)
qed

lemma region_bound: "heap_ok c s A R \<Longrightarrow> y \<in> R \<Longrightarrow> y < 2 ^ 64"
proof -
  assume "heap_ok c s A R" and y: "y \<in> R"
  then obtain B where B: "view_ok B" "R = region B" by (auto elim: heap_okE)
  from y obtain a b where a: "B a = Some b" "y < a + 16 + bsz b" unfolding B(2) region_def by blast
  then show ?thesis using view_blk [OF B(1) a(1)] by (simp add: blk_ok_def)
qed

lemma kheap_in_outside:
  assumes "kheap_in U (with_ram h m) A" and "\<And>x. x \<notin> U \<Longrightarrow> m' x = m x"
  shows "kheap_in U (with_ram h m') A"
proof -
  obtain t c R where t: "tlsf_ctx h = Some t" "heap_ok c (t\<lparr>mem := m\<rparr>) A R" and U: "\<forall>x \<in> U. unat x \<notin> R \<and> (unat x < c \<or> c + 6536 \<le> unat x)"
    using assms(1) by (auto simp: kheap_in_def with_ram_def)
  have "heap_ok c (t\<lparr>mem := m\<rparr>\<lparr>mem := m'\<rparr>) A R"
  proof (rule heap_ok_outside [OF t(2)])
    fix y assume y: "y \<in> R"
    have "y < 2 ^ 64" by (rule region_bound [OF t(2) y])
    then have "W y \<notin> U" using U y by (auto simp: unat_W)
    then show "m' (W y) = mem (t\<lparr>mem := m\<rparr>) (W y)" using assms(2) by simp
  qed
  then show ?thesis using t(1) U by (auto simp: kheap_in_def with_ram_def)
qed

lemma near_tree:
  assumes "near fname fb s s'" and "span fname 256 \<subseteq> U" "fs_ok U fb s"
  shows "fs_ok U fb s'"
proof -
  obtain A where A: "tree_ok U s A" using assms(3) by (auto simp: fs_ok_def)
  obtain m d c where s': "s' = s\<lparr>ram := m, hw := d, con := c\<rparr>" using assms(1) by (auto simp: near_def)
  have same: "m x = ram s x" if "x \<notin> span fname 256" for x using assms(1) that by (auto simp: near_def s')
  have "kheap_in U (with_ram (heap s) m) A" using kheap_in_outside [OF tree_heap(1) [OF A]] same assms(2) by blast
  moreover have "node_at m A (vnodes s) p v" if "vnodes s p = Some v" for p v
    using near_nodes(1) [OF assms(1) tree_apart [OF A assms(2)] that tree_node [OF A that]] by (simp add: s')
  ultimately have "tree_ok U s' A" using A by (simp add: tree_ok_def s')
  then show ?thesis using assms(1,3) near_other [OF assms(1)] by (auto simp: fs_ok_def near_def)
qed

lemma fs_reach_ok:
  assumes "fs_reach H fname U s0 s" and "fs_ok U fb s0" and "span fname 256 \<subseteq> U"
  shows "fs_ok U fb s"
  using assms(1)
proof induction
  case start
  show ?case by (rule assms(2))
next
  case (look_up s path xs p s')
  obtain A where A: "tree_ok U s A" "con_ok fb s" "vnodes s (fs_root s) \<noteq> None" using look_up.IH by (auto simp: fs_ok_def)
  from path2vnode_result [OF A assms(3) look_up.hyps(2-4), of H] look_up.hyps(5) have "near fname fb s s'" by auto
  then show ?case by (rule near_tree [OF _ assms(3) look_up.IH])
qed (blast intro: make_fs_ok append_fs_ok)+

subsection \<open>A small tree\<close>

text \<open>A pool of 64 KiB at \<open>b\<close> is added to the heap and a block of 304 bytes is allocated.\<close>

definition pool_alloc :: "nat \<Rightarrow> tlsf \<Rightarrow> addr \<times> tlsf" where
  "pool_alloc b t = (case tlsf_add_pool t (W b) (W 65536) of
     Inl _ \<Rightarrow> (0, t)
   | Inr (_, t) \<Rightarrow> (case tlsf_malloc t 304 of Inl _ \<Rightarrow> (0, t) | Inr r \<Rightarrow> r))"

lemma pool_alloc_ok:
  assumes "heap_ok 4096 t A {16384..<b}" and "b' = b + 65536" "16384 \<le> b" "b mod 8 = 0" "b < 2 ^ 32"
  shows "\<exists>q k t'. pool_alloc b t = (W q, t') \<and> A q = None \<and> heap_ok 4096 t' (A(q \<mapsto> k)) {16384..<b'} \<and> 304 \<le> k"
proof -
  obtain B where B: "hok 4096 t B {}" "coalesced B" "A = allocs B" "view_ok B" "{16384..<b} = region B" using assms(1) by (rule heap_okE)
  have b: "(b - 8) mod 8 = 0" "b - 8 + 8 = b" using assms(3,4) by (auto simp: mod_eq_0_iff_dvd)
  have size: "pool_size 65536 = 65520" by (simp add: pool_size_def)
  have fits: "pool_fits B (b - 8) 65520"
    using assms(3,5) b unfolding pool_fits_def B(5) [symmetric] by auto
  obtain t1 where t1: "tlsf_add_pool t (W b) (W 65536) = Inr (W b, t1)" "hok 4096 t1 (add_view B (b - 8) 65520) {}"
    using add_pool_step [OF B(1), of 65536 "b - 8"] fits size b assms(3) by auto
  let ?B = "add_view B (b - 8) 65520"
  have v: "heap_view 4096 t1 ?B" using t1(2) add_view_coalesced [OF B(4) fits B(2)] by (simp add: heap_view_def)
  have "?B (b - 8) = Some \<lparr>bsz = 65520, bfree = True, bpf = False, bpool = (b, b + 65536)\<rparr>" using assms(3) by (simp add: add_view_def)
  moreover have "ilog2 304 = 8" by (rule ilog2_eqI) simp_all
  then have "adj_size 304 = 304" "search_size 304 = 311" by (simp_all add: adj_size_def search_size_def)
  moreover have "allocs ?B = A" "region ?B = {16384..<b'}"
    using add_view_allocs [OF fits] add_view_region [OF fits] assms(2,3) B(3) B(5) [symmetric] by auto
  ultimately obtain q k t' where "tlsf_malloc t1 304 = Inr (W q, t')" "A q = None" "304 \<le> k" "heap_ok 4096 t' (A(q \<mapsto> k)) {16384..<b'}"
    using malloc_success [OF v, of "b - 8" _ 304 304] by auto
  then show ?thesis using t1(1) by (intro exI [of _ q] exI [of _ k] exI [of _ t']) (simp add: pool_alloc_def)
qed

definition demo_node :: "addr \<Rightarrow> uint32_t \<Rightarrow> hashmap_element \<Rightarrow> vnode" where
  "demo_node table n e = \<lparr>v_type = VDIR, v_state = VSTATE_CONSTRUCTED, v_flags = 0, v_mkdir = 0,
     children = \<lparr>table_size = 1, hm_size = n, hm_data = table, elems = [e]\<rparr>, n_children = 0\<rparr>"

text \<open>A root with one child of the name \<open>a\<close>; the kernel, the child and the string \<open>/a\<close>.\<close>

definition demo_fs :: "uint64_t kernel \<times> addr \<times> addr" where
  "demo_fs =
     (let (root, t) = pool_alloc 81920 demo_heap; (child, t) = pool_alloc 147456 t; (table, t) = pool_alloc 212992 t;
          (table', t) = pool_alloc 278528 t; (path, t) = pool_alloc 344064 t;
          m = (mem t)(root := 0, child := 97, child + 1 := 0, path := 47, path + 1 := 97, path + 2 := 0)
      in ((demo_machine 0 m)\<lparr>heap := \<lparr>tlsf_ctx = Some t, bytes_allocated = 0\<rparr>, fs_root := root,
            vnodes := [root \<mapsto> demo_node table 1 \<lparr>key = child, key_len = 1, in_use = 1, edata = child\<rparr>, child \<mapsto> demo_node table' 0 blank]\<rparr>,
          child, path))"

lemma demo_node_ok:
  "hm_ok M (children (demo_node table 0 blank))" "entries (children (demo_node table 0 blank)) = {}"
  "in_use e = 1 \<Longrightarrow> hm_ok M (children (demo_node table 1 e))" "in_use e = 1 \<Longrightarrow> entries (children (demo_node table 1 e)) = {(key e, key_len e, edata e)}"
  "in_use e = 1 \<Longrightarrow> hm_abs M (children (demo_node table 1 e)) = [ekey M e \<mapsto> edata e]"
proof -
  have u: "used (children (demo_node table n e)) i \<longleftrightarrow> i = 0 \<and> in_use e \<noteq> 0" for n e i by (auto simp: used_def demo_node_def)
  have p: "place (children (demo_node table n e)) i j = 0" for n e i j by (simp add: place_def demo_node_def)
  have s: "hm_shape (children (demo_node table n e))" for n e by (simp add: hm_shape_def demo_node_def exI [of _ 0])
  have "{i :: nat. i = 0 \<and> P} = (if P then {0} else {})" for P by auto
  then show "hm_ok M (children (demo_node table 0 blank))" "in_use e = 1 \<Longrightarrow> hm_ok M (children (demo_node table 1 e))"
    unfolding hm_ok_def u p using s by (auto simp: demo_node_def blank_def intro: exI [of _ 0])
  show "entries (children (demo_node table 0 blank)) = {}" by (simp add: entries_def u blank_def)
  show "in_use e = 1 \<Longrightarrow> entries (children (demo_node table 1 e)) = {(key e, key_len e, edata e)}"
    by (simp add: entries_def u) (simp add: demo_node_def)
  show "in_use e = 1 \<Longrightarrow> hm_abs M (children (demo_node table 1 e)) = [ekey M e \<mapsto> edata e]"
    by (auto simp: hm_abs_def demo_node_def fun_eq_iff)
qed

lemma demo_blocks:
  "\<exists>q1 k1 t1 q2 k2 t2 q3 k3 t3 q4 k4 t4 q5 k5 t5.
     pool_alloc 81920 demo_heap = (W q1, t1) \<and> pool_alloc 147456 t1 = (W q2, t2) \<and> pool_alloc 212992 t2 = (W q3, t3) \<and>
     pool_alloc 278528 t3 = (W q4, t4) \<and> pool_alloc 344064 t4 = (W q5, t5) \<and> distinct [q1, q2, q3, q4, q5] \<and>
     304 \<le> k1 \<and> 304 \<le> k2 \<and> 304 \<le> k3 \<and> 304 \<le> k4 \<and> 304 \<le> k5 \<and>
     heap_ok 4096 t5 [q1 \<mapsto> k1, q2 \<mapsto> k2, q3 \<mapsto> k3, q4 \<mapsto> k4, q5 \<mapsto> k5] {16384..<409600}"
proof -
  obtain q1 k1 t1 where 1: "pool_alloc 81920 demo_heap = (W q1, t1)" "304 \<le> k1" "heap_ok 4096 t1 [q1 \<mapsto> k1] {16384..<147456}"
    using pool_alloc_ok [of demo_heap Map.empty 81920 147456] demo_ok by (auto simp: demo_pool_def)
  obtain q2 k2 t2 where 2: "pool_alloc 147456 t1 = (W q2, t2)" "304 \<le> k2" "q2 \<noteq> q1" "heap_ok 4096 t2 [q1 \<mapsto> k1, q2 \<mapsto> k2] {16384..<212992}"
    using pool_alloc_ok [OF 1(3), of 212992] by (auto split: if_splits)
  obtain q3 k3 t3 where 3: "pool_alloc 212992 t2 = (W q3, t3)" "304 \<le> k3" "q3 \<notin> {q1, q2}"
      "heap_ok 4096 t3 [q1 \<mapsto> k1, q2 \<mapsto> k2, q3 \<mapsto> k3] {16384..<278528}"
    using pool_alloc_ok [OF 2(4), of 278528] by (auto split: if_splits)
  obtain q4 k4 t4 where 4: "pool_alloc 278528 t3 = (W q4, t4)" "304 \<le> k4" "q4 \<notin> {q1, q2, q3}"
      "heap_ok 4096 t4 [q1 \<mapsto> k1, q2 \<mapsto> k2, q3 \<mapsto> k3, q4 \<mapsto> k4] {16384..<344064}"
    using pool_alloc_ok [OF 3(4), of 344064] by (auto split: if_splits)
  obtain q5 k5 t5 where 5: "pool_alloc 344064 t4 = (W q5, t5)" "304 \<le> k5" "q5 \<notin> {q1, q2, q3, q4}"
      "heap_ok 4096 t5 [q1 \<mapsto> k1, q2 \<mapsto> k2, q3 \<mapsto> k3, q4 \<mapsto> k4, q5 \<mapsto> k5] {16384..<409600}"
    using pool_alloc_ok [OF 4(4), of 409600] by (auto split: if_splits)
  have "distinct [q1, q2, q3, q4, q5]" using 2(3) 3(3) 4(3) 5(3) by auto
  then show ?thesis using 1(1,2) 2(1,2) 3(1,2) 4(1,2) 5(1,2,4) by blast
qed

lemma block_bytes:
  assumes "heap_ok c t A R" and "A q = Some k" "A r = Some j" and "i < k" "l < j"
  shows "W (q + i) = W (r + l) \<longleftrightarrow> q = r \<and> i = l"
proof -
  have lt: "q + i < 2 ^ 64" "r + l < 2 ^ 64" using heap_block(4) [OF assms(1,2)] heap_block(4) [OF assms(1,3)] assms(4,5) by simp_all
  then have "W (q + i) = W (r + l) \<longleftrightarrow> q + i = r + l" using unat_W by metis
  moreover have "q = r" if "q + i = r + l"
    using heap_disjoint [OF assms(1-3)] heap_disjoint [OF assms(1,3,2)] that assms(4,5) by (cases q r rule: linorder_cases) auto
  ultimately show ?thesis by auto
qed

definition demo_static :: "addr set" where
  "demo_static = {x. unat x < 4096}"

lemma demo_buffer: "span 0x200 256 \<subseteq> demo_static"
proof
  fix x :: addr assume x: "x \<in> span 0x200 256"
  then obtain i :: nat where i: "x = of_nat (512 + i)" "i < 256" by (auto simp: span_def)
  then show "x \<in> demo_static" by (simp add: demo_static_def unat_of_nat_64 del: of_nat_add)
qed

lemma small_tree:
  assumes ok: "heap_ok 4096 t A {16384..<409600}" and d: "distinct [q1, q2, q3, q4, q5]"
    and A: "A q1 = Some k1" "A q2 = Some k2" "A q3 = Some k3" "A q4 = Some k4" "A q5 = Some k5"
    and k: "304 \<le> k1" "304 \<le> k2" "304 \<le> k3" "304 \<le> k4" "304 \<le> k5"
    and m: "m = (mem t)(W q1 := 0, W q2 := 97, W (q2 + 1) := 0, W q5 := 47, W (q5 + 1) := 97, W (q5 + 2) := 0)"
    and s: "ram s = m" "heap s = \<lparr>tlsf_ctx = Some t, bytes_allocated = 0\<rparr>" "fs_root s = W q1"
      "vnodes s = [W q1 \<mapsto> demo_node (W q3) 1 \<lparr>key = W q2, key_len = 1, in_use = 1, edata = W q2\<rparr>, W q2 \<mapsto> demo_node (W q4) 0 blank]"
  shows "tree_ok demo_static s A" "name_at m (W q2) [97]" "cstring_at m (W q5) [47, 97]" "span (W q5) 3 \<inter> span 0x200 256 = {}"
    "W q1 \<noteq> 0" "W q2 \<noteq> 0" "file_at s [47, 97] = W q2"
proof -
  have z: "0 < k1" "0 < k2" "1 < k2" "0 < k5" "1 < k5" "2 < k5" using k by simp_all
  have w: "heap_ok 4096 (t\<lparr>mem := n\<rparr>) A R \<Longrightarrow> heap_ok 4096 (t\<lparr>mem := n(W (p + i) := v)\<rparr>) A R" if "A p = Some j" "i < j" for n p i j v R
    using write_mem that by blast
  note w0 = w [where i = 0, unfolded add_0_right]
  have "heap_ok 4096 (t\<lparr>mem := mem t\<rparr>) A {16384..<409600}" using ok by simp
  then have ok': "heap_ok 4096 (t\<lparr>mem := m\<rparr>) A {16384..<409600}"
    unfolding m using w0 [OF A(1) z(1)] w0 [OF A(2) z(2)] w [OF A(2) z(3)] w0 [OF A(5) z(4)] w [OF A(5) z(5)] w [OF A(5) z(6)] by simp
  have b: "W (x + i) = W (y + l) \<longleftrightarrow> x = y \<and> i = l" if "A x = Some j" "A y = Some j'" "i < j" "l < j'" for x y j j' i l
    by (rule block_bytes [OF ok that])
  note b0 = b [where i = 0, unfolded add_0_right] b [where l = 0, unfolded add_0_right] b [where i = 0 and l = 0, unfolded add_0_right]
  have ne: "q1 \<noteq> q2" "q1 \<noteq> q3" "q1 \<noteq> q4" "q1 \<noteq> q5" "q2 \<noteq> q3" "q2 \<noteq> q4" "q2 \<noteq> q5" "q3 \<noteq> q4" using d by auto
  have W: "W q1 \<noteq> W q2" "W q1 \<noteq> W q3" "W q1 \<noteq> W q4" "W q2 \<noteq> W q3" "W q2 \<noteq> W q4" "W q3 \<noteq> W q4"
    using b0(3) A k ne by (metis gr0I not_numeral_le_zero)+
  have r: "m (W q1) = 0" "m (W q2) = 97" "m (W (q2 + 1)) = 0" "m (W q5) = 47" "m (W (q5 + 1)) = 97" "m (W (q5 + 2)) = 0"
    unfolding m using b [OF A(1) A(2), of 0 0] b [OF A(1) A(2), of 0 1] b [OF A(1) A(5), of 0 0] b [OF A(1) A(5), of 0 1] b [OF A(1) A(5), of 0 2]
      b [OF A(2) A(2), of 0 1] b [OF A(2) A(5), of 0 0] b [OF A(2) A(5), of 0 1] b [OF A(2) A(5), of 0 2] b [OF A(2) A(5), of 1 0]
      b [OF A(2) A(5), of 1 1] b [OF A(2) A(5), of 1 2] b [OF A(5) A(5), of 0 1] b [OF A(5) A(5), of 0 2] b [OF A(5) A(5), of 1 2] ne z
    by simp_all
  show n2: "name_at m (W q2) [97]" using r(2,3) by (simp add: name_at_def cstring_at_def bytes_at_def W_def) (simp add: add.commute)
  show "cstring_at m (W q5) [47, 97]" using r(4-6) by (simp add: cstring_at_def bytes_at_def W_def upt_rec) (simp add: add.commute)
  have n1: "name_at m (W q1) []" using r(1) by (simp add: name_at_def cstring_at_def bytes_at_def)
  have heap: "kheap_in demo_static (with_ram (heap s) (ram s)) A"
    by (rule kheap_inI [OF _ ok']) (auto simp: s(1,2) with_ram_def demo_static_def)
  show nz: "W q1 \<noteq> 0" "W q2 \<noteq> 0" using kheap_block [OF kheap_in_ok [OF heap]] A by auto
  let ?e = "\<lparr>key = W q2, key_len = 1, in_use = 1, edata = W q2\<rparr>"
  have "node_at m A (vnodes s) (W q2) (demo_node (W q4) 0 blank)"
    using nz(2) k(2,4) n2 demo_node_ok(1,2) by (intro node_atI [OF refl A(2) _ _ _ _ _ A(4)]) (auto simp: demo_node_def)
  moreover have "node_at m A (vnodes s) (W q1) (demo_node (W q3) 1 ?e)"
    using nz(1) k(1,3) n1 n2 r(2) demo_node_ok(3,4) [of ?e]
    by (intro node_atI [OF refl A(1) _ _ n1 _ _ A(3)]) (auto simp: s(4) demo_node_def bytes_at_def)
  moreover have "tables_apart (vnodes s)" using W unfolding s(4) tables_apart_def by (auto simp: demo_node_def)
  ultimately show "tree_ok demo_static s A" using heap s(1,4) by (auto simp: tree_ok_def)
  have "{q5..<q5 + k5} \<subseteq> {16384..<409600}" by (rule alloc_region [OF ok A(5)])
  then have "16384 \<le> q5" "q5 < 409600" using k(5) by auto
  then show "span (W q5) 3 \<inter> span 0x200 256 = {}" using span_disjoint_nat [of q5 3 512 256] by (simp add: W_def)
  have "kids m (vnodes s) (W q1) = [[97] \<mapsto> W q2]"
    using demo_node_ok(5) [of ?e m "W q3"] r(2) W(1) by (auto simp: kids_def s(4) ekey_def bytes_at_def)
  then show "file_at s [47, 97] = W q2" using W(1) by (simp add: file_at_def s(1,3) ch_def)
qed

lemma demo_fs_ok:
  "\<exists>s child path. demo_fs = (s, child, path) \<and> fs_ok demo_static demo_screen s \<and> child \<noteq> 0 \<and> vnodes s child \<noteq> None \<and>
     name_at (ram s) child [97] \<and> cstring_at (ram s) path [47, 97] \<and> span path (length [47, 97 :: uint8_t] + 1) \<inter> span 0x200 256 = {} \<and> file_at s [47, 97] = child"
proof -
  obtain q1 k1 t1 q2 k2 t2 q3 k3 t3 q4 k4 t4 q5 k5 t5 where
    a: "pool_alloc 81920 demo_heap = (W q1, t1)" "pool_alloc 147456 t1 = (W q2, t2)" "pool_alloc 212992 t2 = (W q3, t3)"
      "pool_alloc 278528 t3 = (W q4, t4)" "pool_alloc 344064 t4 = (W q5, t5)"
    and d: "distinct [q1, q2, q3, q4, q5]" and k: "304 \<le> k1" "304 \<le> k2" "304 \<le> k3" "304 \<le> k4" "304 \<le> k5"
    and ok: "heap_ok 4096 t5 [q1 \<mapsto> k1, q2 \<mapsto> k2, q3 \<mapsto> k3, q4 \<mapsto> k4, q5 \<mapsto> k5] {16384..<409600}"
    using demo_blocks by (elim exE conjE)
  let ?A = "[q1 \<mapsto> k1, q2 \<mapsto> k2, q3 \<mapsto> k3, q4 \<mapsto> k4, q5 \<mapsto> k5]"
  have A: "?A q1 = Some k1" "?A q2 = Some k2" "?A q3 = Some k3" "?A q4 = Some k4" "?A q5 = Some k5" using d by auto
  obtain s child path where s: "demo_fs = (s, child, path)" by (cases demo_fs)
  have f: "ram s = (mem t5)(W q1 := 0, W q2 := 97, W (q2 + 1) := 0, W q5 := 47, W (q5 + 1) := 97, W (q5 + 2) := 0)"
    "heap s = \<lparr>tlsf_ctx = Some t5, bytes_allocated = 0\<rparr>" "fs_root s = W q1"
    "vnodes s = [W q1 \<mapsto> demo_node (W q3) 1 \<lparr>key = W q2, key_len = 1, in_use = 1, edata = W q2\<rparr>, W q2 \<mapsto> demo_node (W q4) 0 blank]"
    "child = W q2" "path = W q5" "con s = con (demo_machine 0 (mem t5) :: uint64_t kernel)"
    using s a by (auto simp: demo_fs_def demo_machine_def W_def add.commute)
  note tree = small_tree [OF ok d A k refl f(1-4)]
  have "fs_ok demo_static demo_screen s"
    using tree(1,5) f(3,4) by (auto simp: fs_ok_def con_ok_def f(7) demo_machine_def demo_screen_def)
  then show ?thesis using s tree f(1,4,5,6) by (intro exI [of _ s] exI [of _ "W q2"] exI [of _ "W q5"]) (simp add: eval_nat_numeral)
qed

text \<open>The example machine before there are nodes, with an empty string at 64.\<close>

definition demo_boot :: "uint64_t kernel" where
  "demo_boot = demo_machine 0 ((mem demo_heap)(64 := 0))"

lemma demo_boot_ok:
  "kheap_in demo_static (with_ram (heap demo_boot) (ram demo_boot)) Map.empty" "vnodes demo_boot = Map.empty"
  "con_ok demo_screen demo_boot" "ram demo_boot 64 = 0" "64 \<in> demo_static"
proof -
  have "kheap_in demo_static (with_ram demo_kheap (mem demo_heap)) Map.empty"
    by (rule kheap_inI [OF _ demo_ok]) (auto simp: with_ram_def demo_kheap_def demo_static_def demo_pool_def)
  then have "kheap_in demo_static (with_ram demo_kheap ((mem demo_heap)(64 := 0))) Map.empty"
    by (rule kheap_in_outside) (auto simp: demo_static_def)
  then show "kheap_in demo_static (with_ram (heap demo_boot) (ram demo_boot)) Map.empty" by (simp add: demo_boot_def demo_machine_def)
qed (simp_all add: demo_boot_def demo_machine_def con_ok_def demo_screen_def demo_static_def)

subsection \<open>Properties\<close>

text \<open>C22: in a tree that satisfies the invariant, \<open>path2vnode\<close> returns, for every path of printable characters, the node at the
  end of the path: after the leading slash the path is split at the slashes, and each component is looked up among the children
  of the node found so far. It returns the null pointer if there is no leading slash, a component is missing or longer than
  any name, or the path leads to the root. Only the buffer on the stack, the console and its device change.\<close>

theorem path2vnode_correct:
  assumes "tree_ok U s A" and "con_ok fb s" and "vnodes s (fs_root s) \<noteq> None" and "span fname 256 \<subseteq> U"
    and "cstring_at (ram s) path xs" and "\<forall>c \<in> set xs. printable c" and "span path (length xs + 1) \<inter> span fname 256 = {}"
  shows "\<exists>s'. path2vnode H fname s path = ret (file_at s xs, s') \<and> near fname fb s s'"
  using path2vnode_result [OF assms] by blast

theorem path2vnode_correct_witness:
  "case demo_fs of (s, child, path) \<Rightarrow> child \<noteq> 0 \<and> (\<exists>s'. path2vnode demo_hw 0x200 s path = ret (child, s'))"
proof -
  obtain s child path where d: "demo_fs = (s, child, path)" "fs_ok demo_static demo_screen s" "child \<noteq> 0"
    "cstring_at (ram s) path [47, 97]" "span path (length [47, 97 :: uint8_t] + 1) \<inter> span 0x200 256 = {}" "file_at s [47, 97] = child"
    using demo_fs_ok by blast
  obtain A where A: "tree_ok demo_static s A" "con_ok demo_screen s" "vnodes s (fs_root s) \<noteq> None" using d(2) by (auto simp: fs_ok_def)
  have "\<forall>c \<in> set [47, 97]. printable c" by (simp add: printable_def)
  from path2vnode_correct [OF A demo_buffer d(4) this d(5), of demo_hw] d(3,6) show ?thesis by (auto simp: d(1))
qed



text \<open>\<open>vfs_make_vnode\<close> returns the null pointer for a name of 255 characters or more. For a shorter name it returns a
  new node with that name, of the given type, without children, marked as a mount point if it is one, and adds it to no
  directory; the tree is otherwise unchanged and the invariant holds afterwards. If the heap is exhausted \<open>kcalloc\<close> faults.\<close>

lemma vfs_make_vnode_correct:
  assumes "tree_ok U s A" and "cstring_at (ram s) name xs" and "span name (length xs + 1) \<subseteq> U"
  shows "if 255 \<le> length xs then vfs_make_vnode s name vt mount = ret (0, s)
    else vfs_make_vnode s name vt mount = Some (Inl Null_Deref) \<or>
      (\<exists>p v s' A'. vfs_make_vnode s name vt mount = ret (p, s') \<and> p \<noteq> 0 \<and> vnodes s p = None \<and> vnodes s' = (vnodes s)(p \<mapsto> v) \<and>
         v_type v = vt \<and> v_state v = VSTATE_CONSTRUCTED \<and> v_flags v = (if mount \<noteq> 0 then V_MOUNTPOINT else 0) \<and>
         name_at (ram s') p xs \<and> tree_ok U s' A' \<and> kids (ram s') (vnodes s') = (kids (ram s) (vnodes s))(p := Map.empty) \<and>
         fs_root s' = fs_root s)"
proof (cases "length xs < 255")
  case True
  from make_result [OF assms(1,2) True assms(3), of vt mount] show ?thesis
  proof (elim disjE exE conjE)
    fix p v s' A' h M
    assume made: "vfs_make_vnode s name vt mount = ret (p, s')" "p \<noteq> 0" "vnodes s p = None" "vnodes s' = (vnodes s)(p \<mapsto> v)"
      "v_type v = vt" "v_state v = VSTATE_CONSTRUCTED" "v_flags v = (if mount \<noteq> 0 then V_MOUNTPOINT else 0)" "name_at (ram s') p xs"
      "tree_ok U s' A'" "kids (ram s') (vnodes s') = (kids (ram s) (vnodes s))(p := Map.empty)" "s' = s\<lparr>heap := h, ram := M, vnodes := vnodes s'\<rparr>"
    have "fs_root s' = fs_root (s\<lparr>heap := h, ram := M, vnodes := vnodes s'\<rparr>)" using made(11) by (rule arg_cong)
    then show ?thesis using made(1-10) True by auto
  qed (use True in auto)
next
  case False
  then show ?thesis using make_long [OF assms(2)] by simp
qed

lemma vfs_make_vnode_example:
  "vfs_make_vnode demo_boot 64 VREG 0 = Some (Inl Null_Deref) \<or>
     (\<exists>p s'. vfs_make_vnode demo_boot 64 VREG 0 = ret (p, s') \<and> p \<noteq> 0 \<and> name_at (ram s') p [] \<and> kids (ram s') (vnodes s') p = Map.empty)"
proof -
  have "tree_ok demo_static demo_boot Map.empty" using demo_boot_ok(1,2) by (simp add: tree_ok_def tables_apart_def)
  moreover have "cstring_at (ram demo_boot) 64 []" using demo_boot_ok(4) by (simp add: cstring_at_def bytes_at_def)
  ultimately show ?thesis
    using vfs_make_vnode_correct [of demo_static demo_boot Map.empty 64 "[]" VREG 0] demo_boot_ok(5) by (auto simp: span_Suc)
qed

text \<open>\<open>vfs_init\<close> makes a tree that satisfies the invariant: its root is a directory and a mount point without a name and
  without children, and it is the only node. If the heap is exhausted \<open>kcalloc\<close> faults.\<close>

lemma vfs_init_correct:
  assumes "kheap_in U (with_ram (heap s) (ram s)) A" and "vnodes s = Map.empty" and "con_ok fb s" and "ram s lit = 0" and "lit \<in> U"
  shows "vfs_init H lit s = Some (Inl Null_Deref) \<or>
    (\<exists>s' v. vfs_init H lit s = ret s' \<and> fs_ok U fb s' \<and> vnodes s' = [fs_root s' \<mapsto> v] \<and>
       v_type v = VDIR \<and> v_flags v = V_MOUNTPOINT OR V_ROOT \<and> name_at (ram s') (fs_root s') [] \<and>
       kids (ram s') (vnodes s') (fs_root s') = Map.empty)"
  using init_result [OF assms, of H]
proof (elim disjE exE conjE)
  fix s' A' v
  assume i: "vfs_init H lit s = ret s'" "tree_ok U s' A'" "con_ok fb s'" "fs_root s' \<noteq> 0" "vnodes s' = [fs_root s' \<mapsto> v]" "v_type v = VDIR"
    "v_flags v = V_MOUNTPOINT OR V_ROOT" "name_at (ram s') (fs_root s') []" "kids (ram s') (vnodes s') (fs_root s') = Map.empty"
  have "vnodes s' (fs_root s') \<noteq> None" unfolding i(5) by simp
  then have "fs_ok U fb s'" using i(2,3,4) by (auto simp: fs_ok_def)
  then show ?thesis using i(1,5-9) by (intro disjI2 exI [of _ s'] exI [of _ v] conjI)
qed simp

lemma vfs_init_example:
  "vfs_init demo_hw 64 demo_boot = Some (Inl Null_Deref) \<or> (\<exists>s'. vfs_init demo_hw 64 demo_boot = ret s' \<and> fs_ok demo_static demo_screen s')"
  using vfs_init_correct [OF demo_boot_ok, of demo_hw] by blast

text \<open>C23: whatever sequence of calls follows, creating nodes, adding them to directories and looking up paths, the
  tree keeps its invariant: the heap is consistent, every node is a live block with a name and a consistent hash map in
  a block of its own, every entry of a directory points to a node and is filed under the name of that node, and the root is a node.
  In each of these states \<open>path2vnode\<close> returns what the tree says.\<close>

theorem vfs_reachable_ok:
  assumes "fs_reach H fname U s0 s" and "fs_ok U fb s0" and "span fname 256 \<subseteq> U"
  shows "fs_ok U fb s \<and>
    (\<forall>path xs. cstring_at (ram s) path xs \<longrightarrow> (\<forall>c \<in> set xs. printable c) \<longrightarrow> span path (length xs + 1) \<inter> span fname 256 = {} \<longrightarrow>
       (\<exists>s'. path2vnode H fname s path = ret (file_at s xs, s') \<and> fs_ok U fb s'))"
proof -
  have ok: "fs_ok U fb s" by (rule fs_reach_ok [OF assms])
  then obtain A where A: "tree_ok U s A" "con_ok fb s" "vnodes s (fs_root s) \<noteq> None" by (auto simp: fs_ok_def)
  show ?thesis
  proof (intro conjI allI impI ok)
    fix path xs assume x: "cstring_at (ram s) path xs" "\<forall>c \<in> set xs. printable c" "span path (length xs + 1) \<inter> span fname 256 = {}"
    then show "\<exists>s'. path2vnode H fname s path = ret (file_at s xs, s') \<and> fs_ok U fb s'"
      using path2vnode_result [OF A assms(3) x, of H] near_tree [OF _ assms(3) ok] by blast
  qed
qed

theorem vfs_reachable_ok_witness:
  "case demo_fs of (s, child, path) \<Rightarrow> \<exists>s'. path2vnode demo_hw 0x200 s path = ret (child, s') \<and> fs_ok demo_static demo_screen s'"
proof -
  obtain s child path where d: "demo_fs = (s, child, path)" "fs_ok demo_static demo_screen s" 
    "cstring_at (ram s) path [47, 97]" "span path (length [47, 97 :: uint8_t] + 1) \<inter> span 0x200 256 = {}" "file_at s [47, 97] = child"
    using demo_fs_ok by blast
  have "\<forall>c \<in> set [47, 97]. printable c" by (simp add: printable_def)
  then have "\<exists>s'. path2vnode demo_hw 0x200 s path = ret (file_at s [47, 97], s') \<and> fs_ok demo_static demo_screen s'"
    using vfs_reachable_ok [OF start d(2) demo_buffer, of demo_hw] d(3,4) by blast
  then show ?thesis using d(5) by (simp add: d(1))
qed

end
