(* ===== verification/Boot.thy ===== *)
theory Boot
  imports Rtl8139 Sched Smp Vfs
begin

text \<open>
  Boot, \<^verbatim>\<open>sys/kern_init.c\<close>: the order in which the parts of the kernel are started, and the two kernel
  threads of \<^verbatim>\<open>sys/sched/sched.c\<close>. What the boot loader reports and the addresses of the handlers, entry points and
  string literals of the kernel image are fields of the record \<open>image\<close>; \<open>sse\<close> is the result of
  \<^verbatim>\<open>__amd64_enable_sse\<close>, which is written in assembler.
\<close>

record image =
  framebuffers :: "limine_framebuffer list"
  memmap :: "memmap_entry list"
  sse :: int
  exception_isrs :: "uint8_t \<Rightarrow> addr"
  timer_isr :: addr
  nic_handler :: addr
  ap_start :: addr
  apic_string :: addr
  hpet_string :: addr
  empty_string :: addr
  idle_string :: addr
  idle_entry :: addr
  test_func_entry :: addr

definition init_mm :: "addr \<Rightarrow> image \<Rightarrow> 'd kernel \<Rightarrow> 'd kernel run" where
  "init_mm hhdm B s =
     (case pmm_init hhdm (ram s) (memmap B) of
        None \<Rightarrow> None
      | Some (Inl e) \<Rightarrow> Some (Inl e)
      | Some (Inr p) \<Rightarrow> ret (s\<lparr>vm := vm s\<lparr>pm := p\<rparr>, ram := pmem p\<rparr>))"

definition start_heap :: "shift_ub \<Rightarrow> addr \<Rightarrow> 'd kernel \<Rightarrow> 'd kernel res" where
  "start_heap ub hhdm s =
     bindE (heap_init ub hhdm (heap s) (pm (vm s)\<lparr>pmem := ram s\<rparr>)) (\<lambda>(h, p).
     Inr (s\<lparr>heap := h, vm := vm s\<lparr>pm := p\<rparr>, ram := pmem p\<rparr>))"

definition init_net :: "'d hardware \<Rightarrow> shift_ub \<Rightarrow> addr \<Rightarrow> image \<Rightarrow> 'd kernel \<Rightarrow> 'd kernel run" where
  "init_net H ub hhdm B s = rtl8139_init H ub hhdm (nic_handler B) s"

text \<open>The second half of \<open>init\<close>, which needs the heap.\<close>

definition init_devices :: "'d hardware \<Rightarrow> shift_ub \<Rightarrow> addr \<Rightarrow> image \<Rightarrow> 'd kernel \<Rightarrow> 'd kernel run" where
  "init_devices H ub hhdm B s =
     bindR (Some (load_tss_bsp s)) (\<lambda>s.
     bindR (init_net H ub hhdm B s) (\<lambda>s.
     bindR (hpet_init H hhdm (hpet_string B) s) (\<lambda>s.
     bindR (vfs_init H (empty_string B) s) (\<lambda>s.
     Some (smp_init ub H hhdm (ap_start B) s)))))"

definition init :: "'d hardware \<Rightarrow> shift_ub \<Rightarrow> addr \<Rightarrow> image \<Rightarrow> 'd kernel \<Rightarrow> 'd kernel run" where
  "init H ub hhdm B s =
     (let s = load_idt s;
          s = init_exceptions (exception_isrs B) s;
          s = load_gdt_bsp s
      in bindR (Some (if sse B = 0 then printk H s (KERN_INFO @ map ch ''INIT: SSE enabled.'' @ [10]) []
                      else printk H s (KERN_INFO @ map ch ''INIT: Could not enable SSE; not supported.'' @ [10]) [])) (\<lambda>s.
         bindR (init_mm hhdm B s) (\<lambda>s.
         bindR (acpi_init H hhdm (apic_string B) s) (\<lambda>s.
         let s = ioapic_init H hhdm s;
             s = lapic_init H hhdm (timer_isr B) s
         in bindR (Some (start_heap ub hhdm s)) (\<lambda>s.
         init_devices H ub hhdm B s)))))"

text \<open>The entry point, up to the endless loop in which it waits for interrupts.\<close>

definition start :: "'d hardware \<Rightarrow> shift_ub \<Rightarrow> addr \<Rightarrow> image \<Rightarrow> 'd kernel \<Rightarrow> 'd kernel run" where
  "start H ub hhdm B s =
     bindR (Some (fb_init (framebuffers B) s)) (\<lambda>s.
     bindR (Some (printk H s (KERN_INFO @ map ch ''INIT: Booting..'' @ [10]) [])) (\<lambda>s.
     bindR (init H ub hhdm B s) (\<lambda>s.
     sched_start ub H hhdm (idle_string B) (idle_entry B) (test_func_entry B) s)))"

text \<open>One pass through the loops of the two kernel threads, up to the \<^verbatim>\<open>hlt\<close> at the end; \<open>lock\<close> is the address of the lock of
  \<^verbatim>\<open>sys/sched/sched.c\<close>.\<close>

definition idle :: "'d hardware \<Rightarrow> addr \<Rightarrow> 'd kernel \<Rightarrow> 'd kernel run" where
  "idle H lock s =
     bindR (lock_acquire s lock) (\<lambda>s.
     bindR (Some (printk H s (map ch ''SCHED: This is %s!'' @ [10]) [Str (map ch ''idle'')])) (\<lambda>s.
     ret (lock_release s lock)))"

definition test_func :: "'d hardware \<Rightarrow> addr \<Rightarrow> 'd kernel \<Rightarrow> 'd kernel run" where
  "test_func H lock s =
     bindR (lock_acquire s lock) (\<lambda>s.
     bindR (Some (printk H s (map ch ''SCHED: Yo, this is %s!'' @ [10]) [Str (map ch ''test_func'')])) (\<lambda>s.
     ret (lock_release s lock)))"

subsection \<open>Kernel threads\<close>

text \<open>A thread prints and releases the lock if it was free, and waits for ever if it was not: the lock is not
  released by an interrupt of the same core.\<close>

lemma idle_result:
  assumes "con_ok fb s"
  shows "ram s lock \<noteq> 0 \<Longrightarrow> idle H lock s = None \<and> test_func H lock s = None"
    and "ram s lock = 0 \<Longrightarrow> (\<exists>s'. idle H lock s = ret s' \<and> says fb s s') \<and> (\<exists>s'. test_func H lock s = ret s' \<and> says fb s s')"
proof -
  show "ram s lock \<noteq> 0 \<Longrightarrow> idle H lock s = None \<and> test_func H lock s = None" by (simp add: idle_def test_func_def)
  assume l: "ram s lock = 0"
  let ?t = "s\<lparr>ram := (ram s)(lock := 1)\<rparr>"
  have "con_ok fb ?t" using assms by (simp add: con_ok_def)
  moreover have "fmt_ok (map ch ''SCHED: This is %s!'' @ [10]) [Str (map ch ''idle'')]"
    "fmt_ok (map ch ''SCHED: Yo, this is %s!'' @ [10]) [Str (map ch ''test_func'')]" by (simp_all add: ch_def printable_def)
  ultimately obtain u v where u: "printk H ?t (map ch ''SCHED: This is %s!'' @ [10]) [Str (map ch ''idle'')] = Inr u" "says fb ?t u"
    and v: "printk H ?t (map ch ''SCHED: Yo, this is %s!'' @ [10]) [Str (map ch ''test_func'')] = Inr v" "says fb ?t v"
    using printk_says by meson
  have released: "says fb s (lock_release w lock)" if w0: "says fb ?t w" for w
  proof -
    obtain d c where w: "w = ?t\<lparr>hw := d, con := c\<rparr>" "con_ok fb w" using w0 by (auto simp: says_def)
    have "lock_release w lock = s\<lparr>hw := d, con := c\<rparr>"
      using w(1) release_acquired [of "ram s" lock] l by (intro kernel.equality) (simp_all add: lock_release_def)
    moreover have "con_ok fb (s\<lparr>hw := d, con := c\<rparr>)" using w by (simp add: con_ok_def)
    ultimately show ?thesis unfolding says_def by simp blast
  qed
  show "(\<exists>s'. idle H lock s = ret s' \<and> says fb s s') \<and> (\<exists>s'. test_func H lock s = ret s' \<and> says fb s s')"
    using l u(1) v(1) released [OF u(2)] released [OF v(2)] by (simp add: idle_def test_func_def)
qed

subsection \<open>Up to the heap\<close>

text \<open>Steps that touch neither memory nor the memory managers nor the console.\<close>

definition same_core :: "'d kernel \<Rightarrow> 'd kernel \<Rightarrow> bool" where
  "same_core s s' \<longleftrightarrow> ram s' = ram s \<and> heap s' = heap s \<and> vm s' = vm s \<and> con s' = con s \<and> rsdp s' = rsdp s"

lemma same_core_refl: "same_core s s"
  by (simp add: same_core_def)

lemma same_core_trans: "same_core s t \<Longrightarrow> same_core t u \<Longrightarrow> same_core s u"
  by (simp add: same_core_def)

lemma same_core_fold: "(\<And>x s. same_core s (f x s)) \<Longrightarrow> same_core s (fold f xs s)"
  by (induction xs arbitrary: s) (auto intro: same_core_refl same_core_trans)

lemma same_core_steps:
  "same_core s (load_idt s)" "same_core s (load_gdt_bsp s)" "same_core s (init_exceptions isrs s)"
  "same_core s (ioapic_init H hhdm s)" "same_core s (lapic_init H hhdm isr s)"
proof -
  show "same_core s (load_idt s)" "same_core s (load_gdt_bsp s)"
    by (simp_all add: same_core_def load_idt_def load_gdt_bsp_def load_gdt_def)
  show "same_core s (init_exceptions isrs s)"
    unfolding init_exceptions_def by (rule same_core_fold) (simp add: same_core_def register_exception_def idt_set_desc_def)
  have "same_core t (ioapic_set_entry H hhdm t i v)" for t :: "'a kernel" and i v
    by (simp add: same_core_def ioapic_set_entry_def ioapic_write_mmio_def Let_def)
  moreover have "same_core s (snd (ioapic_read_mmio H hhdm s r))" for r
    by (simp add: same_core_def ioapic_read_mmio_def Let_def split: prod.split)
  ultimately show "same_core s (ioapic_init H hhdm s)"
    unfolding ioapic_init_def Let_def case_prod_beta by (intro same_core_trans [OF _ same_core_fold])
  show "same_core s (lapic_init H hhdm isr s)"
    by (simp add: same_core_def lapic_init_def alloc_int_vector_def register_interrupt_def idt_set_desc_def write_mmio_def Let_def)
qed

text \<open>If the memory map leaves room for the bitmap of frames and 30 pages, and the MADT is there, boot reaches
  \<open>init_devices\<close> with an empty heap in those pages, the interrupt table loaded and the console usable. If the MADT is
  missing it halts.\<close>

definition sse_message :: "image \<Rightarrow> uint8_t list" where
  "sse_message B = (if sse B = 0 then KERN_INFO @ map ch ''INIT: SSE enabled.'' @ [10]
     else KERN_INFO @ map ch ''INIT: Could not enable SSE; not supported.'' @ [10])"

lemma sse_message_printk:
  "(if sse B = 0 then printk H s (KERN_INFO @ map ch ''INIT: SSE enabled.'' @ [10]) []
    else printk H s (KERN_INFO @ map ch ''INIT: Could not enable SSE; not supported.'' @ [10]) []) = printk H s (sse_message B) []"
  unfolding sse_message_def by (rule if_distrib [symmetric, where f = "\<lambda>x. printk H s x []"])

lemma booting_ok: "fmt_ok (KERN_INFO @ map ch ''INIT: Booting..'' @ [10]) []"
  unfolding info_ok by (simp add: ch_def printable_def)

lemma sse_message_ok: "fmt_ok (sse_message B) []"
proof -
  have "fmt_ok (KERN_INFO @ map ch ''INIT: SSE enabled.'' @ [10]) []"
    "fmt_ok (KERN_INFO @ map ch ''INIT: Could not enable SSE; not supported.'' @ [10]) []"
    unfolding info_ok by (simp_all add: ch_def printable_def)
  then show ?thesis unfolding sse_message_def by (cases "sse B = 0") (simp_all only: if_True if_False simp_thms)
qed

lemma boot_run:
  assumes fb: "framebuffers B = fb # fbs" and con: "length (hex_string (con s)) = 80" "length (dec_string (con s)) = 80"
    and mm: "pmm_init hhdm (ram s) (memmap B) = Some (Inr p)"
  shows "\<exists>t. ram t = pmem p \<and> pm (vm t) = p \<and> con_ok fb t \<and> rsdp t = rsdp s \<and>
    start H ub hhdm B s = bindR (bindR (acpi_init H hhdm (apic_string B) t) (\<lambda>s.
      bindR (Some (start_heap ub hhdm (lapic_init H hhdm (timer_isr B) (ioapic_init H hhdm s)))) (init_devices H ub hhdm B)))
      (\<lambda>s. sched_start ub H hhdm (idle_string B) (idle_entry B) (test_func_entry B) s)"
proof -
  define m1 where "m1 = KERN_INFO @ map ch ''INIT: Booting..'' @ [10]"
  let ?s1 = "s\<lparr>con := con s\<lparr>framebuffer := Some fb\<rparr>\<rparr>"
  have s1: "fb_init (framebuffers B) s = Inr ?s1" by (simp add: fb_init_def fb array_get_def)
  have "con_ok fb ?s1" using con by (simp add: con_ok_def)
  from printk_says [OF this booting_ok [folded m1_def], of H] obtain s2 where s2: "printk H ?s1 m1 [] = Inr s2" "says fb ?s1 s2" by (elim exE conjE)
  let ?s3 = "load_gdt_bsp (init_exceptions (exception_isrs B) (load_idt s2))"
  have c3: "same_core s2 ?s3" by (rule same_core_trans [OF same_core_steps(1) same_core_trans [OF same_core_steps(3,2)]])
  have "con_ok fb ?s3" using s2(2) c3 unfolding same_core_def says_def con_ok_def by simp
  from printk_says [OF this sse_message_ok [of B], of H] obtain s4 where s4: "printk H ?s3 (sse_message B) [] = Inr s4" "says fb ?s3 s4"
    by (elim exE conjE)
  have u: "ram s2 = ram s" "rsdp s2 = rsdp s" using s2(2) unfolding says_def by (elim conjE exE; simp)+
  have w: "ram s4 = ram ?s3" "rsdp s4 = rsdp ?s3" "con_ok fb s4" using s4(2) unfolding says_def by (elim conjE exE; simp)+
  have s4_facts: "ram s4 = ram s" "con_ok fb s4" "rsdp s4 = rsdp s" using u w c3 unfolding same_core_def by simp_all
  let ?t = "s4\<lparr>vm := vm s4\<lparr>pm := p\<rparr>, ram := pmem p\<rparr>"
  have t: "init_mm hhdm B s4 = ret ?t" by (simp add: init_mm_def s4_facts(1) mm)
  have "start H ub hhdm B s = bindR (bindR (acpi_init H hhdm (apic_string B) ?t) (\<lambda>s.
      bindR (Some (start_heap ub hhdm (lapic_init H hhdm (timer_isr B) (ioapic_init H hhdm s)))) (init_devices H ub hhdm B)))
      (\<lambda>s. sched_start ub H hhdm (idle_string B) (idle_entry B) (test_func_entry B) s)"
    unfolding start_def s1 bindR_simps s2(1) [unfolded m1_def] init_def Let_def sse_message_printk s4(1) t by (rule refl)
  moreover have "con_ok fb ?t" using s4_facts(2) by (simp add: con_ok_def)
  ultimately show ?thesis using s4_facts(3) by (intro exI [of _ ?t]) simp
qed

text \<open>The address of the MADT, which \<open>acpi_init\<close> looks for among the tables of the RSDT in the memory \<open>m\<close>.\<close>

definition boot_madt :: "addr \<Rightarrow> addr \<Rightarrow> memory \<Rightarrow> uint8_t list \<Rightarrow> addr option" where
  "boot_madt hhdm ptr m q =
     (let root = ucast (load32 m (ptr + 16)) + hhdm;
          n = (ucast (load32 m (root + 4)) - 36) div 4 :: size_t
      in find (\<lambda>a. bytes_at m a (length q) = q) (map (\<lambda>i. ucast (load32 m (root + rsdt_tables + 4 * of_nat i)) + hhdm) [0..<unat n]))"

lemma boot_acpi:
  assumes t: "ram t = pmem p" "pm (vm t) = p" "con_ok fb t" "rsdp t \<noteq> 0" and q: "cstring_at (pmem p) name q"
  shows "boot_madt hhdm (rsdp t) (pmem p) q = None \<Longrightarrow> acpi_init H hhdm name t = Some (Inl Assert_Failed)"
    and "boot_madt hhdm (rsdp t) (pmem p) q = Some a \<Longrightarrow> sum_list (table_bytes (pmem p) a) = 0 \<Longrightarrow> a \<noteq> 0 \<Longrightarrow> madt_holds (pmem p) a es \<Longrightarrow>
      \<exists>u. acpi_init H hhdm name t = ret u \<and> ram u = pmem p \<and> pm (vm u) = p \<and> con_ok fb u"
proof -
  have name: "cstring_at (ram t) name q" using q t(1) by simp
  let ?r = "t\<lparr>rsdt := ucast (load32 (ram t) (rsdp t + 16)) + hhdm,
      rsdt_entry_count := (ucast (load32 (ram t) (ucast (load32 (ram t) (rsdp t + 16)) + hhdm + 4)) - 36) div 4\<rparr>"
  have f: "boot_madt hhdm (rsdp t) (pmem p) q = find (\<lambda>a. bytes_at (ram t) a (length q) = q) (tables hhdm ?r)"
    by (simp add: boot_madt_def tables_def t(1) Let_def)
  show "boot_madt hhdm (rsdp t) (pmem p) q = None \<Longrightarrow> acpi_init H hhdm name t = Some (Inl Assert_Failed)"
    using acpi_init_result(1) [OF t(4,3) name refl f] by simp
  assume a: "boot_madt hhdm (rsdp t) (pmem p) q = Some a" "sum_list (table_bytes (pmem p) a) = 0" "a \<noteq> 0" "madt_holds (pmem p) a es"
  show "\<exists>u. acpi_init H hhdm name t = ret u \<and> ram u = pmem p \<and> pm (vm u) = p \<and> con_ok fb u"
    using acpi_init_result(3) [OF t(4,3) name refl f a(1), where es = es and H = H] a(2-4) t(1,2) by auto
qed

lemma boot_heap:
  assumes u: "ram u = pmem p" "pm (vm u) = p" "con_ok fb u"
    and pages: "pmm_alloc ub p 30 = Inr (f, p1)" "f + hhdm = W c" "0 < c" "c mod 8 = 0" "c + 122880 < 2 ^ 64"
  shows "\<exists>s'. start_heap ub hhdm u = Inr s' \<and> heap_holds s' Map.empty \<and> con_ok fb s' \<and>
    (\<forall>y. y < 2 ^ 64 \<longrightarrow> y \<notin> {c..<c + 122880} \<longrightarrow> ram s' (W y) = pmem p1 (W y))"
proof -
  obtain h' s' where h: "heap_init ub hhdm (heap u) p = Inr (h', s')" "kheap_ok h' Map.empty" "pmem s' = kmem h'"
    "\<forall>y. y < 2 ^ 64 \<longrightarrow> y \<notin> {c..<c + 122880} \<longrightarrow> pmem s' (W y) = pmem p1 (W y)"
    using heap_init_correct [OF pages, of "heap u"] by blast
  let ?s = "u\<lparr>heap := h', vm := vm u\<lparr>pm := s'\<rparr>, ram := pmem s'\<rparr>"
  have "start_heap ub hhdm u = Inr ?s" using h(1) u(1,2) by (simp add: start_heap_def)
  moreover have "heap_holds ?s Map.empty" using h(2,3) with_ram_kmem [OF h(2)] by (simp add: heap_holds_def)
  moreover have "con_ok fb ?s" using u(3) by (simp add: con_ok_def)
  ultimately show ?thesis using h(4) by (intro exI [of _ ?s]) simp
qed

lemma boot_heap_ready:
  assumes fb: "framebuffers B = fb # fbs" "length (hex_string (con s)) = 80" "length (dec_string (con s)) = 80"
    and mm: "pmm_init hhdm (ram s) (memmap B) = Some (Inr p)" and rs: "rsdp s \<noteq> 0" and q: "cstring_at (pmem p) (apic_string B) q"
    and pages: "pmm_alloc ub p 30 = Inr (f, p1)" "f + hhdm = W c" "0 < c" "c mod 8 = 0" "c + 122880 < 2 ^ 64"
  shows "case boot_madt hhdm (rsdp s) (pmem p) q of
      None \<Rightarrow> start H ub hhdm B s = Some (Inl Assert_Failed)
    | Some a \<Rightarrow> sum_list (table_bytes (pmem p) a) = 0 \<and> a \<noteq> 0 \<and> madt_holds (pmem p) a es \<longrightarrow>
        (\<exists>s'. start H ub hhdm B s = bindR (init_devices H ub hhdm B s') (\<lambda>s.
            sched_start ub H hhdm (idle_string B) (idle_entry B) (test_func_entry B) s) \<and> heap_holds s' Map.empty \<and> con_ok fb s')"
proof -
  obtain t where t: "ram t = pmem p" "pm (vm t) = p" "con_ok fb t" "rsdp t = rsdp s" and
    run: "start H ub hhdm B s = bindR (bindR (acpi_init H hhdm (apic_string B) t) (\<lambda>s.
      bindR (Some (start_heap ub hhdm (lapic_init H hhdm (timer_isr B) (ioapic_init H hhdm s)))) (init_devices H ub hhdm B)))
      (\<lambda>s. sched_start ub H hhdm (idle_string B) (idle_entry B) (test_func_entry B) s)"
    using boot_run [OF fb mm, of H ub] by (elim exE conjE)
  have rt: "rsdp t \<noteq> 0" using t(4) rs by simp
  show ?thesis
  proof (cases "boot_madt hhdm (rsdp s) (pmem p) q")
    case None
    then have "acpi_init H hhdm (apic_string B) t = Some (Inl Assert_Failed)" using boot_acpi(1) [OF t(1-3) rt q] t(4) by simp
    then show ?thesis using None by (simp only: run bindR_simps option.case)
  next
    case (Some a)
    have "\<exists>s'. start H ub hhdm B s = bindR (init_devices H ub hhdm B s') (\<lambda>s.
            sched_start ub H hhdm (idle_string B) (idle_entry B) (test_func_entry B) s) \<and> heap_holds s' Map.empty \<and> con_ok fb s'"
      if a: "sum_list (table_bytes (pmem p) a) = 0" "a \<noteq> 0" "madt_holds (pmem p) a es"
    proof -
      obtain u where u: "acpi_init H hhdm (apic_string B) t = ret u" "ram u = pmem p" "pm (vm u) = p" "con_ok fb u"
        using boot_acpi(2) [OF t(1-3) rt q _ a] Some t(4) by auto
      let ?v = "lapic_init H hhdm (timer_isr B) (ioapic_init H hhdm u)"
      have "same_core u ?v" by (rule same_core_trans [OF same_core_steps(4,5)])
      then have v: "ram ?v = pmem p" "pm (vm ?v) = p" "con_ok fb ?v" using u unfolding same_core_def con_ok_def by simp_all
      from boot_heap [OF v pages] obtain s' where s': "start_heap ub hhdm ?v = Inr s'" "heap_holds s' Map.empty" "con_ok fb s'" by blast
      have "start H ub hhdm B s = bindR (init_devices H ub hhdm B s') (\<lambda>s.
          sched_start ub H hhdm (idle_string B) (idle_entry B) (test_func_entry B) s)"
        unfolding run u(1) bindR_simps s'(1) by (rule refl)
      then show ?thesis using s'(2,3) by blast
    qed
    then show ?thesis using Some by simp
  qed
qed

end
