(* ===== verification/Spec2Isabelle.thy ===== *)
theory Spec2Isabelle
  imports Tlsf_Check Boot
begin

text \<open>
  \<^bold>\<open>The Qnixx kernel.\<close>

  Qnixx is a small multiprocessor kernel for x86-64, booted by Limine. This development models its C code, file by
  file, and proves that its parts do what they are for. Where the code does something else, the theorem states what it
  does.

  \<^bold>\<open>Parts and theories.\<close> The paths are relative to \<^verbatim>\<open>src/sys\<close>.

  \<^item> \<open>Prelude\<close>, \<open>Memory\<close>: faults as values of a sum type; memory as a function from 64-bit addresses to bytes with
    little-endian loads and stores; ranges of addresses.
  \<^item> \<open>Libkern\<close>, \<open>Format\<close>, \<open>Bitmap\<close>: \<^verbatim>\<open>libkern/string.c\<close> and \<^verbatim>\<open>libkern/bitmap.c\<close>. The string routines are shown correct on
    byte memory, \<open>hex2str\<close> and \<open>dec2str\<close> print numbers that can be read back; \<open>bitmap_test_bit\<close> is shown to look at
    eight bits of every 32 only.
  \<^item> \<open>Pmm\<close>, \<open>Vmm\<close>: \<^verbatim>\<open>mm/pmm.c\<close> and \<^verbatim>\<open>mm/vmm.c\<close>. The bitmap of frames over the memory map of the boot loader, the search for
    free frames, and the four levels of page tables as words of byte memory.
  \<^item> \<open>Tlsf_Bits\<close>, \<open>Tlsf\<close>: \<^verbatim>\<open>mm/tlsf.c\<close>, the size classes and the allocator. The block headers are in byte memory, the
    bitmaps and list heads are a record. \<open>Tlsf_Cells\<close>, \<open>Tlsf_Inv\<close>, \<open>Tlsf_Lists\<close>, \<open>Tlsf_Steps\<close>, \<open>Tlsf_Ops\<close>, \<open>Tlsf_Alloc\<close>,
    \<open>Tlsf_Pool\<close> and \<open>Tlsf_Realloc\<close> build up the heap invariant (the blocks tile the pools, boundary tags and free
    lists agree with them, no two neighbours are free) and show that every operation keeps it. \<open>Tlsf_Spec\<close> states
    what a client sees: allocation, release, reallocation, any sequence of them. \<open>Tlsf_Check\<close> shows that the
    consistency check of the code accepts every such heap.
  \<^item> \<open>Heap\<close>: \<^verbatim>\<open>mm/heap.c\<close>, and the locales \<open>allocator\<close> and \<open>static_allocator\<close>, the interface of an allocator that its
    clients use; they are interpreted on TLSF and on the kernel heap.
  \<^item> \<open>Crc\<close>, \<open>Hashmap\<close>, \<open>Hashmap_Spec\<close>: \<^verbatim>\<open>include/lib/hashmap.h\<close>. The table of the checksum is the CRC-32C polynomial; the
    open addressing table, with the rehashing that happens while it is filled, refines a map from byte strings to values
    (the locale \<open>keyed_store\<close>).
  \<^item> \<open>Tailq\<close>, \<open>Mutex\<close>: \<^verbatim>\<open>include/sys/queue.h\<close> over byte memory (the locale \<open>linked_queue\<close>), and \<^verbatim>\<open>sync/mutex.c\<close> with a step relation of several cores
    and mutual exclusion by rule induction.
  \<^item> \<open>Machine\<close>: the state of the kernel as one record, the hardware it drives, calls into the memory managers.
  \<^item> \<open>Cores\<close>: \<^verbatim>\<open>amd64/lapic.c\<close>, \<^verbatim>\<open>amd64/cpu.c\<close>, \<^verbatim>\<open>amd64/io.c\<close>, \<^verbatim>\<open>dev/timer/hpet.c\<close>.
  \<^item> \<open>Process\<close>, \<open>Sched\<close>: \<^verbatim>\<open>sched/process.c\<close>, \<^verbatim>\<open>sched/sched.c\<close>, \<^verbatim>\<open>amd64/trap.c\<close>. A timer trap saves the running thread and
    restores the next one; this refines a round robin over lists, and every thread gets its turn.
  \<^item> \<open>Console\<close>: \<^verbatim>\<open>tty/console.c\<close>, \<^verbatim>\<open>tty/font.c\<close>, \<^verbatim>\<open>dev/video/fb.c\<close>. \<open>printk\<close> draws the formatted text.
  \<^item> \<open>Acpi\<close>, \<open>Interrupts\<close>, \<open>Smp\<close>: \<^verbatim>\<open>acpi/acpi.c\<close>, \<^verbatim>\<open>amd64/idt.c\<close>, \<^verbatim>\<open>amd64/ioapic.c\<close>, \<^verbatim>\<open>amd64/interrupts.c\<close>,
    \<^verbatim>\<open>amd64/exceptions.c\<close>, \<^verbatim>\<open>amd64/gdt.c\<close>, \<^verbatim>\<open>amd64/tss.c\<close>, \<^verbatim>\<open>amd64/smp.c\<close>.
  \<^item> \<open>Pci\<close>, \<open>Rtl8139\<close>: \<^verbatim>\<open>dev/pci/pci.c\<close> and \<^verbatim>\<open>dev/net/rtl8139.c\<close>, the search for devices and the network card with its
    receive ring.
  \<^item> \<open>Vfs\<close>: \<^verbatim>\<open>fs/vfs.c\<close> and \<^verbatim>\<open>include/sys/vnode.h\<close>, a tree of nodes whose directories are hash maps on the kernel heap.
  \<^item> \<open>Boot\<close>: \<^verbatim>\<open>kern_init.c\<close>, the order in which all of this is started.

  \<^bold>\<open>State and effects.\<close> An operation of C that changes memory takes the memory and returns it. Pointers are 64-bit
  words, arithmetic on them and on the integers of C wraps at their width. The memory managers carry the memory they work on;
  the parts above them work on the record \<open>kernel\<close>, which has the memory, the static variables of every file, and
  the state of the devices. \<open>heap_call\<close> and \<open>vmm_call\<close> run a memory manager on the memory of the record. Structures that the
  code reaches through pointers are bytes of memory at the offsets of their fields; three of them are records instead,
  because nothing takes the address of their parts: the control structure of TLSF, hash maps, and nodes of the file system.
  The table of a hash map is a list beside the block that holds it; its block is allocated and freed as in the code.

  A result is an error (an access through the null pointer, an index out of bounds, a failed assertion) or a
  value. Code that may loop for ever has results of the type \<open>'a run\<close>, in which \<open>None\<close> means that it does not return.
  Devices are a parameter: the record \<open>hardware\<close> has one function for each way to read or write a register, over a
  state type of its own. What a theorem needs of a device is a named predicate that states its documented behaviour
  (\<open>ioapic_chip\<close>, \<open>pci_bridge\<close>, \<open>isr_register\<close>, \<open>tx_registers\<close>, \<open>hpet_counts\<close>), and each is shown to hold of an example device.
  Other parameters are the offset of the higher half, the value of an oversized shift, and the
  addresses of string literals and handlers.

  \<^bold>\<open>Loops.\<close> A loop with a counter is a fold or a function with a measure. \<open>strlen\<close>, the spin on a lock, the walk through
  the tables of ACPI, \<open>hpet_sleep\<close>, the interrupt handler of the network card and the lookup of a path are partial functions;
  a theorem about such a loop says that it returns.
  \<open>hashmap_put\<close> rehashes recursively and has a bound on the depth: a table has fewer than \<open>2 ^ 28\<close> places and each rehash
  doubles it, so 28 levels are enough.

  \<^bold>\<open>How the parts rest on each other.\<close> The heap invariant of \<open>Tlsf_Alloc\<close> is all that \<open>Heap\<close> knows of TLSF, through the locale
  \<open>allocator\<close>. \<open>Hashmap_Spec\<close> uses the laws of \<open>static_allocator\<close>: a call changes no byte of another block and none
  outside the heap. \<open>Vfs\<close> uses both: names live in the blocks of nodes, keys of a directory point to
  names of its children, and the lookup of a path works while tables move. \<open>Boot\<close> shows that the bitmap of frames, the ACPI
  tables and the heap come up in an order in which each finds what it needs.

  \<^bold>\<open>Not modelled.\<close> The assembler files, except that what they load is state (the register save and restore around \<open>trap\<close>
  starts and ends with the trap frame in memory); the requests of the Limine protocol that the kernel does not use; the variants of
  \<open>tlsf_ffs\<close> for compilers other than the one of the build, and the walker of TLSF that prints a pool, which changes nothing.
  Interleavings of several cores are modelled for the mutex only; all other operations run without interruption.
\<close>

end
